(* ===== verification/Vgpu_Prelude.thy ===== *)
theory Vgpu_Prelude
  imports Main "HOL-Library.Word"
begin

text \<open>
  Shared vocabulary of the development: the machine integers of the source, the arithmetic
  facts that move a 64-bit test to natural numbers, and small lemmas on lists and functions.

  The source computes addresses in \<^verbatim>\<open>uint64_t\<close>, where \<open>+\<close> and \<open>-\<close> wrap. Every address
  and size of the model is therefore a \<open>64 word\<close>; the lemmas of this theory say when a
  wrapped sum is the sum and when a wrapped difference is an offset, so that the component
  proofs reason about natural numbers.
\<close>

section \<open>Machine integers\<close>

type_synonym u8 = "8 word"
type_synonym u16 = "16 word"
type_synonym u32 = "32 word"
type_synonym u64 = "64 word"

named_theorems u64_simps \<open>facts that take u64 comparisons and arithmetic to nat\<close>

lemma unat_u64_lt: "unat (a :: u64) < 2 ^ 64"
  using unsigned_less [of a] by simp

lemmas u64_less [u64_simps] = word_less_nat_alt [where 'a = 64]
lemmas u64_le [u64_simps] = word_le_nat_alt [where 'a = 64]

lemma u64_eq_iff: "(a :: u64) = b \<longleftrightarrow> unat a = unat b"
  by (rule word_unat_eq_iff)

lemma unat_last64: "unat (- 1 :: u64) = 2 ^ 64 - 1"
  by (simp add: unsigned_minus_1_eq_mask mask_eq_exp_minus_1)

lemma unat_add64: "unat (a :: u64) + unat b < 2 ^ 64 \<Longrightarrow> unat (a + b) = unat a + unat b"
  by (simp add: unat_word_ariths)

lemma unat_sub64: "unat (b :: u64) \<le> unat a \<Longrightarrow> unat (a - b) = unat a - unat b"
  by (simp add: unat_sub u64_simps)

lemma unat_mult64: "unat (a :: u64) * unat b < 2 ^ 64 \<Longrightarrow> unat (a * b) = unat a * unat b"
  by (simp add: unat_word_ariths)

lemma unat_of_nat64: "n < 2 ^ 64 \<Longrightarrow> unat (of_nat n :: u64) = n"
  by (subst unat_of_nat) (simp add: take_bit_eq_mod)

text \<open>The overflow test \<^verbatim>\<open>x + y < x\<close> of the source is exact.\<close>

lemma wrap_test64: "(a :: u64) + b < a \<longleftrightarrow> 2 ^ 64 \<le> unat a + unat b"
proof -
  have "unat (a + b) = (if unat a + unat b < 2 ^ 64 then unat a + unat b
      else unat a + unat b - 2 ^ 64)"
    using unat_plus_if' [of a b] by simp
  then show ?thesis
    using unat_u64_lt [of a] unat_u64_lt [of b] by (auto simp: u64_simps split: if_splits)
qed

text \<open>
  \<^verbatim>\<open>addr - base < size\<close>: with a base and a size that do not wrap, one comparison of the
  wrapped difference tests both ends of the range, as the source says in several places.
\<close>

lemma offset_test64:
  assumes "unat (b :: u64) + unat n \<le> 2 ^ 64"
  shows "a - b < n \<longleftrightarrow> unat b \<le> unat a \<and> unat a < unat b + unat n"
proof -
  have "unat (a - b) = (if unat b \<le> unat a then unat a - unat b
      else unat a + 2 ^ 64 - unat b)"
    using unat_sub_if' [of a b] by simp
  then show ?thesis
    using assms unat_u64_lt [of a] unat_u64_lt [of b]
    by (auto simp: u64_simps split: if_splits)
qed

text \<open>
  The remaining-length form of a bounds check, \<^verbatim>\<open>off < size && len <= size - off\<close> with
  \<^verbatim>\<open>off = addr - base\<close>: it is the containment of the two byte ranges, with no sum that wraps.
\<close>

lemma span_test64:
  assumes "unat (b :: u64) + unat n \<le> 2 ^ 64"
  shows "a - b < n \<and> len \<le> n - (a - b) \<longleftrightarrow>
    unat b \<le> unat a \<and> unat a < unat b + unat n \<and> unat a + unat len \<le> unat b + unat n"
proof (cases "a - b < n")
  case True
  then have in_range: "unat b \<le> unat a" "unat a < unat b + unat n"
    using offset_test64 [OF assms] by auto
  then have off: "unat (a - b) = unat a - unat b" by (simp add: unat_sub64)
  then have "unat (n - (a - b)) = unat n - (unat a - unat b)"
    using True by (simp add: unat_sub64 u64_simps)
  then show ?thesis
    using True in_range by (auto simp: u64_simps)
next
  case False
  then show ?thesis using offset_test64 [OF assms] by auto
qed

text \<open>Rounding up to a multiple, \<^verbatim>\<open>(v + to - 1) / to * to\<close>.\<close>

definition round_up_nat :: "nat \<Rightarrow> nat \<Rightarrow> nat" where
  "round_up_nat v m = (v + m - 1) div m * m"

lemma round_up_nat_ge: "0 < m \<Longrightarrow> v \<le> round_up_nat v m"
proof -
  assume m: "0 < m"
  have "v + m - 1 < (v + m - 1) div m * m + m"
    using m by (simp add: dividend_less_div_times add.commute)
  then show ?thesis using m by (simp add: round_up_nat_def)
qed

lemma round_up_nat_le: "0 < m \<Longrightarrow> round_up_nat v m \<le> v + m - 1"
  by (simp add: round_up_nat_def)

lemma round_up_nat_less: "0 < m \<Longrightarrow> round_up_nat v m < v + m"
  using round_up_nat_le [of m v] by simp

lemma round_up_nat_dvd: "m dvd round_up_nat v m"
  by (simp add: round_up_nat_def)

lemma round_up_nat_pos: "0 < m \<Longrightarrow> 0 < v \<Longrightarrow> 0 < round_up_nat v m"
  using round_up_nat_ge [of m v] by simp

lemma round_up64:
  assumes "0 < unat (m :: u64)" "unat v + unat m \<le> 2 ^ 64"
  shows "unat ((v + m - 1) div m * m) = round_up_nat (unat v) (unat m)"
proof -
  have one: "1 \<le> m" using assms(1) by (simp add: u64_simps)
  have sum: "unat (v + (m - 1)) = unat v + unat m - 1"
  proof -
    have d: "unat (m - 1) = unat m - 1" using one by (simp add: unat_sub)
    moreover have "unat v + unat (m - 1) < 2 ^ 64" using assms d by linarith
    ultimately show ?thesis using assms(1) by (simp add: unat_add64)
  qed
  have eq: "v + m - 1 = v + (m - 1)" by simp
  have "(unat v + unat m - 1) div unat m * unat m \<le> unat v + unat m - 1" by simp
  also have "\<dots> < 2 ^ 64" using assms by simp
  finally have "unat ((v + m - 1) div m) * unat m < 2 ^ 64"
    by (simp only: eq unat_div sum)
  then show ?thesis
    by (simp add: unat_mult64 round_up_nat_def unat_div eq sum)
qed

section \<open>Lists and functions\<close>

lemma map_nth_interval: "map (\<lambda>i. xs ! i) [0..<length xs] = xs"
  by (rule map_nth)

lemma upt_split: "i \<le> j \<Longrightarrow> j \<le> k \<Longrightarrow> [i..<k] = [i..<j] @ [j..<k]"
  using upt_add_eq_append [of i j "k - j"] by simp

lemma sum_list_map_filter_neq:
  assumes "distinct (map fst xs)" "map_of xs k = Some v"
  shows "sum_list (map (\<lambda>e. f (snd e)) xs) =
    f v + sum_list (map (\<lambda>e. f (snd e)) (filter (\<lambda>e. fst e \<noteq> k) xs) :: nat list)"
  using assms
proof (induction xs)
  case (Cons e xs)
  obtain a w where e: "e = (a, w)" by force
  show ?case
  proof (cases "a = k")
    case True
    with Cons.prems e have "filter (\<lambda>e. fst e \<noteq> k) xs = xs"
      by (auto simp: filter_id_conv image_iff)
    with True Cons.prems e show ?thesis by simp
  next
    case False
    with Cons e show ?thesis by simp
  qed
qed simp

end
