(* ===== verification/Errors.thy ===== *)
theory Errors
  imports Vgpu_Prelude
begin

text \<open>
  The error model of \<^verbatim>\<open>include/vgpu/error.hpp\<close> and \<^verbatim>\<open>src/core/error.cpp\<close>: one exception type with
  a stable code. The text of a message is not modelled, the code is. An operation that can
  throw returns \<open>exn + 'a\<close>; one that can throw after it has changed its state returns
  that state beside the result, so that what a failed operation leaves behind is visible.
\<close>

section \<open>Error codes\<close>

datatype Err =
    UnknownGpu | ProfileParse | InvalidValue | OutOfMemory | InvalidPointer | UseAfterFree
  | DoubleFree | InvalidFree | OutOfBounds | MisalignedAccess | PtxParse | UnsupportedPtx
  | UninitializedRegister | DataRace | Trap | IllegalInstruction | DeviceAssert | LaunchConfig
  | LaunchResources | LaunchCluster | ExecLimit | EccUncorrectable | DeviceLost | NotFound
  | Unsupported | Internal

fun err_name :: "Err \<Rightarrow> string" where
  "err_name UnknownGpu = ''unknown-gpu''"
| "err_name ProfileParse = ''profile-parse''"
| "err_name InvalidValue = ''invalid-value''"
| "err_name OutOfMemory = ''out-of-memory''"
| "err_name InvalidPointer = ''invalid-pointer''"
| "err_name UseAfterFree = ''use-after-free''"
| "err_name DoubleFree = ''double-free''"
| "err_name InvalidFree = ''invalid-free''"
| "err_name OutOfBounds = ''out-of-bounds''"
| "err_name MisalignedAccess = ''misaligned-access''"
| "err_name PtxParse = ''ptx-parse''"
| "err_name UnsupportedPtx = ''unsupported-ptx''"
| "err_name UninitializedRegister = ''uninitialized-register''"
| "err_name DataRace = ''data-race''"
| "err_name Trap = ''trap''"
| "err_name IllegalInstruction = ''illegal-instruction''"
| "err_name DeviceAssert = ''device-assert''"
| "err_name EccUncorrectable = ''ecc-uncorrectable''"
| "err_name DeviceLost = ''device-lost''"
| "err_name LaunchConfig = ''launch-config''"
| "err_name LaunchResources = ''launch-resources''"
| "err_name LaunchCluster = ''launch-cluster''"
| "err_name ExecLimit = ''exec-limit''"
| "err_name NotFound = ''not-found''"
| "err_name Unsupported = ''unsupported''"
| "err_name Internal = ''internal''"

section \<open>Results\<close>

text \<open>
  What can end an operation early: a \<^verbatim>\<open>vgpu::Error\<close>, a \<^verbatim>\<open>std::bad_alloc\<close> of the host, or, for
  an access the language gives no meaning to (an index outside a chunk table, a pointer into
  a node that is gone), \<open>Stray\<close>, or a loop that never ends, \<open>Hang\<close>. No theorem assumes that
  \<open>Stray\<close> or \<open>Hang\<close> does not happen: the safety properties prove it.
\<close>

datatype exn = Throw Err | BadAlloc | Stray | Hang

type_synonym 'a result = "exn + 'a"
type_synonym ('a, 's) outcome = "(exn + 'a) \<times> 's"

fun then_do :: "('a, 's) outcome \<Rightarrow> ('a \<Rightarrow> 's \<Rightarrow> ('b, 's) outcome) \<Rightarrow> ('b, 's) outcome" where
  "then_do (Inl e, s) k = (Inl e, s)"
| "then_do (Inr x, s) k = k x s"

lemma then_do_assoc:
  "then_do (then_do r k) l = then_do r (\<lambda>x s. then_do (k x s) l)"
  by (cases "(r, k)" rule: then_do.cases) auto

lemma then_do_cases:
  assumes "then_do r k = q"
  obtains (thrown) e s where "r = (Inl e, s)" "q = (Inl e, s)"
  | (returned) x s where "r = (Inr x, s)" "q = k x s"
  using assms by (cases "(r, k)" rule: then_do.cases) auto

lemma then_do_Inr [simp]:
  "then_do r k = (Inr y, t) \<longleftrightarrow> (\<exists>x s. r = (Inr x, s) \<and> k x s = (Inr y, t))"
  by (cases "(r, k)" rule: then_do.cases) auto

end
