(* ===== verification/Chunks.thy ===== *)
theory Chunks
  imports Errors
begin

unbundle bit_operations_syntax

text \<open>
  The bytes of one allocation: \<^verbatim>\<open>MemoryManager::Allocation\<close> of \<^verbatim>\<open>include/vgpu/memory.hpp\<close> and the
  chunk loops of \<^verbatim>\<open>src/core/memory.cpp\<close>. An allocation is a table of 64 KiB chunks. A slot is
  empty (the chunk reads as zero), a tagged byte (the chunk reads as that byte) or a pointer to
  the chunk's memory, which the backing hands out.

  The functions are parameterised by the backing's \<open>acquire\<close> and \<open>release\<close>; what they rely on is
  the locale \<open>chunk_source\<close>, which theory \<open>Backing\<close> interprets on the model of
  \<^verbatim>\<open>memory_backing.cpp\<close>. Offsets inside an allocation are natural numbers: a caller passes
  \<open>off + len \<le> sz\<close>, below the 64-bit wrap.

  The abstract view is \<open>alloc_byte\<close>, the byte an allocation reads at an offset. The lemmas
  show that reading, writing and filling chunk by chunk, with its untouched and uniform
  chunks, is reading and writing that function.
\<close>

section \<open>Data\<close>

definition kChunkSize :: nat where
  "kChunkSize = 64 * 1024"

lemma kChunkSize_pos [simp]: "0 < kChunkSize"
  by (simp add: kChunkSize_def)

text \<open>A chunk that is real: where it is in host memory and its bytes.\<close>

record rchunk =
  rc_ptr :: u64
  rc_bytes :: "nat \<Rightarrow> u8"

datatype chunk = Untouched | Uniform u8 | Real rchunk

record allocation =
  al_size :: u64
  chunk_count :: nat
  slots :: "chunk list"
  external :: bool
  card_valid :: u32

subsection \<open>The tag of a uniform chunk\<close>

text \<open>
  In the table a uniform chunk is the byte, shifted up, with the low bit set; anything else is
  a null or an aligned pointer.
\<close>

definition is_uniform :: "u64 \<Rightarrow> bool" where
  "is_uniform c \<longleftrightarrow> c AND 1 \<noteq> 0"

definition uniform_byte :: "u64 \<Rightarrow> u8" where
  "uniform_byte c = ucast (drop_bit 1 c)"

definition uniform_chunk :: "u8 \<Rightarrow> u64" where
  "uniform_chunk b = (push_bit 1 (ucast b)) OR 1"

fun slot_word :: "chunk \<Rightarrow> u64" where
  "slot_word Untouched = 0"
| "slot_word (Uniform b) = uniform_chunk b"
| "slot_word (Real c) = rc_ptr c"

section \<open>Scalars in a chunk\<close>

text \<open>
  \<open>le_val bs\<close> is what a little-endian host reads from the bytes, and \<open>le_byte v i\<close> what it
  stores as byte \<open>i\<close>: the meaning of a relaxed load or store of the scalar's own width.
\<close>

fun le_val :: "u8 list \<Rightarrow> nat" where
  "le_val [] = 0"
| "le_val (b # bs) = unat b + 256 * le_val bs"

definition relaxed_load :: "(nat \<Rightarrow> u8) \<Rightarrow> nat \<Rightarrow> nat \<Rightarrow> u64" where
  "relaxed_load f at sz = of_nat (le_val (map f [at ..< at + sz]))"

definition le_byte :: "u64 \<Rightarrow> nat \<Rightarrow> u8" where
  "le_byte v i = of_nat (unat v div 256 ^ i mod 256)"

definition relaxed_store :: "(nat \<Rightarrow> u8) \<Rightarrow> nat \<Rightarrow> nat \<Rightarrow> u64 \<Rightarrow> (nat \<Rightarrow> u8)" where
  "relaxed_store f at sz v =
     (\<lambda>j. if at \<le> j \<and> j < at + sz then le_byte v (j - at) else f j)"

text \<open>The byte-by-byte paths for a chunk whose storage is not aligned for the width.\<close>

fun load_bytes :: "(nat \<Rightarrow> u8) \<Rightarrow> nat \<Rightarrow> nat list \<Rightarrow> u64 \<Rightarrow> u64" where
  "load_bytes f p [] v = v"
| "load_bytes f p (i # is) v = load_bytes f p is (v OR push_bit (8 * i) (relaxed_load f (p + i) 1))"

definition load_unaligned :: "(nat \<Rightarrow> u8) \<Rightarrow> nat \<Rightarrow> nat \<Rightarrow> u64" where
  "load_unaligned f p sz = load_bytes f p [0 ..< sz] 0"

fun store_bytes :: "nat \<Rightarrow> u64 \<Rightarrow> nat list \<Rightarrow> (nat \<Rightarrow> u8) \<Rightarrow> (nat \<Rightarrow> u8)" where
  "store_bytes p v [] f = f"
| "store_bytes p v (i # is) f =
     store_bytes p v is (relaxed_store f (p + i) 1 (drop_bit (8 * i) v AND 0xff))"

definition store_unaligned :: "(nat \<Rightarrow> u8) \<Rightarrow> nat \<Rightarrow> nat \<Rightarrow> u64 \<Rightarrow> (nat \<Rightarrow> u8)" where
  "store_unaligned f p sz v = store_bytes p v [0 ..< sz] f"

text \<open>
  \<open>load_at\<close> and \<open>store_at\<close>: the scalar of 1, 2, 4 or 8 bytes at an offset of a real chunk, as an
  access of its width where the host address allows it and byte by byte where it does not.
\<close>

definition host_aligned :: "rchunk \<Rightarrow> nat \<Rightarrow> nat \<Rightarrow> bool" where
  "host_aligned c off sz \<longleftrightarrow> (rc_ptr c + of_nat off) AND (of_nat sz - 1) = 0"

definition load_at :: "rchunk \<Rightarrow> nat \<Rightarrow> nat \<Rightarrow> u64" where
  "load_at c off sz =
     (if host_aligned c off sz
      then (if sz = 1 then relaxed_load (rc_bytes c) off 1
            else if sz = 2 then relaxed_load (rc_bytes c) off 2
            else if sz = 4 then relaxed_load (rc_bytes c) off 4
            else relaxed_load (rc_bytes c) off 8)
      else load_unaligned (rc_bytes c) off sz)"

definition store_at :: "rchunk \<Rightarrow> nat \<Rightarrow> nat \<Rightarrow> u64 \<Rightarrow> rchunk" where
  "store_at c off sz v = c\<lparr>rc_bytes :=
     (if host_aligned c off sz
      then (if sz = 1 then relaxed_store (rc_bytes c) off 1 v
            else if sz = 2 then relaxed_store (rc_bytes c) off 2 v
            else if sz = 4 then relaxed_store (rc_bytes c) off 4 v
            else relaxed_store (rc_bytes c) off 8 v)
      else store_unaligned (rc_bytes c) off sz v)\<rparr>"

text \<open>A scalar whose every byte is \<open>b\<close>, and whether the first \<open>n\<close> bytes of a buffer all are.\<close>

definition repeated :: "u8 \<Rightarrow> nat \<Rightarrow> u64" where
  "repeated b sz = (let all = 0x0101010101010101 * ucast b
     in if sz = 8 then all else all AND (push_bit (8 * sz) 1 - 1))"

definition all_bytes :: "u8 list \<Rightarrow> nat \<Rightarrow> u8 \<Rightarrow> bool" where
  "all_bytes p n b = list_all (\<lambda>x. x = b) (take n p)"

section \<open>The chunk table\<close>

text \<open>\<^verbatim>\<open>a.chunks[i]\<close>: an index outside the array is not an access the language defines.\<close>

definition slot_at :: "allocation \<Rightarrow> nat \<Rightarrow> chunk result" where
  "slot_at a i = (if i < length (slots a) then Inr (slots a ! i) else Inl Stray)"

definition set_slot :: "nat \<Rightarrow> chunk \<Rightarrow> allocation \<Rightarrow> allocation" where
  "set_slot i c a = a\<lparr>slots := (slots a)[i := c]\<rparr>"

definition empty_allocation :: allocation where
  "empty_allocation = \<lparr>al_size = 0, chunk_count = 0, slots = [], external = False, card_valid = 0\<rparr>"

text \<open>\<open>set_up\<close>: every chunk untouched, in the array it has if that is large enough.\<close>

definition set_up :: "u64 \<Rightarrow> allocation \<Rightarrow> allocation" where
  "set_up bytes a =
     (let n = unat ((bytes + of_nat kChunkSize - 1) div of_nat kChunkSize)
      in a\<lparr>al_size := bytes, card_valid := 0, chunk_count := n,
           slots := (if slots a = [] \<or> length (slots a) < n then replicate n Untouched else slots a)\<rparr>)"

definition kRecycledChunkEntries :: nat where
  "kRecycledChunkEntries = 16"

text \<open>
  \<open>release\<close>: each real chunk goes back to the backing with the number of its bytes that may be
  other than zero, which for the last chunk is what the allocation's size leaves.
\<close>

fun release_slots :: "(rchunk \<Rightarrow> nat \<Rightarrow> 'b \<Rightarrow> 'b) \<Rightarrow> allocation \<Rightarrow> nat list \<Rightarrow> 'b \<Rightarrow> 'b" where
  "release_slots rel a [] b = b"
| "release_slots rel a (i # is) b = release_slots rel a is
     (case slots a ! i of
        Real c \<Rightarrow> rel c (if i + 1 < chunk_count a then kChunkSize else unat (al_size a) - i * kChunkSize) b
      | _ \<Rightarrow> b)"

definition release_alloc :: "(rchunk \<Rightarrow> nat \<Rightarrow> 'b \<Rightarrow> 'b) \<Rightarrow> allocation \<Rightarrow> 'b \<Rightarrow> allocation \<times> 'b" where
  "release_alloc rel a b =
     (if slots a = [] then (a, b)
      else if external a then (a\<lparr>external := False\<rparr>, b)
      else (a, release_slots rel a [0 ..< chunk_count a] b))"

definition recycle :: "(rchunk \<Rightarrow> nat \<Rightarrow> 'b \<Rightarrow> 'b) \<Rightarrow> allocation \<Rightarrow> 'b \<Rightarrow> allocation \<times> 'b" where
  "recycle rel a b =
     (case release_alloc rel a b of (a1, b1) \<Rightarrow>
        (a1\<lparr>al_size := 0, chunk_count := 0, external := False,
            slots := (if slots a1 \<noteq> [] \<and> length (slots a1) \<le> kRecycledChunkEntries \<and> \<not> external a1
                      then map (\<lambda>i. if i < chunk_count a1 then Untouched else slots a1 ! i) [0 ..< length (slots a1)]
                      else [])\<rparr>, b1))"

text \<open>
  \<open>materialize\<close>: the chunk made real, from nothing or from the byte of a uniform chunk. A chunk that
  is real already is returned as it is. (One thread: the compare-and-swap succeeds.)
\<close>

definition materialize :: "('b \<Rightarrow> (rchunk, 'b) outcome) \<Rightarrow> nat \<Rightarrow> allocation \<times> 'b
    \<Rightarrow> (rchunk, allocation \<times> 'b) outcome" where
  "materialize acq idx st = (case st of (a, b) \<Rightarrow>
     (case slot_at a idx of
        Inl e \<Rightarrow> (Inl e, (a, b))
      | Inr (Real c) \<Rightarrow> (Inr c, (a, b))
      | Inr expected \<Rightarrow>
          (case acq b of
             (Inl e, b') \<Rightarrow> (Inl e, (a, b'))
           | (Inr fresh, b') \<Rightarrow>
               (let wide = (case expected of Uniform u \<Rightarrow> u \<noteq> 0 | _ \<Rightarrow> False);
                    c = (if wide then fresh\<lparr>rc_bytes := (\<lambda>_. case expected of Uniform u \<Rightarrow> u | _ \<Rightarrow> 0)\<rparr> else fresh)
                in (Inr c, (set_slot idx (Real c) a, b'))))))"

subsection \<open>Reading\<close>

fun chunk_bytes :: "chunk \<Rightarrow> nat \<Rightarrow> nat \<Rightarrow> u8 list" where
  "chunk_bytes Untouched off n = replicate n 0"
| "chunk_bytes (Uniform b) off n = replicate n b"
| "chunk_bytes (Real c) off n = map (rc_bytes c) [off ..< off + n]"

function read_chunks :: "allocation \<Rightarrow> nat \<Rightarrow> nat \<Rightarrow> u8 list result" where
  "read_chunks a off len =
     (if len = 0 then Inr []
      else (let chunk_idx = off div kChunkSize; chunk_off = off mod kChunkSize;
                n = min len (kChunkSize - chunk_off)
            in case slot_at a chunk_idx of
                 Inl e \<Rightarrow> Inl e
               | Inr chunk \<Rightarrow> (case read_chunks a (off + n) (len - n) of
                     Inl e \<Rightarrow> Inl e
                   | Inr ds \<Rightarrow> Inr (chunk_bytes chunk chunk_off n @ ds))))"
  by pat_completeness auto
termination
  by (relation "measure (\<lambda>(a, off, len). len)") auto

declare read_chunks.simps [simp del]

subsection \<open>Writing\<close>

definition copy_in :: "(nat \<Rightarrow> u8) \<Rightarrow> nat \<Rightarrow> u8 list \<Rightarrow> (nat \<Rightarrow> u8)" where
  "copy_in f off s = (\<lambda>j. if off \<le> j \<and> j < off + length s then s ! (j - off) else f j)"

text \<open>
  One step of the write loop: a uniform chunk is left alone by its own byte; any other chunk is
  made real and the bytes copied in.
\<close>

definition write_piece :: "('b \<Rightarrow> (rchunk, 'b) outcome) \<Rightarrow> nat \<Rightarrow> nat \<Rightarrow> u8 list
    \<Rightarrow> allocation \<times> 'b \<Rightarrow> (unit, allocation \<times> 'b) outcome" where
  "write_piece acq chunk_idx chunk_off s st =
     (case slot_at (fst st) chunk_idx of
        Inl e \<Rightarrow> (Inl e, st)
      | Inr chunk \<Rightarrow>
          if (case chunk of Uniform u \<Rightarrow> all_bytes s (length s) u | _ \<Rightarrow> False) then (Inr (), st)
          else then_do (materialize acq chunk_idx st) (\<lambda>c st'.
            (Inr (), (set_slot chunk_idx (Real (c\<lparr>rc_bytes := copy_in (rc_bytes c) chunk_off s\<rparr>)) (fst st'),
                      snd st'))))"

function write_chunks :: "('b \<Rightarrow> (rchunk, 'b) outcome) \<Rightarrow> nat \<Rightarrow> u8 list \<Rightarrow> allocation \<times> 'b
    \<Rightarrow> (unit, allocation \<times> 'b) outcome" where
  "write_chunks acq off s st =
     (if s = [] then (Inr (), st)
      else (let chunk_off = off mod kChunkSize; n = min (length s) (kChunkSize - chunk_off)
            in then_do (write_piece acq (off div kChunkSize) chunk_off (take n s) st)
                 (\<lambda>_ st'. write_chunks acq (off + n) (drop n s) st')))"
  by pat_completeness auto
termination
  by (relation "measure (\<lambda>(acq, off, s, st). length s)") auto

declare write_chunks.simps [simp del]

subsection \<open>Filling\<close>

text \<open>
  The pattern fill of one chunk: one period at the right phase, then the part that is filled is
  copied after itself, twice as much each time. (\<open>filled\<close> starts above zero.)
\<close>

definition copy_within :: "(nat \<Rightarrow> u8) \<Rightarrow> nat \<Rightarrow> nat \<Rightarrow> nat \<Rightarrow> (nat \<Rightarrow> u8)" where
  "copy_within f dst src n = (\<lambda>j. if dst \<le> j \<and> j < dst + n then f (src + (j - dst)) else f j)"

function fill_double :: "nat \<Rightarrow> nat \<Rightarrow> nat \<Rightarrow> (nat \<Rightarrow> u8) \<Rightarrow> (nat \<Rightarrow> u8)" where
  "fill_double p filled n f =
     (if 0 < filled \<and> filled < n
      then (let c = min filled (n - filled)
            in fill_double p (filled + c) n (copy_within f (p + filled) p c))
      else f)"
  by pat_completeness auto
termination
  by (relation "measure (\<lambda>(p, filled, n, f). n - filled)") auto

declare fill_double.simps [simp del]

definition fill_pattern :: "u8 list \<Rightarrow> nat \<Rightarrow> nat \<Rightarrow> nat \<Rightarrow> (nat \<Rightarrow> u8) \<Rightarrow> (nat \<Rightarrow> u8)" where
  "fill_pattern pattern done p n f =
     (let first = min n (length pattern)
      in fill_double p first n
           (copy_in f p (map (\<lambda>i. pattern ! ((done + i) mod length pattern)) [0 ..< first])))"

definition fill_piece :: "('b \<Rightarrow> (rchunk, 'b) outcome) \<Rightarrow> (rchunk \<Rightarrow> nat \<Rightarrow> 'b \<Rightarrow> 'b) \<Rightarrow> u8 list
    \<Rightarrow> nat \<Rightarrow> nat \<Rightarrow> nat \<Rightarrow> nat \<Rightarrow> allocation \<times> 'b \<Rightarrow> (unit, allocation \<times> 'b) outcome" where
  "fill_piece acq rel pattern chunk_idx chunk_off n done st =
     (let a = fst st; b = snd st; all_zero = list_all (\<lambda>x. x = 0) pattern in
      case slot_at a chunk_idx of
        Inl e \<Rightarrow> (Inl e, st)
      | Inr chunk \<Rightarrow>
          if length pattern = 1 \<and> chunk_off = 0 \<and> n = kChunkSize \<and> \<not> external a
          then (Inr (), (set_slot chunk_idx (if pattern ! 0 \<noteq> 0 then Uniform (pattern ! 0) else Untouched) a,
                         (case chunk of Real old \<Rightarrow> rel old kChunkSize b | _ \<Rightarrow> b)))
          else if length pattern = 1 \<and> chunk = Uniform (pattern ! 0) then (Inr (), st)
          else if chunk \<noteq> Untouched \<or> \<not> all_zero
          then then_do (materialize acq chunk_idx st) (\<lambda>c st'.
            (Inr (), (set_slot chunk_idx (Real (c\<lparr>rc_bytes :=
                (if length pattern = 1 then copy_in (rc_bytes c) chunk_off (replicate n (pattern ! 0))
                 else fill_pattern pattern done chunk_off n (rc_bytes c))\<rparr>)) (fst st'), snd st')))
          else (Inr (), st))"

function fill_chunks :: "('b \<Rightarrow> (rchunk, 'b) outcome) \<Rightarrow> (rchunk \<Rightarrow> nat \<Rightarrow> 'b \<Rightarrow> 'b) \<Rightarrow> u8 list
    \<Rightarrow> nat \<Rightarrow> nat \<Rightarrow> nat \<Rightarrow> allocation \<times> 'b \<Rightarrow> (unit, allocation \<times> 'b) outcome" where
  "fill_chunks acq rel pattern off done len st =
     (if len = 0 then (Inr (), st)
      else (let chunk_off = off mod kChunkSize; n = min len (kChunkSize - chunk_off)
            in then_do (fill_piece acq rel pattern (off div kChunkSize) chunk_off n done st)
                 (\<lambda>_ st'. fill_chunks acq rel pattern (off + n) (done + n) (len - n) st')))"
  by pat_completeness auto
termination
  by (relation "measure (\<lambda>(acq, rel, pattern, off, done, len, st). len)") auto

declare fill_chunks.simps [simp del]

section \<open>Index arithmetic of a chunk loop\<close>

lemma chunk_index:
  assumes "off mod kChunkSize + n \<le> kChunkSize" "i < n"
  shows "(off + i) div kChunkSize = off div kChunkSize"
    "(off + i) mod kChunkSize = off mod kChunkSize + i"
proof -
  have lt: "off mod kChunkSize + i < kChunkSize" using assms by simp
  then have "i < kChunkSize" by simp
  then show "(off + i) div kChunkSize = off div kChunkSize"
    using lt by (simp add: div_add1_eq [of off i])
  show "(off + i) mod kChunkSize = off mod kChunkSize + i"
    using lt by (metis mod_add_left_eq mod_less)
qed

lemma chunk_piece_fits: "off mod kChunkSize + min len (kChunkSize - off mod kChunkSize) \<le> kChunkSize"
proof -
  have "off mod kChunkSize < kChunkSize" by simp
  then show ?thesis by linarith
qed

lemma chunk_div_less: "off < kChunkSize * n \<Longrightarrow> off div kChunkSize < n"
  by (simp add: less_mult_imp_div_less mult.commute)

section \<open>The bytes of an allocation\<close>

fun chunk_byte :: "chunk \<Rightarrow> nat \<Rightarrow> u8" where
  "chunk_byte Untouched j = 0"
| "chunk_byte (Uniform b) j = b"
| "chunk_byte (Real c) j = rc_bytes c j"

definition alloc_byte :: "allocation \<Rightarrow> nat \<Rightarrow> u8" where
  "alloc_byte a i = chunk_byte (slots a ! (i div kChunkSize)) (i mod kChunkSize)"

lemma chunk_bytes_eq: "chunk_bytes c off n = map (chunk_byte c) [off ..< off + n]"
  by (cases c) (auto intro: nth_equalityI)

lemma alloc_byte_piece:
  assumes "off mod kChunkSize + n \<le> kChunkSize"
  shows "map (alloc_byte a) [off ..< off + n] =
    chunk_bytes (slots a ! (off div kChunkSize)) (off mod kChunkSize) n"
  by (rule nth_equalityI) (auto simp: alloc_byte_def chunk_bytes_eq chunk_index [OF assms])

lemma read_chunks_spec:
  "off + len \<le> kChunkSize * length (slots a) \<Longrightarrow>
    read_chunks a off len = Inr (map (alloc_byte a) [off ..< off + len])"
proof (induction a off len rule: read_chunks.induct)
  case (1 a off len)
  show ?case
  proof (cases "len = 0")
    case True
    then show ?thesis by (subst read_chunks.simps) simp
  next
    case False
    define n where "n = min len (kChunkSize - off mod kChunkSize)"
    have idx: "off div kChunkSize < length (slots a)"
      using 1(2) False by (intro chunk_div_less) simp
    have fits: "off mod kChunkSize + n \<le> kChunkSize"
      unfolding n_def by (rule chunk_piece_fits)
    have "n \<le> len" by (simp add: n_def)
    then have "read_chunks a (off + n) (len - n) = Inr (map (alloc_byte a) [off + n ..< off + len])"
      using 1(1) [OF False refl refl n_def, of "slots a ! (off div kChunkSize)"] 1(2) idx
      by (simp add: slot_at_def)
    moreover have "[off ..< off + len] = [off ..< off + n] @ [off + n ..< off + len]"
      using \<open>n \<le> len\<close> by (simp add: upt_split)
    ultimately show ?thesis
      using False idx alloc_byte_piece [OF fits, of a]
      by (subst read_chunks.simps) (simp add: Let_def slot_at_def n_def)
  qed
qed

section \<open>Scalars\<close>

lemma le_val_append: "le_val (xs @ ys) = le_val xs + 256 ^ length xs * le_val ys"
  by (induction xs) (simp_all add: algebra_simps)

lemma le_val_bound: "le_val bs < 256 ^ length bs"
proof (induction bs)
  case (Cons b bs)
  have "unat b < 256" using unsigned_less [of b] by simp
  with Cons show ?case by simp
qed simp

lemma le_val_replicate: "le_val (replicate n b) = unat b * (\<Sum>i<n. 256 ^ i)"
  by (induction n) (simp_all add: algebra_simps sum.lessThan_Suc_shift sum_distrib_left
      flip: sum.lessThan_Suc)

lemma unat_le_byte: "unat (le_byte v i) = unat v div 256 ^ i mod 256"
  by (simp add: le_byte_def unat_of_nat)

lemma le_val_le_byte: "le_val (map (le_byte v) [i ..< i + n]) = unat v div 256 ^ i mod 256 ^ n"
proof (induction n arbitrary: i)
  case (Suc n)
  have "[i ..< i + Suc n] = i # [Suc i ..< Suc i + n]" by (simp add: upt_conv_Cons)
  then have "le_val (map (le_byte v) [i ..< i + Suc n]) =
      unat v div 256 ^ i mod 256 + 256 * (unat v div 256 ^ Suc i mod 256 ^ n)"
    using Suc.IH [of "Suc i"] by (simp only: list.map le_val.simps unat_le_byte)
  also have "\<dots> = unat v div 256 ^ i mod 256 ^ Suc n"
    by (simp add: mod_mult2_eq mult.commute flip: div_mult2_eq)
  finally show ?case .
qed simp

definition bytes_of :: "u64 \<Rightarrow> nat \<Rightarrow> u8 list" where
  "bytes_of v n = map (le_byte v) [0 ..< n]"

lemma length_bytes_of [simp]: "length (bytes_of v n) = n"
  by (simp add: bytes_of_def)

definition value_of :: "u8 list \<Rightarrow> u64" where
  "value_of bs = of_nat (le_val bs)"

lemma unat_value_of: "length bs \<le> 8 \<Longrightarrow> unat (value_of bs) = le_val bs"
proof -
  assume "length bs \<le> 8"
  then have "(256::nat) ^ length bs \<le> 256 ^ 8" by (rule power_increasing) simp
  with le_val_bound [of bs] have "le_val bs < 2 ^ 64" by simp
  then show ?thesis by (simp add: value_of_def unat_of_nat)
qed

lemma value_of_bytes_of: "value_of (bytes_of v n) = of_nat (unat v mod 256 ^ n)"
  using le_val_le_byte [of v 0 n] by (simp add: value_of_def bytes_of_def)

lemma value_of_bytes_of_8 [simp]: "value_of (bytes_of v 8) = v"
proof -
  have "unat v mod 256 ^ 8 = unat v" using unat_u64_lt [of v] by simp
  then show ?thesis by (simp add: value_of_bytes_of)
qed

lemma le_val_inject: "length xs = length ys \<Longrightarrow> le_val xs = le_val ys \<Longrightarrow> xs = ys"
proof (induction xs ys rule: list_induct2)
  case (Cons x xs y ys)
  have lt: "unat x < 256" "unat y < 256" using unsigned_less [of x] unsigned_less [of y] by simp_all
  have eq: "unat x + 256 * le_val xs = unat y + 256 * le_val ys" using Cons.prems by simp
  from arg_cong [OF eq, of "\<lambda>n. n mod 256"] lt have "unat x = unat y" by simp
  then have "unat x = unat y \<and> le_val xs = le_val ys" using eq by simp
  then show ?case using Cons.IH by (simp add: word_unat_eq_iff)
qed simp

lemma bytes_of_value_of:
  assumes "length bs \<le> 8"
  shows "bytes_of (value_of bs) (length bs) = bs"
proof (rule le_val_inject)
  have "le_val (bytes_of (value_of bs) (length bs)) = le_val bs mod 256 ^ length bs"
    using le_val_le_byte [of "value_of bs" 0 "length bs"] unat_value_of [OF assms]
    by (simp add: bytes_of_def)
  then show "le_val (bytes_of (value_of bs) (length bs)) = le_val bs"
    using le_val_bound [of bs] by simp
qed simp

text \<open>The byte-by-byte load gives what the load of the scalar's width gives.\<close>

lemma or_push_bit_add:
  assumes "x < 2 ^ k"
  shows "(of_nat x :: u64) OR push_bit k (of_nat y) = of_nat (x + 2 ^ k * y)"
proof -
  have "(of_nat x :: u64) AND push_bit k (of_nat y) = 0"
  proof (rule bit_eqI)
    fix n
    show "bit ((of_nat x :: u64) AND push_bit k (of_nat y)) n \<longleftrightarrow> bit (0 :: u64) n"
    proof (cases "n < k")
      case False
      then have "x < 2 ^ n" using assms by (meson le_less_trans less_le_trans not_less one_le_numeral power_increasing)
      then have "\<not> bit x n" by (simp add: bit_iff_odd)
      then show ?thesis by (simp add: bit_simps)
    qed (simp add: bit_simps)
  qed
  then have "(of_nat x :: u64) OR push_bit k (of_nat y) = of_nat x + push_bit k (of_nat y)"
    by (rule disjunctive_add_eq_or [symmetric])
  then show ?thesis by (simp add: push_bit_eq_mult mult.commute)
qed

lemma load_bytes_val:
  "v < 256 ^ i \<Longrightarrow> load_bytes f p [i ..< i + n] (of_nat v) =
    of_nat (v + 256 ^ i * le_val (map f [p + i ..< p + i + n]))"
proof (induction n arbitrary: i v)
  case (Suc n)
  have l: "[i ..< i + Suc n] = i # [Suc i ..< Suc i + n]"
    "[p + i ..< p + i + Suc n] = (p + i) # [p + Suc i ..< p + Suc i + n]"
    by (simp_all add: upt_conv_Cons)
  have b: "unat (f (p + i)) < 256" using unsigned_less [of "f (p + i)"] by simp
  have v: "v + 256 ^ i * unat (f (p + i)) < 256 ^ Suc i"
  proof -
    have "v + 256 ^ i * unat (f (p + i)) < 256 ^ i + 256 ^ i * unat (f (p + i))"
      using Suc.prems by simp
    also have "\<dots> = 256 ^ i * Suc (unat (f (p + i)))" by simp
    also have "\<dots> \<le> 256 ^ i * 256" using b by (intro mult_le_mono) auto
    finally show ?thesis by simp
  qed
  have p: "(256 :: nat) ^ i = 2 ^ (8 * i)" by (simp add: power_mult)
  have "(of_nat v :: u64) OR push_bit (8 * i) (relaxed_load f (p + i) 1) =
      of_nat (v + 256 ^ i * unat (f (p + i)))"
    using or_push_bit_add [of v "8 * i" "unat (f (p + i))"] Suc.prems
    by (simp add: relaxed_load_def p)
  then have "load_bytes f p [i ..< i + Suc n] (of_nat v) =
      load_bytes f p [Suc i ..< Suc i + n] (of_nat (v + 256 ^ i * unat (f (p + i))))"
    by (simp only: l load_bytes.simps)
  also have "\<dots> = of_nat (v + 256 ^ i * unat (f (p + i)) + 256 ^ Suc i * le_val (map f [p + Suc i ..< p + Suc i + n]))"
    using Suc.IH [OF v] by simp
  also have "\<dots> = of_nat (v + 256 ^ i * le_val (map f [p + i ..< p + i + Suc n]))"
    unfolding l by (simp add: algebra_simps)
  finally show ?case .
qed simp

lemma load_unaligned_eq: "load_unaligned f p n = relaxed_load f p n"
  using load_bytes_val [of 0 0 f p n] by (simp add: load_unaligned_def relaxed_load_def)

text \<open>And the byte-by-byte store leaves what the store of the scalar's width leaves.\<close>

lemma le_byte_shift: "le_byte (drop_bit (8 * i) v AND 0xff) 0 = le_byte v i"
proof -
  have "unat (drop_bit (8 * i) v AND 0xff) = unat v div 256 ^ i mod 256"
  proof -
    have "(0xff :: u64) = mask 8" by (simp add: mask_eq_exp_minus_1)
    then have "drop_bit (8 * i) v AND 0xff = take_bit 8 (drop_bit (8 * i) v)"
      by (simp only: take_bit_eq_mask)
    then have "unat (drop_bit (8 * i) v AND 0xff) = take_bit 8 (drop_bit (8 * i) (unat v))"
      by (simp add: unsigned_take_bit_eq unat_drop_bit_eq)
    then show ?thesis by (simp add: take_bit_eq_mod drop_bit_eq_div power_mult)
  qed
  then show ?thesis by (simp add: le_byte_def)
qed

lemma relaxed_store_eq: "relaxed_store f p n v = copy_in f p (bytes_of v n)"
  by (auto simp: relaxed_store_def copy_in_def bytes_of_def fun_eq_iff)

lemma store_bytes_val:
  "store_bytes p v [i ..< i + n] f =
    (\<lambda>j. if p + i \<le> j \<and> j < p + i + n then le_byte v (j - p) else f j)"
proof (induction n arbitrary: i f)
  case (Suc n)
  have "[i ..< i + Suc n] = i # [Suc i ..< Suc i + n]" by (simp add: upt_conv_Cons)
  then show ?case
    using Suc.IH [of "Suc i"] le_byte_shift [of i v]
    by (auto simp: fun_eq_iff relaxed_store_def le_Suc_eq not_less_eq_eq)
qed (auto simp: fun_eq_iff)

lemma store_unaligned_eq: "store_unaligned f p n v = copy_in f p (bytes_of v n)"
  using store_bytes_val [of p v 0 n f]
  by (auto simp: store_unaligned_def copy_in_def bytes_of_def fun_eq_iff)

definition scalar_size :: "nat \<Rightarrow> bool" where
  "scalar_size n \<longleftrightarrow> n = 1 \<or> n = 2 \<or> n = 4 \<or> n = 8"

lemma load_at_val: "scalar_size n \<Longrightarrow> load_at c off n = value_of (map (rc_bytes c) [off ..< off + n])"
  by (auto simp: load_at_def load_unaligned_eq relaxed_load_def value_of_def scalar_size_def)

lemma store_at_bytes:
  "scalar_size n \<Longrightarrow> rc_bytes (store_at c off n v) = copy_in (rc_bytes c) off (bytes_of v n)"
  by (auto simp: store_at_def store_unaligned_eq relaxed_store_eq scalar_size_def)

lemma rc_ptr_store_at [simp]: "rc_ptr (store_at c off n v) = rc_ptr c"
  by (simp add: store_at_def)

lemma mod_part: "r * x < m \<Longrightarrow> (m * q + r) * x mod m = r * (x :: nat)"
proof -
  assume "r * x < m"
  have "(m * q + r) * x = r * x + m * (q * x)" by (simp add: algebra_simps)
  then have "(m * q + r) * x mod m = r * x mod m" by (simp only: mod_mult_self2)
  with \<open>r * x < m\<close> show ?thesis by simp
qed

lemma repeated_parts:
  assumes "x < (256 :: nat)"
  shows "0x0101010101010101 * x mod 2 ^ 8 = x"
    "0x0101010101010101 * x mod 2 ^ 16 = 0x0101 * x"
    "0x0101010101010101 * x mod 2 ^ 32 = 0x01010101 * x"
  using assms mod_part [of 1 x "2 ^ 8" "282578800148737"]
    mod_part [of "0x0101" x "2 ^ 16" "1103823438081"]
    mod_part [of "0x01010101" x "2 ^ 32" "16843009"]
  by simp_all

lemma repeated_val: "scalar_size n \<Longrightarrow> repeated b n = value_of (replicate n b)"
proof -
  assume n: "scalar_size n"
  have b: "unat b < 256" using unsigned_less [of b] by simp
  then have t: "unat (ucast b :: u64) = unat b"
    by (simp add: unsigned_ucast_eq take_bit_nat_eq_self)
  have u: "unat (0x0101010101010101 * ucast b :: u64) = 0x0101010101010101 * unat b"
    using b t by (subst unat_mult64) simp_all
  have m: "unat (x AND (push_bit k 1 - 1) :: u64) = unat x mod 2 ^ k" if "k < 64" for x k
  proof -
    have "(push_bit k 1 - 1 :: u64) = mask k" by (simp add: mask_eq_exp_minus_1 push_bit_eq_mult)
    then have "unat (x AND (push_bit k 1 - 1)) = take_bit k (unat x)"
      by (simp only: take_bit_eq_mask [symmetric] unsigned_take_bit_eq)
    then show ?thesis by (simp only: take_bit_eq_mod)
  qed
  have r: "unat (repeated b k) = 0x0101010101010101 * unat b mod 2 ^ (8 * k)" if "k < 8" for k
    using that m [of "8 * k"] u by (simp add: repeated_def)
  have g: "255 * (\<Sum>i<k. 256 ^ i) + 1 = (256 :: nat) ^ k" for k
    by (induction k) simp_all
  have s: "(\<Sum>i<2. 256 ^ i) = (0x0101 :: nat)" "(\<Sum>i<4. 256 ^ i) = (0x01010101 :: nat)"
    "(\<Sum>i<8. 256 ^ i) = (0x0101010101010101 :: nat)"
    using g [of 2] g [of 4] g [of 8] by simp_all
  consider "n = 1" | "n = 2" | "n = 4" | "n = 8" using n scalar_size_def by blast
  then have "unat (repeated b n) = unat b * (\<Sum>i<n. 256 ^ i)"
  proof cases
    case 1 then show ?thesis using repeated_parts(1) [OF b] r [of 1] by simp
  next
    case 2 then show ?thesis using repeated_parts(2) [OF b] r [of 2] by (simp add: s)
  next
    case 3 then show ?thesis using repeated_parts(3) [OF b] r [of 4] by (simp add: s)
  next
    case 4 then show ?thesis by (simp add: repeated_def u s)
  qed
  moreover have "unat (value_of (replicate n b)) = unat b * (\<Sum>i<n. 256 ^ i)"
    using n by (subst unat_value_of) (auto simp: le_val_replicate scalar_size_def)
  ultimately show ?thesis by (simp add: word_unat_eq_iff)
qed

section \<open>Updates of a byte function\<close>

lemma copy_in_Nil [simp]: "copy_in f off [] = f"
  by (auto simp: copy_in_def fun_eq_iff)

lemma copy_in_append: "copy_in (copy_in f off s) (off + length s) t = copy_in f off (s @ t)"
  by (auto simp: copy_in_def fun_eq_iff nth_append)

lemma copy_in_other: "j < off \<or> off + length s \<le> j \<Longrightarrow> copy_in f off s j = f j"
  by (auto simp: copy_in_def)

lemma copy_in_at: "i < length s \<Longrightarrow> copy_in f off s (off + i) = s ! i"
  by (simp add: copy_in_def)

lemma map_copy_in [simp]: "map (copy_in f off s) [off ..< off + length s] = s"
  by (rule nth_equalityI) (simp_all add: copy_in_at)

lemma copy_in_self: "(\<And>i. i < length s \<Longrightarrow> f (off + i) = s ! i) \<Longrightarrow> copy_in f off s = f"
proof (rule ext)
  fix j assume eq: "\<And>i. i < length s \<Longrightarrow> f (off + i) = s ! i"
  show "copy_in f off s j = f j"
    using eq [of "j - off"] by (auto simp: copy_in_def)
qed

text \<open>The doubling copy leaves the pattern at its phase in every byte.\<close>

definition pattern_run :: "u8 list \<Rightarrow> nat \<Rightarrow> nat \<Rightarrow> u8 list" where
  "pattern_run pattern done n = map (\<lambda>i. pattern ! ((done + i) mod length pattern)) [0 ..< n]"

lemma length_pattern_run [simp]: "length (pattern_run pattern done n) = n"
  by (simp add: pattern_run_def)

lemma pattern_run_nth [simp]: "i < n \<Longrightarrow> pattern_run pattern done n ! i = pattern ! ((done + i) mod length pattern)"
  by (simp add: pattern_run_def)

lemma pattern_run_append:
  "pattern_run pattern done (m + n) = pattern_run pattern done m @ pattern_run pattern (done + m) n"
  by (rule nth_equalityI) (auto simp: nth_append add.assoc)

lemma pattern_run_byte: "length pattern = 1 \<Longrightarrow> pattern_run pattern done n = replicate n (pattern ! 0)"
  by (rule nth_equalityI) auto

lemma copy_within_pattern:
  assumes "length pattern dvd filled" "c \<le> filled"
  shows "copy_within (copy_in f p (pattern_run pattern done filled)) (p + filled) p c =
    copy_in f p (pattern_run pattern done (filled + c))"
proof (rule ext)
  fix j
  have "(done + (j - p)) mod length pattern = (done + (j - (p + filled))) mod length pattern"
    if "p + filled \<le> j"
  proof -
    from assms(1) obtain q where "filled = length pattern * q" by (rule dvdE)
    with that have "done + (j - p) = done + (j - (p + filled)) + length pattern * q" by simp
    then show ?thesis by (simp only: mod_mult_self2)
  qed
  then show "copy_within (copy_in f p (pattern_run pattern done filled)) (p + filled) p c j =
      copy_in f p (pattern_run pattern done (filled + c)) j"
    using assms(2) by (auto simp: copy_within_def copy_in_def add.commute)
qed

lemma fill_double_pattern:
  "0 < filled \<Longrightarrow> filled \<le> n \<Longrightarrow> length pattern dvd filled \<or> filled = n \<Longrightarrow>
    fill_double p filled n (copy_in f p (pattern_run pattern done filled)) =
    copy_in f p (pattern_run pattern done n)"
proof (induction "n - filled" arbitrary: filled rule: less_induct)
  case less
  show ?case
  proof (cases "filled < n")
    case False
    with less.prems have "filled = n" by simp
    then show ?thesis by (subst fill_double.simps) simp
  next
    case True
    define c where "c = min filled (n - filled)"
    have c: "0 < c" "c \<le> filled" "filled + c \<le> n" using True less.prems by (auto simp: c_def)
    have "length pattern dvd filled" using True less.prems by simp
    then have step: "copy_within (copy_in f p (pattern_run pattern done filled)) (p + filled) p c =
        copy_in f p (pattern_run pattern done (filled + c))"
      using c(2) by (rule copy_within_pattern)
    have "length pattern dvd filled + c \<or> filled + c = n"
      using \<open>length pattern dvd filled\<close> by (auto simp: c_def min_def)
    then have "fill_double p (filled + c) n (copy_in f p (pattern_run pattern done (filled + c))) =
        copy_in f p (pattern_run pattern done n)"
      using less.hyps [of "filled + c"] c True by simp
    then show ?thesis
      using True less.prems(1) step by (subst fill_double.simps) (simp add: c_def)
  qed
qed

lemma fill_pattern_eq:
  "pattern \<noteq> [] \<Longrightarrow> fill_pattern pattern done p n f = copy_in f p (pattern_run pattern done n)"
proof -
  assume "pattern \<noteq> []"
  have *: "fill_pattern pattern done p n f =
      fill_double p (min n (length pattern)) n (copy_in f p (pattern_run pattern done (min n (length pattern))))"
    by (simp add: fill_pattern_def pattern_run_def Let_def)
  show ?thesis
  proof (cases "n = 0")
    case True
    then show ?thesis by (subst *, subst fill_double.simps) simp
  next
    case False
    with \<open>pattern \<noteq> []\<close> show ?thesis
      unfolding * by (intro fill_double_pattern) (auto simp: min_def)
  qed
qed

section \<open>Invariant of an allocation\<close>

text \<open>
  The chunk table covers the allocation; slots past its chunks are empty, so a recycled array
  starts clean; only a whole chunk is ever uniform; and a chunk that is real is zero past the
  allocation's end, which is what \<^verbatim>\<open>release\<close> promises the backing.
\<close>

definition ptr_ok :: "rchunk \<Rightarrow> bool" where
  "ptr_ok c \<longleftrightarrow> rc_ptr c \<noteq> 0 \<and> \<not> is_uniform (rc_ptr c)"

fun slot_ok :: "nat \<Rightarrow> chunk \<Rightarrow> bool" where
  "slot_ok n Untouched \<longleftrightarrow> True"
| "slot_ok n (Uniform b) \<longleftrightarrow> kChunkSize \<le> n"
| "slot_ok n (Real c) \<longleftrightarrow> ptr_ok c \<and> (\<forall>j < kChunkSize. n \<le> j \<longrightarrow> rc_bytes c j = 0)"

definition alloc_inv :: "allocation \<Rightarrow> bool" where
  "alloc_inv a \<longleftrightarrow>
     chunk_count a = (unat (al_size a) + kChunkSize - 1) div kChunkSize \<and>
     chunk_count a \<le> length (slots a) \<and>
     (\<forall>i. chunk_count a \<le> i \<longrightarrow> i < length (slots a) \<longrightarrow> slots a ! i = Untouched) \<and>
     (\<forall>i < chunk_count a. slot_ok (unat (al_size a) - i * kChunkSize) (slots a ! i))"

definition same_shape :: "allocation \<Rightarrow> allocation \<Rightarrow> bool" where
  "same_shape a a' \<longleftrightarrow> al_size a' = al_size a \<and> chunk_count a' = chunk_count a \<and>
     length (slots a') = length (slots a) \<and> external a' = external a \<and> card_valid a' = card_valid a"

lemma same_shape_refl [simp]: "same_shape a a"
  by (simp add: same_shape_def)

lemma same_shape_trans: "same_shape a b \<Longrightarrow> same_shape b c \<Longrightarrow> same_shape a c"
  by (simp add: same_shape_def)

lemma same_shape_set_slot [simp]: "same_shape a (set_slot i c a)"
  by (simp add: same_shape_def set_slot_def)

lemma alloc_inv_cover: "alloc_inv a \<Longrightarrow> unat (al_size a) \<le> kChunkSize * chunk_count a"
proof -
  assume "alloc_inv a"
  then have "chunk_count a = (unat (al_size a) + kChunkSize - 1) div kChunkSize"
    by (simp add: alloc_inv_def)
  then show ?thesis
    using round_up_nat_ge [of kChunkSize "unat (al_size a)"] by (simp add: round_up_nat_def mult.commute)
qed

lemma alloc_inv_covers: "alloc_inv a \<Longrightarrow> n \<le> unat (al_size a) \<Longrightarrow> n \<le> kChunkSize * length (slots a)"
proof -
  assume a: "alloc_inv a" "n \<le> unat (al_size a)"
  then have "chunk_count a \<le> length (slots a)" by (simp add: alloc_inv_def)
  then have "kChunkSize * chunk_count a \<le> kChunkSize * length (slots a)" by simp
  with alloc_inv_cover [OF a(1)] a(2) show ?thesis by linarith
qed

lemma alloc_inv_index:
  assumes "alloc_inv a" "off < unat (al_size a)"
  shows "off div kChunkSize < chunk_count a" "off div kChunkSize < length (slots a)"
proof -
  show 1: "off div kChunkSize < chunk_count a"
    using alloc_inv_cover [OF assms(1)] assms(2) by (intro chunk_div_less) simp
  with assms(1) show "off div kChunkSize < length (slots a)" by (simp add: alloc_inv_def)
qed

lemma alloc_inv_set_slot:
  assumes "alloc_inv a" "i < chunk_count a" "slot_ok (unat (al_size a) - i * kChunkSize) c"
  shows "alloc_inv (set_slot i c a)"
  using assms by (auto simp: alloc_inv_def set_slot_def nth_list_update)

lemma alloc_byte_set_slot:
  assumes "i < length (slots a)"
  shows "alloc_byte (set_slot i c a) k =
    (if k div kChunkSize = i then chunk_byte c (k mod kChunkSize) else alloc_byte a k)"
  using assms by (simp add: alloc_byte_def set_slot_def)

lemma alloc_byte_copy_in:
  assumes "i < length (slots a)" "off + length s \<le> kChunkSize"
    and "\<And>j. j < kChunkSize \<Longrightarrow> chunk_byte c j = copy_in (chunk_byte (slots a ! i)) off s j"
  shows "alloc_byte (set_slot i c a) = copy_in (alloc_byte a) (i * kChunkSize + off) s"
proof (rule ext)
  fix k
  show "alloc_byte (set_slot i c a) k = copy_in (alloc_byte a) (i * kChunkSize + off) s k"
  proof (cases "k div kChunkSize = i")
    case True
    then obtain j where k: "k = i * kChunkSize + j" and j: "j < kChunkSize"
      by (metis div_mult_mod_eq kChunkSize_pos mod_less_divisor)
    then have "k div kChunkSize = i" "k mod kChunkSize = j" by simp_all
    then show ?thesis
      using assms j by (simp add: alloc_byte_set_slot) (simp add: copy_in_def alloc_byte_def k)
  next
    case False
    then have "k < i * kChunkSize + off \<or> i * kChunkSize + off + length s \<le> k"
    proof (cases "k div kChunkSize < i")
      case True
      then have "k < i * kChunkSize" by (simp add: div_less_iff_less_mult)
      then show ?thesis by simp
    next
      case ge: False
      with False have "Suc i \<le> k div kChunkSize" by simp
      then have "Suc i * kChunkSize \<le> k" by (simp add: less_eq_div_iff_mult_less_eq)
      with assms(2) show ?thesis by simp
    qed
    with False assms(1) show ?thesis by (simp add: alloc_byte_set_slot copy_in_other)
  qed
qed

section \<open>What the chunk loops rely on, and what they do\<close>

text \<open>
  The interface of the backing: a chunk it hands out is zero and has an aligned address, and
  a chunk given back with its promise of zeros keeps the backing's invariant.
\<close>

locale chunk_source =
  fixes acq :: "'b \<Rightarrow> (rchunk, 'b) outcome"
    and rel :: "rchunk \<Rightarrow> nat \<Rightarrow> 'b \<Rightarrow> 'b"
    and binv :: "'b \<Rightarrow> bool"
  assumes acq_chunk: "binv b \<Longrightarrow> acq b = (Inr c, b') \<Longrightarrow> ptr_ok c \<and> (\<forall>j < kChunkSize. rc_bytes c j = 0)"
    and acq_inv: "binv b \<Longrightarrow> acq b = (r, b') \<Longrightarrow> binv b'"
    and acq_error: "binv b \<Longrightarrow> acq b = (Inl e, b') \<Longrightarrow> e \<noteq> Stray"
    and rel_inv: "binv b \<Longrightarrow> ptr_ok c \<Longrightarrow> \<forall>j < kChunkSize. dirty \<le> j \<longrightarrow> rc_bytes c j = 0 \<Longrightarrow>
      binv (rel c dirty b)"

text \<open>
  \<open>wrote\<close> is the contract of a write: the shape and the invariants stay, and the allocation reads
  as before but for the bytes given. \<open>failed\<close> is an error that can only be the backing's.
\<close>

definition wrote :: "('b \<Rightarrow> bool) \<Rightarrow> allocation \<times> 'b \<Rightarrow> allocation \<times> 'b \<Rightarrow> nat \<Rightarrow> u8 list \<Rightarrow> bool" where
  "wrote binv st st' off s \<longleftrightarrow> same_shape (fst st) (fst st') \<and> alloc_inv (fst st') \<and> binv (snd st') \<and>
     alloc_byte (fst st') = copy_in (alloc_byte (fst st)) off s"

definition refused :: "('b \<Rightarrow> (rchunk, 'b) outcome) \<Rightarrow> ('b \<Rightarrow> bool) \<Rightarrow> exn \<Rightarrow> bool" where
  "refused acq binv e \<longleftrightarrow> (\<exists>b b'. binv b \<and> acq b = (Inl e, b'))"

lemma refusedI: "binv b \<Longrightarrow> acq b = (Inl e, b') \<Longrightarrow> refused acq binv e"
  by (auto simp: refused_def)

lemma wrote_Nil [simp]: "alloc_inv a \<Longrightarrow> binv b' \<Longrightarrow> wrote binv (a, b) (a, b') off []"
  by (simp add: wrote_def)

lemma wrote_append:
  "wrote binv st st1 off s \<Longrightarrow> wrote binv st1 st2 (off + length s) t \<Longrightarrow> wrote binv st st2 off (s @ t)"
  by (auto simp: wrote_def copy_in_append intro: same_shape_trans)

lemma wroteD:
  assumes "wrote binv st st' off s"
  shows "same_shape (fst st) (fst st')" "alloc_inv (fst st')" "binv (snd st')"
    "alloc_byte (fst st') = copy_in (alloc_byte (fst st)) off s"
  using assms by (simp_all add: wrote_def)

lemma wrote_slot:
  assumes "alloc_inv a" "binv b" "i < chunk_count a" "off + length s \<le> kChunkSize"
    and "slot_ok (unat (al_size a) - i * kChunkSize) c"
    and "\<And>j. j < kChunkSize \<Longrightarrow> chunk_byte c j = copy_in (chunk_byte (slots a ! i)) off s j"
  shows "wrote binv (a, b0) (set_slot i c a, b) (i * kChunkSize + off) s"
proof -
  have "i < length (slots a)" using assms(1,3) by (simp add: alloc_inv_def)
  then show ?thesis
    using assms by (simp add: wrote_def alloc_inv_set_slot alloc_byte_copy_in)
qed

context chunk_source
begin

lemma materialize_spec:
  assumes "alloc_inv a" "binv b" "i < chunk_count a" "materialize acq i (a, b) = (r, (a', b'))"
  shows "binv b' \<and> (case r of
      Inl e \<Rightarrow> a' = a \<and> refused acq binv e
    | Inr c \<Rightarrow> a' = set_slot i (Real c) a \<and> ptr_ok c \<and> slots a' ! i = Real c \<and>
        (\<forall>j < kChunkSize. rc_bytes c j = chunk_byte (slots a ! i) j))"
proof -
  have i: "i < length (slots a)" and ok: "slot_ok (unat (al_size a) - i * kChunkSize) (slots a ! i)"
    using assms(1,3) by (auto simp: alloc_inv_def)
  show ?thesis
  proof (cases "slots a ! i")
    case (Real c)
    then have "set_slot i (Real c) a = a"
      by (metis set_slot_def list_update_id allocation.surjective allocation.update_convs(3))
    with Real ok i assms(2,4) show ?thesis
      by (auto simp: materialize_def slot_at_def)
  next
    case Untouched
    obtain q b1 where q: "acq b = (q, b1)" by force
    with assms(2) have "binv b1" by (rule acq_inv)
    with Untouched q i assms(2,4) show ?thesis
      using acq_chunk [OF assms(2), of _ b1]
      by (cases q) (auto simp: materialize_def slot_at_def set_slot_def intro: refusedI)
  next
    case (Uniform u)
    obtain q b1 where q: "acq b = (q, b1)" by force
    with assms(2) have "binv b1" by (rule acq_inv)
    with Uniform q i assms(2,4) show ?thesis
      using acq_chunk [OF assms(2), of _ b1]
      by (cases q) (auto simp: materialize_def slot_at_def set_slot_def ptr_ok_def Let_def intro: refusedI)
  qed
qed

lemma copy_in_cong_chunk:
  "\<forall>j < kChunkSize. f j = g j \<Longrightarrow> j < kChunkSize \<Longrightarrow> copy_in f off s j = copy_in g off s j"
  by (simp add: copy_in_def)

lemma update_real_spec:
  assumes "alloc_inv a" "binv b" "i < chunk_count a" "materialize acq i (a, b) = (Inr c, (a1, b1))"
    and "off + length s \<le> kChunkSize" "i * kChunkSize + off + length s \<le> unat (al_size a)"
  shows "wrote binv (a, b) (set_slot i (Real (c\<lparr>rc_bytes := copy_in (rc_bytes c) off s\<rparr>)) a1, b1)
    (i * kChunkSize + off) s"
proof -
  let ?c = "Real (c\<lparr>rc_bytes := copy_in (rc_bytes c) off s\<rparr>)"
  from materialize_spec [OF assms(1-4)] have m: "binv b1" "a1 = set_slot i (Real c) a" "ptr_ok c"
    "\<forall>j < kChunkSize. rc_bytes c j = chunk_byte (slots a ! i) j"
    by auto
  have eq: "set_slot i ?c a1 = set_slot i ?c a" by (simp add: m(2) set_slot_def)
  have ok: "slot_ok (unat (al_size a) - i * kChunkSize) (slots a ! i)"
    using assms(1,3) by (simp add: alloc_inv_def)
  have "rc_bytes c j = 0" if "j < kChunkSize" "unat (al_size a) - i * kChunkSize \<le> j" for j
    using that ok m(4) by (cases "slots a ! i") auto
  then have "slot_ok (unat (al_size a) - i * kChunkSize) ?c"
    using assms(6) m(3) by (auto simp: ptr_ok_def copy_in_def)
  then show ?thesis
    unfolding eq using assms m(1,4) by (intro wrote_slot) (auto simp: copy_in_def)
qed

lemma write_piece_spec:
  assumes "alloc_inv a" "binv b" "off + length s \<le> kChunkSize" "s \<noteq> []"
    and "i * kChunkSize + off + length s \<le> unat (al_size a)"
    and "write_piece acq i off s (a, b) = (r, st')"
  shows "(r = Inr () \<and> wrote binv (a, b) st' (i * kChunkSize + off) s) \<or>
    (\<exists>e. r = Inl e \<and> refused acq binv e \<and> wrote binv (a, b) st' (i * kChunkSize + off) [])"
proof -
  have "i * kChunkSize < unat (al_size a)" using assms(4,5) by (cases s) auto
  then have i: "i < chunk_count a" using alloc_inv_index(1) [OF assms(1)] by fastforce
  then have l: "i < length (slots a)" using assms(1) by (simp add: alloc_inv_def)
  show ?thesis
  proof (cases "\<exists>u. slots a ! i = Uniform u \<and> all_bytes s (length s) u")
    case True
    then obtain u where u: "slots a ! i = Uniform u" "\<forall>x \<in> set s. x = u"
      by (auto simp: all_bytes_def list_all_iff)
    have "copy_in (alloc_byte a) (i * kChunkSize + off) s = alloc_byte a"
    proof (rule copy_in_self)
      fix j assume "j < length s"
      moreover from this assms(3) have "off + j < kChunkSize" by simp
      then have "(i * kChunkSize + off + j) div kChunkSize = i" by (simp add: add.assoc)
      moreover have "s ! j = u" using u(2) \<open>j < length s\<close> nth_mem by blast
      ultimately show "alloc_byte a (i * kChunkSize + off + j) = s ! j"
        using u(1) by (simp add: alloc_byte_def)
    qed
    moreover have "r = Inr () \<and> st' = (a, b)"
      using True u assms(6) l by (auto simp: write_piece_def slot_at_def)
    ultimately show ?thesis using assms(1,2) by (simp add: wrote_def)
  next
    case False
    then have w: "write_piece acq i off s (a, b) = then_do (materialize acq i (a, b)) (\<lambda>c st'.
        (Inr (), (set_slot i (Real (c\<lparr>rc_bytes := copy_in (rc_bytes c) off s\<rparr>)) (fst st'), snd st')))"
      using l by (auto simp: write_piece_def slot_at_def split: chunk.splits)
    obtain q a1 b1 where m: "materialize acq i (a, b) = (q, (a1, b1))" by (metis prod.exhaust)
    show ?thesis
    proof (cases q)
      case (Inl e)
      then show ?thesis
        using materialize_spec [OF assms(1,2) i m] w m assms(1,6) by auto
    next
      case (Inr c)
      then show ?thesis
        using update_real_spec [OF assms(1,2) i, of c a1 b1 off s] w m assms(3,5,6) by auto
    qed
  qed
qed

text \<open>
  The write loop. It writes a prefix of the bytes, all of them when it returns; it stops early
  only on an error of the backing.
\<close>

lemma write_chunks_spec:
  assumes "alloc_inv (fst st)" "binv (snd st)" "off + length s \<le> unat (al_size (fst st))"
    and "write_chunks acq off s st = (r, st')"
  shows "\<exists>k \<le> length s. wrote binv st st' off (take k s) \<and>
    (r = Inr () \<and> k = length s \<or> (\<exists>e. r = Inl e \<and> refused acq binv e))"
  using assms
proof (induction "length s" arbitrary: off s st r st' rule: less_induct)
  case less
  show ?case
  proof (cases "s = []")
    case True
    with less.prems show ?thesis
      by (subst (asm) write_chunks.simps) (auto simp: wrote_def)
  next
    case False
    define o' where "o' = off mod kChunkSize"
    define n where "n = min (length s) (kChunkSize - o')"
    have n: "0 < n" "n \<le> length s" "o' + n \<le> kChunkSize"
      using False chunk_piece_fits [of off "length s"] by (auto simp: n_def o'_def)
    have off: "off div kChunkSize * kChunkSize + o' = off" by (simp add: o'_def)
    obtain q st1 where p: "write_piece acq (off div kChunkSize) o' (take n s) st = (q, st1)"
      by (metis surj_pair)
    have piece: "(q = Inr () \<and> wrote binv st st1 off (take n s)) \<or>
        (\<exists>e. q = Inl e \<and> refused acq binv e \<and> wrote binv st st1 off [])"
      using write_piece_spec [of "fst st" "snd st" o' "take n s" "off div kChunkSize" q st1]
        less.prems n p False by (simp add: off)
    have unf: "(r, st') = then_do (q, st1) (\<lambda>_ st'. write_chunks acq (off + n) (drop n s) st')"
      using less.prems(4) False p by (subst (asm) write_chunks.simps) (simp add: n_def o'_def Let_def)
    show ?thesis
    proof (cases q)
      case (Inl e)
      with piece unf have "wrote binv st st' off (take 0 s)" "r = Inl e" "refused acq binv e" by auto
      then show ?thesis by blast
    next
      case (Inr u)
      with piece have w: "wrote binv st st1 off (take n s)" by simp
      from wroteD [OF w] have st1: "alloc_inv (fst st1)" "binv (snd st1)"
        "al_size (fst st1) = al_size (fst st)"
        by (simp_all add: same_shape_def)
      have rest: "write_chunks acq (off + n) (drop n s) st1 = (r, st')" using unf Inr by simp
      have "length (drop n s) < length s" using n by simp
      from less.hyps [OF this st1(1,2) _ rest] obtain k where k: "k \<le> length s - n"
        "wrote binv st1 st' (off + n) (take k (drop n s))"
        "r = Inr () \<and> k = length s - n \<or> (\<exists>e. r = Inl e \<and> refused acq binv e)"
        using less.prems(3) n st1(3) by auto
      have "wrote binv st st' off (take n s @ take k (drop n s))"
        using wrote_append [OF w, of st' "take k (drop n s)"] k(2) n(2) by simp
      then have "wrote binv st st' off (take (n + k) s)" by (simp add: take_add)
      then show ?thesis using k n by (intro exI [of _ "n + k"]) auto
    qed
  qed
qed


text \<open>
  The fill loop: the same contract, with the pattern's phase running on from chunk to chunk. A
  whole chunk of one byte becomes a tag, and the chunk it replaces goes back to the backing.
\<close>

lemma chunk_run_self:
  assumes "i < length (slots a)" "off + n \<le> kChunkSize"
    and "\<And>j. j < n \<Longrightarrow> chunk_byte (slots a ! i) (off + j) = s ! j" "length s = n"
  shows "copy_in (alloc_byte a) (i * kChunkSize + off) s = alloc_byte a"
proof (rule copy_in_self)
  fix j assume j: "j < length s"
  with assms have "off + j < kChunkSize" by simp
  then have "(i * kChunkSize + off + j) div kChunkSize = i" "(i * kChunkSize + off + j) mod kChunkSize = off + j"
    by (simp_all add: add.assoc)
  with j assms(3,4) show "alloc_byte a (i * kChunkSize + off + j) = s ! j" by (simp add: alloc_byte_def)
qed

lemma fill_piece_spec:
  assumes "alloc_inv a" "binv b" "off + n \<le> kChunkSize" "0 < n" "pattern \<noteq> []"
    and "i * kChunkSize + off + n \<le> unat (al_size a)"
    and "fill_piece acq rel pattern i off n done (a, b) = (r, st')"
  shows "(r = Inr () \<and> wrote binv (a, b) st' (i * kChunkSize + off) (pattern_run pattern done n)) \<or>
    (\<exists>e. r = Inl e \<and> refused acq binv e \<and> wrote binv (a, b) st' (i * kChunkSize + off) [])"
proof -
  have "i * kChunkSize < unat (al_size a)" using assms(4,6) by simp
  then have i: "i < chunk_count a" using alloc_inv_index(1) [OF assms(1)] by fastforce
  then have l: "i < length (slots a)" and ok: "slot_ok (unat (al_size a) - i * kChunkSize) (slots a ! i)"
    using assms(1) by (simp_all add: alloc_inv_def)
  note s = assms(7) [unfolded fill_piece_def, simplified slot_at_def l if_True Let_def fst_conv snd_conv sum.case]
  consider (whole) "length pattern = 1" "off = 0" "n = kChunkSize" "\<not> external a"
    | (same) "\<not> (length pattern = 1 \<and> off = 0 \<and> n = kChunkSize \<and> \<not> external a)"
        "length pattern = 1 \<and> slots a ! i = Uniform (pattern ! 0) \<or>
         slots a ! i = Untouched \<and> list_all (\<lambda>x. x = 0) pattern"
    | (bytes) "\<not> (length pattern = 1 \<and> off = 0 \<and> n = kChunkSize \<and> \<not> external a)"
        "\<not> (length pattern = 1 \<and> slots a ! i = Uniform (pattern ! 0))"
        "slots a ! i \<noteq> Untouched \<or> \<not> list_all (\<lambda>x. x = 0) pattern"
    by blast
  then show ?thesis
  proof cases
    case whole
    let ?c = "if pattern ! 0 \<noteq> 0 then Uniform (pattern ! 0) else Untouched"
    let ?b = "case slots a ! i of Real old \<Rightarrow> rel old kChunkSize b | _ \<Rightarrow> b"
    have "binv ?b" using assms(2) ok by (auto intro: rel_inv split: chunk.splits)
    moreover have "slot_ok (unat (al_size a) - i * kChunkSize) ?c" using whole assms(6) by (auto simp: le_diff_conv2)
    moreover have "chunk_byte ?c j = copy_in (chunk_byte (slots a ! i)) off (pattern_run pattern done n) j"
      if "j < kChunkSize" for j
      using whole that by (simp add: copy_in_def pattern_run_byte)
    ultimately have "wrote binv (a, b) (set_slot i ?c a, ?b) (i * kChunkSize + off) (pattern_run pattern done n)"
      using assms i whole by (intro wrote_slot) auto
    moreover have "r = Inr ()" "st' = (set_slot i ?c a, ?b)" using s whole by auto
    ultimately show ?thesis by simp
  next
    case same
    have "copy_in (alloc_byte a) (i * kChunkSize + off) (pattern_run pattern done n) = alloc_byte a"
    proof (rule chunk_run_self [OF l assms(3)])
      fix j assume "j < n"
      moreover have "pattern ! k = 0" if "list_all (\<lambda>x. x = 0) pattern" "k < length pattern" for k
        using that by (simp add: list_all_length)
      ultimately show "chunk_byte (slots a ! i) (off + j) = pattern_run pattern done n ! j"
        using same(2) assms(5) by auto
    qed simp
    moreover have "r = Inr () \<and> st' = (a, b)" using s same by (auto split: if_splits)
    ultimately show ?thesis using assms(1,2) by (simp add: wrote_def)
  next
    case bytes
    let ?run = "pattern_run pattern done n"
    have eq: "(if length pattern = 1 then copy_in f off (replicate n (pattern ! 0))
        else fill_pattern pattern done off n f) = copy_in f off ?run" for f
      using assms(5) by (simp add: fill_pattern_eq pattern_run_byte)
    have f: "(r, st') = then_do (materialize acq i (a, b)) (\<lambda>c st'. (Inr (),
        (set_slot i (Real (c\<lparr>rc_bytes := copy_in (rc_bytes c) off ?run\<rparr>)) (fst st'), snd st')))"
      using s bytes unfolding eq by auto
    obtain q a1 b1 where m: "materialize acq i (a, b) = (q, (a1, b1))" by (metis prod.exhaust)
    show ?thesis
    proof (cases q)
      case (Inl e)
      then show ?thesis using materialize_spec [OF assms(1,2) i m] f m assms(1) by auto
    next
      case (Inr c)
      then show ?thesis
        using update_real_spec [OF assms(1,2) i, of c a1 b1 off ?run] f m assms(3,6) by auto
    qed
  qed
qed

lemma fill_chunks_spec:
  assumes "alloc_inv (fst st)" "binv (snd st)" "off + len \<le> unat (al_size (fst st))" "pattern \<noteq> []"
    and "fill_chunks acq rel pattern off done len st = (r, st')"
  shows "\<exists>k \<le> len. wrote binv st st' off (pattern_run pattern done k) \<and>
    (r = Inr () \<and> k = len \<or> (\<exists>e. r = Inl e \<and> refused acq binv e))"
  using assms
proof (induction len arbitrary: off "done" st r st' rule: less_induct)
  case (less len)
  show ?case
  proof (cases "len = 0")
    case True
    with less.prems show ?thesis
      by (subst (asm) fill_chunks.simps) (auto simp: wrote_def pattern_run_def)
  next
    case False
    define o' where "o' = off mod kChunkSize"
    define n where "n = min len (kChunkSize - o')"
    have n: "0 < n" "n \<le> len" "o' + n \<le> kChunkSize"
      using False chunk_piece_fits [of off len] by (auto simp: n_def o'_def)
    have off: "off div kChunkSize * kChunkSize + o' = off" by (simp add: o'_def)
    obtain q st1 where p: "fill_piece acq rel pattern (off div kChunkSize) o' n done st = (q, st1)"
      by (metis surj_pair)
    have piece: "(q = Inr () \<and> wrote binv st st1 off (pattern_run pattern done n)) \<or>
        (\<exists>e. q = Inl e \<and> refused acq binv e \<and> wrote binv st st1 off [])"
      using fill_piece_spec [of "fst st" "snd st" o' n pattern "off div kChunkSize" "done" q st1]
        less.prems n p by (simp add: off)
    have unf: "(r, st') = then_do (q, st1) (\<lambda>_ st'. fill_chunks acq rel pattern (off + n) (done + n) (len - n) st')"
      using less.prems(5) False p by (subst (asm) fill_chunks.simps) (simp add: n_def o'_def Let_def)
    show ?thesis
    proof (cases q)
      case (Inl e)
      with piece unf have "wrote binv st st' off (pattern_run pattern done 0)" "r = Inl e" "refused acq binv e"
        by (auto simp: pattern_run_def)
      then show ?thesis by blast
    next
      case (Inr u)
      with piece have w: "wrote binv st st1 off (pattern_run pattern done n)" by simp
      from wroteD [OF w] have st1: "alloc_inv (fst st1)" "binv (snd st1)"
        "al_size (fst st1) = al_size (fst st)"
        by (simp_all add: same_shape_def)
      have rest: "fill_chunks acq rel pattern (off + n) (done + n) (len - n) st1 = (r, st')" using unf Inr by simp
      have "len - n < len" using n by simp
      from less.IH [OF this st1(1,2) _ less.prems(4) rest] obtain k where k: "k \<le> len - n"
        "wrote binv st1 st' (off + n) (pattern_run pattern (done + n) k)"
        "r = Inr () \<and> k = len - n \<or> (\<exists>e. r = Inl e \<and> refused acq binv e)"
        using less.prems(3) n st1(3) by auto
      have "wrote binv st st' off (pattern_run pattern done (n + k))"
        using wrote_append [OF w, of st'] k(2) by (simp add: pattern_run_append)
      then show ?thesis using k n by (intro exI [of _ "n + k"]) auto
    qed
  qed
qed

text \<open>Releasing keeps the promise made to the backing, and a recycled node sets up clean.\<close>

lemma release_slots_inv:
  assumes "alloc_inv a" "binv b" "\<forall>i \<in> set is. i < chunk_count a"
  shows "binv (release_slots rel a is b)"
  using assms(2,3)
proof (induction "is" arbitrary: b)
  case (Cons i "is")
  have ok: "slot_ok (unat (al_size a) - i * kChunkSize) (slots a ! i)"
    using assms(1) Cons.prems by (simp add: alloc_inv_def)
  have "binv (case slots a ! i of
      Real c \<Rightarrow> rel c (if i + 1 < chunk_count a then kChunkSize else unat (al_size a) - i * kChunkSize) b
    | _ \<Rightarrow> b)"
    using Cons.prems ok by (auto intro!: rel_inv split: chunk.splits)
  with Cons show ?case by simp
qed simp

lemma release_alloc_inv:
  assumes "alloc_inv a" "binv b"
  shows "binv (snd (release_alloc rel a b))"
  using assms by (simp add: release_alloc_def release_slots_inv)

end

lemma recycle_clean:
  assumes "alloc_inv a" "recycle rel a b = (a', b')"
  shows "\<forall>i < length (slots a'). slots a' ! i = Untouched" "external a' = False"
  using assms by (auto simp: recycle_def release_alloc_def alloc_inv_def split: if_splits)

lemma snd_recycle: "snd (recycle rel a b) = snd (release_alloc rel a b)"
  by (simp add: recycle_def split: prod.splits)

lemma set_up_inv:
  assumes "\<forall>i < length (slots a). slots a ! i = Untouched" "unat n + kChunkSize \<le> 2 ^ 64"
  shows "alloc_inv (set_up n a)" "al_size (set_up n a) = n" "\<And>i. i < unat n \<Longrightarrow> alloc_byte (set_up n a) i = 0"
    "external (set_up n a) = external a" "card_valid (set_up n a) = 0"
proof -
  let ?n = "(unat n + kChunkSize - 1) div kChunkSize"
  have k: "unat (of_nat kChunkSize :: u64) = kChunkSize" by (simp add: kChunkSize_def)
  have s: "unat (n + of_nat kChunkSize - 1) = unat n + kChunkSize - 1"
  proof -
    have "(of_nat kChunkSize - 1 :: u64) = of_nat (kChunkSize - 1)" by (simp add: kChunkSize_def)
    then have "unat (of_nat kChunkSize - 1 :: u64) = kChunkSize - 1" by (simp add: kChunkSize_def)
    then have "unat (n + (of_nat kChunkSize - 1)) = unat n + (kChunkSize - 1)"
      using assms(2) by (subst unat_add64) (simp_all add: kChunkSize_def)
    then show ?thesis by (simp add: kChunkSize_def add.commute)
  qed
  have c: "chunk_count (set_up n a) = ?n"
    by (simp add: set_up_def Let_def unat_div k s)
  have all: "\<forall>i < length (slots (set_up n a)). slots (set_up n a) ! i = Untouched"
    using assms(1) by (simp add: set_up_def Let_def)
  have len: "chunk_count (set_up n a) \<le> length (slots (set_up n a))"
    by (simp add: set_up_def Let_def)
  show inv: "alloc_inv (set_up n a)"
    using c all len by (auto simp: alloc_inv_def) (simp_all add: set_up_def Let_def)
  show "al_size (set_up n a) = n" by (simp add: set_up_def Let_def)
  show "external (set_up n a) = external a" by (simp add: set_up_def Let_def)
  show "card_valid (set_up n a) = 0" by (simp add: set_up_def Let_def)
  show "alloc_byte (set_up n a) i = 0" if "i < unat n" for i
  proof -
    have "i div kChunkSize < length (slots (set_up n a))"
      using alloc_inv_index(2) [OF inv] that by (simp add: set_up_def Let_def)
    then show ?thesis using all by (simp add: alloc_byte_def)
  qed
qed

end
