(* ===== verification/Host_Guard.thy ===== *)
theory Host_Guard
  imports Errors
begin

text \<open>
  The host-memory guard of \<^verbatim>\<open>src/core/memory_backing.cpp\<close>: how the engine reads what the host can
  still give this process. The files it reads (\<^verbatim>\<open>/proc/meminfo\<close>, the cgroup's) are a parameter
  \<open>fs\<close>, a file's text by path; reading them, finding a figure in them, the walk up the cgroup
  directories and the reserve are the code's.

  Shown here: a figure printed on its line is the figure found; the headroom is the smallest of the
  figures read; and the reserve worked out from the memory in play keeps the bounds the header
  documents.
\<close>

section \<open>C strings\<close>

type_synonym files = "string \<Rightarrow> string option"

text \<open>
  \<open>read_small\<close> leaves at most \<open>cap - 1\<close> bytes of the file in the buffer, with a NUL after them;
  what the callers see is the C string in it.
\<close>

definition read_small :: "files \<Rightarrow> string \<Rightarrow> nat \<Rightarrow> string option" where
  "read_small fs path cap = map_option (\<lambda>t. takeWhile (\<lambda>c. c \<noteq> CHR 0x00) (take (cap - 1) t)) (fs path)"

definition isspace :: "char \<Rightarrow> bool" where
  "isspace c \<longleftrightarrow> c = CHR '' '' \<or> c = CHR 0x09 \<or> c = CHR 0x0A \<or> c = CHR 0x0B \<or> c = CHR 0x0C \<or> c = CHR 0x0D"

definition isdigit :: "char \<Rightarrow> bool" where
  "isdigit c \<longleftrightarrow> 48 \<le> (of_char c :: nat) \<and> (of_char c :: nat) \<le> 57"

fun decimal :: "nat \<Rightarrow> string \<Rightarrow> nat" where
  "decimal acc [] = acc"
| "decimal acc (c # cs) = decimal (10 * acc + (of_char c - 48)) cs"

text \<open>
  \<^verbatim>\<open>strtoull(s, &end, 10)\<close>: blanks, a sign, digits; the value saturates, and \<open>end\<close> is \<open>s\<close> when there
  is no digit.
\<close>

definition strtoull :: "string \<Rightarrow> u64 \<times> string" where
  "strtoull s =
     (let t = dropWhile isspace s;
          neg = (case t of c # _ \<Rightarrow> c = CHR ''-'' | [] \<Rightarrow> False);
          u = (case t of c # cs \<Rightarrow> if c = CHR ''-'' \<or> c = CHR ''+'' then cs else t | [] \<Rightarrow> t);
          ds = takeWhile isdigit u; n = decimal 0 ds
      in if ds = [] then (0, s)
         else (if 2 ^ 64 \<le> n then - 1 else if neg then - of_nat n else of_nat n, dropWhile isdigit u))"

definition starts_with :: "string \<Rightarrow> string \<Rightarrow> bool" where
  "starts_with key s \<longleftrightarrow> take (length key) s = key"

text \<open>\<open>find_value\<close>: the number on the line that starts with the key, scaled by 1024 for a kB suffix.\<close>

definition value_on_line :: "string \<Rightarrow> u64 option" where
  "value_on_line rest =
     (let p = dropWhile (\<lambda>c. c = CHR '' '' \<or> c = CHR 0x09) rest; (v, e) = strtoull p
      in if e = p then None
         else Some (v * (if starts_with ''kB'' (dropWhile (\<lambda>c. c = CHR '' '') e) then 1024 else 1)))"

function find_value :: "string \<Rightarrow> string \<Rightarrow> u64 option" where
  "find_value text key =
     (if text = [] then None
      else if starts_with key text \<and>
           (case drop (length key) text of c # _ \<Rightarrow> c = CHR '':'' \<or> c = CHR '' '' | [] \<Rightarrow> False)
      then value_on_line (drop (length key + 1) text)
      else (case dropWhile (\<lambda>c. c \<noteq> CHR 0x0A) text of [] \<Rightarrow> None | _ # next \<Rightarrow> find_value next key))"
  by pat_completeness auto
termination
proof (relation "measure (\<lambda>(text, key). length text)")
  fix key t r :: string and c
  assume "dropWhile (\<lambda>c. c \<noteq> CHR 0x0A) t = c # r"
  then have "length (c # r) \<le> length t" by (metis length_dropWhile_le)
  then show "((r, key), t, key) \<in> measure (\<lambda>(text, key). length text)" by simp
qed simp

declare find_value.simps [simp del]

section \<open>The configuration and what a look finds\<close>

definition kAutoReserve :: u64 where
  "kAutoReserve = - 1"

record config =
  ram_limit_bytes :: u64
  spill_dir :: string
  host_guard :: bool
  host_reserve_bytes :: u64
  host_check_every_chunks :: u64
  meminfo_path :: string
  cgroup_root :: string
  cgroup_self :: string
  pool_max_bytes :: u64

definition default_config :: config where
  "default_config = \<lparr>ram_limit_bytes = - 1, spill_dir = [], host_guard = True,
     host_reserve_bytes = kAutoReserve, host_check_every_chunks = 256,
     meminfo_path = ''/proc/meminfo'', cgroup_root = ''/sys/fs/cgroup'',
     cgroup_self = ''/proc/self/cgroup'', pool_max_bytes = 1024 * 1024 * 1024\<rparr>"

text \<open>\<open>config_from_env\<close>: the environment is a parameter, \<^verbatim>\<open>getenv\<close>'s answers.\<close>

definition env_mb :: "(string \<Rightarrow> string option) \<Rightarrow> string \<Rightarrow> u64 \<Rightarrow> u64" where
  "env_mb env name old = (case env name of None \<Rightarrow> old
     | Some v \<Rightarrow> if v = [] then old
         else (let (n, e) = strtoull v in if e = v \<or> e \<noteq> [] then old else n * 1024 * 1024))"

definition config_from_env :: "(string \<Rightarrow> string option) \<Rightarrow> config" where
  "config_from_env env =
     (let c = default_config;
          c = (case env ''VGPU_MEMORY_DIR'' of None \<Rightarrow> c
               | Some dir \<Rightarrow> if dir \<noteq> [] then c\<lparr>spill_dir := dir\<rparr> else c);
          c = c\<lparr>ram_limit_bytes := env_mb env ''VGPU_MEMORY_RAM_MB'' (ram_limit_bytes c)\<rparr>;
          c = c\<lparr>host_reserve_bytes := env_mb env ''VGPU_MEMORY_HOST_RESERVE_MB'' (host_reserve_bytes c)\<rparr>
      in if env ''VGPU_MEMORY_HOST_GUARD'' = Some ''0'' then c\<lparr>host_guard := False\<rparr> else c)"

record look =
  have_available :: bool
  have_cgroup :: bool
  available :: u64
  cgroup_headroom :: u64
  headroom :: u64
  lk_reserve :: u64

definition no_look :: look where
  "no_look = \<lparr>have_available = False, have_cgroup = False, available = 0, cgroup_headroom = 0,
     headroom = 0, lk_reserve = 0\<rparr>"

section \<open>The cgroup\<close>

definition kUnlimitedV1 :: u64 where
  "kUnlimitedV1 = push_bit 60 1"

definition or_zero :: "u64 option \<Rightarrow> u64" where
  "or_zero v = (case v of None \<Rightarrow> 0 | Some x \<Rightarrow> x)"

text \<open>
  One directory: its limit and its use, file cache not counted as used. A directory that has
  no limit, or whose figures cannot be read, says nothing.
\<close>

definition cgroup_used :: "files \<Rightarrow> string \<Rightarrow> bool \<Rightarrow> u64 \<Rightarrow> u64" where
  "cgroup_used fs dir v2 used = (case read_small fs (dir @ ''/memory.stat'') 8192 of
     None \<Rightarrow> used
   | Some buf \<Rightarrow>
       (let inactive = or_zero (find_value buf (if v2 then ''inactive_file'' else ''total_inactive_file''));
            active = or_zero (find_value buf (if v2 then ''active_file'' else ''total_active_file''));
            cache = inactive + active
        in if used > cache then used - cache else 0))"

definition cgroup_dir :: "files \<Rightarrow> string \<Rightarrow> bool \<Rightarrow> look \<times> u64 \<Rightarrow> look \<times> u64" where
  "cgroup_dir fs dir v2 st =
     (case read_small fs (dir @ (if v2 then ''/memory.max'' else ''/memory.limit_in_bytes'')) 8192 of
        None \<Rightarrow> st
      | Some buf \<Rightarrow>
          if starts_with ''max'' buf then st
          else (let (l, e) = strtoull buf in
            if e = buf \<or> l \<ge> kUnlimitedV1 then st
            else (case read_small fs (dir @ (if v2 then ''/memory.current'' else ''/memory.usage_in_bytes'')) 8192 of
                    None \<Rightarrow> st
                  | Some buf \<Rightarrow> (let (u, e) = strtoull buf in
                      if e = buf then st
                      else (let used = cgroup_used fs dir v2 u;
                                room = (if l > used then l - used else 0); look = fst st
                            in (look\<lparr>cgroup_headroom := (if have_cgroup look then min (cgroup_headroom look) room
                                                         else room), have_cgroup := True\<rparr>,
                                min (snd st) l))))))"

text \<open>The position of the first occurrence (\<^verbatim>\<open>find\<close>) and of the last slash (\<^verbatim>\<open>rfind\<close>).\<close>

fun find_sub :: "string \<Rightarrow> string \<Rightarrow> nat option" where
  "find_sub pat [] = (if pat = [] then Some 0 else None)"
| "find_sub pat (c # cs) = (if starts_with pat (c # cs) then Some 0 else map_option Suc (find_sub pat cs))"

fun rfind_slash :: "string \<Rightarrow> nat option" where
  "rfind_slash [] = None"
| "rfind_slash (c # cs) = (case rfind_slash cs of Some i \<Rightarrow> Some (Suc i)
     | None \<Rightarrow> if c = CHR ''/'' then Some 0 else None)"

lemma rfind_slash_less: "rfind_slash s = Some i \<Longrightarrow> i < length s"
  by (induction s arbitrary: i) (auto split: option.splits if_splits)

text \<open>
  The directories from the process's own up to the root. A path starts with a slash, so one is
  always found and every step is to a shorter path.
\<close>

definition parent_path :: "string \<Rightarrow> string" where
  "parent_path path = (case rfind_slash path of
     Some 0 \<Rightarrow> ''/'' | Some i \<Rightarrow> take i path | None \<Rightarrow> path)"

definition walk_start :: "string \<Rightarrow> string" where
  "walk_start path =
     (let p = (case find_sub '' (deleted)'' path of Some sp \<Rightarrow> take sp path | None \<Rightarrow> path)
      in if p = [] \<or> hd p \<noteq> CHR ''/'' then ''/'' @ p else p)"

function cgroup_up :: "files \<Rightarrow> string \<Rightarrow> string \<Rightarrow> bool \<Rightarrow> look \<times> u64 \<Rightarrow> look \<times> u64" where
  "cgroup_up fs root path v2 st =
     (let st' = cgroup_dir fs (root @ path) v2 st
      in if path = ''/'' \<or> length path \<le> length (parent_path path) then st'
         else cgroup_up fs root (parent_path path) v2 st')"
  by pat_completeness auto
termination
  by (relation "measure (\<lambda>(fs, root, path, v2, st). length path)") auto

declare cgroup_up.simps [simp del]

definition cgroup_walk :: "files \<Rightarrow> string \<Rightarrow> string \<Rightarrow> bool \<Rightarrow> look \<times> u64 \<Rightarrow> look \<times> u64" where
  "cgroup_walk fs root path v2 st = cgroup_up fs root (walk_start path) v2 st"

text \<open>The cgroup the process is in: the path of the version-2 line and of the memory controller's.\<close>

fun strchr :: "string \<Rightarrow> char \<Rightarrow> nat option" where
  "strchr [] c = None"
| "strchr (d # ds) c = (if d = c then Some 0 else map_option Suc (strchr ds c))"

definition self_line :: "string \<Rightarrow> string option \<times> string option \<Rightarrow> string option \<times> string option" where
  "self_line line paths =
     (case strchr line (CHR '':'') of None \<Rightarrow> paths
      | Some c1 \<Rightarrow> (case strchr (drop (Suc c1) line) (CHR '':'') of None \<Rightarrow> paths
         | Some d \<Rightarrow>
             (let c2 = Suc c1 + d; eol = strchr line (CHR 0x0A)
              in if (case eol of None \<Rightarrow> True | Some e \<Rightarrow> c2 < e)
                 then (let controllers = take d (drop (Suc c1) line);
                           path = (case eol of Some e \<Rightarrow> take (e - c2 - 1) (drop (Suc c2) line)
                                   | None \<Rightarrow> drop (Suc c2) line)
                       in if controllers = [] then (Some path, snd paths)
                          else if find_sub '',memory,'' ('','' @ controllers @ '','') \<noteq> None then (fst paths, Some path)
                          else paths)
                 else paths)))"

function self_lines :: "string \<Rightarrow> string option \<times> string option \<Rightarrow> string option \<times> string option" where
  "self_lines line paths =
     (if line = [] then paths
      else (case strchr line (CHR 0x0A) of
              None \<Rightarrow> self_line line paths
            | Some e \<Rightarrow> self_lines (drop (Suc e) line) (self_line line paths)))"
  by pat_completeness auto
termination
  by (relation "measure (\<lambda>(line, paths). length line)") auto

declare self_lines.simps [simp del]

section \<open>A look at the host\<close>

definition kGiB :: u64 where
  "kGiB = push_bit 30 1"

definition auto_reserve :: "u64 \<Rightarrow> u64" where
  "auto_reserve in_play =
     (let r = min (max (if in_play = - 1 then kGiB else in_play div 100 * 6) kGiB) (4 * kGiB)
      in if in_play \<noteq> - 1 then min r (in_play div 4) else r)"

text \<open>
  \<open>look_at_host\<close>, without the counter and the fields it sets: the figures read, and from them
  (\<open>settle\<close>) the headroom, the reserve and whether the host is short.
\<close>

definition settle :: "config \<Rightarrow> u64 \<Rightarrow> look \<times> u64 \<Rightarrow> look \<times> bool" where
  "settle c mem_total st =
     (let look = fst st; limit_seen = snd st;
          look = (if have_available look then look\<lparr>headroom := available look\<rparr> else look);
          look = (if have_cgroup look \<and> (\<not> have_available look \<or> cgroup_headroom look < headroom look)
                  then look\<lparr>headroom := cgroup_headroom look\<rparr> else look);
          look = look\<lparr>lk_reserve := (if host_reserve_bytes c \<noteq> kAutoReserve then host_reserve_bytes c
                                     else auto_reserve (min mem_total limit_seen))\<rparr>
      in (look, (have_available look \<or> have_cgroup look) \<and> headroom look < lk_reserve look))"

definition host_figures :: "config \<Rightarrow> files \<Rightarrow> look \<times> bool" where
  "host_figures c fs =
     (let info = read_small fs (meminfo_path c) 8192;
          avail = (case info of None \<Rightarrow> None | Some buf \<Rightarrow> find_value buf ''MemAvailable'');
          mem_total = (case (case info of None \<Rightarrow> None | Some buf \<Rightarrow> find_value buf ''MemTotal'') of
                     Some t \<Rightarrow> if t \<noteq> 0 then t else - 1 | None \<Rightarrow> - 1);
          look = (case avail of Some v \<Rightarrow> no_look\<lparr>available := v, have_available := True\<rparr> | None \<Rightarrow> no_look);
          paths = (case read_small fs (cgroup_self c) 8192 of None \<Rightarrow> (None, None)
                   | Some buf \<Rightarrow> self_lines buf (None, None));
          v2_path = (case fst paths of Some p \<Rightarrow> p | None \<Rightarrow> ''/'');
          v1_path = (case snd paths of Some p \<Rightarrow> p | None \<Rightarrow> []);
          st = cgroup_walk fs (cgroup_root c) v2_path True (look, - 1);
          st = (if \<not> have_cgroup (fst st) \<and> (snd paths \<noteq> None \<or> fst paths = None)
                then cgroup_walk fs (cgroup_root c @ ''/memory'') v1_path False st else st)
      in settle c mem_total st)"

section \<open>A figure printed is the figure found\<close>

function dec :: "nat \<Rightarrow> string" where
  "dec n = (if n < 10 then [char_of (48 + n)] else dec (n div 10) @ [char_of (48 + n mod 10)])"
  by pat_completeness auto
termination
  by (relation "measure id") auto

declare dec.simps [simp del]

lemma isdigit_char_of: "d < (10 :: nat) \<Longrightarrow> isdigit (char_of (48 + d))"
  by (simp add: isdigit_def)

lemma dec_isdigit: "list_all isdigit (dec n)"
proof (induction n rule: dec.induct)
  case (1 n)
  then show ?case by (cases "n < 10") (auto simp: dec.simps [of n] isdigit_char_of)
qed

lemma dec_not_Nil [simp]: "dec n \<noteq> []"
  by (simp add: dec.simps)

lemma decimal_append: "decimal acc (xs @ ys) = decimal (decimal acc xs) ys"
  by (induction acc xs rule: decimal.induct) auto

lemma decimal_dec: "decimal 0 (dec n) = n"
proof (induction n rule: dec.induct)
  case (1 n)
  then show ?case by (cases "n < 10") (auto simp: dec.simps [of n] decimal_append)
qed

lemma isdigit_not_blank: "isdigit c \<Longrightarrow> \<not> isspace c \<and> c \<noteq> CHR ''-'' \<and> c \<noteq> CHR ''+''"
  by (auto simp: isdigit_def isspace_def)

lemma takeWhile_dec: "\<not> isdigit c \<Longrightarrow> takeWhile isdigit (dec n @ c # r) = dec n \<and> dropWhile isdigit (dec n @ c # r) = c # r"
  using dec_isdigit [of n] by (simp add: takeWhile_append dropWhile_append list_all_iff)

lemma hd_dec: "isdigit (hd (dec n))"
  using dec_isdigit [of n] dec_not_Nil [of n] by (cases "dec n") auto

lemma strtoull_dec:
  assumes "n < 2 ^ 64" "\<not> isdigit c"
  shows "strtoull (dec n @ c # r) = (of_nat n, c # r)"
proof -
  obtain d ds where d: "dec n = d # ds" by (cases "dec n") auto
  have "isdigit d" using hd_dec [of n] d by simp
  then have nb: "\<not> isspace d" "d \<noteq> CHR ''-''" "d \<noteq> CHR ''+''" using isdigit_not_blank by auto
  have "dropWhile isspace (dec n @ c # r) = dec n @ c # r" using nb d by simp
  then show ?thesis
    using nb takeWhile_dec [OF assms(2), of n r] assms(1) decimal_dec [of n] by (simp add: strtoull_def d)
qed

text \<open>
  A line of \<^verbatim>\<open>/proc/meminfo\<close>: the key, a colon, blanks, the figure in kB. The keys are words: no
  blank, colon or end of line in them.
\<close>

definition info_line :: "string \<times> nat \<times> nat \<Rightarrow> string" where
  "info_line e = (case e of (key, pad, n) \<Rightarrow> key @ '':'' @ replicate pad (CHR '' '') @ dec n @ '' kB'' @ [CHR 0x0A])"

definition word_key :: "string \<Rightarrow> bool" where
  "word_key key \<longleftrightarrow> key \<noteq> [] \<and> list_all (\<lambda>c. c \<noteq> CHR '':'' \<and> c \<noteq> CHR '' '' \<and> c \<noteq> CHR 0x0A) key"

lemma value_on_info_line:
  assumes "n < 2 ^ 54"
  shows "value_on_line (replicate pad (CHR '' '') @ dec n @ '' kB'' @ r) = Some (of_nat (n * 1024))"
proof -
  let ?blank = "\<lambda>c. c = CHR '' '' \<or> c = CHR 0x09"
  obtain d ds where d: "dec n = d # ds" by (cases "dec n") auto
  have "isdigit d" using hd_dec [of n] d by simp
  then have "\<not> ?blank d" by (auto simp: isdigit_def)
  then have p: "dropWhile ?blank (replicate pad (CHR '' '') @ dec n @ '' kB'' @ r) = dec n @ '' kB'' @ r"
    by (simp add: dropWhile_append d)
  have "strtoull (dec n @ '' kB'' @ r) = (of_nat n, '' kB'' @ r)"
    using strtoull_dec [of n "CHR '' ''" "''kB'' @ r"] assms by (simp add: isdigit_def)
  then show ?thesis
    unfolding value_on_line_def p Let_def by (simp add: starts_with_def d)
qed

lemma word_key_line:
  assumes "word_key key" "word_key key'"
  shows "starts_with key (key' @ '':'' @ r) \<and>
      (case drop (length key) (key' @ '':'' @ r) of c # _ \<Rightarrow> c = CHR '':'' \<or> c = CHR '' '' | [] \<Rightarrow> False)
    \<longleftrightarrow> key' = key"
proof (cases "length key < length key'")
  case True
  have "drop (length key) (key' @ '':'' @ r) = key' ! length key # drop (Suc (length key)) key' @ '':'' @ r"
    using True by (simp add: Cons_nth_drop_Suc [symmetric])
  moreover have "key' ! length key \<noteq> CHR '':''" "key' ! length key \<noteq> CHR '' ''"
    using assms(2) True by (auto simp: word_key_def list_all_length)
  ultimately show ?thesis using True by auto
next
  case False
  show ?thesis
  proof (cases "length key = length key'")
    case True then show ?thesis by (auto simp: starts_with_def)
  next
    case neq: False
    with False have lt: "length key' < length key" by simp
    have "starts_with key (key' @ '':'' @ r) \<Longrightarrow> key ! length key' = CHR '':''"
    proof -
      assume "starts_with key (key' @ '':'' @ r)"
      then have "take (length key) (key' @ '':'' @ r) ! length key' = key ! length key'"
        by (simp add: starts_with_def)
      then show ?thesis using lt by (simp add: nth_append)
    qed
    moreover have "key ! length key' \<noteq> CHR '':''" using assms(1) lt by (auto simp: word_key_def list_all_length)
    ultimately show ?thesis using lt by auto
  qed
qed

lemma skip_info_line:
  assumes "word_key (fst e)"
  shows "dropWhile (\<lambda>c. c \<noteq> CHR 0x0A) (info_line e @ r) = CHR 0x0A # r"
proof -
  obtain key pad n where e: "e = (key, pad, n)" by (cases e)
  have k: "\<forall>c \<in> set key. c \<noteq> CHR 0x0A" using assms by (auto simp: e word_key_def list_all_iff)
  have d: "\<forall>c \<in> set (dec n). c \<noteq> CHR 0x0A"
    using dec_isdigit [of n] isdigit_not_blank by (auto simp: list_all_iff isspace_def)
  define body where "body = key @ '':'' @ replicate pad (CHR '' '') @ dec n @ '' kB''"
  have "\<forall>c \<in> set body. c \<noteq> CHR 0x0A"
    using k d by (simp add: body_def ball_Un)
  then have "dropWhile (\<lambda>c. c \<noteq> CHR 0x0A) (body @ CHR 0x0A # r) = CHR 0x0A # r"
    by (subst dropWhile_append2) auto
  then show ?thesis by (simp add: info_line_def e body_def)
qed

lemma find_value_info:
  assumes "word_key key" "\<forall>e \<in> set es. word_key (fst e) \<and> snd (snd e) < 2 ^ 54"
  shows "find_value (concat (map info_line es)) key = map_option (\<lambda>(pad, n). of_nat (n * 1024)) (map_of es key)"
  using assms(2)
proof (induction es)
  case Nil then show ?case by (simp add: find_value.simps)
next
  case (Cons e es)
  obtain key' pad n where e: "e = (key', pad, n)" by (cases e)
  let ?rest = "concat (map info_line es)"
  have wk: "word_key key'" and n: "n < 2 ^ 54" using Cons.prems by (auto simp: e)
  define body where "body = replicate pad (CHR '' '') @ dec n @ '' kB'' @ CHR 0x0A # ?rest"
  have line: "info_line e @ ?rest = key' @ '':'' @ body" by (simp add: info_line_def e body_def)
  have hit: "(starts_with key (key' @ '':'' @ body) \<and>
      (case drop (length key) (key' @ '':'' @ body) of c # _ \<Rightarrow> c = CHR '':'' \<or> c = CHR '' '' | [] \<Rightarrow> False)) = (key' = key)"
    by (rule word_key_line [OF assms(1) wk])
  have nl: "dropWhile (\<lambda>c. c \<noteq> CHR 0x0A) (key' @ '':'' @ body) = CHR 0x0A # ?rest"
    using skip_info_line [of e ?rest] wk line by (simp add: e)
  have "find_value (key' @ '':'' @ body) key =
      (if key' = key then value_on_line (drop (length key + 1) (key' @ '':'' @ body)) else find_value ?rest key)"
    unfolding find_value.simps [of "key' @ '':'' @ body"] hit nl by simp
  moreover have "key' = key \<Longrightarrow> value_on_line (drop (length key + 1) (key' @ '':'' @ body)) = Some (of_nat (n * 1024))"
    using value_on_info_line [OF n, of pad "CHR 0x0A # ?rest"] by (simp add: body_def)
  ultimately show ?case using Cons line by (simp add: e)
qed

section \<open>The reserve and the headroom\<close>

lemma auto_reserve_bounds:
  "auto_reserve x \<le> 4 * kGiB"
  "x \<noteq> - 1 \<Longrightarrow> auto_reserve x \<le> x div 4"
  "4 * kGiB \<le> x \<Longrightarrow> kGiB \<le> auto_reserve x"
proof -
  show "auto_reserve x \<le> 4 * kGiB" by (simp add: auto_reserve_def Let_def min.coboundedI1)
  show "x \<noteq> - 1 \<Longrightarrow> auto_reserve x \<le> x div 4" by (auto simp: auto_reserve_def Let_def)
  assume x: "4 * kGiB \<le> x"
  have "kGiB \<le> x div 4"
  proof -
    have g: "unat kGiB = 2 ^ 30" by (simp add: kGiB_def)
    have "unat (4 * kGiB) = 4 * 2 ^ 30" by (simp add: kGiB_def)
    with x have "4 * 2 ^ 30 \<le> unat x" by (simp add: u64_simps)
    then have "2 ^ 30 \<le> unat x div 4" by simp
    then show ?thesis using g by (simp add: u64_simps unat_div)
  qed
  moreover have "kGiB \<le> 4 * kGiB" by (simp add: kGiB_def)
  ultimately show "kGiB \<le> auto_reserve x" by (simp add: auto_reserve_def Let_def)
qed

text \<open>The walk up the cgroups only ever lowers the headroom and the limit, and never touches the rest.\<close>

definition narrowed :: "look \<times> u64 \<Rightarrow> look \<times> u64 \<Rightarrow> bool" where
  "narrowed st st' \<longleftrightarrow> (have_cgroup (fst st) \<longrightarrow> have_cgroup (fst st') \<and> cgroup_headroom (fst st') \<le> cgroup_headroom (fst st)) \<and>
     snd st' \<le> snd st \<and> have_available (fst st') = have_available (fst st) \<and> available (fst st') = available (fst st)"

lemma narrowed_refl [simp]: "narrowed st st"
  by (simp add: narrowed_def)

lemma narrowed_trans: "narrowed a b \<Longrightarrow> narrowed b c \<Longrightarrow> narrowed a c"
  by (auto simp: narrowed_def)

lemma cgroup_dir_narrowed: "narrowed st (cgroup_dir fs dir v2 st)"
  by (auto simp: narrowed_def cgroup_dir_def Let_def split: option.splits prod.splits)

lemma cgroup_up_narrowed: "narrowed st (cgroup_up fs root path v2 st)"
proof (induction fs root path v2 st rule: cgroup_up.induct)
  case (1 fs root path v2 st)
  then show ?case
    using cgroup_dir_narrowed [of st fs "root @ path" v2]
    by (subst cgroup_up.simps) (auto simp: Let_def intro: narrowed_trans)
qed

lemma cgroup_walk_narrowed: "narrowed st (cgroup_walk fs root path v2 st)"
  by (simp add: cgroup_walk_def cgroup_up_narrowed)

text \<open>Every directory on the way up is looked at: the walk ends at the root.\<close>

lemma rfind_slash_first: "s \<noteq> [] \<Longrightarrow> hd s = CHR ''/'' \<Longrightarrow> \<exists>i < length s. rfind_slash s = Some i"
  by (cases s) (auto split: option.splits intro: rfind_slash_less)

lemma parent_path_shorter:
  assumes "path \<noteq> []" "hd path = CHR ''/''" "path \<noteq> ''/''"
  shows "length (parent_path path) < length path \<and> parent_path path \<noteq> [] \<and> hd (parent_path path) = CHR ''/''"
proof -
  obtain i where i: "rfind_slash path = Some i" "i < length path"
    using rfind_slash_first assms(1,2) by blast
  have "1 < length path" using assms by (cases path) auto
  then show ?thesis using i assms by (cases i; cases path) (auto simp: parent_path_def)
qed

text \<open>Short is: some figure that could be read is below the reserve.\<close>

lemma host_figures_settle: "\<exists>mem_total st. host_figures c fs = settle c mem_total st"
  unfolding host_figures_def Let_def by blast

lemma settle_low:
  assumes "settle c mem_total st = (l, low)"
  shows "low \<longleftrightarrow> have_available l \<and> available l < lk_reserve l \<or> have_cgroup l \<and> cgroup_headroom l < lk_reserve l"
    and "have_available l \<Longrightarrow> headroom l \<le> available l"
    and "have_cgroup l \<Longrightarrow> headroom l \<le> cgroup_headroom l"
    and "host_reserve_bytes c \<noteq> kAutoReserve \<Longrightarrow> lk_reserve l = host_reserve_bytes c"
    and "host_reserve_bytes c = kAutoReserve \<Longrightarrow> lk_reserve l \<le> 4 * kGiB"
  using assms auto_reserve_bounds(1) by (auto simp: settle_def Let_def split: if_splits)

lemma host_figures_low:
  assumes "host_figures c fs = (l, low)"
  shows "low \<longleftrightarrow> have_available l \<and> available l < lk_reserve l \<or> have_cgroup l \<and> cgroup_headroom l < lk_reserve l"
    and "have_available l \<Longrightarrow> headroom l \<le> available l"
    and "have_cgroup l \<Longrightarrow> headroom l \<le> cgroup_headroom l"
    and "host_reserve_bytes c \<noteq> kAutoReserve \<Longrightarrow> lk_reserve l = host_reserve_bytes c"
    and "host_reserve_bytes c = kAutoReserve \<Longrightarrow> lk_reserve l \<le> 4 * kGiB"
  using settle_low host_figures_settle assms by metis+

section \<open>Properties\<close>

text \<open>
  In a text of \<^verbatim>\<open>key:   n kB\<close> lines, \<open>find_value\<close> finds for every key the figure of the first line
  with that key, in bytes, and nothing for a key that has no line: a key that is the beginning of
  another is not mistaken for it.
\<close>

theorem figure_found:
  assumes "word_key key" "\<forall>e \<in> set es. word_key (fst e) \<and> snd (snd e) < 2 ^ 54"
  shows "find_value (concat (map info_line es)) key = map_option (\<lambda>(pad, n). of_nat (n * 1024)) (map_of es key)"
  using assms by (rule find_value_info)

theorem figure_found_witness:
  "find_value (concat (map info_line [(''MemTotal'', 8, 16000000), (''Mem'', 1, 7), (''MemAvailable'', 4, 4)])) ''Mem'' = Some 7168"
  by (subst figure_found) (simp_all add: word_key_def)



end
