(* ===== verification/Std_Map.thy ===== *)
theory Std_Map
  imports Vgpu_Prelude
begin

text \<open>
  \<^verbatim>\<open>std::map\<close> with the operations the memory manager uses: a list of entries in strictly
  increasing order of key. \<^verbatim>\<open>std::prev(m.upper_bound(k))\<close>, the idiom that finds the entry an
  address can lie in, is \<open>om_floor\<close>; \<^verbatim>\<open>m.lower_bound(k)\<close> is \<open>om_lower_bound\<close>.
  The interface is the locale \<open>ordered_table\<close>, interpreted below on these functions.
\<close>

section \<open>Operations\<close>

type_synonym ('k, 'v) omap = "('k \<times> 'v) list"

definition om_inv :: "('k::linorder, 'v) omap \<Rightarrow> bool" where
  "om_inv m = sorted_wrt (<) (map fst m)"

abbreviation om_find :: "('k, 'v) omap \<Rightarrow> 'k \<Rightarrow> 'v option" where
  "om_find \<equiv> map_of"

abbreviation om_keys :: "('k, 'v) omap \<Rightarrow> 'k set" where
  "om_keys m \<equiv> dom (map_of m)"

text \<open>\<^verbatim>\<open>m[k] = v\<close>: replaces the entry at \<open>k\<close> or puts a new one in its place.\<close>

fun om_set :: "'k::linorder \<Rightarrow> 'v \<Rightarrow> ('k, 'v) omap \<Rightarrow> ('k, 'v) omap" where
  "om_set k v [] = [(k, v)]"
| "om_set k v ((a, w) # m) =
     (if k < a then (k, v) # (a, w) # m
      else if k = a then (k, v) # m
      else (a, w) # om_set k v m)"

definition om_erase :: "'k \<Rightarrow> ('k, 'v) omap \<Rightarrow> ('k, 'v) omap" where
  "om_erase k m = filter (\<lambda>e. fst e \<noteq> k) m"

text \<open>\<^verbatim>\<open>m.emplace(k, v)\<close>: does nothing when the key is there.\<close>

definition om_emplace :: "'k::linorder \<Rightarrow> 'v \<Rightarrow> ('k, 'v) omap \<Rightarrow> ('k, 'v) omap" where
  "om_emplace k v m = (case om_find m k of None \<Rightarrow> om_set k v m | Some _ \<Rightarrow> m)"

fun om_floor :: "('k::linorder, 'v) omap \<Rightarrow> 'k \<Rightarrow> ('k \<times> 'v) option" where
  "om_floor [] k = None"
| "om_floor ((a, v) # m) k =
     (if a \<le> k then (case om_floor m k of None \<Rightarrow> Some (a, v) | Some e \<Rightarrow> Some e) else None)"

fun om_lower_bound :: "('k::linorder, 'v) omap \<Rightarrow> 'k \<Rightarrow> ('k \<times> 'v) option" where
  "om_lower_bound [] k = None"
| "om_lower_bound ((a, v) # m) k = (if k \<le> a then Some (a, v) else om_lower_bound m k)"

text \<open>\<^verbatim>\<open>std::prev(m.lower_bound(k))\<close>: the entry before the first one at or above \<open>k\<close>.\<close>

fun om_before :: "('k::linorder, 'v) omap \<Rightarrow> 'k \<Rightarrow> ('k \<times> 'v) option" where
  "om_before [] k = None"
| "om_before ((a, v) # m) k =
     (if a < k then (case om_before m k of None \<Rightarrow> Some (a, v) | Some e \<Rightarrow> Some e) else None)"

section \<open>The interface\<close>

locale ordered_table =
  fixes table_inv :: "'m \<Rightarrow> bool"
    and find :: "'m \<Rightarrow> 'k::linorder \<Rightarrow> 'v option"
    and put :: "'k \<Rightarrow> 'v \<Rightarrow> 'm \<Rightarrow> 'm"
    and erase :: "'k \<Rightarrow> 'm \<Rightarrow> 'm"
    and floor :: "'m \<Rightarrow> 'k \<Rightarrow> ('k \<times> 'v) option"
  assumes inv_put: "table_inv m \<Longrightarrow> table_inv (put k v m)"
    and inv_erase: "table_inv m \<Longrightarrow> table_inv (erase k m)"
    and find_put: "table_inv m \<Longrightarrow> find (put k v m) = (find m)(k \<mapsto> v)"
    and find_erase: "table_inv m \<Longrightarrow> find (erase k m) = (find m)(k := None)"
    and floor_Some: "table_inv m \<Longrightarrow> floor m k = Some (a, v) \<longleftrightarrow>
      find m a = Some v \<and> a \<le> k \<and> (\<forall>b \<in> dom (find m). b \<le> k \<longrightarrow> b \<le> a)"
    and floor_None: "table_inv m \<Longrightarrow> floor m k = None \<longleftrightarrow> (\<forall>b \<in> dom (find m). k < b)"
begin

lemma floor_put_above:
  assumes "table_inv m" "\<forall>b \<in> dom (find m). b < n"
  shows "floor (put n v m) k = (if n \<le> k then Some (n, v) else floor m k)"
proof (cases "n \<le> k")
  case True
  have "b \<le> n" if "find m b = Some y" for b y
    using assms(2) that by (auto intro!: less_imp_le)
  then have "floor (put n v m) k = Some (n, v)"
    using assms(1) True by (auto simp: floor_Some [OF inv_put] find_put)
  with True show ?thesis by simp
next
  case False
  show ?thesis
  proof (cases "floor m k")
    case None
    then have "\<forall>b \<in> dom (find m). k < b" using assms(1) floor_None by blast
    with False assms have "floor (put n v m) k = None"
      by (auto simp: floor_None [OF inv_put] find_put)
    with None False show ?thesis by simp
  next
    case (Some e)
    obtain a w where e: "e = (a, w)" by force
    with Some assms(1) have "find m a = Some w" "a \<le> k" "\<forall>b \<in> dom (find m). b \<le> k \<longrightarrow> b \<le> a"
      using floor_Some by blast+
    with False assms have "floor (put n v m) k = Some (a, w)"
      by (auto simp: floor_Some [OF inv_put] find_put)
    with Some e False show ?thesis by simp
  qed
qed

lemma floor_erase_other:
  assumes "table_inv m" "floor m k = Some (a, v)" "d \<noteq> a"
  shows "floor (erase d m) k = Some (a, v)"
  using assms by (auto simp: floor_Some [OF inv_erase] floor_Some find_erase)

lemma floor_find: "table_inv m \<Longrightarrow> floor m k = Some (a, v) \<Longrightarrow> find m a = Some v \<and> a \<le> k"
  by (simp add: floor_Some)

end

section \<open>The operations meet the interface\<close>

lemma om_inv_Nil [simp]: "om_inv []"
  by (simp add: om_inv_def)

lemma om_inv_Cons: "om_inv ((a, v) # m) \<longleftrightarrow> (\<forall>b \<in> fst ` set m. a < b) \<and> om_inv m"
  by (auto simp: om_inv_def)

lemma om_inv_distinct: "om_inv m \<Longrightarrow> distinct (map fst m)"
  by (simp add: om_inv_def strict_sorted_iff)

lemma fst_set_om_set: "fst ` set (om_set k v m) = insert k (fst ` set m)"
  by (induction k v m rule: om_set.induct) auto

lemma om_inv_set: "om_inv m \<Longrightarrow> om_inv (om_set k v m)"
  by (induction k v m rule: om_set.induct) (auto simp: om_inv_Cons fst_set_om_set)

lemma om_inv_erase: "om_inv m \<Longrightarrow> om_inv (om_erase k m)"
  by (induction m) (auto simp: om_inv_Cons om_erase_def)

lemma om_find_set [simp]: "om_find (om_set k v m) = (om_find m)(k \<mapsto> v)"
  by (induction k v m rule: om_set.induct) auto

lemma om_find_erase [simp]: "om_find (om_erase k m) = (om_find m)(k := None)"
  by (induction m) (auto simp: om_erase_def)

lemma om_keys_iff: "a \<in> om_keys m \<longleftrightarrow> a \<in> fst ` set m"
  by (simp add: dom_map_of_conv_image_fst)

lemma om_floor_None_fst: "om_inv m \<Longrightarrow> om_floor m k = None \<longleftrightarrow> (\<forall>b \<in> fst ` set m. k < b)"
proof (induction m k rule: om_floor.induct)
  case (2 a v m k)
  then show ?case
    by (cases "a \<le> k") (force simp: om_inv_Cons not_le split: option.splits)+
qed simp

lemma om_floor_None: "om_inv m \<Longrightarrow> om_floor m k = None \<longleftrightarrow> (\<forall>b \<in> om_keys m. k < b)"
  by (simp add: om_floor_None_fst dom_map_of_conv_image_fst)

lemma om_floor_Some_fst:
  "om_inv m \<Longrightarrow> om_floor m k = Some (a, v) \<Longrightarrow>
    (a, v) \<in> set m \<and> a \<le> k \<and> (\<forall>b \<in> fst ` set m. b \<le> k \<longrightarrow> b \<le> a)"
proof (induction m k rule: om_floor.induct)
  case (2 c w m k)
  then have inv: "om_inv m" "\<forall>b \<in> fst ` set m. c < b" and ck: "c \<le> k"
    by (auto simp: om_inv_Cons split: if_splits)
  show ?case
  proof (cases "om_floor m k")
    case None
    then have "\<forall>b \<in> fst ` set m. k < b" using inv(1) om_floor_None_fst by blast
    with None 2 ck show ?thesis by auto
  next
    case (Some e)
    with 2 ck have f: "om_floor m k = Some (a, v)" by simp
    with 2 inv(1) ck have ih: "(a, v) \<in> set m" "a \<le> k" "\<forall>b \<in> fst ` set m. b \<le> k \<longrightarrow> b \<le> a"
      by auto
    then have "c < a" using inv(2) by force
    with ih show ?thesis by auto
  qed
qed simp

lemma om_floor_SomeD:
  "om_inv m \<Longrightarrow> om_floor m k = Some (a, v) \<Longrightarrow>
    om_find m a = Some v \<and> a \<le> k \<and> (\<forall>b \<in> om_keys m. b \<le> k \<longrightarrow> b \<le> a)"
  using om_floor_Some_fst [of m k a v] om_inv_distinct [of m]
  by (simp add: dom_map_of_conv_image_fst)

lemma om_floor_Some:
  assumes "om_inv m"
  shows "om_floor m k = Some (a, v) \<longleftrightarrow>
    om_find m a = Some v \<and> a \<le> k \<and> (\<forall>b \<in> om_keys m. b \<le> k \<longrightarrow> b \<le> a)"
proof
  assume r: "om_find m a = Some v \<and> a \<le> k \<and> (\<forall>b \<in> om_keys m. b \<le> k \<longrightarrow> b \<le> a)"
  then have a: "a \<in> om_keys m" "\<not> k < a" by auto
  then have "om_floor m k \<noteq> None" using om_floor_None [OF assms, of k] by blast
  then obtain b w where f: "om_floor m k = Some (b, w)" by (metis not_None_eq surj_pair)
  then have b: "om_find m b = Some w" "b \<le> k" "\<forall>c \<in> om_keys m. c \<le> k \<longrightarrow> c \<le> b"
    using om_floor_SomeD [OF assms f] by blast+
  then have "b \<in> om_keys m" by auto
  with r a b have "a = b" by (meson antisym not_le)
  with r f b(1) show "om_floor m k = Some (a, v)" by simp
next
  assume "om_floor m k = Some (a, v)"
  then show "om_find m a = Some v \<and> a \<le> k \<and> (\<forall>b \<in> om_keys m. b \<le> k \<longrightarrow> b \<le> a)"
    by (rule om_floor_SomeD [OF assms])
qed

interpretation om: ordered_table om_inv om_find om_set om_erase om_floor
  by unfold_locales (auto simp: om_inv_set om_inv_erase om_floor_Some om_floor_None)

lemma om_before_None_fst: "om_inv m \<Longrightarrow> om_before m k = None \<longleftrightarrow> (\<forall>b \<in> fst ` set m. k \<le> b)"
proof (induction m k rule: om_before.induct)
  case (2 a v m k)
  then show ?case
    by (cases "a < k") (force simp: om_inv_Cons not_less split: option.splits)+
qed simp

lemma om_before_None: "om_inv m \<Longrightarrow> om_before m k = None \<longleftrightarrow> (\<forall>b \<in> om_keys m. k \<le> b)"
  by (simp add: om_before_None_fst dom_map_of_conv_image_fst)

lemma om_before_Some_fst:
  "om_inv m \<Longrightarrow> om_before m k = Some (a, v) \<Longrightarrow>
    (a, v) \<in> set m \<and> a < k \<and> (\<forall>b \<in> fst ` set m. b < k \<longrightarrow> b \<le> a)"
proof (induction m k rule: om_before.induct)
  case (2 c w m k)
  then have inv: "om_inv m" "\<forall>b \<in> fst ` set m. c < b" and ck: "c < k"
    by (auto simp: om_inv_Cons split: if_splits)
  show ?case
  proof (cases "om_before m k")
    case None
    then have "\<forall>b \<in> fst ` set m. k \<le> b" using inv(1) om_before_None_fst by blast
    with None 2 ck show ?thesis by auto
  next
    case (Some e)
    with 2 ck have f: "om_before m k = Some (a, v)" by simp
    with 2 inv(1) ck have ih: "(a, v) \<in> set m" "a < k" "\<forall>b \<in> fst ` set m. b < k \<longrightarrow> b \<le> a"
      by auto
    then have "c < a" using inv(2) by force
    with ih show ?thesis by auto
  qed
qed simp

lemma om_before_SomeD:
  "om_inv m \<Longrightarrow> om_before m k = Some (a, v) \<Longrightarrow>
    om_find m a = Some v \<and> a < k \<and> (\<forall>b \<in> om_keys m. b < k \<longrightarrow> b \<le> a)"
  using om_before_Some_fst [of m k a v] om_inv_distinct [of m]
  by (simp add: dom_map_of_conv_image_fst)

lemma om_lower_bound_None_fst:
  "om_inv m \<Longrightarrow> om_lower_bound m k = None \<longleftrightarrow> (\<forall>b \<in> fst ` set m. b < k)"
  by (induction m k rule: om_lower_bound.induct) (auto simp: om_inv_Cons)

lemma om_lower_bound_None: "om_inv m \<Longrightarrow> om_lower_bound m k = None \<longleftrightarrow> (\<forall>b \<in> om_keys m. b < k)"
  by (simp add: om_lower_bound_None_fst dom_map_of_conv_image_fst)

lemma om_lower_bound_Some_fst:
  "om_inv m \<Longrightarrow> om_lower_bound m k = Some (a, v) \<Longrightarrow>
    (a, v) \<in> set m \<and> k \<le> a \<and> (\<forall>b \<in> fst ` set m. k \<le> b \<longrightarrow> a \<le> b)"
proof (induction m k rule: om_lower_bound.induct)
  case (2 c w m k)
  then have inv: "om_inv m" "\<forall>b \<in> fst ` set m. c < b" by (auto simp: om_inv_Cons)
  show ?case
  proof (cases "k \<le> c")
    case True
    with 2 inv show ?thesis by (auto intro: less_imp_le)
  next
    case False
    with 2 inv show ?thesis by auto
  qed
qed simp

lemma om_lower_bound_SomeD:
  "om_inv m \<Longrightarrow> om_lower_bound m k = Some (a, v) \<Longrightarrow>
    om_find m a = Some v \<and> k \<le> a \<and> (\<forall>b \<in> om_keys m. k \<le> b \<longrightarrow> a \<le> b)"
  using om_lower_bound_Some_fst [of m k a v] om_inv_distinct [of m]
  by (simp add: dom_map_of_conv_image_fst)

section \<open>Sums over a table\<close>

lemma om_find_None_fst: "om_find m k = None \<longleftrightarrow> k \<notin> fst ` set m"
  by (rule map_of_eq_None_iff)

lemma sum_om_set_new:
  "om_find m k = None \<Longrightarrow> sum_list (map f (om_set k v m)) = (f (k, v) :: nat) + sum_list (map f m)"
  by (induction k v m rule: om_set.induct) (auto split: if_splits)

lemma sum_om_emplace_new:
  "om_find m k = None \<Longrightarrow> sum_list (map f (om_emplace k v m)) = (f (k, v) :: nat) + sum_list (map f m)"
  by (simp add: om_emplace_def sum_om_set_new)

lemma om_erase_absent: "om_find m k = None \<Longrightarrow> om_erase k m = m"
  unfolding om_erase_def by (intro filter_True) (auto simp: om_find_None_fst)

lemma sum_om_erase:
  "om_inv m \<Longrightarrow> om_find m k = Some v \<Longrightarrow> sum_list (map f m) = (f (k, v) :: nat) + sum_list (map f (om_erase k m))"
proof (induction m)
  case (Cons e m)
  obtain a w where e: "e = (a, w)" by (cases e)
  show ?case
  proof (cases "a = k")
    case True
    then have "om_find m k = None" using Cons.prems(1) e by (auto simp: om_inv_Cons om_find_None_fst)
    then have "om_erase k m = m" by (rule om_erase_absent)
    then show ?thesis using True Cons.prems(2) e by (simp add: om_erase_def)
  next
    case False
    then show ?thesis using Cons e by (auto simp: om_inv_Cons om_erase_def)
  qed
qed simp

lemma sum_om_set_old:
  "om_inv m \<Longrightarrow> om_find m k = Some v \<Longrightarrow>
    sum_list (map f (om_set k w m)) + f (k, v) = sum_list (map f m) + (f (k, w) :: nat)"
proof (induction m)
  case (Cons e m)
  obtain a u where e: "e = (a, u)" by (cases e)
  show ?case
  proof (cases "a = k")
    case True
    then show ?thesis using Cons.prems(2) e by simp
  next
    case False
    then have f: "om_find m k = Some v" using Cons.prems(2) e by simp
    then have "k \<in> fst ` set m" using om_find_None_fst [of m k] by simp
    then have "a < k" using Cons.prems(1) e by (auto simp: om_inv_Cons)
    moreover have "om_inv m" using Cons.prems(1) e by (simp add: om_inv_Cons)
    ultimately show ?thesis using Cons.IH f e False not_less_iff_gr_or_eq [of k a] by simp
  qed
qed simp

lemma sum_om_set_same:
  "om_inv m \<Longrightarrow> om_find m k = Some v \<Longrightarrow> f (k, w) = f (k, v) \<Longrightarrow>
    sum_list (map f (om_set k w m)) = (sum_list (map f m) :: nat)"
  using sum_om_set_old [of m k v f w] by simp

lemma length_om_emplace_new: "om_find m k = None \<Longrightarrow> length (om_emplace k v m) = Suc (length m)"
  using sum_om_emplace_new [of m k "\<lambda>_. 1" v] by (simp add: sum_list_triv)

lemma length_om_set_old: "om_inv m \<Longrightarrow> om_find m k = Some v \<Longrightarrow> length (om_set k w m) = length m"
  using sum_om_set_same [of m k v "\<lambda>_. 1" w] by (simp add: sum_list_triv)

lemma length_om_erase_le: "length (om_erase k m) \<le> length m"
  by (simp add: om_erase_def)

lemma sum_om_ge: "om_find m k = Some v \<Longrightarrow> (f (k, v) :: nat) \<le> sum_list (map f m)"
  by (induction m) (auto split: if_splits)

section \<open>Tables of address ranges\<close>

text \<open>
  The manager's tables map a base address to a record with a size. The test the source repeats
  (the entry at or below an address, and \<^verbatim>\<open>addr - base < size\<close>) finds the entry whose range
  holds the address exactly when the ranges do not overlap and do not wrap.
\<close>

definition om_hit :: "('v \<Rightarrow> u64) \<Rightarrow> (u64, 'v) omap \<Rightarrow> u64 \<Rightarrow> (u64 \<times> 'v) option" where
  "om_hit sz m addr = (case om_floor m addr of
     None \<Rightarrow> None
   | Some (b, v) \<Rightarrow> if addr - b < sz v then Some (b, v) else None)"

definition in_range :: "u64 \<Rightarrow> u64 \<Rightarrow> u64 \<Rightarrow> bool" where
  "in_range b n a \<longleftrightarrow> unat b \<le> unat a \<and> unat a < unat b + unat n"

definition ranges_ok :: "('v \<Rightarrow> u64) \<Rightarrow> (u64, 'v) omap \<Rightarrow> bool" where
  "ranges_ok sz m \<longleftrightarrow> om_inv m \<and>
     (\<forall>b v. om_find m b = Some v \<longrightarrow> unat b + unat (sz v) \<le> 2 ^ 64) \<and>
     (\<forall>b v c w. om_find m b = Some v \<longrightarrow> om_find m c = Some w \<longrightarrow> b < c \<longrightarrow>
        unat b + unat (sz v) \<le> unat c)"

lemma ranges_okD:
  assumes "ranges_ok sz m"
  shows "om_inv m" "om_find m b = Some v \<Longrightarrow> unat b + unat (sz v) \<le> 2 ^ 64"
    "om_find m b = Some v \<Longrightarrow> om_find m c = Some w \<Longrightarrow> b < c \<Longrightarrow> unat b + unat (sz v) \<le> unat c"
  using assms unfolding ranges_ok_def by blast+

lemma om_hit_iff:
  assumes "ranges_ok sz m"
  shows "om_hit sz m addr = Some (b, v) \<longleftrightarrow> om_find m b = Some v \<and> in_range b (sz v) addr"
proof
  assume "om_hit sz m addr = Some (b, v)"
  then have "om_floor m addr = Some (b, v)" "addr - b < sz v"
    by (auto simp: om_hit_def split: option.splits if_splits)
  then show "om_find m b = Some v \<and> in_range b (sz v) addr"
    using ranges_okD [OF assms] om_floor_SomeD offset_test64 unfolding in_range_def by metis
next
  assume r: "om_find m b = Some v \<and> in_range b (sz v) addr"
  have "om_floor m addr = Some (b, v)"
  proof -
    have "c \<le> b" if c: "om_find m c = Some w" "c \<le> addr" for c w
    proof (rule ccontr)
      assume "\<not> c \<le> b"
      then have "unat b + unat (sz v) \<le> unat c"
        using ranges_okD(3) [OF assms, of b v c w] r c(1) by simp
      with r c(2) show False by (simp add: in_range_def u64_simps)
    qed
    moreover have "b \<le> addr" using r by (simp add: in_range_def u64_simps)
    ultimately show ?thesis using r ranges_okD(1) [OF assms] by (auto simp: om_floor_Some)
  qed
  moreover have "addr - b < sz v"
    using r ranges_okD(2) [OF assms] offset_test64 unfolding in_range_def by blast
  ultimately show "om_hit sz m addr = Some (b, v)" by (simp add: om_hit_def)
qed

lemma om_hit_None:
  assumes "ranges_ok sz m"
  shows "om_hit sz m addr = None \<longleftrightarrow> (\<forall>b v. om_find m b = Some v \<longrightarrow> \<not> in_range b (sz v) addr)"
  using om_hit_iff [OF assms] by (metis not_None_eq surj_pair)

lemma ranges_ok_Nil [simp]: "ranges_ok sz []"
  by (simp add: ranges_ok_def)

lemma ranges_ok_erase: "ranges_ok sz m \<Longrightarrow> ranges_ok sz (om_erase k m)"
  unfolding ranges_ok_def by (auto simp: om_inv_erase)

lemma ranges_ok_set_same:
  assumes "ranges_ok sz m" "om_find m b = Some v" "sz w = sz v"
  shows "ranges_ok sz (om_set b w m)"
  using assms unfolding ranges_ok_def by (auto simp: om_inv_set split: if_splits)

lemma ranges_ok_set_above:
  assumes "ranges_ok sz m" "\<forall>c w. om_find m c = Some w \<longrightarrow> c < b \<and> unat c + unat (sz w) \<le> unat b"
    and "unat b + unat (sz v) \<le> 2 ^ 64"
  shows "ranges_ok sz (om_set b v m)"
proof -
  have "om_find m b = None" using assms(2) by (metis less_irrefl not_None_eq)
  then show ?thesis
    using assms unfolding ranges_ok_def
    by (auto simp: om_inv_set split: if_splits dest: less_asym)
qed

end
