(* ===== verification/Backing.thy ===== *)
theory Backing
  imports Chunks Host_Guard Std_Map "HOL-Library.Multiset"
begin

unbundle bit_operations_syntax

text \<open>
  Where the bytes of device memory live: the state and the operations of
  \<^verbatim>\<open>src/core/memory_backing.cpp\<close>. A chunk comes from the pool of cleared chunks, from the cold list
  (pages given back to the kernel), from an arena, or, past the RAM limit or when the host is short,
  from a slice of the spill file.

  The kernel is a parameter (\<open>host_os\<close>): what its calls answer, by the number of the call into this
  component that makes them, and, for a mapping, by the mappings in place. The state carries it. What
  is relied on is \<open>os_ok\<close>. The lists are the vectors of the source with the back first. A chunk carries its bytes.

  Shown here: a chunk handed out is zero (the interface \<open>chunk_source\<close> of theory \<open>Chunks\<close>); a
  chunk in use is never handed out again and no two chunks overlap; the counters of RAM and spill are
  the chunks in use; and the host is only ever short after a look taken with the pool empty.
  The build for AddressSanitizer, where a chunk is a heap block, is not modelled.
\<close>

section \<open>The kernel\<close>

type_synonym regions = "(u64 \<times> nat) list"

record host_os =
  os_env :: "string \<Rightarrow> string option"
  os_files :: "nat \<Rightarrow> files"
  os_getpid :: "nat \<Rightarrow> nat"
  os_tmpfile :: "nat \<Rightarrow> bool"
  os_mkostemp :: "nat \<Rightarrow> bool"
  os_fallocate_slice :: "nat \<Rightarrow> bool"
  os_fallocate_chunk :: "nat \<Rightarrow> bool"
  os_punch_hole :: "nat \<Rightarrow> bool"
  os_madvise :: "nat \<Rightarrow> u64 \<Rightarrow> bool"
  os_mmap_file :: "nat \<Rightarrow> regions \<Rightarrow> u64 option"
  os_mmap_anon :: "nat \<Rightarrow> regions \<Rightarrow> u64 option"

section \<open>State\<close>

definition kHugePage :: nat where
  "kHugePage = 2 * 2 ^ 20"

definition kArenaBytes :: nat where
  "kArenaBytes = 64 * 2 ^ 20"

definition kSliceChunks :: nat where
  "kSliceChunks = 4096"

definition kSliceBytes :: nat where
  "kSliceBytes = kSliceChunks * kChunkSize"

record bstate =
  kernel :: host_os
  configured :: bool
  cfg :: config
  ram :: u64
  spill :: u64
  fd_open :: bool
  owner :: nat
  file_size :: u64
  slices :: "(u64, u64) omap"
  free_file :: "rchunk list"
  inherited :: "(u64, u64) omap"
  pool :: "rchunk list"
  cold :: "rchunk list"
  arena_next :: u64
  arena_end :: u64
  pool_pending :: u64
  since_check :: u64
  samples :: u64
  low :: bool
  spilling_for_host :: bool
  last_look :: look
  tick :: nat
  mapped :: regions

definition initial_state :: "host_os \<Rightarrow> bstate" where
  "initial_state os = \<lparr>kernel = os, configured = False, cfg = default_config, ram = 0, spill = 0, fd_open = False, owner = 0,
     file_size = 0, slices = [], free_file = [], inherited = [], pool = [], cold = [], arena_next = 0,
     arena_end = 0, pool_pending = 0, since_check = 0, samples = 0, low = False,
     spilling_for_host = False, last_look = no_look, tick = 0, mapped = []\<rparr>"

definition next_call :: "bstate \<Rightarrow> bstate" where
  "next_call s = s\<lparr>tick := tick s + 1\<rparr>"

section \<open>The guard on the state\<close>

definition look_at_host :: "bstate \<Rightarrow> bstate" where
  "look_at_host s =
     (let n = samples s + 1; (l, short) = host_figures (cfg s) (os_files (kernel s) (unat n))
      in s\<lparr>samples := n, last_look := l, low := short\<rparr>)"

text \<open>Pages dropped read as zero when next touched; where they cannot be dropped the chunk is cleared.\<close>

definition cleared :: "bool \<Rightarrow> rchunk \<Rightarrow> rchunk" where
  "cleared dropped c = c\<lparr>rc_bytes := (if dropped then (\<lambda>_. 0)
     else copy_in (rc_bytes c) 0 (replicate kChunkSize 0))\<rparr>"

definition make_cold :: "rchunk \<Rightarrow> bstate \<Rightarrow> bstate" where
  "make_cold c s = s\<lparr>cold := cleared (os_madvise (kernel s) (tick s) (rc_ptr c)) c # cold s\<rparr>"

definition drain_pool :: "bstate \<Rightarrow> bstate" where
  "drain_pool s = (fold (make_cold) (rev (pool s)) s)\<lparr>pool := []\<rparr>"

definition look_at_host_with_pool :: "bstate \<Rightarrow> bstate" where
  "look_at_host_with_pool s =
     (let s = look_at_host s
      in if low s \<and> pool s \<noteq> [] then look_at_host (drain_pool s) else s)"

definition host_is_short :: "bstate \<Rightarrow> bool \<times> bstate" where
  "host_is_short s =
     (let s = (if since_check s = 0 then look_at_host_with_pool s else s);
          every = max 1 (host_check_every_chunks (cfg s)); n = since_check s + 1
      in (low s, s\<lparr>since_check := (if n \<ge> every \<or> (low s \<and> spill_dir (cfg s) = []) then 0 else n)\<rparr>))"

section \<open>The spill file\<close>

definition configure_from_env :: "bstate \<Rightarrow> bstate" where
  "configure_from_env s =
     (if configured s then s else s\<lparr>configured := True, cfg := config_from_env (os_env (kernel s))\<rparr>)"

definition in_slices :: "(u64, u64) omap \<Rightarrow> u64 \<Rightarrow> u64 option" where
  "in_slices m chunk = (case om_floor m chunk of
     None \<Rightarrow> None
   | Some (base, off) \<Rightarrow> if chunk \<ge> base + of_nat kSliceBytes then None else Some (off + (chunk - base)))"

definition file_offset :: "bstate \<Rightarrow> u64 \<Rightarrow> u64 option" where
  "file_offset s chunk = in_slices (slices s) chunk"

definition adopt_after_fork :: "bstate \<Rightarrow> bstate" where
  "adopt_after_fork s =
     (if \<not> fd_open s \<or> owner s = os_getpid (kernel s) (tick s) then s
      else s\<lparr>inherited := fold (\<lambda>(b, off). om_emplace b off) (slices s) (inherited s), slices := [],
             free_file := [], fd_open := False, file_size := 0, spill := 0\<rparr>)"

text \<open>
  A slice of the file more, its 4096 chunks ready to hand out, lowest first. A file that cannot be
  made, sized or mapped is out of memory; a file that could be made stays.
\<close>

definition slice_chunks :: "u64 \<Rightarrow> rchunk list" where
  "slice_chunks base = map (\<lambda>i. \<lparr>rc_ptr = base + of_nat (i * kChunkSize), rc_bytes = (\<lambda>_. 0)\<rparr>) [0 ..< kSliceChunks]"

definition open_spill :: "bstate \<Rightarrow> (unit, bstate) outcome" where
  "open_spill s =
     (if fd_open s then (Inr (), s)
      else if os_tmpfile (kernel s) (tick s) \<or> os_mkostemp (kernel s) (tick s)
      then (Inr (), s\<lparr>fd_open := True, owner := os_getpid (kernel s) (tick s)\<rparr>)
      else (Inl (Throw OutOfMemory), s))"

definition grow :: "bstate \<Rightarrow> (unit, bstate) outcome" where
  "grow s = then_do (open_spill s) (\<lambda>_ s.
     if \<not> os_fallocate_slice (kernel s) (tick s) then (Inl (Throw OutOfMemory), s)
     else (case os_mmap_file (kernel s) (tick s) (mapped s) of
             None \<Rightarrow> (Inl (Throw OutOfMemory), s)
           | Some base \<Rightarrow>
               (Inr (), s\<lparr>mapped := (base, kSliceBytes) # mapped s,
                          slices := om_set base (file_size s) (slices s),
                          file_size := file_size s + of_nat kSliceBytes,
                          free_file := slice_chunks base @ free_file s\<rparr>)))"

definition configure :: "config \<Rightarrow> bstate \<Rightarrow> bstate" where
  "configure c s =
     (let s = (next_call s)\<lparr>configured := True, cfg := c, since_check := 0, low := False\<rparr>;
          s = adopt_after_fork s
      in if fd_open s \<and> spill s = 0
         then s\<lparr>mapped := filter (\<lambda>r. fst r \<notin> fst ` set (slices s)) (mapped s), slices := [],
                free_file := [], fd_open := False, file_size := 0\<rparr>
         else s)"

section \<open>Handing out\<close>

definition fresh_chunk :: "u64 \<Rightarrow> rchunk" where
  "fresh_chunk p = \<lparr>rc_ptr = p, rc_bytes = (\<lambda>_. 0)\<rparr>"

definition carve :: "bstate \<Rightarrow> (rchunk, bstate) outcome" where
  "carve s = (Inr (fresh_chunk (arena_next s)), s\<lparr>arena_next := arena_next s + of_nat kChunkSize\<rparr>)"

definition arena_chunk :: "bstate \<Rightarrow> (rchunk, bstate) outcome" where
  "arena_chunk s = (case cold s of
     chunk # rest \<Rightarrow> (Inr chunk, s\<lparr>cold := rest\<rparr>)
   | [] \<Rightarrow>
       if arena_next s = arena_end s
       then (case os_mmap_anon (kernel s) (tick s) (mapped s) of
               None \<Rightarrow> (Inl BadAlloc, s\<lparr>ram := ram s - of_nat kChunkSize\<rparr>)
             | Some m \<Rightarrow>
                 (let base = (m + of_nat kHugePage - 1) AND NOT (of_nat kHugePage - 1)
                  in carve (s\<lparr>mapped := (m, kArenaBytes + kHugePage) # mapped s, arena_next := base,
                              arena_end := base + of_nat kArenaBytes\<rparr>)))
       else carve s)"

definition acquire_heap :: "bstate \<Rightarrow> (rchunk, bstate) outcome" where
  "acquire_heap s =
     (let s = s\<lparr>ram := ram s + of_nat kChunkSize\<rparr>
      in case pool s of chunk # rest \<Rightarrow> (Inr chunk, s\<lparr>pool := rest\<rparr>) | [] \<Rightarrow> arena_chunk s)"

definition acquire_file :: "bstate \<Rightarrow> (rchunk, bstate) outcome" where
  "acquire_file s =
     then_do (if free_file s = [] then grow s else (Inr (), s)) (\<lambda>_ s.
       case free_file s of
         [] \<Rightarrow> (Inl Stray, s)
       | chunk # rest \<Rightarrow>
           if \<not> os_fallocate_chunk (kernel s) (tick s) then (Inl (Throw OutOfMemory), s)
           else (Inr chunk, s\<lparr>free_file := rest, spill := spill s + of_nat kChunkSize\<rparr>))"

definition acquire :: "bstate \<Rightarrow> (rchunk, bstate) outcome" where
  "acquire s =
     (let s = adopt_after_fork (configure_from_env (next_call s));
          to_file = (spill_dir (cfg s) \<noteq> [] \<and> ram s + of_nat kChunkSize > ram_limit_bytes (cfg s));
          s = s\<lparr>spilling_for_host := False\<rparr>
      in if to_file then acquire_file s
         else if host_guard (cfg s)
         then (case host_is_short s of (short, s) \<Rightarrow>
                if \<not> short then acquire_heap s
                else if spill_dir (cfg s) = [] then (Inl (Throw OutOfMemory), s)
                else acquire_file (s\<lparr>spilling_for_host := True\<rparr>))
         else acquire_heap s)"

section \<open>Taking back\<close>

definition pool_has_room :: "bstate \<Rightarrow> bool" where
  "pool_has_room s =
     (let cap = pool_max_bytes (cfg s);
          cap = (if ram_limit_bytes (cfg s) \<noteq> - 1
                 then min cap (if ram_limit_bytes (cfg s) > ram s then ram_limit_bytes (cfg s) - ram s else 0)
                 else cap)
      in (of_nat (length (pool s)) + pool_pending s + 1) * of_nat kChunkSize \<le> cap)"

definition give_back :: "rchunk \<Rightarrow> bstate \<Rightarrow> bstate" where
  "give_back c s = s\<lparr>cold := cleared (os_madvise (kernel s) (tick s) (rc_ptr c)) c # cold s\<rparr>"

definition wipe :: "rchunk \<Rightarrow> nat \<Rightarrow> rchunk" where
  "wipe c dirty = c\<lparr>rc_bytes := copy_in (rc_bytes c) 0 (replicate (min dirty kChunkSize) 0)\<rparr>"

definition release :: "rchunk \<Rightarrow> nat \<Rightarrow> bstate \<Rightarrow> bstate" where
  "release c dirty_bytes s0 =
     (let s = adopt_after_fork (next_call s0)
      in if in_slices (inherited s) (rc_ptr c) \<noteq> None then s
         else if fd_open s \<and> file_offset s (rc_ptr c) \<noteq> None
         then s\<lparr>free_file := cleared (os_punch_hole (kernel s) (tick s)) c # free_file s, spill := spill s - of_nat kChunkSize\<rparr>
         else (let s = s\<lparr>ram := ram s - of_nat kChunkSize\<rparr> in
           if \<not> pool_has_room s then give_back c s
           else (let s = s\<lparr>pool_pending := pool_pending s + 1\<rparr>;
                     c = wipe c dirty_bytes;
                     s = s\<lparr>pool_pending := pool_pending s - 1\<rparr>
                 in if pool_has_room s then s\<lparr>pool := c # pool s\<rparr> else give_back c s)))"

section \<open>What the kernel promises\<close>

text \<open>
  A mapping made: not at zero, aligned to a page, in the lower half of the address space (where a
  process's addresses are) and over no other mapping.
\<close>

definition placed :: "regions \<Rightarrow> u64 \<Rightarrow> nat \<Rightarrow> bool" where
  "placed r p n \<longleftrightarrow> 0 < unat p \<and> 4096 dvd unat p \<and> unat p + n \<le> 2 ^ 63 \<and>
     (\<forall>(b, m) \<in> set r. unat p + n \<le> unat b \<or> unat b + m \<le> unat p)"

definition os_ok :: "host_os \<Rightarrow> bool" where
  "os_ok os \<longleftrightarrow> (\<forall>t r p. os_mmap_file os t r = Some p \<longrightarrow> placed r p kSliceBytes) \<and>
     (\<forall>t r p. os_mmap_anon os t r = Some p \<longrightarrow> placed r p (kArenaBytes + kHugePage))"

lemmas backing_sizes = kChunkSize_def kSliceChunks_def kSliceBytes_def kArenaBytes_def kHugePage_def

section \<open>Chunks ready to hand out are zero\<close>

definition zero_chunk :: "rchunk \<Rightarrow> bool" where
  "zero_chunk c \<longleftrightarrow> ptr_ok c \<and> (\<forall>j < kChunkSize. rc_bytes c j = 0)"

definition arena_ok :: "bstate \<Rightarrow> bool" where
  "arena_ok s \<longleftrightarrow> unat (arena_next s) \<le> unat (arena_end s) \<and> kChunkSize dvd unat (arena_next s) \<and>
     kChunkSize dvd unat (arena_end s) \<and> (arena_next s \<noteq> arena_end s \<longrightarrow> arena_next s \<noteq> 0)"

definition backing_ok :: "bstate \<Rightarrow> bool" where
  "backing_ok s \<longleftrightarrow> os_ok (kernel s) \<and> list_all zero_chunk (pool s) \<and> list_all zero_chunk (cold s) \<and>
     list_all zero_chunk (free_file s) \<and> arena_ok s"

lemma even_not_uniform: "even (unat p) \<Longrightarrow> \<not> is_uniform p"
proof -
  assume "even (unat p)"
  then have "unat (p AND 1) = 0" by (simp add: and_one_eq unat_mod even_iff_mod_2_eq_zero)
  then show ?thesis by (simp add: is_uniform_def unat_eq_0)
qed

lemma zero_chunk_cleared: "ptr_ok c \<Longrightarrow> zero_chunk (cleared b c)"
  by (auto simp: zero_chunk_def cleared_def ptr_ok_def copy_in_def)

lemma zero_chunk_wipe:
  "ptr_ok c \<Longrightarrow> \<forall>j < kChunkSize. dirty \<le> j \<longrightarrow> rc_bytes c j = 0 \<Longrightarrow> zero_chunk (wipe c dirty)"
  by (auto simp: zero_chunk_def wipe_def ptr_ok_def copy_in_def)

lemma zero_chunk_fresh: "0 < unat p \<Longrightarrow> even (unat p) \<Longrightarrow> zero_chunk (fresh_chunk p)"
  by (auto simp: zero_chunk_def fresh_chunk_def ptr_ok_def even_not_uniform)

lemma unat_grid:
  assumes "unat (base :: u64) + n * kChunkSize \<le> 2 ^ 64" "i < n"
  shows "unat (base + of_nat (i * kChunkSize)) = unat base + i * kChunkSize"
proof -
  have le: "i * kChunkSize + kChunkSize \<le> n * kChunkSize"
    using assms(2) by (metis Suc_leI add.commute mult_Suc mult_le_mono1)
  then have lt: "unat base + i * kChunkSize < 2 ^ 64" using assms(1) kChunkSize_pos by linarith
  then have "unat (of_nat (i * kChunkSize) :: u64) = i * kChunkSize"
    by (intro unat_of_nat64) simp
  then show ?thesis using lt by (simp add: unat_add64)
qed

lemma slice_chunk_zero:
  assumes "placed r base kSliceBytes"
  shows "list_all zero_chunk (slice_chunks base)"
proof -
  have fits: "unat base + kSliceChunks * kChunkSize \<le> 2 ^ 64"
    using assms by (simp add: placed_def kSliceBytes_def)
  have "even (unat base)" using assms by (auto simp: placed_def elim: dvd_trans [rotated])
  then show ?thesis
    using assms unat_grid [OF fits]
    by (auto simp: list_all_iff slice_chunks_def fresh_chunk_def [symmetric] placed_def kChunkSize_def
        intro!: zero_chunk_fresh)
qed

text \<open>The arena's base: the mapping's address rounded up to the huge page.\<close>

lemma huge_mask: "unat ((x :: u64) AND NOT (of_nat kHugePage - 1)) = unat x div kHugePage * kHugePage"
proof -
  have m: "(of_nat kHugePage - 1 :: u64) = mask 21" by (simp add: kHugePage_def mask_eq_exp_minus_1)
  have "x AND NOT (mask 21) = push_bit 21 (drop_bit 21 x)"
    by (simp add: bit_eq_iff) (auto simp: bit_simps)
  then have "unat (x AND NOT (mask 21)) = unat x div 2 ^ 21 * 2 ^ 21 mod 2 ^ 64"
    by (simp add: unat_word_ariths push_bit_eq_mult unat_drop_bit_eq drop_bit_eq_div mod_mult_left_eq)
  moreover have "unat x div 2 ^ 21 * 2 ^ 21 < 2 ^ 64"
    using unat_u64_lt [of x] by (meson div_times_less_eq_dividend le_less_trans)
  ultimately show ?thesis unfolding m by (simp add: kHugePage_def)
qed

lemma arena_base:
  assumes "unat (m :: u64) + kArenaBytes + kHugePage \<le> 2 ^ 63"
  defines "base \<equiv> (m + of_nat kHugePage - 1) AND NOT (of_nat kHugePage - 1)"
  shows "unat m \<le> unat base" "unat base + kArenaBytes \<le> unat m + kArenaBytes + kHugePage"
    "kHugePage dvd unat base" "unat (base + of_nat kArenaBytes) = unat base + kArenaBytes"
proof -
  have k: "unat (of_nat kHugePage - 1 :: u64) = kHugePage - 1" by (simp add: kHugePage_def)
  have "unat (m + (of_nat kHugePage - 1)) = unat m + (kHugePage - 1)"
    using assms(1) by (subst unat_add64) (simp_all add: k kHugePage_def)
  then have s: "unat (m + of_nat kHugePage - 1) = unat m + kHugePage - 1"
    by (simp add: add_diff_eq kHugePage_def add.commute)
  let ?b = "round_up_nat (unat m) kHugePage"
  have pos: "0 < kHugePage" by (simp add: kHugePage_def)
  have b: "unat base = ?b"
    unfolding base_def huge_mask s by (simp add: round_up_nat_def)
  show "unat m \<le> unat base" using round_up_nat_ge [OF pos] b by simp
  show "unat base + kArenaBytes \<le> unat m + kArenaBytes + kHugePage"
    using round_up_nat_less [OF pos, of "unat m"] b by simp
  then show "unat (base + of_nat kArenaBytes) = unat base + kArenaBytes"
    using assms(1) by (subst unat_add64) (simp_all add: kArenaBytes_def)
  show "kHugePage dvd unat base" using round_up_nat_dvd b by simp
qed

subsection \<open>Every operation keeps them zero\<close>

lemma backing_ok_next_call [simp]: "backing_ok (next_call s) = backing_ok s"
  by (simp add: backing_ok_def next_call_def arena_ok_def)

lemma backing_ok_configure_from_env [simp]: "backing_ok (configure_from_env s) = backing_ok s"
  by (simp add: backing_ok_def configure_from_env_def arena_ok_def)

lemma backing_ok_adopt: "backing_ok s \<Longrightarrow> backing_ok (adopt_after_fork s)"
  by (simp add: backing_ok_def adopt_after_fork_def arena_ok_def)

lemma look_at_host_fields [simp]:
  "kernel (look_at_host s) = kernel s" "cfg (look_at_host s) = cfg s" "ram (look_at_host s) = ram s"
  "spill (look_at_host s) = spill s" "fd_open (look_at_host s) = fd_open s" "slices (look_at_host s) = slices s"
  "free_file (look_at_host s) = free_file s" "inherited (look_at_host s) = inherited s"
  "pool (look_at_host s) = pool s" "cold (look_at_host s) = cold s" "arena_next (look_at_host s) = arena_next s"
  "arena_end (look_at_host s) = arena_end s" "since_check (look_at_host s) = since_check s"
  "tick (look_at_host s) = tick s" "mapped (look_at_host s) = mapped s"
  by (simp_all add: look_at_host_def Let_def split: prod.splits)

lemma make_cold_fields:
  "fold make_cold cs s = s\<lparr>cold := rev (map (\<lambda>c. cleared (os_madvise (kernel s) (tick s) (rc_ptr c)) c) cs) @ cold s\<rparr>"
  by (induction cs arbitrary: s) (simp_all add: make_cold_def)

lemma drain_pool_eq:
  "drain_pool s = s\<lparr>pool := [], cold := map (\<lambda>c. cleared (os_madvise (kernel s) (tick s) (rc_ptr c)) c) (pool s) @ cold s\<rparr>"
  by (simp add: drain_pool_def make_cold_fields rev_map)

lemma zero_chunk_recleared: "zero_chunk c \<Longrightarrow> zero_chunk (cleared b c)"
  by (rule zero_chunk_cleared) (simp add: zero_chunk_def)

lemma backing_ok_drain: "backing_ok s \<Longrightarrow> backing_ok (drain_pool s)"
  by (auto simp: backing_ok_def drain_pool_eq arena_ok_def list_all_iff zero_chunk_recleared)

lemma backing_ok_look [simp]: "backing_ok (look_at_host s) = backing_ok s"
  by (simp add: backing_ok_def arena_ok_def)

lemma backing_ok_host_is_short:
  assumes "backing_ok s" "host_is_short s = (b, s')"
  shows "backing_ok s'"
proof -
  have upd: "backing_ok (t\<lparr>since_check := n\<rparr>) = backing_ok t" for t n
    by (simp add: backing_ok_def arena_ok_def)
  have "backing_ok (look_at_host_with_pool s)"
    using assms(1) by (simp add: look_at_host_with_pool_def Let_def backing_ok_drain)
  then show ?thesis using assms by (auto simp: host_is_short_def Let_def upd split: if_splits)
qed

lemma backing_ok_open_spill: "backing_ok s \<Longrightarrow> backing_ok (snd (open_spill s))"
  by (simp add: open_spill_def backing_ok_def arena_ok_def)

lemma open_spill_error: "fst (open_spill s) \<noteq> Inr () \<Longrightarrow> fst (open_spill s) = Inl (Throw OutOfMemory)"
  by (simp add: open_spill_def split: if_splits)

lemma backing_ok_grow:
  assumes "backing_ok s" "grow s = (r, s')"
  shows "backing_ok s' \<and> (r = Inr () \<and> free_file s' \<noteq> [] \<or> r = Inl (Throw OutOfMemory))"
proof -
  obtain q t where o: "open_spill s = (q, t)" by (metis prod.exhaust)
  have t: "backing_ok t" using backing_ok_open_spill [OF assms(1)] o by simp
  show ?thesis
  proof (cases q)
    case (Inl e)
    then show ?thesis using assms(2) t o open_spill_error [of s] by (auto simp: grow_def)
  next
    case (Inr u)
    show ?thesis
    proof (cases "os_mmap_file (kernel t) (tick t) (mapped t)")
      case None
      then show ?thesis using assms(2) t o Inr by (auto simp: grow_def split: if_splits)
    next
      case (Some base)
      then have "placed (mapped t) base kSliceBytes" using t by (auto simp: backing_ok_def os_ok_def)
      then have "list_all zero_chunk (slice_chunks base)" by (rule slice_chunk_zero)
      moreover have "slice_chunks base \<noteq> []" by (simp add: slice_chunks_def kSliceChunks_def)
      ultimately show ?thesis
        using assms(2) t o Inr Some by (auto simp: grow_def backing_ok_def arena_ok_def split: if_splits)
    qed
  qed
qed

lemma carve_ok:
  assumes "backing_ok s" "arena_next s \<noteq> arena_end s" "carve s = (r, s')"
  shows "\<exists>c. r = Inr c \<and> zero_chunk c \<and> backing_ok s'"
proof -
  have a: "unat (arena_next s) \<le> unat (arena_end s)" "kChunkSize dvd unat (arena_next s)"
    "kChunkSize dvd unat (arena_end s)" "arena_next s \<noteq> 0"
    using assms(1,2) by (auto simp: backing_ok_def arena_ok_def)
  have "unat (arena_next s) < unat (arena_end s)" using a(1) assms(2) by (simp add: order_less_le u64_eq_iff)
  moreover obtain i j where "unat (arena_next s) = kChunkSize * i" "unat (arena_end s) = kChunkSize * j"
    using a(2,3) by (auto elim!: dvdE)
  ultimately have step: "unat (arena_next s) + kChunkSize \<le> unat (arena_end s)"
    by (metis Suc_leI mult_Suc_right add.commute mult_le_mono2 mult_less_cancel1)
  have k: "unat (of_nat kChunkSize :: u64) = kChunkSize" by (simp add: kChunkSize_def)
  have "unat (arena_next s + of_nat kChunkSize) = unat (arena_next s) + kChunkSize"
    using step unat_u64_lt [of "arena_end s"] by (subst unat_add64) (simp_all add: k)
  moreover have "kChunkSize dvd unat (arena_next s) + kChunkSize" using a(2) by simp
  moreover have "arena_next s + of_nat kChunkSize \<noteq> 0"
    using calculation(1) a(4) by (metis add_eq_0_iff_both_eq_0 unat_0 unat_eq_zero)
  ultimately have "backing_ok (s\<lparr>arena_next := arena_next s + of_nat kChunkSize\<rparr>)"
    using assms(1) step a by (simp add: backing_ok_def arena_ok_def)
  moreover have "zero_chunk (fresh_chunk (arena_next s))"
  proof (rule zero_chunk_fresh)
    show "0 < unat (arena_next s)" using a(4) by (simp add: unat_gt_0)
    show "even (unat (arena_next s))" using a(2) by (auto simp: kChunkSize_def elim: dvd_trans [rotated])
  qed
  ultimately show ?thesis using assms(3) by (auto simp: carve_def)
qed

lemma new_arena_ok:
  assumes "backing_ok s" "os_mmap_anon (kernel s) t r = Some m"
  defines "base \<equiv> (m + of_nat kHugePage - 1) AND NOT (of_nat kHugePage - 1)"
  shows "backing_ok (s\<lparr>mapped := x, arena_next := base, arena_end := base + of_nat kArenaBytes\<rparr>)"
    and "base \<noteq> base + of_nat kArenaBytes"
proof -
  have p: "placed r m (kArenaBytes + kHugePage)" using assms(1,2) by (auto simp: backing_ok_def os_ok_def)
  then have "unat m + kArenaBytes + kHugePage \<le> 2 ^ 63" by (simp add: placed_def)
  note b = arena_base [OF this, folded base_def]
  have d: "kChunkSize dvd unat base" using b(3) by (rule dvd_trans [rotated]) (simp add: backing_sizes)
  have k: "kChunkSize dvd kArenaBytes" by (simp add: backing_sizes)
  have "base \<noteq> 0" using b(1) p by (auto simp: placed_def)
  then show "backing_ok (s\<lparr>mapped := x, arena_next := base, arena_end := base + of_nat kArenaBytes\<rparr>)"
    using assms(1) d k b(4) by (simp add: backing_ok_def arena_ok_def)
  have "unat base \<noteq> unat (base + of_nat kArenaBytes)" using b(4) by (simp add: kArenaBytes_def)
  then show "base \<noteq> base + of_nat kArenaBytes" by metis
qed

lemma arena_chunk_ok:
  assumes "backing_ok s" "arena_chunk s = (r, s')"
  shows "backing_ok s' \<and> (r = Inl BadAlloc \<or> (\<exists>c. r = Inr c \<and> zero_chunk c))"
proof (cases "cold s")
  case (Cons c rest)
  then show ?thesis using assms by (auto simp: arena_chunk_def backing_ok_def arena_ok_def)
next
  case Nil
  have ram: "backing_ok (s\<lparr>ram := x\<rparr>)" for x using assms(1) by (simp add: backing_ok_def arena_ok_def)
  show ?thesis
  proof (cases "arena_next s = arena_end s")
    case False
    then show ?thesis using assms Nil carve_ok [of s r s'] by (auto simp: arena_chunk_def)
  next
    case True
    show ?thesis
    proof (cases "os_mmap_anon (kernel s) (tick s) (mapped s)")
      case None
      then show ?thesis using assms Nil True ram by (auto simp: arena_chunk_def)
    next
      case (Some m)
      then show ?thesis
        using assms(2) Nil True carve_ok [OF new_arena_ok(1) [OF assms(1) Some], of _ r s'] new_arena_ok(2) [OF assms(1) Some]
        by (auto simp: arena_chunk_def Let_def)
    qed
  qed
qed

lemma acquire_heap_ok:
  assumes "backing_ok s" "acquire_heap s = (r, s')"
  shows "backing_ok s' \<and> (r = Inl BadAlloc \<or> (\<exists>c. r = Inr c \<and> zero_chunk c))"
proof -
  define t where "t = s\<lparr>ram := ram s + of_nat kChunkSize\<rparr>"
  have t: "backing_ok t" using assms(1) by (simp add: t_def backing_ok_def arena_ok_def)
  have e: "(case pool t of chunk # rest \<Rightarrow> (Inr chunk, t\<lparr>pool := rest\<rparr>) | [] \<Rightarrow> arena_chunk t) = (r, s')"
    using assms(2) unfolding acquire_heap_def Let_def t_def .
  show ?thesis
  proof (cases "pool t")
    case Nil
    then show ?thesis using e arena_chunk_ok [OF t, of r s'] by simp
  next
    case (Cons c rest)
    then show ?thesis using e t by (auto simp: backing_ok_def arena_ok_def)
  qed
qed

lemma acquire_file_ok:
  assumes "backing_ok s" "acquire_file s = (r, s')"
  shows "backing_ok s' \<and> (r = Inl (Throw OutOfMemory) \<or> (\<exists>c. r = Inr c \<and> zero_chunk c))"
proof -
  obtain q t where g: "(if free_file s = [] then grow s else (Inr (), s)) = (q, t)" by (metis prod.exhaust)
  have t: "backing_ok t \<and> (q = Inr () \<and> free_file t \<noteq> [] \<or> q = Inl (Throw OutOfMemory))"
    using g backing_ok_grow [OF assms(1)] assms(1) by (auto split: if_splits)
  have "then_do (q, t) (\<lambda>_ s. case free_file s of [] \<Rightarrow> (Inl Stray, s)
       | chunk # rest \<Rightarrow> if \<not> os_fallocate_chunk (kernel s) (tick s) then (Inl (Throw OutOfMemory), s)
           else (Inr chunk, s\<lparr>free_file := rest, spill := spill s + of_nat kChunkSize\<rparr>)) = (r, s')"
    using assms(2) by (simp add: acquire_file_def g)
  with t show ?thesis
    by (cases "free_file t") (auto simp: backing_ok_def arena_ok_def split: if_splits)
qed

lemma acquire_ok:
  assumes "backing_ok s" "acquire s = (r, s')"
  shows "backing_ok s' \<and> (r \<in> {Inl (Throw OutOfMemory), Inl BadAlloc} \<or> (\<exists>c. r = Inr c \<and> zero_chunk c))"
proof -
  define t where "t = (adopt_after_fork (configure_from_env (next_call s)))\<lparr>spilling_for_host := False\<rparr>"
  have upd: "backing_ok (x\<lparr>spilling_for_host := b\<rparr>) = backing_ok x" for x b
    by (simp add: backing_ok_def arena_ok_def)
  have t: "backing_ok t" using assms(1) by (simp add: t_def upd backing_ok_adopt)
  obtain b u where h: "host_is_short t = (b, u)" by (metis prod.exhaust)
  have u: "backing_ok u" using backing_ok_host_is_short [OF t h] .
  have a: "acquire s = (if spill_dir (cfg t) \<noteq> [] \<and> ram t + of_nat kChunkSize > ram_limit_bytes (cfg t) then acquire_file t
      else if host_guard (cfg t)
      then (if \<not> b then acquire_heap u else if spill_dir (cfg u) = [] then (Inl (Throw OutOfMemory), u)
            else acquire_file (u\<lparr>spilling_for_host := True\<rparr>))
      else acquire_heap t)"
    unfolding acquire_def Let_def t_def [symmetric] h by (simp add: t_def)
  show ?thesis
    using assms(2) acquire_file_ok [OF t, of r s'] acquire_heap_ok [OF t, of r s'] acquire_heap_ok [OF u, of r s']
      acquire_file_ok [of "u\<lparr>spilling_for_host := True\<rparr>" r s'] u
    unfolding a by (auto simp: upd split: if_splits)
qed

lemma release_ok:
  assumes "backing_ok s" "ptr_ok c" "\<forall>j < kChunkSize. dirty \<le> j \<longrightarrow> rc_bytes c j = 0"
  shows "backing_ok (release c dirty s)"
proof -
  define t where "t = adopt_after_fork (next_call s)"
  have t: "backing_ok t" using assms(1) by (simp add: t_def backing_ok_adopt)
  have "zero_chunk (wipe c dirty)" using zero_chunk_wipe assms(2,3) by blast
  moreover have "zero_chunk (cleared b c)" for b using zero_chunk_cleared assms(2) by blast
  moreover have "zero_chunk (cleared b (wipe c dirty))" for b using calculation(1) by (rule zero_chunk_recleared)
  ultimately show ?thesis
    using t unfolding release_def t_def [symmetric] Let_def
    by (simp add: backing_ok_def arena_ok_def give_back_def)
qed

interpretation bk: chunk_source acquire release backing_ok
proof unfold_locales
  fix b b' c assume "backing_ok b" "acquire b = (Inr c, b')"
  then show "ptr_ok c \<and> (\<forall>j<kChunkSize. rc_bytes c j = 0)"
    using acquire_ok [of b "Inr c" b'] by (auto simp: zero_chunk_def)
next
  fix b r b' assume "backing_ok b" "acquire b = (r, b')"
  then show "backing_ok b'" using acquire_ok by blast
next
  fix b e b' assume "backing_ok b" "acquire b = (Inl e, b')"
  then show "e \<noteq> Stray" using acquire_ok [of b "Inl e" b'] by auto
qed (rule release_ok)

lemma backing_ok_initial: "os_ok os \<Longrightarrow> backing_ok (initial_state os)"
  by (simp add: backing_ok_def initial_state_def arena_ok_def)

lemma backing_ok_configure: "backing_ok s \<Longrightarrow> backing_ok (configure c s)"
proof -
  assume "backing_ok s"
  define t where "t = adopt_after_fork ((next_call s)\<lparr>configured := True, cfg := c, since_check := 0, low := False\<rparr>)"
  have "backing_ok ((next_call s)\<lparr>configured := True, cfg := c, since_check := 0, low := False\<rparr>)"
    using \<open>backing_ok s\<close> by (simp add: next_call_def backing_ok_def arena_ok_def)
  then have "backing_ok t" by (simp add: t_def backing_ok_adopt)
  then show ?thesis
    unfolding configure_def Let_def t_def [symmetric] by (simp add: backing_ok_def arena_ok_def)
qed

section \<open>No chunk is handed out twice\<close>

text \<open>
  \<open>layout mp sl inh hp fl H\<close>: the mappings \<open>mp\<close> are clear of each other; the chunks ready to hand
  out (\<open>hp\<close> of the heap, \<open>fl\<close> of the file) and the chunks in use \<open>H\<close> lie in them and do not overlap;
  and an address tells which of the three kinds a chunk is.
\<close>

definition apart :: "u64 \<Rightarrow> u64 \<Rightarrow> bool" where
  "apart p q \<longleftrightarrow> unat p + kChunkSize \<le> unat q \<or> unat q + kChunkSize \<le> unat p"

definition clear_of :: "u64 \<times> nat \<Rightarrow> u64 \<times> nat \<Rightarrow> bool" where
  "clear_of r t \<longleftrightarrow> unat (fst r) + snd r \<le> unat (fst t) \<or> unat (fst t) + snd t \<le> unat (fst r)"

definition homed :: "regions \<Rightarrow> u64 \<Rightarrow> bool" where
  "homed mp p \<longleftrightarrow> (\<exists>r \<in> set mp. unat (fst r) \<le> unat p \<and> unat p + kChunkSize \<le> unat (fst r) + snd r)"

definition in_file :: "(u64, u64) omap \<Rightarrow> u64 \<Rightarrow> bool" where
  "in_file m p \<longleftrightarrow> (\<exists>b \<in> om_keys m. unat b \<le> unat p \<and> unat p < unat b + kSliceBytes)"

definition layout :: "regions \<Rightarrow> (u64, u64) omap \<Rightarrow> (u64, u64) omap \<Rightarrow> u64 list \<Rightarrow> u64 list \<Rightarrow> u64 list \<Rightarrow> bool" where
  "layout mp sl inh hp fl H \<longleftrightarrow>
     sorted_wrt clear_of mp \<and> (\<forall>r \<in> set mp. unat (fst r) + snd r \<le> 2 ^ 63 \<and> 0 < snd r) \<and>
     sorted_wrt apart (H @ hp @ fl) \<and> (\<forall>p \<in> set H \<union> set hp \<union> set fl. homed mp p) \<and>
     om_inv sl \<and> om_inv inh \<and> om_keys sl \<inter> om_keys inh = {} \<and>
     (\<forall>b \<in> om_keys sl \<union> om_keys inh. (b, kSliceBytes) \<in> set mp) \<and>
     (\<forall>p \<in> set hp. \<not> in_file sl p \<and> \<not> in_file inh p) \<and> (\<forall>p \<in> set fl. in_file sl p)"

lemma sorted_wrt_perm:
  assumes "\<And>x y. R x y \<Longrightarrow> R y x" "mset xs = mset ys"
  shows "sorted_wrt R xs \<longleftrightarrow> sorted_wrt R ys"
  using assms(2)
proof (induction xs arbitrary: ys)
  case (Cons x xs)
  then have "x \<in> set ys" by (metis list.set_intros(1) mset_eq_setD)
  then obtain us vs where ys: "ys = us @ x # vs" by (meson split_list)
  with Cons.prems have m: "mset xs = mset (us @ vs)" by simp
  with Cons.IH [of "us @ vs"] have "sorted_wrt R xs = sorted_wrt R (us @ vs)" by simp
  moreover have "set xs = set us \<union> set vs" using m by (metis mset_eq_setD set_append)
  ultimately show ?case using assms(1) by (auto simp: ys sorted_wrt_append)
qed simp

lemma apart_sym: "apart p q \<Longrightarrow> apart q p"
  by (auto simp: apart_def)

lemma apart_irrefl [simp]: "\<not> apart p p"
  by (simp add: apart_def kChunkSize_def)

lemma apart_perm: "mset xs = mset ys \<Longrightarrow> sorted_wrt apart xs \<longleftrightarrow> sorted_wrt apart ys"
  by (rule sorted_wrt_perm) (auto intro: apart_sym)

lemma clear_of_pair:
  assumes "sorted_wrt clear_of mp" "r \<in> set mp" "t \<in> set mp" "r \<noteq> t"
  shows "clear_of r t"
proof -
  have sym: "clear_of x y \<Longrightarrow> clear_of y x" for x y by (auto simp: clear_of_def)
  obtain us vs where mp: "mp = us @ r # vs" using assms(2) by (meson split_list)
  with assms(3,4) have "t \<in> set us \<or> t \<in> set vs" by auto
  then show ?thesis using assms(1) by (auto simp: mp sorted_wrt_append intro: sym)
qed

text \<open>The lookup in the table of slices finds exactly the chunks of the file.\<close>

lemma in_slices_iff:
  assumes "om_inv m" "sorted_wrt clear_of mp" "\<forall>r \<in> set mp. unat (fst r) + snd r \<le> 2 ^ 63"
    and "\<forall>b \<in> om_keys m. (b, kSliceBytes) \<in> set mp"
  shows "in_slices m p \<noteq> None \<longleftrightarrow> in_file m p"
proof -
  have S: "unat (of_nat kSliceBytes :: u64) = kSliceBytes" by (simp add: backing_sizes)
  have top: "unat (b + of_nat kSliceBytes) = unat b + kSliceBytes" if "b \<in> om_keys m" for b
    using assms(3,4) that by (subst unat_add64) (auto simp: S dest!: bspec)
  show ?thesis
  proof
    assume "in_slices m p \<noteq> None"
    then obtain b off where "om_floor m p = Some (b, off)" "\<not> p \<ge> b + of_nat kSliceBytes"
      by (auto simp: in_slices_def split: option.splits if_splits)
    moreover from this have "b \<in> om_keys m" "b \<le> p" using om_floor_SomeD [OF assms(1)] by auto
    ultimately show "in_file m p" using top by (auto simp: in_file_def u64_simps intro!: bexI [of _ b])
  next
    assume "in_file m p"
    then obtain b where b: "b \<in> om_keys m" "unat b \<le> unat p" "unat p < unat b + kSliceBytes"
      by (auto simp: in_file_def)
    then have "om_floor m p \<noteq> None" unfolding om_floor_None [OF assms(1)] by (auto simp: u64_simps intro!: bexI [of _ b])
    then obtain c off where f: "om_floor m p = Some (c, off)" by auto
    then have c: "c \<in> om_keys m" "c \<le> p" "b \<le> c"
      using om_floor_SomeD [OF assms(1) f] b by (auto simp: u64_simps)
    have "c = b"
    proof (rule ccontr)
      assume "c \<noteq> b"
      then have "clear_of (b, kSliceBytes) (c, kSliceBytes)"
        using clear_of_pair [OF assms(2)] assms(4) b(1) c(1) by auto
      then show False using b c \<open>c \<noteq> b\<close> by (auto simp: clear_of_def u64_simps backing_sizes u64_eq_iff)
    qed
    then show "in_slices m p \<noteq> None" using f top [OF b(1)] b(3) by (simp add: in_slices_def u64_simps)
  qed
qed

lemma layout_lookup:
  assumes "layout mp sl inh hp fl H"
  shows "in_slices sl p \<noteq> None \<longleftrightarrow> in_file sl p" "in_slices inh p \<noteq> None \<longleftrightarrow> in_file inh p"
  using assms in_slices_iff [of sl mp p] in_slices_iff [of inh mp p] by (auto simp: layout_def)

lemma layout_kinds:
  assumes "layout mp sl inh hp fl H" "in_file sl p"
  shows "\<not> in_file inh p"
proof
  assume "in_file inh p"
  then obtain b c where bc: "b \<in> om_keys sl" "unat b \<le> unat p" "unat p < unat b + kSliceBytes"
    "c \<in> om_keys inh" "unat c \<le> unat p" "unat p < unat c + kSliceBytes"
    using assms(2) by (auto simp: in_file_def)
  then have "b \<noteq> c" using assms(1) by (auto simp: layout_def)
  then have "clear_of (b, kSliceBytes) (c, kSliceBytes)"
    using assms(1) bc by (intro clear_of_pair [of mp]) (auto simp: layout_def)
  then show False using bc by (auto simp: clear_of_def)
qed

subsection \<open>Moves between the lists\<close>

lemma layout_take_heap:
  assumes "layout mp sl inh hp fl H" "mset hp = add_mset p (mset hp')"
  shows "layout mp sl inh hp' fl (p # H)" "\<not> in_file sl p" "\<not> in_file inh p"
proof -
  have sub: "set hp = insert p (set hp')" using assms(2) by (metis set_mset_add_mset_insert set_mset_mset)
  have "sorted_wrt apart ((p # H) @ hp' @ fl) = sorted_wrt apart (H @ hp @ fl)"
    using assms(2) by (intro apart_perm) simp_all
  then show "layout mp sl inh hp' fl (p # H)" using assms(1) sub by (simp add: layout_def)
  show "\<not> in_file sl p" "\<not> in_file inh p" using assms(1) sub by (auto simp: layout_def)
qed

lemma layout_take_file:
  assumes "layout mp sl inh hp (p # fl) H"
  shows "layout mp sl inh hp fl (p # H)" "in_file sl p" "\<not> in_file inh p"
proof -
  have "sorted_wrt apart ((p # H) @ hp @ fl) = sorted_wrt apart (H @ hp @ p # fl)"
    by (intro apart_perm) simp_all
  then show "layout mp sl inh hp fl (p # H)" using assms by (simp add: layout_def)
  show f: "in_file sl p" using assms by (simp add: layout_def)
  show "\<not> in_file inh p" using layout_kinds [OF assms f] .
qed

lemma layout_drop:
  assumes "layout mp sl inh hp fl H" "p \<in> set H"
  shows "layout mp sl inh hp fl (remove1 p H)"
proof -
  have "sorted_wrt apart (p # remove1 p H @ hp @ fl) = sorted_wrt apart (H @ hp @ fl)"
    using assms(2) by (intro apart_perm) simp_all
  then show ?thesis using assms(1) by (auto simp: layout_def dest!: subsetD [OF set_remove1_subset])
qed

lemma layout_give_heap:
  assumes "layout mp sl inh hp fl H" "p \<in> set H" "\<not> in_file sl p" "\<not> in_file inh p"
    and "mset hp' = add_mset p (mset hp)"
  shows "layout mp sl inh hp' fl (remove1 p H)"
proof -
  have sub: "set hp' = insert p (set hp)" using assms(5) by (metis set_mset_add_mset_insert set_mset_mset)
  have "sorted_wrt apart (remove1 p H @ hp' @ fl) = sorted_wrt apart (H @ hp @ fl)"
    using assms(2,5) by (intro apart_perm) simp_all
  moreover have "homed mp p" using assms(1,2) by (auto simp: layout_def)
  ultimately show ?thesis using assms sub by (auto simp: layout_def dest!: subsetD [OF set_remove1_subset])
qed

lemma layout_give_file:
  assumes "layout mp sl inh hp fl H" "p \<in> set H" "in_file sl p"
  shows "layout mp sl inh hp (p # fl) (remove1 p H)"
proof -
  have "sorted_wrt apart (remove1 p H @ hp @ p # fl) = sorted_wrt apart (H @ hp @ fl)"
    using assms(2) by (intro apart_perm) simp_all
  moreover have "homed mp p" using assms(1,2) by (auto simp: layout_def)
  ultimately show ?thesis using assms by (auto simp: layout_def dest!: subsetD [OF set_remove1_subset])
qed

subsection \<open>New mappings\<close>

definition grid :: "u64 \<Rightarrow> nat \<Rightarrow> u64 list" where
  "grid base n = map (\<lambda>i. base + of_nat (i * kChunkSize)) [0 ..< n]"

lemma grid_apart:
  assumes "unat base + n * kChunkSize \<le> 2 ^ 64"
  shows "sorted_wrt apart (grid base n)"
    "\<forall>p \<in> set (grid base n). unat base \<le> unat p \<and> unat p + kChunkSize \<le> unat base + n * kChunkSize"
proof -
  have le: "i * kChunkSize + kChunkSize \<le> j * kChunkSize" if "i < j" for i j :: nat
    using that by (metis Suc_leI add.commute mult_Suc mult_le_mono1)
  show "sorted_wrt apart (grid base n)"
    using unat_grid [OF assms] le
    by (auto simp: grid_def sorted_wrt_map sorted_wrt_iff_nth_less apart_def)
  show "\<forall>p \<in> set (grid base n). unat base \<le> unat p \<and> unat p + kChunkSize \<le> unat base + n * kChunkSize"
    using unat_grid [OF assms] le [of _ n] by (auto simp: grid_def)
qed

lemma placed_clear:
  "placed mp base n \<Longrightarrow> r \<in> set mp \<Longrightarrow> unat base + n \<le> unat (fst r) \<or> unat (fst r) + snd r \<le> unat base"
  by (cases r) (auto simp: placed_def)

lemma placed_not_homed:
  assumes "placed mp base n" "homed mp p" "unat base \<le> unat p" "unat p < unat base + n"
  shows False
proof -
  obtain r where r: "r \<in> set mp" "unat (fst r) \<le> unat p" "unat p + kChunkSize \<le> unat (fst r) + snd r"
    using assms(2) by (auto simp: homed_def)
  from placed_clear [OF assms(1) r(1)] show False using r assms(3,4) by (auto simp: kChunkSize_def)
qed

lemma layout_apart_new:
  assumes "layout mp sl inh hp fl H" "placed mp base n" "sorted_wrt apart g"
    and "\<forall>p \<in> set g. unat base \<le> unat p \<and> unat p + kChunkSize \<le> unat base + n"
  shows "sorted_wrt apart (g @ H @ hp @ fl)"
proof -
  have "apart p q" if "p \<in> set g" "q \<in> set H \<union> set hp \<union> set fl" for p q
  proof -
    have "homed mp q" using that(2) assms(1) by (auto simp: layout_def)
    then obtain r where r: "r \<in> set mp" "unat (fst r) \<le> unat q" "unat q + kChunkSize \<le> unat (fst r) + snd r"
      by (auto simp: homed_def)
    with placed_clear [OF assms(2) r(1)] assms(4) that(1) show ?thesis by (fastforce simp: apart_def)
  qed
  then show ?thesis using assms(1,3) by (auto simp: layout_def sorted_wrt_append)
qed

lemma layout_new:
  assumes "layout mp sl inh hp fl H" "placed mp base n" "0 < n" "sorted_wrt apart g"
    and "\<forall>p \<in> set g. unat base \<le> unat p \<and> unat p + kChunkSize \<le> unat base + n"
  shows "layout ((base, n) # mp) sl inh (g @ hp) fl H"
proof -
  have "sorted_wrt apart (H @ (g @ hp) @ fl) = sorted_wrt apart (g @ H @ hp @ fl)"
    by (rule apart_perm) simp
  moreover have "homed ((base, n) # mp) p" if "p \<in> set g" for p using assms(5) that by (auto simp: homed_def)
  moreover have "homed ((base, n) # mp) p" if "homed mp p" for p using that by (auto simp: homed_def)
  moreover have "\<not> in_file m p" if "p \<in> set g" "\<forall>b \<in> om_keys m. (b, kSliceBytes) \<in> set mp" for p m
  proof
    assume "in_file m p"
    then obtain b where "b \<in> om_keys m" "unat b \<le> unat p" "unat p < unat b + kSliceBytes" by (auto simp: in_file_def)
    with placed_clear [OF assms(2), of "(b, kSliceBytes)"] that assms(5) show False
      by (fastforce simp: kChunkSize_def)
  qed
  moreover have "unat base + n \<le> 2 ^ 63" using assms(2) by (simp add: placed_def)
  moreover have "\<forall>r \<in> set mp. clear_of (base, n) r" using placed_clear [OF assms(2)] by (simp add: clear_of_def)
  ultimately show ?thesis
    using assms(1,3) layout_apart_new [OF assms(1,2,4,5)] unfolding layout_def by auto
qed

lemma layout_new_slice:
  assumes "layout mp sl inh hp fl H" "placed mp base kSliceBytes"
  shows "layout ((base, kSliceBytes) # mp) (om_set base off sl) inh hp (grid base kSliceChunks @ fl) H"
    and "\<forall>p \<in> set H. in_file (om_set base off sl) p \<longleftrightarrow> in_file sl p"
proof -
  let ?g = "grid base kSliceChunks" and ?sl = "om_set base off sl"
  have fits: "unat base + kSliceChunks * kChunkSize \<le> 2 ^ 64" using assms(2) by (simp add: placed_def kSliceBytes_def)
  note g = grid_apart [OF fits]
  then have gs: "\<forall>p \<in> set ?g. unat base \<le> unat p \<and> unat p + kChunkSize \<le> unat base + kSliceBytes"
    by (simp add: kSliceBytes_def)
  have "0 < kSliceBytes" by (simp add: backing_sizes)
  from layout_new [OF assms this g(1) gs]
  have l: "layout ((base, kSliceBytes) # mp) sl inh (?g @ hp) fl H" .
  have fil: "in_file ?sl p \<longleftrightarrow> in_file sl p \<or> unat base \<le> unat p \<and> unat p < unat base + kSliceBytes" for p
    by (auto simp: in_file_def)
  have old: "in_file ?sl p \<longleftrightarrow> in_file sl p" if "homed mp p" for p
    using placed_not_homed [OF assms(2) that] by (auto simp: fil)
  show "\<forall>p \<in> set H. in_file ?sl p \<longleftrightarrow> in_file sl p" using old assms(1) by (simp add: layout_def)
  have nokey: "base \<notin> om_keys sl \<union> om_keys inh"
  proof
    assume "base \<in> om_keys sl \<union> om_keys inh"
    then have "(base, kSliceBytes) \<in> set mp" using assms(1) by (simp add: layout_def)
    from placed_clear [OF assms(2) this] show False by (simp add: backing_sizes)
  qed
  have "sorted_wrt apart (H @ hp @ ?g @ fl) = sorted_wrt apart (H @ (?g @ hp) @ fl)" by (rule apart_perm) simp
  moreover have "\<forall>p \<in> set ?g. in_file ?sl p" using gs by (auto simp: fil kChunkSize_def)
  moreover have "\<forall>p \<in> set hp. \<not> in_file ?sl p" using old assms(1) by (auto simp: layout_def)
  moreover have "\<forall>p \<in> set fl. in_file ?sl p" using assms(1) by (auto simp: layout_def fil)
  moreover have "om_keys ?sl = insert base (om_keys sl)" by simp
  ultimately show "layout ((base, kSliceBytes) # mp) ?sl inh hp (?g @ fl) H"
    using l nokey unfolding layout_def by (auto simp: om_inv_set simp del: om_find_set)
qed

subsection \<open>After a fork, and a file given up\<close>

lemma om_keys_emplaces:
  "om_inv m \<Longrightarrow> om_inv (fold (\<lambda>(b, off). om_emplace b off) xs m) \<and>
    om_keys (fold (\<lambda>(b, off). om_emplace b off) xs m) = om_keys m \<union> fst ` set xs"
proof (induction xs arbitrary: m)
  case (Cons x xs)
  obtain b off where x: "x = (b, off)" by (cases x)
  have "om_inv (om_emplace b off m)" "om_keys (om_emplace b off m) = insert b (om_keys m)"
    using Cons.prems by (auto simp: om_emplace_def om_inv_set split: option.splits)
  with Cons.IH [of "om_emplace b off m"] show ?case by (auto simp: x)
qed simp

lemma in_file_keys: "om_keys m = om_keys m1 \<union> om_keys m2 \<Longrightarrow> in_file m p \<longleftrightarrow> in_file m1 p \<or> in_file m2 p"
  by (auto simp: in_file_def)

lemma layout_fork:
  assumes "layout mp sl inh hp fl H"
  shows "layout mp [] (fold (\<lambda>(b, off). om_emplace b off) sl inh) hp [] H"
    and "in_file (fold (\<lambda>(b, off). om_emplace b off) sl inh) p \<longleftrightarrow> in_file inh p \<or> in_file sl p"
proof -
  have inv: "om_inv inh" using assms by (simp add: layout_def)
  note k = om_keys_emplaces [OF inv, of sl]
  let ?inh = "fold (\<lambda>(b, off). om_emplace b off) sl inh"
  have keys: "om_keys ?inh = om_keys inh \<union> om_keys sl" using k by (simp add: dom_map_of_conv_image_fst)
  show f: "in_file ?inh p \<longleftrightarrow> in_file inh p \<or> in_file sl p" for p by (rule in_file_keys [OF keys])
  have "\<forall>b \<in> om_keys ?inh. (b, kSliceBytes) \<in> set mp" using assms unfolding keys layout_def by blast
  moreover have "\<forall>p \<in> set hp. \<not> in_file ?inh p" using assms by (auto simp: layout_def f)
  moreover have "sorted_wrt apart (H @ hp)" using assms by (simp add: layout_def sorted_wrt_append)
  ultimately show "layout mp [] ?inh hp [] H"
    using assms k unfolding layout_def by (simp add: in_file_def)
qed

lemma layout_give_up:
  assumes "layout mp sl inh hp fl H" "\<forall>p \<in> set H. \<not> in_file sl p"
  shows "layout (filter (\<lambda>r. fst r \<notin> fst ` set sl) mp) [] inh hp [] H"
proof -
  let ?mp = "filter (\<lambda>r. fst r \<notin> om_keys sl) mp"
  have keys: "fst ` set sl = om_keys sl" by (simp add: dom_map_of_conv_image_fst)
  have "homed ?mp p" if p: "p \<in> set H \<union> set hp" for p
  proof -
    have "homed mp p" using p assms(1) by (auto simp: layout_def)
    then obtain r where r: "r \<in> set mp" "unat (fst r) \<le> unat p" "unat p + kChunkSize \<le> unat (fst r) + snd r"
      by (auto simp: homed_def)
    have "fst r \<notin> om_keys sl"
    proof
      assume k: "fst r \<in> om_keys sl"
      then have m: "(fst r, kSliceBytes) \<in> set mp" using assms(1) by (simp add: layout_def)
      have "r = (fst r, kSliceBytes)"
      proof (rule ccontr)
        assume "r \<noteq> (fst r, kSliceBytes)"
        then have "clear_of r (fst r, kSliceBytes)"
          using assms(1) r(1) m by (intro clear_of_pair [of mp]) (auto simp: layout_def)
        moreover have "0 < snd r" using assms(1) r(1) by (simp add: layout_def)
        ultimately show False by (auto simp: clear_of_def backing_sizes)
      qed
      then have "snd r = kSliceBytes" by (metis snd_conv)
      then have "in_file sl p" using r k by (auto simp: in_file_def kChunkSize_def)
      then show False using p assms by (auto simp: layout_def)
    qed
    then show ?thesis using r unfolding homed_def by (intro bexI [of _ r]) auto
  qed
  moreover have "sorted_wrt clear_of ?mp" using assms(1) by (auto simp: layout_def intro: sorted_wrt_filter)
  moreover have "sorted_wrt apart (H @ hp)" using assms(1) by (simp add: layout_def sorted_wrt_append)
  moreover have "\<forall>b \<in> om_keys inh. (b, kSliceBytes) \<in> set ?mp" using assms(1) unfolding layout_def by auto
  ultimately show ?thesis using assms(1) unfolding keys layout_def by (auto simp: in_file_def)
qed

text \<open>Chunks in use cannot fill the address space.\<close>

lemma held_bound:
  assumes "layout mp sl inh hp fl H"
  shows "kChunkSize * length H \<le> 2 ^ 63"
proof -
  have ap: "sorted_wrt apart H" using assms by (simp add: layout_def sorted_wrt_append)
  have top: "unat p + kChunkSize \<le> 2 ^ 63" if "p \<in> set H" for p
  proof -
    have "homed mp p" using assms that by (simp add: layout_def)
    then obtain r where "r \<in> set mp" "unat p + kChunkSize \<le> unat (fst r) + snd r" by (auto simp: homed_def)
    moreover have "unat (fst r) + snd r \<le> 2 ^ 63" using assms calculation(1) by (simp add: layout_def)
    ultimately show ?thesis by linarith
  qed
  let ?f = "\<lambda>p. unat p div kChunkSize"
  have differ: "?f p \<noteq> ?f q" if "apart p q" for p q
  proof -
    have "unat p + kChunkSize \<le> unat q \<Longrightarrow> ?f p < ?f q" for p q :: u64
      using div_le_mono [of "unat p + kChunkSize" "unat q" kChunkSize] by (simp add: kChunkSize_def)
    then show ?thesis using that unfolding apart_def by (metis less_irrefl)
  qed
  have "distinct (map ?f H)"
    using ap differ by (induction H) auto
  moreover have "set (map ?f H) \<subseteq> {..< 2 ^ 63 div kChunkSize}"
  proof
    fix x assume "x \<in> set (map ?f H)"
    then obtain p where "p \<in> set H" "x = ?f p" by auto
    then show "x \<in> {..< 2 ^ 63 div kChunkSize}"
      using top [of p] div_le_mono [of "unat p + kChunkSize" "2 ^ 63" kChunkSize] by (simp add: kChunkSize_def)
  qed
  ultimately have "length H \<le> 2 ^ 63 div kChunkSize"
    by (metis card_lessThan card_mono distinct_card finite_lessThan length_map)
  then show ?thesis by (simp add: kChunkSize_def)
qed

subsection \<open>The invariant of the chunks in use\<close>

definition heap_ready :: "bstate \<Rightarrow> u64 list" where
  "heap_ready s = map rc_ptr (pool s) @ map rc_ptr (cold s) @
     grid (arena_next s) ((unat (arena_end s) - unat (arena_next s)) div kChunkSize)"

definition in_heap :: "bstate \<Rightarrow> u64 \<Rightarrow> bool" where
  "in_heap s p \<longleftrightarrow> \<not> in_file (slices s) p \<and> \<not> in_file (inherited s) p"

definition held_inv :: "bstate \<Rightarrow> u64 list \<Rightarrow> bool" where
  "held_inv s H \<longleftrightarrow> backing_ok s \<and>
     layout (mapped s) (slices s) (inherited s) (heap_ready s) (map rc_ptr (free_file s)) H \<and>
     (\<not> fd_open s \<longrightarrow> slices s = []) \<and>
     spill s = of_nat (kChunkSize * length (filter (in_file (slices s)) H)) \<and>
     ram s = of_nat (kChunkSize * length (filter (in_heap s) H))"

lemma heap_ready_cong:
  "pool t = pool s \<Longrightarrow> cold t = cold s \<Longrightarrow> arena_next t = arena_next s \<Longrightarrow> arena_end t = arena_end s \<Longrightarrow>
    heap_ready t = heap_ready s"
  by (simp add: heap_ready_def)

lemma in_heap_cong: "slices t = slices s \<Longrightarrow> inherited t = inherited s \<Longrightarrow> in_heap t = in_heap s"
  by (simp add: in_heap_def fun_eq_iff)

lemma held_inv_cong:
  assumes "held_inv s H" "kernel t = kernel s" "pool t = pool s" "cold t = cold s" "free_file t = free_file s"
    "arena_next t = arena_next s" "arena_end t = arena_end s" "mapped t = mapped s" "slices t = slices s"
    "inherited t = inherited s" "spill t = spill s" "ram t = ram s" "fd_open s \<Longrightarrow> fd_open t"
  shows "held_inv t H"
proof -
  have "in_heap t = in_heap s" using assms by (simp add: in_heap_def fun_eq_iff)
  moreover have "heap_ready t = heap_ready s" using assms by (simp add: heap_ready_def)
  ultimately show ?thesis using assms by (auto simp: held_inv_def backing_ok_def arena_ok_def)
qed

lemma held_inv_next_call: "held_inv s H \<Longrightarrow> held_inv (next_call s) H"
  by (erule held_inv_cong) (simp_all add: next_call_def)

lemma held_inv_configure_from_env: "held_inv s H \<Longrightarrow> held_inv (configure_from_env s) H"
  by (erule held_inv_cong) (simp_all add: configure_from_env_def)

lemma held_inv_look: "held_inv s H \<Longrightarrow> held_inv (look_at_host s) H"
  by (erule held_inv_cong) simp_all

lemma layout_perm_heap:
  "layout mp sl inh hp fl H \<Longrightarrow> mset hp' = mset hp \<Longrightarrow> layout mp sl inh hp' fl H"
  using apart_perm [of "H @ hp' @ fl" "H @ hp @ fl"] mset_eq_setD [of hp' hp] by (simp add: layout_def)

lemma held_inv_drain: "held_inv s H \<Longrightarrow> held_inv (drain_pool s) H"
proof -
  assume h: "held_inv s H"
  have "mset (heap_ready (drain_pool s)) = mset (heap_ready s)"
    by (simp add: heap_ready_def drain_pool_eq cleared_def comp_def)
  then have "layout (mapped s) (slices s) (inherited s) (heap_ready (drain_pool s)) (map rc_ptr (free_file s)) H"
    using h layout_perm_heap by (auto simp: held_inv_def)
  moreover have "backing_ok (drain_pool s)" using h by (simp add: held_inv_def backing_ok_drain)
  moreover have "in_heap (drain_pool s) = in_heap s" by (rule in_heap_cong) (simp_all add: drain_pool_eq)
  ultimately show ?thesis using h by (simp add: held_inv_def drain_pool_eq)
qed

lemma held_inv_short:
  assumes "held_inv s H" "host_is_short s = (b, s')"
  shows "held_inv s' H"
proof -
  have "held_inv (look_at_host_with_pool s) H"
    using assms(1) by (simp add: look_at_host_with_pool_def Let_def held_inv_look held_inv_drain)
  then have "held_inv (if since_check s = 0 then look_at_host_with_pool s else s) H" using assms(1) by simp
  moreover have "\<exists>n. s' = (if since_check s = 0 then look_at_host_with_pool s else s)\<lparr>since_check := n\<rparr>"
    using assms(2) unfolding host_is_short_def Let_def by blast
  ultimately show ?thesis by (auto elim: held_inv_cong)
qed

lemma held_inv_adopt: "held_inv s H \<Longrightarrow> held_inv (adopt_after_fork s) H"
proof -
  assume h: "held_inv s H"
  show ?thesis
  proof (cases "\<not> fd_open s \<or> owner s = os_getpid (kernel s) (tick s)")
    case True
    then show ?thesis using h by (simp add: adopt_after_fork_def)
  next
    case False
    define t where "t = adopt_after_fork s"
    have l: "layout (mapped s) (slices s) (inherited s) (heap_ready s) (map rc_ptr (free_file s)) H"
      using h by (simp add: held_inv_def)
    have t: "t = s\<lparr>inherited := fold (\<lambda>(b, off). om_emplace b off) (slices s) (inherited s), slices := [],
        free_file := [], fd_open := False, file_size := 0, spill := 0\<rparr>"
      using False by (auto simp: t_def adopt_after_fork_def)
    have "heap_ready t = heap_ready s" by (rule heap_ready_cong) (simp_all add: t)
    moreover have "in_heap t = in_heap s" using layout_fork(2) [OF l] by (auto simp: in_heap_def t fun_eq_iff in_file_def [of "[]"])
    moreover have "in_file (slices t) = (\<lambda>p. False)" by (simp add: in_file_def t fun_eq_iff)
    moreover have "backing_ok t" using h backing_ok_adopt by (simp add: t_def held_inv_def)
    ultimately have "held_inv t H" using h layout_fork(1) [OF l] unfolding held_inv_def by (simp add: t)
    then show ?thesis by (simp add: t_def)
  qed
qed

subsection \<open>Handing out and taking back\<close>

lemma length_filter_remove1:
  "p \<in> set H \<Longrightarrow> length (filter P H) = length (filter P (remove1 p H)) + (if P p then 1 else 0)"
  by (induction H) auto

definition held_after :: "exn + rchunk \<Rightarrow> u64 list \<Rightarrow> u64 list" where
  "held_after r H = (case r of Inr c \<Rightarrow> rc_ptr c # H | Inl _ \<Rightarrow> H)"

lemma held_take_heap:
  assumes "held_inv (s\<lparr>ram := ram s - of_nat kChunkSize\<rparr>) H" "backing_ok t" "mset (heap_ready s) = add_mset p (mset (heap_ready t))"
    and "mapped t = mapped s" "slices t = slices s" "inherited t = inherited s" "free_file t = free_file s"
    "spill t = spill s" "ram t = ram s" "fd_open t = fd_open s"
  shows "held_inv t (p # H)"
proof -
  let ?s = "s\<lparr>ram := ram s - of_nat kChunkSize\<rparr>"
  have "heap_ready ?s = heap_ready s" by (rule heap_ready_cong) simp_all
  then have l: "layout (mapped s) (slices s) (inherited s) (heap_ready s) (map rc_ptr (free_file s)) H"
    using assms(1) by (simp add: held_inv_def)
  have ih: "in_heap t = in_heap ?s" using assms by (intro in_heap_cong) simp_all
  have r: "ram s - of_nat kChunkSize = of_nat (kChunkSize * length (filter (in_heap ?s) H))"
    using assms(1) by (simp add: held_inv_def)
  have p: "in_heap t p" using layout_take_heap(2,3) [OF l assms(3)] assms(5,6) by (simp add: in_heap_def)
  have "ram t = of_nat (kChunkSize * length (filter (in_heap t) (p # H)))"
    using r p assms(9) by (simp add: ih algebra_simps)
  moreover have "\<not> in_file (slices s) p" using layout_take_heap(2) [OF l assms(3)] .
  ultimately show ?thesis
    using assms layout_take_heap(1) [OF l assms(3)] by (simp add: held_inv_def)
qed

lemma grid_Suc: "grid b (Suc n) = b # grid (b + of_nat kChunkSize) n"
proof -
  have "grid b (Suc n) = b # map (\<lambda>i. b + of_nat (Suc i * kChunkSize)) [0 ..< n]"
    by (simp add: grid_def upt_rec [of 0 "Suc n"] map_Suc_upt [symmetric] distrib_right del: upt_Suc)
  moreover have "b + of_nat (Suc i * kChunkSize) = b + of_nat kChunkSize + of_nat (i * kChunkSize)" for i
    by (simp add: distrib_right)
  ultimately show ?thesis unfolding grid_def by simp
qed

lemma carve_ready:
  assumes "backing_ok s" "arena_next s \<noteq> arena_end s"
  shows "heap_ready s = map rc_ptr (pool s) @ map rc_ptr (cold s) @ arena_next s # 
    grid (arena_next s + of_nat kChunkSize) ((unat (arena_end s) - unat (arena_next s + of_nat kChunkSize)) div kChunkSize)"
proof -
  have a: "unat (arena_next s) \<le> unat (arena_end s)" "kChunkSize dvd unat (arena_next s)" "kChunkSize dvd unat (arena_end s)"
    using assms(1) by (auto simp: backing_ok_def arena_ok_def)
  then obtain i j where ij: "unat (arena_next s) = kChunkSize * i" "unat (arena_end s) = kChunkSize * j"
    by (auto elim!: dvdE)
  have lt: "i < j" using a(1) assms(2) ij kChunkSize_pos by (metis mult_le_cancel1 nat_less_le u64_eq_iff)
  then have le: "kChunkSize * Suc i \<le> kChunkSize * j" by (intro mult_le_mono2) simp
  have k: "unat (of_nat kChunkSize :: u64) = kChunkSize" by (simp add: kChunkSize_def)
  have "unat (arena_next s + of_nat kChunkSize) = kChunkSize * Suc i"
    using le ij unat_u64_lt [of "arena_end s"] by (subst unat_add64) (simp_all add: k)
  moreover have "(kChunkSize * j - kChunkSize * m) div kChunkSize = j - m" for m
    by (simp add: right_diff_distrib' [symmetric])
  ultimately show ?thesis
    using lt ij by (simp add: heap_ready_def grid_Suc [symmetric] Suc_diff_Suc del: mult_Suc_right)
qed

lemma held_carve:
  assumes "held_inv (s\<lparr>ram := ram s - of_nat kChunkSize\<rparr>) H" "arena_next s \<noteq> arena_end s" "carve s = (r, s')"
  shows "held_inv s' (held_after r H)"
proof -
  have ok: "backing_ok s" using assms(1) by (auto simp: held_inv_def backing_ok_def arena_ok_def)
  have s': "s' = s\<lparr>arena_next := arena_next s + of_nat kChunkSize\<rparr>" "r = Inr (fresh_chunk (arena_next s))"
    using assms(3) by (simp_all add: carve_def)
  have "mset (heap_ready s) = add_mset (arena_next s) (mset (heap_ready s'))"
    by (subst carve_ready [OF ok assms(2)]) (simp add: s' heap_ready_def)
  from held_take_heap [OF assms(1) _ this] carve_ok [OF ok assms(2,3)]
  show ?thesis by (auto simp: s' held_after_def fresh_chunk_def)
qed

lemma held_arena:
  assumes "held_inv (s\<lparr>ram := ram s - of_nat kChunkSize\<rparr>) H" "arena_chunk s = (r, s')"
  shows "held_inv s' (held_after r H)"
proof (cases "cold s")
  case (Cons c rest)
  have ok: "backing_ok s" using assms(1) by (auto simp: held_inv_def backing_ok_def arena_ok_def)
  have s': "s' = s\<lparr>cold := rest\<rparr>" "r = Inr c" using assms(2) Cons by (simp_all add: arena_chunk_def)
  have "mset (heap_ready s) = add_mset (rc_ptr c) (mset (heap_ready s'))" by (simp add: s' heap_ready_def Cons)
  moreover have "backing_ok s'" using ok Cons by (simp add: s' backing_ok_def arena_ok_def)
  ultimately have "held_inv s' (rc_ptr c # H)" using held_take_heap [OF assms(1)] by (simp add: s')
  then show ?thesis by (simp add: s' held_after_def)
next
  case Nil
  have ok: "backing_ok s" using assms(1) by (auto simp: held_inv_def backing_ok_def arena_ok_def)
  show ?thesis
  proof (cases "arena_next s = arena_end s")
    case False
    then show ?thesis using assms Nil held_carve by (simp add: arena_chunk_def)
  next
    case True
    show ?thesis
    proof (cases "os_mmap_anon (kernel s) (tick s) (mapped s)")
      case None
      then have "r = Inl BadAlloc" "s' = s\<lparr>ram := ram s - of_nat kChunkSize\<rparr>"
        using assms(2) Nil True by (simp_all add: arena_chunk_def)
      then show ?thesis using assms(1) by (simp add: held_after_def)
    next
      case (Some m)
      define base where "base = (m + of_nat kHugePage - 1) AND NOT (of_nat kHugePage - 1)"
      define t where "t = s\<lparr>mapped := (m, kArenaBytes + kHugePage) # mapped s, arena_next := base,
          arena_end := base + of_nat kArenaBytes\<rparr>"
      let ?old = "s\<lparr>ram := ram s - of_nat kChunkSize\<rparr>" and ?new = "t\<lparr>ram := ram t - of_nat kChunkSize\<rparr>"
      have pl: "placed (mapped s) m (kArenaBytes + kHugePage)" using ok Some by (auto simp: backing_ok_def os_ok_def)
      then have "unat m + kArenaBytes + kHugePage \<le> 2 ^ 63" by (simp add: placed_def)
      note b = arena_base [OF this, folded base_def]
      let ?n = "kArenaBytes div kChunkSize"
      have n: "?n * kChunkSize = kArenaBytes" by (simp add: backing_sizes)
      have "unat base + ?n * kChunkSize \<le> 2 ^ 64" using b(2) pl by (simp add: n placed_def)
      note g = grid_apart [OF this]
      have old: "heap_ready ?old = map rc_ptr (pool s)" by (simp add: heap_ready_def Nil True grid_def)
      have new: "heap_ready ?new = map rc_ptr (pool s) @ grid base ?n"
        using b(4) by (simp add: heap_ready_def t_def Nil)
      have "layout (mapped s) (slices s) (inherited s) (map rc_ptr (pool s)) (map rc_ptr (free_file s)) H"
        using assms(1) old by (simp add: held_inv_def)
      then have "layout (mapped t) (slices s) (inherited s) (grid base ?n @ map rc_ptr (pool s)) (map rc_ptr (free_file s)) H"
        unfolding t_def using pl g b(1,2)
        by simp (rule layout_new, auto simp: n backing_sizes)
      then have "layout (mapped t) (slices s) (inherited s) (heap_ready ?new) (map rc_ptr (free_file s)) H"
        by (rule layout_perm_heap) (simp add: new)
      moreover have "backing_ok ?new"
        using new_arena_ok(1) [OF ok Some, of "(m, kArenaBytes + kHugePage) # mapped s"]
        by (simp add: t_def base_def backing_ok_def arena_ok_def)
      moreover have "in_heap ?new = in_heap ?old" by (rule in_heap_cong) (simp_all add: t_def)
      ultimately have h: "held_inv ?new H" using assms(1) unfolding held_inv_def by (simp add: t_def)
      have "arena_next t \<noteq> arena_end t" using new_arena_ok(2) [OF ok Some] by (simp add: t_def base_def)
      moreover have "carve t = (r, s')"
        using assms(2) Nil True Some by (simp add: arena_chunk_def t_def base_def Let_def)
      ultimately show ?thesis using held_carve [OF h] by blast
    qed
  qed
qed

lemma held_acquire_heap:
  assumes "held_inv s H" "acquire_heap s = (r, s')"
  shows "held_inv s' (held_after r H)"
proof -
  define t where "t = s\<lparr>ram := ram s + of_nat kChunkSize\<rparr>"
  have e: "(case pool t of chunk # rest \<Rightarrow> (Inr chunk, t\<lparr>pool := rest\<rparr>) | [] \<Rightarrow> arena_chunk t) = (r, s')"
    using assms(2) unfolding acquire_heap_def Let_def t_def .
  have h: "held_inv (t\<lparr>ram := ram t - of_nat kChunkSize\<rparr>) H" using assms(1) by (simp add: t_def)
  show ?thesis
  proof (cases "pool t")
    case Nil
    then show ?thesis using e held_arena [OF h] by simp
  next
    case (Cons c rest)
    then have s': "s' = t\<lparr>pool := rest\<rparr>" "r = Inr c" using e by simp_all
    have "backing_ok s'" using assms(1) Cons by (simp add: s' t_def held_inv_def backing_ok_def arena_ok_def)
    moreover have "mset (heap_ready t) = add_mset (rc_ptr c) (mset (heap_ready s'))" by (simp add: s' heap_ready_def Cons)
    ultimately have "held_inv s' (rc_ptr c # H)" using held_take_heap [OF h] by (simp add: s')
    then show ?thesis by (simp add: s' held_after_def)
  qed
qed

lemma map_slice_chunks: "map rc_ptr (slice_chunks base) = grid base kSliceChunks"
  by (simp add: slice_chunks_def grid_def)

lemma held_open_spill: "held_inv s H \<Longrightarrow> held_inv (snd (open_spill s)) H"
  by (simp add: open_spill_def held_inv_cong)

lemma held_grow:
  assumes "held_inv s H" "grow s = (r, s')"
  shows "held_inv s' H \<and> (r = Inr () \<longrightarrow> fd_open s')"
proof -
  obtain q t where o: "open_spill s = (q, t)" by (metis prod.exhaust)
  have t: "held_inv t H" using held_open_spill [OF assms(1)] o by simp
  have fd: "q = Inr () \<Longrightarrow> fd_open t" using o by (auto simp: open_spill_def split: if_splits)
  show ?thesis
  proof (cases "q = Inr () \<and> os_fallocate_slice (kernel t) (tick t) \<and> os_mmap_file (kernel t) (tick t) (mapped t) \<noteq> None")
    case False
    then show ?thesis using assms(2) o t by (cases q) (auto simp: grow_def split: if_splits option.splits)
  next
    case True
    then obtain base where base: "os_mmap_file (kernel t) (tick t) (mapped t) = Some base" by auto
    have s': "r = Inr ()" "s' = t\<lparr>mapped := (base, kSliceBytes) # mapped t, slices := om_set base (file_size t) (slices t),
        file_size := file_size t + of_nat kSliceBytes, free_file := slice_chunks base @ free_file t\<rparr>"
      using assms(2) o True base by (auto simp: grow_def)
    have pl: "placed (mapped t) base kSliceBytes" using t base by (auto simp: held_inv_def backing_ok_def os_ok_def)
    have l: "layout (mapped t) (slices t) (inherited t) (heap_ready t) (map rc_ptr (free_file t)) H"
      using t by (simp add: held_inv_def)
    note n = layout_new_slice [OF l pl, of "file_size t"]
    have hr: "heap_ready s' = heap_ready t" by (rule heap_ready_cong) (simp_all add: s')
    have f: "filter (in_file (slices s')) H = filter (in_file (slices t)) H"
      using n(2) by (auto simp: s' intro!: filter_cong)
    have "filter (in_heap s') H = filter (in_heap t) H"
      using n(2) by (auto simp: s' in_heap_def intro!: filter_cong)
    moreover have "backing_ok s'" using backing_ok_grow [of s r s'] assms by (simp add: held_inv_def)
    ultimately show ?thesis
      using t n(1) hr f fd True unfolding held_inv_def by (simp add: s' map_slice_chunks del: om_find_set)
  qed
qed

lemma held_acquire_file:
  assumes "held_inv s H" "acquire_file s = (r, s')"
  shows "held_inv s' (held_after r H)"
proof -
  obtain q t where g: "(if free_file s = [] then grow s else (Inr (), s)) = (q, t)" by (metis prod.exhaust)
  have t: "held_inv t H" using g held_grow [OF assms(1)] assms(1) by (auto split: if_splits)
  have e: "then_do (q, t) (\<lambda>_ s. case free_file s of [] \<Rightarrow> (Inl Stray, s)
       | chunk # rest \<Rightarrow> if \<not> os_fallocate_chunk (kernel s) (tick s) then (Inl (Throw OutOfMemory), s)
           else (Inr chunk, s\<lparr>free_file := rest, spill := spill s + of_nat kChunkSize\<rparr>)) = (r, s')"
    using assms(2) by (simp add: acquire_file_def g)
  show ?thesis
  proof (cases "\<exists>x c rest. q = Inr x \<and> free_file t = c # rest \<and> os_fallocate_chunk (kernel t) (tick t)")
    case False
    then show ?thesis using e t by (cases q; cases "free_file t") (auto simp: held_after_def split: if_splits)
  next
    case True
    then obtain c rest where ff: "free_file t = c # rest" and s': "r = Inr c"
        "s' = t\<lparr>free_file := rest, spill := spill t + of_nat kChunkSize\<rparr>"
      using e by auto
    have l: "layout (mapped t) (slices t) (inherited t) (heap_ready t) (rc_ptr c # map rc_ptr rest) H"
      using t ff by (simp add: held_inv_def)
    have hr: "heap_ready s' = heap_ready t" by (rule heap_ready_cong) (simp_all add: s')
    have ih: "in_heap s' = in_heap t" by (rule in_heap_cong) (simp_all add: s')
    have "\<not> in_heap t (rc_ptr c)" using layout_take_file(2) [OF l] by (simp add: in_heap_def)
    moreover have "backing_ok s'" using acquire_file_ok [of s r s'] assms by (simp add: held_inv_def)
    ultimately have "held_inv s' (rc_ptr c # H)"
      using t layout_take_file(1,2) [OF l] hr ih unfolding held_inv_def by (simp add: s' algebra_simps)
    then show ?thesis by (simp add: s' held_after_def)
  qed
qed

lemma held_acquire:
  assumes "held_inv s H" "acquire s = (r, s')"
  shows "held_inv s' (held_after r H)"
proof -
  define t where "t = (adopt_after_fork (configure_from_env (next_call s)))\<lparr>spilling_for_host := False\<rparr>"
  have upd: "held_inv x K \<Longrightarrow> held_inv (x\<lparr>spilling_for_host := b\<rparr>) K" for x b K by (erule held_inv_cong) simp_all
  have t: "held_inv t H"
    unfolding t_def by (intro upd held_inv_adopt held_inv_configure_from_env held_inv_next_call assms(1))
  obtain b u where h: "host_is_short t = (b, u)" by (metis prod.exhaust)
  have u: "held_inv u H" using held_inv_short [OF t h] .
  have a: "acquire s = (if spill_dir (cfg t) \<noteq> [] \<and> ram t + of_nat kChunkSize > ram_limit_bytes (cfg t) then acquire_file t
      else if host_guard (cfg t)
      then (if \<not> b then acquire_heap u else if spill_dir (cfg u) = [] then (Inl (Throw OutOfMemory), u)
            else acquire_file (u\<lparr>spilling_for_host := True\<rparr>))
      else acquire_heap t)"
    unfolding acquire_def Let_def t_def [symmetric] h by (simp add: t_def)
  show ?thesis
    using assms(2) held_acquire_file [OF t, of r s'] held_acquire_heap [OF t, of r s'] held_acquire_heap [OF u, of r s']
      held_acquire_file [OF upd [OF u, of True], of r s'] u
    unfolding a by (auto simp: held_after_def split: if_splits)
qed

lemma held_release:
  assumes "held_inv s H" "rc_ptr c \<in> set H" "ptr_ok c" "\<forall>j < kChunkSize. dirty \<le> j \<longrightarrow> rc_bytes c j = 0"
  shows "held_inv (release c dirty s) (remove1 (rc_ptr c) H)"
proof -
  define t where "t = adopt_after_fork (next_call s)"
  let ?p = "rc_ptr c" and ?H = "remove1 (rc_ptr c) H" and ?s' = "release c dirty s"
  have t: "held_inv t H" unfolding t_def by (intro held_inv_adopt held_inv_next_call assms(1))
  then have l: "layout (mapped t) (slices t) (inherited t) (heap_ready t) (map rc_ptr (free_file t)) H"
    by (simp add: held_inv_def)
  have ok: "backing_ok ?s'" using release_ok assms by (simp add: held_inv_def)
  note counts = length_filter_remove1 [OF assms(2)]
  have words: "spill t = of_nat (kChunkSize * length (filter (in_file (slices t)) ?H)) + (if in_file (slices t) ?p then of_nat kChunkSize else 0)"
    "ram t = of_nat (kChunkSize * length (filter (in_heap t) ?H)) + (if in_heap t ?p then of_nat kChunkSize else 0)"
    using t counts [of "in_file (slices t)"] counts [of "in_heap t"] by (simp_all add: held_inv_def algebra_simps)
  consider (inherited) "in_file (inherited t) ?p" | (spilled) "\<not> in_file (inherited t) ?p" "in_file (slices t) ?p"
    | (heap) "\<not> in_file (inherited t) ?p" "\<not> in_file (slices t) ?p" by blast
  then show ?thesis
  proof cases
    case inherited
    then have "?s' = t" using layout_lookup(2) [OF l, of ?p] by (simp add: release_def t_def Let_def)
    moreover have "\<not> in_file (slices t) ?p" using layout_kinds [OF l] inherited by blast
    moreover have "\<not> in_heap t ?p" using inherited by (simp add: in_heap_def)
    ultimately show ?thesis
      using t words layout_drop [OF l assms(2)] by (simp add: held_inv_def)
  next
    case spilled
    then have "slices t \<noteq> []" by (auto simp: in_file_def)
    then have "fd_open t" using t by (auto simp: held_inv_def)
    then have s': "?s' = t\<lparr>free_file := cleared (os_punch_hole (kernel t) (tick t)) c # free_file t, spill := spill t - of_nat kChunkSize\<rparr>"
      using spilled layout_lookup [OF l, of ?p] by (simp add: release_def t_def Let_def file_offset_def)
    have "heap_ready ?s' = heap_ready t" by (rule heap_ready_cong) (simp_all add: s')
    moreover have "in_heap ?s' = in_heap t" by (rule in_heap_cong) (simp_all add: s')
    moreover have "spill t - of_nat kChunkSize = of_nat (kChunkSize * length (filter (in_file (slices t)) ?H))"
      using words(1) spilled by simp
    moreover have "ram t = of_nat (kChunkSize * length (filter (in_heap t) ?H))"
      using words(2) spilled by (simp add: in_heap_def)
    moreover have "rc_ptr (cleared b c) = ?p" for b by (simp add: cleared_def)
    ultimately show ?thesis
      using \<open>fd_open t\<close> layout_give_file [OF l assms(2) spilled(2)] ok unfolding held_inv_def by (simp add: s')
  next
    case heap
    let ?t = "t\<lparr>ram := ram t - of_nat kChunkSize\<rparr>"
    have "?s' \<in> {give_back c ?t, ?t\<lparr>pool := wipe c dirty # pool t\<rparr>, give_back (wipe c dirty) ?t}"
      using heap layout_lookup [OF l, of ?p] by (simp add: release_def t_def [symmetric] Let_def file_offset_def)
    then have s': "mset (heap_ready ?s') = add_mset ?p (mset (heap_ready t))" "mapped ?s' = mapped t" "slices ?s' = slices t"
      "inherited ?s' = inherited t" "free_file ?s' = free_file t" "spill ?s' = spill t" "fd_open ?s' = fd_open t"
      "ram ?s' = ram t - of_nat kChunkSize"
      by (auto simp: give_back_def heap_ready_def cleared_def wipe_def)
    have "in_heap ?s' = in_heap t" by (rule in_heap_cong) (simp_all add: s')
    moreover have "ram t - of_nat kChunkSize = of_nat (kChunkSize * length (filter (in_heap t) ?H))"
      using words(2) heap by (simp add: in_heap_def)
    moreover have "spill t = of_nat (kChunkSize * length (filter (in_file (slices t)) ?H))" using words(1) heap by simp
    moreover have "\<not> fd_open t \<longrightarrow> slices t = []" using t by (simp add: held_inv_def)
    ultimately show ?thesis
      using layout_give_heap [OF l assms(2) heap(2,1) s'(1)] ok s' unfolding held_inv_def by simp
  qed
qed

lemma held_initial: "os_ok os \<Longrightarrow> held_inv (initial_state os) []"
  using backing_ok_initial [of os]
  by (simp add: held_inv_def layout_def initial_state_def heap_ready_def grid_def)

lemma held_configure: "held_inv s H \<Longrightarrow> held_inv (configure c s) H"
proof -
  assume h: "held_inv s H"
  define t where "t = adopt_after_fork ((next_call s)\<lparr>configured := True, cfg := c, since_check := 0, low := False\<rparr>)"
  have "held_inv ((next_call s)\<lparr>configured := True, cfg := c, since_check := 0, low := False\<rparr>) H"
    using h by (rule held_inv_cong) (simp_all add: next_call_def)
  then have t: "held_inv t H" by (simp add: t_def held_inv_adopt)
  then have l: "layout (mapped t) (slices t) (inherited t) (heap_ready t) (map rc_ptr (free_file t)) H"
    by (simp add: held_inv_def)
  show ?thesis
  proof (cases "fd_open t \<and> spill t = 0")
    case False
    then show ?thesis using t unfolding configure_def Let_def t_def [symmetric] by auto
  next
    case True
    let ?f = "filter (in_file (slices t)) H"
    have "kChunkSize * length ?f \<le> 2 ^ 63"
      using held_bound [OF l] length_filter_le [of "in_file (slices t)" H] by (meson le_trans mult_le_mono2)
    then have "unat (of_nat (kChunkSize * length ?f) :: u64) = kChunkSize * length ?f" by (intro unat_of_nat64) simp
    moreover have "of_nat (kChunkSize * length ?f) = (0 :: u64)" using t True by (simp add: held_inv_def)
    ultimately have "kChunkSize * length ?f = 0" by (metis unat_0)
    then have "?f = []" by (simp add: kChunkSize_def)
    then have none: "\<forall>p \<in> set H. \<not> in_file (slices t) p" by (simp add: filter_empty_conv)
    let ?s = "configure c s"
    have s': "?s = t\<lparr>mapped := filter (\<lambda>r. fst r \<notin> fst ` set (slices t)) (mapped t), slices := [],
        free_file := [], fd_open := False, file_size := 0\<rparr>"
      using True unfolding configure_def Let_def t_def [symmetric] by simp
    have "heap_ready ?s = heap_ready t" by (rule heap_ready_cong) (simp_all add: s')
    moreover have "filter (in_heap ?s) H = filter (in_heap t) H"
      using none by (auto simp: s' in_heap_def in_file_def [of "[]"] intro!: filter_cong)
    moreover have "in_file (slices ?s) = (\<lambda>p. False)" by (simp add: in_file_def s' fun_eq_iff)
    moreover have "backing_ok ?s" using h backing_ok_configure by (simp add: held_inv_def)
    ultimately show ?thesis
      using t True layout_give_up [OF l none] unfolding held_inv_def by (simp add: s')
  qed
qed

section \<open>Runs\<close>

text \<open>
  What a program can do with the backing: configure it, ask for a chunk, give back one that is in use
  (with the promise it makes). \<open>H\<close> are the chunks in use, newest first.
\<close>

inductive backing_run :: "host_os \<Rightarrow> bstate \<Rightarrow> u64 list \<Rightarrow> bool" for os where
  start: "backing_run os (initial_state os) []"
| configured: "backing_run os s H \<Longrightarrow> backing_run os (configure c s) H"
| acquired: "backing_run os s H \<Longrightarrow> acquire s = (r, s') \<Longrightarrow> backing_run os s' (held_after r H)"
| released: "backing_run os s H \<Longrightarrow> rc_ptr c \<in> set H \<Longrightarrow> ptr_ok c \<Longrightarrow>
    \<forall>j < kChunkSize. dirty \<le> j \<longrightarrow> rc_bytes c j = 0 \<Longrightarrow> backing_run os (release c dirty s) (remove1 (rc_ptr c) H)"

lemma backing_run_held:
  assumes "backing_run os s H" "os_ok os"
  shows "held_inv s H"
  using assms
  by (induction rule: backing_run.induct) (auto intro: held_initial held_configure held_acquire held_release)

lemma held_ram_spill:
  assumes "held_inv s H"
  shows "unat (ram s) + unat (spill s) \<le> kChunkSize * length H"
    "inherited s = [] \<Longrightarrow> unat (ram s) + unat (spill s) = kChunkSize * length H"
proof -
  let ?f = "filter (in_file (slices s)) H" and ?h = "filter (in_heap s) H"
  have l: "layout (mapped s) (slices s) (inherited s) (heap_ready s) (map rc_ptr (free_file s)) H"
    using assms by (simp add: held_inv_def)
  have small: "unat (of_nat (kChunkSize * length (filter P H)) :: u64) = kChunkSize * length (filter P H)" for P
  proof (rule unat_of_nat64)
    have "kChunkSize * length (filter P H) \<le> kChunkSize * length H" by (intro mult_le_mono2) simp
    also have "\<dots> < 2 ^ 64" using held_bound [OF l] by simp
    finally show "kChunkSize * length (filter P H) < 2 ^ 64" .
  qed
  have sum: "unat (ram s) + unat (spill s) = kChunkSize * (length ?h + length ?f)"
    using assms small [of "in_heap s"] small [of "in_file (slices s)"]
    by (simp add: held_inv_def distrib_left del: of_nat_mult)
  have "length ?h + length ?f \<le> length H" by (induction H) (auto simp: in_heap_def)
  then show "unat (ram s) + unat (spill s) \<le> kChunkSize * length H" unfolding sum by (intro mult_le_mono2)
  assume "inherited s = []"
  then have "length ?h + length ?f = length H" by (induction H) (auto simp: in_heap_def in_file_def)
  then show "unat (ram s) + unat (spill s) = kChunkSize * length H" unfolding sum by simp
qed

section \<open>The guard\<close>

text \<open>
  A host found short with nowhere to spill is looked at again on the very next chunk. So a refusal
  always rests on a fresh look, taken with the pool empty.
\<close>

definition guard_ok :: "bstate \<Rightarrow> bool" where
  "guard_ok s \<longleftrightarrow> (low s \<and> spill_dir (cfg s) = [] \<longrightarrow> since_check s = 0) \<and> (\<not> configured s \<longrightarrow> \<not> low s)"

definition fresh_look :: "bstate \<Rightarrow> bstate \<Rightarrow> bool" where
  "fresh_look s s' \<longleftrightarrow> samples s' \<in> {samples s + 1, samples s + 2} \<and> pool s' = [] \<and>
     host_figures (cfg s') (os_files (kernel s') (unat (samples s'))) = (last_look s', True)"

lemma look_low:
  assumes "low (look_at_host s)"
  shows "host_figures (cfg s) (os_files (kernel s) (unat (samples (look_at_host s)))) = (last_look (look_at_host s), True)"
  using assms by (simp add: look_at_host_def Let_def split: prod.splits)

lemma look_fields:
  "samples (look_at_host s) = samples s + 1" "configured (look_at_host s) = configured s"
  by (simp_all add: look_at_host_def Let_def split: prod.splits)

lemma look_with_pool_low:
  assumes "low (look_at_host_with_pool s)"
  shows "fresh_look s (look_at_host_with_pool s)"
proof (cases "low (look_at_host s) \<and> pool s \<noteq> []")
  case False
  then have "look_at_host_with_pool s = look_at_host s" by (auto simp: look_at_host_with_pool_def Let_def)
  then show ?thesis using False assms look_low [of s] look_fields [of s] by (auto simp: fresh_look_def)
next
  case True
  define t where "t = drain_pool (look_at_host s)"
  have t: "pool t = []" "cfg t = cfg s" "kernel t = kernel s" "samples t = samples s + 1"
    by (simp_all add: t_def drain_pool_eq look_fields)
  have "look_at_host_with_pool s = look_at_host t" using True by (simp add: look_at_host_with_pool_def Let_def t_def)
  then show ?thesis using assms t look_low [of t] look_fields [of t] by (simp add: fresh_look_def)
qed

lemma look_with_pool_keeps:
  "configured (look_at_host_with_pool s) = configured s" "cfg (look_at_host_with_pool s) = cfg s"
  by (simp_all add: look_at_host_with_pool_def Let_def look_fields drain_pool_eq)

lemma host_is_short_guard:
  assumes "guard_ok s" "configured s" "host_is_short s = (b, s')"
  shows "guard_ok s'" "b = low s'" "configured s'" "cfg s' = cfg s"
    "b \<Longrightarrow> spill_dir (cfg s') = [] \<Longrightarrow> fresh_look s s'"
proof -
  define t where "t = (if since_check s = 0 then look_at_host_with_pool s else s)"
  define n where "n = (if since_check t + 1 \<ge> max 1 (host_check_every_chunks (cfg t)) \<or> (low t \<and> spill_dir (cfg t) = [])
    then 0 else since_check t + 1)"
  have s': "s' = t\<lparr>since_check := n\<rparr>" "b = low t"
    using assms(3) unfolding host_is_short_def Let_def t_def [symmetric] n_def [symmetric] by simp_all
  have t: "configured t" "cfg t = cfg s" using assms(2) by (simp_all add: t_def look_with_pool_keeps)
  show "b = low s'" "configured s'" "cfg s' = cfg s" using s' t by simp_all
  have "low t \<and> spill_dir (cfg t) = [] \<longrightarrow> n = 0" by (simp add: n_def)
  then show "guard_ok s'" using s' t by (simp add: guard_ok_def)
  assume b: "b" "spill_dir (cfg s') = []"
  then have "since_check s = 0"
    using s' assms(1) t(2) by (cases "since_check s = 0") (auto simp: t_def guard_ok_def)
  then have "fresh_look s t" using look_with_pool_low [of s] s'(2) b(1) by (simp add: t_def)
  then show "fresh_look s s'" by (simp add: fresh_look_def s')
qed

lemma acquire_refused:
  assumes "guard_ok s" "acquire s = (Inl e, s')" "e \<noteq> BadAlloc"
    and "spill_dir (cfg s') = []"
  shows "e = Throw OutOfMemory \<and> fresh_look s s'"
proof -
  define t where "t = (adopt_after_fork (configure_from_env (next_call s)))\<lparr>spilling_for_host := False\<rparr>"
  have t: "guard_ok t" "configured t" "samples t = samples s"
    using assms(1) by (auto simp: t_def guard_ok_def adopt_after_fork_def configure_from_env_def next_call_def)
  obtain b u where h: "host_is_short t = (b, u)" by (metis prod.exhaust)
  note hs = host_is_short_guard [OF t(1,2) h]
  have a: "acquire s = (if spill_dir (cfg t) \<noteq> [] \<and> ram t + of_nat kChunkSize > ram_limit_bytes (cfg t) then acquire_file t
      else if host_guard (cfg t)
      then (if \<not> b then acquire_heap u else if spill_dir (cfg u) = [] then (Inl (Throw OutOfMemory), u)
            else acquire_file (u\<lparr>spilling_for_host := True\<rparr>))
      else acquire_heap t)"
    unfolding acquire_def Let_def t_def [symmetric] h by (simp add: t_def)
  have keep: "cfg (snd (acquire_file x)) = cfg x" for x
    by (auto simp: acquire_file_def grow_def open_spill_def split: if_splits option.splits list.splits)
  have heap: "fst (acquire_heap x) = Inl y \<Longrightarrow> y = BadAlloc" for x y
    by (auto simp: acquire_heap_def arena_chunk_def carve_def Let_def split: list.splits if_splits option.splits)
  have sd: "spill_dir (cfg u) = spill_dir (cfg t)" using hs(4) by simp
  show ?thesis
  proof (cases "spill_dir (cfg t) = [] \<and> host_guard (cfg t) \<and> b")
    case True
    then have "e = Throw OutOfMemory" "s' = u" using assms(2) sd unfolding a by auto
    moreover have "fresh_look t u" using hs(5) True sd by simp
    ultimately show ?thesis using t(3) by (simp add: fresh_look_def)
  next
    case False
    have "fst (acquire s) = Inl e" "snd (acquire s) = s'" using assms(2) by simp_all
    then show ?thesis
      using False assms(3,4) heap keep [of t] keep [of "u\<lparr>spilling_for_host := True\<rparr>"] sd unfolding a
      by (auto split: if_splits)
  qed
qed

text \<open>The pool never holds more than its configured size, nor more than the RAM limit leaves.\<close>

lemma release_pool_bound:
  assumes "pool_pending s = 0" "length (pool (release c dirty s)) > length (pool s)"
  shows "(of_nat (length (pool (release c dirty s))) :: u64) * of_nat kChunkSize \<le> pool_max_bytes (cfg s)"
proof -
  define t where "t = adopt_after_fork (next_call s)"
  have t: "pool t = pool s" "cfg t = cfg s" "pool_pending t = 0"
    using assms(1) by (simp_all add: t_def adopt_after_fork_def next_call_def)
  let ?t = "t\<lparr>ram := ram t - of_nat kChunkSize\<rparr>"
  have "length (pool (release c dirty s)) = Suc (length (pool s)) \<and> pool_has_room ?t"
    using assms(2) t unfolding release_def t_def [symmetric] Let_def
    by (auto simp: give_back_def split: if_splits)
  then show ?thesis
    using t by (auto simp: pool_has_room_def Let_def algebra_simps split: if_splits)
qed

section \<open>Properties\<close>

text \<open>
  C6. The chunk \<open>acquire\<close> hands out is all zero, has an aligned address that no tag of the chunk
  table can be taken for, and overlaps no chunk that is in use, whatever was configured, acquired and
  released before (a fork, a full disk and a host short of memory included).
\<close>

theorem acquire_fresh:
  assumes "os_ok os" "backing_run os s H" "acquire s = (Inr c, s')"
  shows "ptr_ok c \<and> (\<forall>j < kChunkSize. rc_bytes c j = 0) \<and> (\<forall>p \<in> set H. apart (rc_ptr c) p)"
proof -
  have h: "held_inv s H" using backing_run_held assms(1,2) by blast
  then have "held_inv s' (rc_ptr c # H)" using held_acquire [OF h assms(3)] by (simp add: held_after_def)
  then have "\<forall>p \<in> set H. apart (rc_ptr c) p" by (simp add: held_inv_def layout_def)
  then show ?thesis using acquire_ok [OF _ assms(3)] h by (auto simp: held_inv_def zero_chunk_def)
qed

text \<open>A kernel that has room for one arena, the guard switched off.\<close>

definition demo_os :: host_os where
  "demo_os = \<lparr>os_env = (\<lambda>n. if n = ''VGPU_MEMORY_HOST_GUARD'' then Some ''0'' else None),
     os_files = (\<lambda>_ _. None), os_getpid = (\<lambda>_. 7),
     os_tmpfile = (\<lambda>_. False), os_mkostemp = (\<lambda>_. False), os_fallocate_slice = (\<lambda>_. False),
     os_fallocate_chunk = (\<lambda>_. False), os_punch_hole = (\<lambda>_. False), os_madvise = (\<lambda>_ _. True),
     os_mmap_file = (\<lambda>_ _. None), os_mmap_anon = (\<lambda>_ r. if r = [] then Some 0x10001000 else None)\<rparr>"

lemma demo_os_ok: "os_ok demo_os"
  by (auto simp: os_ok_def demo_os_def placed_def backing_sizes)

definition demo_state :: "nat \<Rightarrow> bstate" where
  "demo_state n = (initial_state demo_os)\<lparr>configured := True, cfg := default_config\<lparr>host_guard := False\<rparr>,
     ram := of_nat (n * kChunkSize), arena_next := 0x10200000 + of_nat (n * kChunkSize), arena_end := 0x14200000,
     tick := n, mapped := [(0x10001000, kArenaBytes + kHugePage)]\<rparr>"

lemma demo_acquire:
  "acquire (initial_state demo_os) = (Inr (fresh_chunk 0x10200000), demo_state 1)"
  "acquire (demo_state 1) = (Inr (fresh_chunk 0x10210000), demo_state 2)"
  by (simp_all add: acquire_def initial_state_def next_call_def configure_from_env_def config_from_env_def
      env_mb_def demo_os_def default_config_def adopt_after_fork_def acquire_heap_def arena_chunk_def
      carve_def demo_state_def Let_def backing_sizes fresh_chunk_def)

theorem acquire_fresh_witness:
  "os_ok demo_os \<and> backing_run demo_os (demo_state 1) [0x10200000] \<and>
    acquire (demo_state 1) = (Inr (fresh_chunk 0x10210000), demo_state 2) \<and> apart 0x10210000 0x10200000"
proof -
  have run: "backing_run demo_os (demo_state 1) [0x10200000]"
    using backing_run.acquired [OF backing_run.start demo_acquire(1)] by (simp add: held_after_def fresh_chunk_def)
  then show ?thesis
    using acquire_fresh [OF demo_os_ok run demo_acquire(2)] demo_os_ok demo_acquire(2) by (simp add: fresh_chunk_def)
qed



text \<open>
  With no directory to spill to, a chunk is refused for the host's sake only on a fresh look at the
  host's figures, taken with no chunk left in the pool, that found the headroom below the reserve.
\<close>

theorem refusal_after_fresh_look:
  assumes "guard_ok s" "acquire s = (Inl e, s')" "e \<noteq> BadAlloc" "spill_dir (cfg s') = []"
  shows "e = Throw OutOfMemory \<and> pool s' = [] \<and> samples s' \<in> {samples s + 1, samples s + 2} \<and>
    host_figures (cfg s') (os_files (kernel s') (unat (samples s'))) = (last_look s', True) \<and>
    (have_available (last_look s') \<and> available (last_look s') < lk_reserve (last_look s') \<or>
     have_cgroup (last_look s') \<and> cgroup_headroom (last_look s') < lk_reserve (last_look s'))"
  using acquire_refused [OF assms] host_figures_low(1) [of "cfg s'" _ "last_look s'" True]
  by (auto simp: fresh_look_def)

text \<open>A host with 4 kB left, and no cgroup.\<close>

definition short_info :: string where
  "short_info = concat (map info_line [(''MemTotal'', 8, 16000000), (''MemAvailable'', 4, 4)])"

lemma short_info_c: "takeWhile (\<lambda>c. c \<noteq> CHR 0x00) (take 8191 short_info) = short_info"
proof -
  have "char_of n \<noteq> CHR 0x00" if "0 < n" "n < 256" for n :: nat
    using that by (auto simp: char_of_eq_iff take_bit_eq_mod)
  then show ?thesis by (simp add: short_info_def info_line_def dec.simps)
qed

lemma short_info_values: "find_value short_info ''MemAvailable'' = Some 4096"
  "find_value short_info ''MemTotal'' = Some 16384000000"
  unfolding short_info_def by (subst find_value_info; simp add: word_key_def)+

definition short_files :: files where
  "short_files p = (if p = ''/proc/meminfo'' then Some short_info else None)"

lemma short_walk: "cgroup_walk short_files (''/sys'' @ r) [CHR ''/''] v st = st" "cgroup_walk short_files (''/sys'' @ r) [] v st = st"
  by (simp_all add: cgroup_walk_def walk_start_def cgroup_up.simps cgroup_dir_def read_small_def short_files_def starts_with_def)

lemma short_figures: "host_figures default_config short_files =
   (no_look\<lparr>available := 4096, have_available := True, headroom := 4096, lk_reserve := kGiB\<rparr>, True)"
proof -
  have r: "read_small short_files ''/proc/meminfo'' 8192 = Some short_info"
    "read_small short_files ''/proc/self/cgroup'' 8192 = None"
    using short_info_c by (simp_all add: read_small_def short_files_def)
  have w: "cgroup_walk short_files ''/sys/fs/cgroup'' ''/'' v st = st"
    "cgroup_walk short_files ''/sys/fs/cgroup/memory'' [] v st = st" for v st
    using short_walk(1) [of "''/fs/cgroup''"] short_walk(2) [of "''/fs/cgroup/memory''"] by simp_all
  show ?thesis
    by (simp add: host_figures_def default_config_def r w short_info_values settle_def no_look_def Let_def
        kAutoReserve_def auto_reserve_def kGiB_def)
qed
definition short_os :: host_os where
  "short_os = demo_os\<lparr>os_env := (\<lambda>_. None), os_files := (\<lambda>_. short_files)\<rparr>"

theorem refusal_after_fresh_look_witness:
  "\<exists>s'. guard_ok (initial_state short_os) \<and> acquire (initial_state short_os) = (Inl (Throw OutOfMemory), s') \<and>
    spill_dir (cfg s') = [] \<and> have_available (last_look s') \<and> available (last_look s') < lk_reserve (last_look s')"
proof -
  define t where "t = (initial_state short_os)\<lparr>configured := True, tick := 1\<rparr>"
  have env: "config_from_env (os_env short_os) = default_config"
    by (simp add: config_from_env_def short_os_def env_mb_def default_config_def)
  have e: "(adopt_after_fork (configure_from_env (next_call (initial_state short_os))))\<lparr>spilling_for_host := False\<rparr> = t"
    by (simp add: t_def next_call_def configure_from_env_def env initial_state_def adopt_after_fork_def)
  have look: "look_at_host t = t\<lparr>samples := 1, low := True,
      last_look := no_look\<lparr>available := 4096, have_available := True, headroom := 4096, lk_reserve := kGiB\<rparr>\<rparr>"
    using short_figures by (simp add: look_at_host_def t_def initial_state_def short_os_def)
  have t: "pool t = []" "since_check t = 0" "spill_dir (cfg t) = []" "host_guard (cfg t)"
    by (simp_all add: t_def initial_state_def default_config_def)
  define u where "u = look_at_host t"
  have u: "pool u = []" "low u" "since_check u = 0" "cfg u = cfg t" "have_available (last_look u)"
      "available (last_look u) < lk_reserve (last_look u)"
    using t by (simp_all add: u_def look kGiB_def)
  have "look_at_host_with_pool t = u" using u by (simp add: look_at_host_with_pool_def u_def [symmetric])
  then have "host_is_short t = (True, u\<lparr>since_check := 0\<rparr>)" using t u by (simp add: host_is_short_def)
  moreover have "u\<lparr>since_check := 0\<rparr> = u" using u(3) by (metis bstate.surjective bstate.update_convs(17))
  ultimately have short: "host_is_short t = (True, u)" by simp
  have a: "acquire (initial_state short_os) = (Inl (Throw OutOfMemory), u)"
    unfolding acquire_def Let_def e short using t u(4)
    by (simp add: e [symmetric])
  have g: "guard_ok (initial_state short_os)" by (simp add: guard_ok_def initial_state_def)
  show ?thesis
    using refusal_after_fresh_look [OF g a] a g t u by (intro exI [of _ u]) simp
qed

end
