(* ===== verification/Quarantine.thy ===== *)
theory Quarantine
  imports Errors Std_Map
begin

text \<open>
  The double-free quarantine of \<^verbatim>\<open>MemoryManager\<close>: \<^verbatim>\<open>freed_\<close>, \<^verbatim>\<open>freed_order_\<close>, \<^verbatim>\<open>freed_front_seq_\<close> and
  \<^verbatim>\<open>remember_freed\<close> of \<^verbatim>\<open>src/core/memory.cpp\<close>. An iterator into the table is its key; following one
  whose node is gone is \<open>Stray\<close>.

  The contract is the interface \<open>memory_of_frees\<close>: what was remembered is a lookup in the list of
  frees. The table is shown to implement it with exactly the last 4096 frees, and no iterator is
  ever followed into a node that is gone.
\<close>

section \<open>The table\<close>

definition kQuarantineEntries :: nat where
  "kQuarantineEntries = 4096"

record freed_record =
  fr_size :: u64
  fr_seq :: u64

record quarantine =
  freed :: "(u64, freed_record) omap"
  freed_order :: "u64 list"
  freed_front_seq :: u64
  spare_freed :: "(u64 \<times> freed_record) option"

definition empty_quarantine :: quarantine where
  "empty_quarantine = \<lparr>freed = [], freed_order = [], freed_front_seq = 0, spare_freed = None\<rparr>"

text \<open>The place of the new entry: a record of the same address is overwritten, a spare node is reused.\<close>

definition note_record :: "u64 \<Rightarrow> freed_record \<Rightarrow> quarantine \<Rightarrow> quarantine" where
  "note_record ptr record q =
     (let at = (if freed q = [] \<or> fst (last (freed q)) < ptr then None else om_lower_bound (freed q) ptr)
      in if map_option fst at = Some ptr then q\<lparr>freed := om_set ptr record (freed q)\<rparr>
         else if spare_freed q \<noteq> None then q\<lparr>freed := om_emplace ptr record (freed q), spare_freed := None\<rparr>
         else q\<lparr>freed := om_emplace ptr record (freed q)\<rparr>)"

fun evict :: "u64 list \<Rightarrow> quarantine \<Rightarrow> quarantine result" where
  "evict [] q = Inr (q\<lparr>freed_order := []\<rparr>)"
| "evict (stale # order) q =
     (if length (stale # order) \<le> kQuarantineEntries then Inr (q\<lparr>freed_order := stale # order\<rparr>)
      else (case om_find (freed q) stale of
              None \<Rightarrow> Inl Stray
            | Some r \<Rightarrow>
                evict order
                  ((if fr_seq r = freed_front_seq q
                    then q\<lparr>spare_freed := Some (stale, r), freed := om_erase stale (freed q)\<rparr> else q)
                   \<lparr>freed_front_seq := freed_front_seq q + 1\<rparr>)))"

definition remember_freed :: "u64 \<Rightarrow> u64 \<Rightarrow> quarantine \<Rightarrow> quarantine result" where
  "remember_freed ptr sz q =
     (let record = \<lparr>fr_size = sz, fr_seq = freed_front_seq q + of_nat (length (freed_order q))\<rparr>
      in evict (freed_order q @ [ptr]) (note_record ptr record q))"

section \<open>The contract\<close>

text \<open>
  A memory of frees: \<open>rep q hist\<close> says that \<open>q\<close> stands for the frees \<open>hist\<close>, newest first, of which it may
  forget all but the newest \<open>cap\<close>.
\<close>

fun remember_all :: "(u64 \<Rightarrow> u64 \<Rightarrow> 'q \<Rightarrow> 'q result) \<Rightarrow> (u64 \<times> u64) list \<Rightarrow> 'q \<Rightarrow> 'q result" where
  "remember_all rem [] q = Inr q"
| "remember_all rem (f # fs) q = (case rem (fst f) (snd f) q of Inl e \<Rightarrow> Inl e | Inr q' \<Rightarrow> remember_all rem fs q')"

locale memory_of_frees =
  fixes rep :: "'q \<Rightarrow> (u64 \<times> u64) list \<Rightarrow> bool"
    and none :: 'q
    and remember :: "u64 \<Rightarrow> u64 \<Rightarrow> 'q \<Rightarrow> 'q result"
    and recall :: "'q \<Rightarrow> u64 \<Rightarrow> u64 option"
    and cap :: nat
  assumes rep_none: "rep none []"
    and rep_remember: "rep q hist \<Longrightarrow> \<exists>q'. remember ptr sz q = Inr q' \<and> rep q' ((ptr, sz) # hist)"
    and rep_recall: "rep q hist \<Longrightarrow> recall q = map_of (take cap hist)"
begin

lemma remember_all_rep: "rep q hist \<Longrightarrow> \<exists>q'. remember_all remember fs q = Inr q' \<and> rep q' (rev fs @ hist)"
proof (induction fs arbitrary: q hist)
  case (Cons f fs)
  obtain q1 where q1: "remember (fst f) (snd f) q = Inr q1" "rep q1 (f # hist)"
    using rep_remember [OF Cons.prems, of "fst f" "snd f"] by auto
  from Cons.IH [OF this(2)] q1(1) show ?case by simp
qed simp

lemma recall_all: "\<exists>q. remember_all remember fs none = Inr q \<and> recall q = map_of (take cap (rev fs))"
  using remember_all_rep [OF rep_none, of fs] rep_recall by fastforce

end

section \<open>The table keeps the contract\<close>

text \<open>The newest free of an address in a list of frees, and how many there are before it.\<close>

fun newest :: "u64 \<Rightarrow> (u64 \<times> u64) list \<Rightarrow> (u64 \<times> nat) option" where
  "newest k [] = None"
| "newest k ((a, v) # xs) = (if a = k then Some (v, length xs) else newest k xs)"

lemma map_of_newest: "map_of xs k = map_option fst (newest k xs)"
  by (induction k xs rule: newest.induct) auto

lemma newest_bound: "newest k xs = Some (v, i) \<Longrightarrow> i < length xs"
  by (induction k xs rule: newest.induct) (auto split: if_splits)

lemma newest_snoc:
  "newest k (xs @ [(a, v)]) = (case newest k xs of Some (w, i) \<Rightarrow> Some (w, Suc i)
     | None \<Rightarrow> if a = k then Some (v, 0) else None)"
  by (induction k xs rule: newest.induct) (auto split: option.splits)

definition kept_rep :: "quarantine \<Rightarrow> u64 list \<Rightarrow> nat \<Rightarrow> (u64 \<times> u64) list \<Rightarrow> bool" where
  "kept_rep q order d K \<longleftrightarrow> om_inv (freed q) \<and> order = rev (map fst K) \<and> freed_front_seq q = of_nat d \<and>
     (\<forall>k. om_find (freed q) k = map_option (\<lambda>(v, i). \<lparr>fr_size = v, fr_seq = of_nat (d + i)\<rparr>) (newest k K))"

definition quarantine_rep :: "quarantine \<Rightarrow> (u64 \<times> u64) list \<Rightarrow> bool" where
  "quarantine_rep q hist \<longleftrightarrow> kept_rep q (freed_order q) (length hist - kQuarantineEntries) (take kQuarantineEntries hist)"

definition quarantine_recall :: "quarantine \<Rightarrow> u64 \<Rightarrow> u64 option" where
  "quarantine_recall q ptr = map_option fr_size (om_find (freed q) ptr)"

lemma om_inv_emplace: "om_inv m \<Longrightarrow> om_inv (om_emplace k v m)"
  by (simp add: om_emplace_def om_inv_set split: option.splits)

lemma note_record_fields [simp]:
  "freed_front_seq (note_record ptr r q) = freed_front_seq q"
  by (simp add: note_record_def Let_def)

lemma om_inv_note_record: "om_inv (freed q) \<Longrightarrow> om_inv (freed (note_record ptr r q))"
  unfolding note_record_def Let_def
  by (cases "spare_freed q"; simp add: om_inv_set om_inv_emplace del: om_set.simps)

lemma last_greatest: "om_inv m \<Longrightarrow> m \<noteq> [] \<Longrightarrow> k \<in> fst ` set m \<Longrightarrow> k \<le> fst (last m)"
proof (induction m)
  case (Cons e m)
  obtain a v where e: "e = (a, v)" by (cases e)
  show ?case
  proof (cases "m = []")
    case False
    then have "last m \<in> set m" by simp
    then have "a < fst (last m)" using Cons.prems(1) e by (auto simp: om_inv_Cons)
    then show ?thesis using Cons False e by (auto simp: om_inv_Cons less_imp_le)
  qed (use Cons.prems e in auto)
qed simp

lemma find_note_record:
  assumes "om_inv (freed q)"
  shows "om_find (freed (note_record ptr r q)) = (om_find (freed q))(ptr \<mapsto> r)"
proof -
  define at where "at = (if freed q = [] \<or> fst (last (freed q)) < ptr then None else om_lower_bound (freed q) ptr)"
  have "om_find (freed q) ptr = None" if "map_option fst at \<noteq> Some ptr"
  proof (rule ccontr)
    assume "om_find (freed q) ptr \<noteq> None"
    then have mem: "ptr \<in> om_keys (freed q)" by blast
    then have ne: "freed q \<noteq> []" by auto
    have "ptr \<le> fst (last (freed q))"
      using last_greatest [OF assms ne] mem by (simp add: dom_map_of_conv_image_fst)
    then have at: "at = om_lower_bound (freed q) ptr" using ne by (auto simp: at_def)
    have "om_lower_bound (freed q) ptr \<noteq> None" using om_lower_bound_None [OF assms] mem by fastforce
    then obtain a v where "om_lower_bound (freed q) ptr = Some (a, v)" by auto
    moreover from this have "a = ptr" using om_lower_bound_SomeD [OF assms] mem by (meson order_antisym order_refl)
    ultimately show False using that at by simp
  qed
  then have "om_find (om_emplace ptr r (freed q)) = (om_find (freed q))(ptr \<mapsto> r)" if "map_option fst at \<noteq> Some ptr"
    using that by (simp add: om_emplace_def)
  then show ?thesis unfolding note_record_def Let_def at_def [symmetric] by simp
qed

lemma remember_kept:
  assumes "kept_rep q (freed_order q) d K"
  shows "kept_rep (note_record ptr \<lparr>fr_size = sz, fr_seq = freed_front_seq q + of_nat (length (freed_order q))\<rparr> q)
    (freed_order q @ [ptr]) d ((ptr, sz) # K)"
  using assms by (auto simp: kept_rep_def om_inv_note_record find_note_record)

lemma evict_kept:
  assumes "kept_rep q order d K" "length K < 2 ^ 64"
  shows "\<exists>q'. evict order q = Inr q' \<and>
    kept_rep q' (freed_order q') (d + (length K - kQuarantineEntries)) (take kQuarantineEntries K)"
  using assms
proof (induction order arbitrary: q d K)
  case Nil
  then show ?case by (simp add: kept_rep_def)
next
  case (Cons stale order)
  have order: "stale # order = rev (map fst K)" using Cons.prems(1) by (simp add: kept_rep_def)
  from arg_cong [OF order, of length] have len: "length K = Suc (length order)" by simp
  show ?case
  proof (cases "length (stale # order) \<le> kQuarantineEntries")
    case True
    then have "evict (stale # order) q = Inr (q\<lparr>freed_order := stale # order\<rparr>)" by simp
    moreover have "take kQuarantineEntries K = K" "length K - kQuarantineEntries = 0" using True len by simp_all
    moreover have "kept_rep (q\<lparr>freed_order := stale # order\<rparr>) (stale # order) d K"
      using Cons.prems(1) by (simp add: kept_rep_def)
    ultimately show ?thesis by simp
  next
    case False
    obtain K0 v where K: "K = K0 @ [(stale, v)]"
    proof -
      have "K \<noteq> []" using len by auto
      then obtain K0 e where e: "K = K0 @ [e]" using rev_exhaust by blast
      then have "fst e = stale" using order by simp
      then show ?thesis using that [of K0 "snd e"] e by (cases e) simp
    qed
    have inv: "om_inv (freed q)" and front: "freed_front_seq q = of_nat d" and ord: "order = rev (map fst K0)"
      and find: "om_find (freed q) k = map_option (\<lambda>(v, i). \<lparr>fr_size = v, fr_seq = of_nat (d + i)\<rparr>) (newest k K)" for k
      using Cons.prems(1) by (simp_all add: kept_rep_def K)
    obtain w i where n: "newest stale K = Some (w, i)" "newest stale K0 = None \<longleftrightarrow> i = 0"
      by (cases "newest stale K0") (auto simp: K newest_snoc)
    have "i < 2 ^ 64" using newest_bound [OF n(1)] Cons.prems(2) by simp
    then have "unat (of_nat i :: u64) = i" by (rule unat_of_nat64)
    then have "(of_nat i :: u64) = 0 \<longleftrightarrow> i = 0" by (auto simp: unat_eq_zero)
    then have seq: "(of_nat (d + i) :: u64) = of_nat d \<longleftrightarrow> i = 0" by simp
    define r where "r = \<lparr>fr_size = w, fr_seq = of_nat (d + i) :: u64\<rparr>"
    define q1 where "q1 = (if fr_seq r = freed_front_seq q
        then q\<lparr>spare_freed := Some (stale, r), freed := om_erase stale (freed q)\<rparr> else q)
        \<lparr>freed_front_seq := freed_front_seq q + 1\<rparr>"
    have step: "evict (stale # order) q = evict order q1"
      using False find [of stale] n(1) by (simp add: q1_def r_def)
    have "kept_rep q1 order (Suc d) K0"
    proof -
      have "om_find (freed q1) k = map_option (\<lambda>(v, i). \<lparr>fr_size = v, fr_seq = of_nat (Suc d + i)\<rparr>) (newest k K0)" for k
      proof (cases "newest k K0")
        case None
        then show ?thesis
          using find [of k] n seq front by (auto simp: q1_def r_def K newest_snoc)
      next
        case (Some x)
        then have "k = stale \<Longrightarrow> i \<noteq> 0" using n by auto
        then have "om_find (freed q1) k = om_find (freed q) k"
          using seq front by (auto simp: q1_def r_def)
        moreover obtain w' j where "x = (w', j)" by (cases x)
        ultimately show ?thesis using Some find [of k] by (simp add: K newest_snoc algebra_simps)
      qed
      moreover have "om_inv (freed q1)" using inv by (simp add: q1_def om_inv_erase)
      moreover have "freed_front_seq q1 = of_nat (Suc d)" using front by (simp add: q1_def)
      ultimately show ?thesis using ord by (simp add: kept_rep_def)
    qed
    moreover have "length K0 < 2 ^ 64" using Cons.prems(2) by (simp add: K)
    ultimately obtain q' where q': "evict order q1 = Inr q'"
      "kept_rep q' (freed_order q') (Suc d + (length K0 - kQuarantineEntries)) (take kQuarantineEntries K0)"
      using Cons.IH by blast
    have "kQuarantineEntries \<le> length K0" using False len K by simp
    then show ?thesis using q' step by (simp add: K Suc_diff_le)
  qed
qed

lemma quarantine_remember:
  assumes "quarantine_rep q hist"
  shows "\<exists>q'. remember_freed ptr sz q = Inr q' \<and> quarantine_rep q' ((ptr, sz) # hist)"
proof -
  let ?K = "take kQuarantineEntries hist" and ?d = "length hist - kQuarantineEntries"
  let ?q = "note_record ptr \<lparr>fr_size = sz, fr_seq = freed_front_seq q + of_nat (length (freed_order q))\<rparr> q"
  have k: "kept_rep ?q (freed_order q @ [ptr]) ?d ((ptr, sz) # ?K)"
    using remember_kept assms by (simp add: quarantine_rep_def)
  have "length ((ptr, sz) # ?K) < 2 ^ 64" by (simp add: kQuarantineEntries_def)
  from evict_kept [OF k this] obtain q' where q': "evict (freed_order q @ [ptr]) ?q = Inr q'"
    "kept_rep q' (freed_order q') (?d + (length ((ptr, sz) # ?K) - kQuarantineEntries)) (take kQuarantineEntries ((ptr, sz) # ?K))"
    by blast
  have "?d + (length ((ptr, sz) # ?K) - kQuarantineEntries) = length ((ptr, sz) # hist) - kQuarantineEntries"
    by (simp add: kQuarantineEntries_def)
  moreover have "take kQuarantineEntries ((ptr, sz) # ?K) = take kQuarantineEntries ((ptr, sz) # hist)"
    by (simp add: kQuarantineEntries_def take_Cons')
  ultimately show ?thesis using q' by (simp add: remember_freed_def quarantine_rep_def Let_def)
qed

interpretation quar: memory_of_frees quarantine_rep empty_quarantine remember_freed quarantine_recall kQuarantineEntries
proof unfold_locales
  show "quarantine_rep empty_quarantine []"
    by (simp add: quarantine_rep_def kept_rep_def empty_quarantine_def)
  show "quarantine_rep q hist \<Longrightarrow> quarantine_recall q = map_of (take kQuarantineEntries hist)" for q hist
    by (auto simp: quarantine_rep_def kept_rep_def quarantine_recall_def map_of_newest option.map_comp comp_def
        split_beta fun_eq_iff intro!: option.map_cong)
qed (rule quarantine_remember)

section \<open>Properties\<close>

text \<open>
  After any sequence of frees the quarantine recalls, for every address, the size of its newest
  free among the last 4096 and nothing older, and no eviction follows an iterator whose entry is
  gone.
\<close>

theorem quarantine_recalls_last:
  "\<exists>q. remember_all remember_freed fs empty_quarantine = Inr q \<and>
    (\<forall>ptr. map_option fr_size (om_find (freed q) ptr) = map_of (take kQuarantineEntries (rev fs)) ptr)"
  using quar.recall_all [of fs] by (auto simp: quarantine_recall_def fun_eq_iff)

end
