(* ===== verification/Epoch.thy ===== *)
theory Epoch
  imports Vgpu_Prelude
begin

text \<open>
  The epoch of \<^verbatim>\<open>BigReaderLock\<close> (\<^verbatim>\<open>src/include/vgpu/brlock.hpp\<close>): the number under which a
  thread remembers the answer of a lookup, the ring of the allocations freed last, and the test that
  an answer survived the frees since. \<^verbatim>\<open>still_valid\<close> reads the stamp twice and the ring in
  between while a writer may be freeing; \<open>still_valid_at\<close> takes the values those loads saw, and the
  soundness property lets each of them come from a different moment of a run.

  The loop over the ring is a \<open>partial_function\<close>: at the largest 64-bit stamp its condition
  \<^verbatim>\<open>q <= cur\<close> can never fail. It is shown to return for every other stamp.
\<close>

unbundle bit_operations_syntax

section \<open>The stamp and the ring\<close>

definition kCountMask :: u64 where
  "kCountMask = 0xFFFF"

definition kRing :: u64 where
  "kRing = 64"

record epochs =
  stamp :: u64
  ring :: "u64 list"
  rng :: u64

text \<open>The new epoch and the new state of the generator, which every lock of the process shares.\<close>

definition next_epoch :: "u64 \<Rightarrow> u64 \<times> u64" where
  "next_epoch state =
     (let z0 = state + 0x9E3779B97F4A7C15;
          z1 = (z0 XOR drop_bit 30 z0) * 0xBF58476D1CE4E5B9;
          z2 = (z1 XOR drop_bit 27 z1) * 0x94D049BB133111EB;
          z3 = z2 XOR drop_bit 31 z2;
          z = z3 AND NOT kCountMask
      in (if z \<noteq> 0 then z else kCountMask + 1, z0))"

definition new_stamp :: "epochs \<Rightarrow> epochs" where
  "new_stamp e = e\<lparr>stamp := fst (next_epoch (rng e)), rng := snd (next_epoch (rng e))\<rparr>"

definition note_free :: "u64 \<Rightarrow> epochs \<Rightarrow> epochs" where
  "note_free base e =
     (let s = stamp e
      in if s AND kCountMask = kCountMask then new_stamp e
         else e\<lparr>ring := (ring e)[unat ((s + 1) mod kRing) := base], stamp := s + 1\<rparr>)"

partial_function (option) ring_scan :: "(u64 \<Rightarrow> u64) \<Rightarrow> u64 \<Rightarrow> u64 \<Rightarrow> u64 \<Rightarrow> bool option" where
  "ring_scan rd base cur q =
     (if q \<le> cur then if rd q = base then Some True else ring_scan rd base cur (q + 1)
      else Some False)"

definition still_valid_at :: "u64 \<Rightarrow> u64 \<Rightarrow> u64 \<Rightarrow> (u64 \<Rightarrow> u64) \<Rightarrow> u64 \<Rightarrow> u64 option option" where
  "still_valid_at seen base cur rd cur2 =
     (if drop_bit 16 (seen XOR cur) \<noteq> 0 \<or> cur < seen \<or> cur - seen > kRing then Some None
      else case ring_scan rd base cur (seen + 1) of
          None \<Rightarrow> None
        | Some True \<Rightarrow> Some None
        | Some False \<Rightarrow> if cur2 - seen > kRing then Some None else Some (Some cur))"

definition ring_at :: "epochs \<Rightarrow> u64 \<Rightarrow> u64" where
  "ring_at e q = ring e ! unat (q mod kRing)"

definition still_valid :: "u64 \<Rightarrow> u64 \<Rightarrow> epochs \<Rightarrow> u64 option option" where
  "still_valid seen base e = still_valid_at seen base (stamp e) (ring_at e) (stamp e)"

section \<open>What happens to an epoch\<close>

text \<open>
  A writer frees an allocation, or voids every remembered answer (taking or letting go of a lock that
  is not quiet); another lock of the process may draw from the generator at any time.
\<close>

datatype epoch_event = Freed u64 | Voided | Drawn_elsewhere

fun epoch_step :: "epoch_event \<Rightarrow> epochs \<Rightarrow> epochs" where
  "epoch_step (Freed base) e = note_free base e"
| "epoch_step Voided e = new_stamp e"
| "epoch_step Drawn_elsewhere e = e\<lparr>rng := snd (next_epoch (rng e))\<rparr>"

definition epoch_run :: "epochs \<Rightarrow> epoch_event list \<Rightarrow> epochs" where
  "epoch_run e evs = fold epoch_step evs e"

text \<open>The epochs this lock drew along a run, oldest first, and the allocations freed in it.\<close>

definition draws :: "epochs \<Rightarrow> epoch_event \<Rightarrow> bool" where
  "draws e ev = (case ev of Freed _ \<Rightarrow> stamp e AND kCountMask = kCountMask | Voided \<Rightarrow> True
     | Drawn_elsewhere \<Rightarrow> False)"

fun drawn :: "epochs \<Rightarrow> epoch_event list \<Rightarrow> u64 list" where
  "drawn e [] = []"
| "drawn e (ev # evs) =
     (if draws e ev then [stamp (epoch_step ev e)] else []) @ drawn (epoch_step ev e) evs"

fun frees :: "epoch_event list \<Rightarrow> u64 list" where
  "frees [] = []"
| "frees (Freed b # evs) = b # frees evs"
| "frees (_ # evs) = frees evs"

lemma epoch_run_simps [simp]:
  "epoch_run e [] = e" "epoch_run e (ev # evs) = epoch_run (epoch_step ev e) evs"
  "epoch_run e (evs @ evs') = epoch_run (epoch_run e evs) evs'"
  by (simp_all add: epoch_run_def)

lemma drawn_append [simp]: "drawn e (evs @ evs') = drawn e evs @ drawn (epoch_run e evs) evs'"
  by (induction evs arbitrary: e) auto

lemma frees_append [simp]: "frees (evs @ evs') = frees evs @ frees evs'"
  by (induction evs rule: frees.induct) auto

lemma set_frees: "b \<in> set (frees evs) \<longleftrightarrow> Freed b \<in> set evs"
  by (induction evs rule: frees.induct) auto

lemma length_ring_note_free [simp]: "length (ring (note_free b e)) = length (ring e)"
  by (simp add: note_free_def new_stamp_def Let_def)

lemma length_ring_step [simp]: "length (ring (epoch_step ev e)) = length (ring e)"
  by (cases ev) (simp_all add: new_stamp_def)

lemma length_ring_run [simp]: "length (ring (epoch_run e evs)) = length (ring e)"
  by (induction evs arbitrary: e) auto

section \<open>The parts of a stamp\<close>

lemma hi_eq_iff: "drop_bit 16 (a :: u64) = drop_bit 16 b \<longleftrightarrow> unat a div 65536 = unat b div 65536"
  by (simp add: word_unat_eq_iff unat_div drop_bit_eq_div)

lemma hi_xor: "drop_bit 16 ((a :: u64) XOR b) = 0 \<longleftrightarrow> drop_bit 16 a = drop_bit 16 b"
  by (auto simp: bit_eq_iff bit_xor_iff bit_drop_bit_eq)

lemma count_full_iff: "(s :: u64) AND kCountMask = kCountMask \<longleftrightarrow> unat s mod 65536 = 65535"
proof -
  have "s AND kCountMask = take_bit 16 s"
    by (simp add: kCountMask_def take_bit_eq_mask mask_eq_exp_minus_1)
  then have "s AND kCountMask = kCountMask \<longleftrightarrow> unat (take_bit 16 s) = unat (kCountMask)"
    by (simp add: word_unat_eq_iff)
  then show ?thesis by (simp add: kCountMask_def unsigned_take_bit_eq take_bit_eq_mod unat_mod)
qed

lemma unat_count_up:
  assumes "(s :: u64) AND kCountMask \<noteq> kCountMask"
  shows "unat (s + 1) = Suc (unat s)" "Suc (unat s) div 65536 = unat s div 65536"
proof -
  have m: "unat s mod 65536 < 65535" using assms count_full_iff [of s] by (simp add: less_le)
  have "unat s < 2 ^ 64" by (rule unat_u64_lt)
  moreover have "unat s \<noteq> 2 ^ 64 - 1" using m by auto
  ultimately show "unat (s + 1) = Suc (unat s)" by (simp add: unat_add64)
  show "Suc (unat s) div 65536 = unat s div 65536" using m by (simp add: div_Suc mod_Suc)
qed

lemma unat_mod_ring: "unat ((q :: u64) mod kRing) = unat q mod 64"
  by (simp add: kRing_def unat_mod)

section \<open>Runs without a draw\<close>

lemma step_hi: "\<not> draws e ev \<Longrightarrow> drop_bit 16 (stamp (epoch_step ev e)) = drop_bit 16 (stamp e)"
  by (cases ev) (simp_all add: draws_def note_free_def Let_def hi_eq_iff unat_count_up)

lemma run_hi: "drop_bit 16 (stamp (epoch_run e evs)) = drop_bit 16 (last (stamp e # drawn e evs))"
proof (induction evs arbitrary: e)
  case (Cons ev evs)
  then show ?case using step_hi [of e ev] by (auto simp: last_ConsR)
qed simp

lemma quiet_stamp:
  assumes "drawn e evs = []"
  shows "unat (stamp (epoch_run e evs)) = unat (stamp e) + length (frees evs)"
  using assms
proof (induction evs arbitrary: e)
  case (Cons ev evs)
  then have nd: "\<not> draws e ev" and "drawn (epoch_step ev e) evs = []" by (auto split: if_splits)
  then have "unat (stamp (epoch_run e (ev # evs))) = unat (stamp (epoch_step ev e)) + length (frees evs)"
    using Cons.IH by simp
  then show ?case
    using nd by (cases ev) (simp_all add: draws_def note_free_def Let_def unat_count_up)
qed simp

lemma quiet_ring_frame:
  assumes "drawn e evs = []" "\<forall>k < length (frees evs). (unat (stamp e) + 1 + k) mod 64 \<noteq> j"
  shows "ring (epoch_run e evs) ! j = ring e ! j"
  using assms
proof (induction evs arbitrary: e)
  case (Cons ev evs)
  then have nd: "\<not> draws e ev" "drawn (epoch_step ev e) evs = []" by (auto split: if_splits)
  show ?case
  proof (cases ev)
    case (Freed b)
    then have s: "unat (stamp (epoch_step ev e)) = unat (stamp e) + 1"
      using nd(1) by (simp add: draws_def note_free_def Let_def unat_count_up)
    have "(unat (stamp (epoch_step ev e)) + 1 + k) mod 64 \<noteq> j" if "k < length (frees evs)" for k
      using Cons.prems(2) [rule_format, of "Suc k"] that Freed s by simp
    then have "ring (epoch_run e (ev # evs)) ! j = ring (epoch_step ev e) ! j"
      using Cons.IH [OF nd(2)] by simp
    moreover have "(unat (stamp e) + 1) mod 64 \<noteq> j"
      using Cons.prems(2) [rule_format, of 0] Freed by simp
    ultimately show ?thesis
      using Freed nd(1) by (simp add: draws_def note_free_def Let_def unat_mod_ring unat_count_up)
  next
    case Voided
    then show ?thesis using nd(1) by (simp add: draws_def)
  next
    case Drawn_elsewhere
    then show ?thesis using Cons.IH [OF nd(2)] Cons.prems(2) by simp
  qed
qed simp

lemma quiet_ring:
  assumes "drawn e evs = []" "length (ring e) = 64" "k < length (frees evs)" "length (frees evs) \<le> 64"
  shows "ring (epoch_run e evs) ! ((unat (stamp e) + 1 + k) mod 64) = frees evs ! k"
  using assms
proof (induction evs arbitrary: e k)
  case (Cons ev evs)
  then have nd: "\<not> draws e ev" "drawn (epoch_step ev e) evs = []" by (auto split: if_splits)
  show ?case
  proof (cases ev)
    case (Freed b)
    then have s: "unat (stamp (epoch_step ev e)) = unat (stamp e) + 1"
      and r: "ring (epoch_step ev e) = (ring e)[(unat (stamp e) + 1) mod 64 := b]"
      using nd(1) by (simp_all add: draws_def note_free_def Let_def unat_mod_ring unat_count_up)
    show ?thesis
    proof (cases k)
      case 0
      have "(unat (stamp (epoch_step ev e)) + 1 + i) mod 64 \<noteq> (unat (stamp e) + 1) mod 64"
        if "i < length (frees evs)" for i
      proof
        assume "(unat (stamp (epoch_step ev e)) + 1 + i) mod 64 = (unat (stamp e) + 1) mod 64"
        then have "(unat (stamp e) + 1 + Suc i) mod 64 = (unat (stamp e) + 1) mod 64" by (simp add: s)
        then have "64 dvd Suc i" by (metis add_diff_cancel_left' le_add1 mod_eq_dvd_iff_nat)
        then show False using that Cons.prems(4) Freed by (auto dest: dvd_imp_le)
      qed
      then show ?thesis
        using quiet_ring_frame [OF nd(2), of "(unat (stamp e) + 1) mod 64"] 0 Freed r Cons.prems(2)
        by simp
    next
      case (Suc i)
      then show ?thesis
        using Cons.IH [OF nd(2), of i] Cons.prems Freed s by simp
    qed
  next
    case Voided
    then show ?thesis using nd(1) by (simp add: draws_def)
  next
    case Drawn_elsewhere
    then show ?thesis using Cons.IH [OF nd(2), of k] Cons.prems by simp
  qed
qed simp

section \<open>The scan of the ring\<close>

lemma ring_scan_returns:
  assumes "cur \<noteq> - 1"
  shows "\<exists>r. ring_scan rd base cur q = Some r"
proof (induction "Suc (unat cur) - unat q" arbitrary: q rule: less_induct)
  case less
  show ?case
  proof (cases "q \<le> cur \<and> rd q \<noteq> base")
    case True
    then have "unat q < 2 ^ 64 - 1"
      using assms unat_u64_lt [of cur] by (auto simp: u64_simps word_unat_eq_iff [of cur] unat_last64)
    then have "unat (q + 1) = unat q + 1" by (simp add: unat_add64)
    then have "Suc (unat cur) - unat (q + 1) < Suc (unat cur) - unat q"
      using True by (auto simp: u64_simps Suc_diff_le)
    from less [OF this] True show ?thesis by (simp add: ring_scan.simps [of rd base cur q])
  next
    case False
    then show ?thesis by (auto simp: ring_scan.simps [of rd base cur q])
  qed
qed

lemma ring_scan_False:
  assumes "ring_scan rd base cur q = Some r" "\<not> r" "unat q \<le> n" "n \<le> unat cur"
  shows "rd (of_nat n) \<noteq> base"
proof -
  have "\<not> r \<longrightarrow> unat q \<le> n \<longrightarrow> n \<le> unat cur \<longrightarrow> rd (of_nat n) \<noteq> base"
    using assms(1)
  proof (rule ring_scan.raw_induct [where P = "\<lambda>rd base cur q r. \<not> r \<longrightarrow> unat q \<le> n \<longrightarrow> n \<le> unat cur \<longrightarrow> rd (of_nat n) \<noteq> base", rotated])
    fix scan and rd :: "u64 \<Rightarrow> u64" and base cur q :: u64 and r
    assume IH: "\<And>rd base cur q r. scan rd base cur q = Some r \<Longrightarrow>
        \<not> r \<longrightarrow> unat q \<le> n \<longrightarrow> n \<le> unat cur \<longrightarrow> rd (of_nat n) \<noteq> base"
      and eq: "(if q \<le> cur then if rd q = base then Some True else scan rd base cur (q + 1) else Some False) = Some r"
    show "\<not> r \<longrightarrow> unat q \<le> n \<longrightarrow> n \<le> unat cur \<longrightarrow> rd (of_nat n) \<noteq> base"
    proof (intro impI)
      assume a: "\<not> r" "unat q \<le> n" "n \<le> unat cur"
      then have le: "q \<le> cur" unfolding u64_simps by linarith
      with eq a(1) have q: "rd q \<noteq> base" "scan rd base cur (q + 1) = Some r"
        by (auto split: if_splits)
      show "rd (of_nat n) \<noteq> base"
      proof (cases "n = unat q")
        case False
        then have "unat (q + 1) \<le> n"
          using a(2,3) unat_u64_lt [of cur] by (subst unat_add64) auto
        then show ?thesis using IH [OF q(2)] a by blast
      qed (use q(1) in simp)
    qed
  qed
  with assms show ?thesis by blast
qed

lemma ring_scan_all:
  assumes "cur \<noteq> - 1" "\<forall>n. unat q \<le> n \<longrightarrow> n \<le> unat cur \<longrightarrow> rd (of_nat n) \<noteq> base"
  shows "ring_scan rd base cur q = Some False"
  using assms(2)
proof (induction "Suc (unat cur) - unat q" arbitrary: q rule: less_induct)
  case less
  show ?case
  proof (cases "q \<le> cur")
    case True
    then have "unat q < 2 ^ 64 - 1"
      using assms(1) unat_u64_lt [of cur] by (auto simp: u64_simps word_unat_eq_iff [of cur] unat_last64)
    then have q1: "unat (q + 1) = unat q + 1" by (simp add: unat_add64)
    then have "Suc (unat cur) - unat (q + 1) < Suc (unat cur) - unat q"
      using True by (simp add: u64_simps)
    then have "ring_scan rd base cur (q + 1) = Some False"
      using less.prems q1 by (intro less.hyps) auto
    moreover have "rd q \<noteq> base" using less.prems [rule_format, of "unat q"] True by (simp add: u64_simps)
    ultimately show ?thesis by (simp add: ring_scan.simps [of rd base cur q])
  qed (simp add: ring_scan.simps [of rd base cur q])
qed

text \<open>A stamp within the ring's reach of another has its upper part, or the one the reach ends in.\<close>

lemma div_within: "d \<le> 64 \<Longrightarrow> (s + d) div 65536 = s div 65536 \<or> (s + d) div 65536 = (s + 64) div (65536 :: nat)"
  by linarith

lemma within_ring_hi:
  assumes "(c :: u64) - s \<le> kRing"
  shows "drop_bit 16 c = drop_bit 16 s \<or> drop_bit 16 c = drop_bit 16 (s + kRing)"
proof -
  define d where "d = unat (c - s)"
  have d: "d \<le> 64" using assms by (simp add: d_def kRing_def u64_simps)
  have c: "c = s + of_nat d" by (simp add: d_def)
  have sums: "unat c = (unat s + d) mod 2 ^ 64" "unat (s + kRing) = (unat s + 64) mod 2 ^ 64"
    using d unfolding c by (simp_all add: unat_word_ariths unat_of_nat64 kRing_def)
  show ?thesis
  proof (cases "unat s + 64 < 2 ^ 64")
    case True
    then have "unat c = unat s + d" "unat (s + kRing) = unat s + 64" using sums d by simp_all
    then show ?thesis using div_within [OF d] by (simp add: hi_eq_iff)
  next
    case False
    define r where "r = unat s - (2 ^ 64 - 64)"
    have r: "unat s = 2 ^ 64 - 64 + r" "r < 64" using False unat_u64_lt [of s] by (simp_all add: r_def)
    have s: "unat s div 65536 = 2 ^ 48 - 1" using r by simp
    show ?thesis
    proof (cases "r + d < 64")
      case True
      then have "unat c = 2 ^ 64 - 64 + (r + d)" using sums(1) r by simp
      then have "unat c div 65536 = 2 ^ 48 - 1" using True by simp
      then show ?thesis using s by (simp add: hi_eq_iff)
    next
      case wrap: False
      have "unat c = (2 ^ 64 + (r + d - 64)) mod 2 ^ 64" using sums(1) r wrap by (simp add: add_ac)
      then have "unat c = r + d - 64" using r d by simp
      moreover have "unat (s + kRing) = r" using sums(2) r by simp
      ultimately show ?thesis using r d by (simp add: hi_eq_iff)
    qed
  qed
qed

text \<open>What a positive answer says of the run, with each load at its own moment.\<close>

lemma valid_since:
  assumes ring: "length (ring e) = 64"
    and fresh: "\<forall>z \<in> set (drawn e (evs1 @ evs2)).
      drop_bit 16 z \<noteq> drop_bit 16 (stamp e) \<and> drop_bit 16 z \<noteq> drop_bit 16 (stamp e + kRing)"
    and valid: "still_valid_at (stamp e) base (stamp (epoch_run e evs1))
      (\<lambda>q. ring_at (epoch_run e (evs1 @ take (moment q) evs2)) q) (stamp (epoch_run e (evs1 @ evs2))) = Some (Some now)"
  shows "drawn e evs1 = []" "Voided \<notin> set evs1" "Freed base \<notin> set evs1" "now = stamp (epoch_run e evs1)"
proof -
  define rd where "rd q = ring_at (epoch_run e (evs1 @ take (moment q) evs2)) q" for q
  have scan: "ring_scan rd base (stamp (epoch_run e evs1)) (stamp e + 1) = Some False"
    and cur2: "stamp (epoch_run e (evs1 @ evs2)) - stamp e \<le> kRing" and now: "now = stamp (epoch_run e evs1)"
    using valid unfolding still_valid_at_def rd_def [symmetric]
    by (auto split: if_splits option.splits bool.splits)
  have quiet: "drawn e (evs1 @ evs2) = []"
    using within_ring_hi [OF cur2] fresh run_hi [of e "evs1 @ evs2"]
    by (metis last_ConsR last_in_set)
  then have total: "length (frees (evs1 @ evs2)) \<le> 64"
    using cur2 quiet_stamp [OF quiet] by (simp add: kRing_def u64_simps unat_sub64)
  have evs1: "drawn e evs1 = []" using quiet by simp
  have "base \<noteq> frees evs1 ! k" if k: "k < length (frees evs1)" for k
  proof -
    let ?n = "unat (stamp e) + 1 + k" and ?evs = "\<lambda>q. evs1 @ take (moment q) evs2"
    have cur: "unat (stamp (epoch_run e evs1)) = unat (stamp e) + length (frees evs1)"
      by (rule quiet_stamp [OF evs1])
    have n: "unat (of_nat ?n :: u64) = ?n"
      using cur k unat_u64_lt [of "stamp (epoch_run e evs1)"] by (intro unat_of_nat64) linarith
    have s1: "unat (stamp e + 1) = unat (stamp e) + 1"
      using cur k unat_u64_lt [of "stamp (epoch_run e evs1)"] by (subst unat_add64) auto
    have "rd (of_nat ?n) \<noteq> base"
      by (rule ring_scan_False [OF scan]) (use cur k s1 in auto)
    moreover have "rd (of_nat ?n) = frees evs1 ! k"
    proof -
      have q: "drawn e (?evs q) = []" for q
        using quiet by (metis append_take_drop_id append_is_Nil_conv drawn_append)
      have l: "length (frees (?evs q)) \<le> 64" for q
      proof -
        have "evs1 @ evs2 = ?evs q @ drop (moment q) evs2" by simp
        then have "length (frees (evs1 @ evs2)) = length (frees (?evs q)) + length (frees (drop (moment q) evs2))"
          by (metis frees_append length_append)
        with total show ?thesis by simp
      qed
      have "rd (of_nat ?n) = frees (?evs (of_nat ?n)) ! k"
        unfolding rd_def ring_at_def unat_mod_ring n using k by (intro quiet_ring [OF q ring _ l]) simp
      then show ?thesis using k by (simp add: nth_append)
    qed
    ultimately show ?thesis by simp
  qed
  then have "base \<notin> set (frees evs1)" by (metis in_set_conv_nth)
  then show "Freed base \<notin> set evs1" by (simp add: set_frees)
  show "Voided \<notin> set evs1"
    using evs1 by (induction evs1 arbitrary: e) (auto simp: draws_def split: if_splits)
  show "drawn e evs1 = []" "now = stamp (epoch_run e evs1)" by (rule evs1, rule now)
qed

section \<open>Properties\<close>


text \<open>
  And the test is not needlessly strict: an answer outlives up to 64 frees of other allocations, as
  long as no epoch was drawn.
\<close>

theorem still_valid_complete:
  assumes "length (ring e) = 64" "drawn e evs = []" "length (frees evs) \<le> 64" "base \<notin> set (frees evs)"
    and "stamp (epoch_run e evs) \<noteq> - 1"
  shows "still_valid (stamp e) base (epoch_run e evs) = Some (Some (stamp (epoch_run e evs)))"
proof -
  let ?cur = "stamp (epoch_run e evs)"
  have cur: "unat ?cur = unat (stamp e) + length (frees evs)" by (rule quiet_stamp [OF assms(2)])
  have hi: "drop_bit 16 ?cur = drop_bit 16 (stamp e)" using run_hi [of e evs] assms(2) by simp
  have diff: "?cur - stamp e \<le> kRing" using cur assms(3) by (simp add: kRing_def u64_simps unat_sub64)
  have s1: "unat (stamp e + 1) = unat (stamp e) + 1"
    using cur assms(5) unat_u64_lt [of ?cur] by (subst unat_add64) (auto simp: word_unat_eq_iff unat_last64)
  have "ring_scan (ring_at (epoch_run e evs)) base ?cur (stamp e + 1) = Some False"
  proof (rule ring_scan_all [OF assms(5)], intro allI impI)
    fix n assume n: "unat (stamp e + 1) \<le> n" "n \<le> unat ?cur"
    define k where "k = n - unat (stamp e) - 1"
    have nk: "n = unat (stamp e) + 1 + k" and k: "k < length (frees evs)" using n cur s1 by (auto simp: k_def)
    have "unat (of_nat n :: u64) = n" using n(2) unat_u64_lt [of ?cur] by (intro unat_of_nat64) linarith
    then have "ring_at (epoch_run e evs) (of_nat n) = frees evs ! k"
      using quiet_ring [OF assms(2,1) k assms(3)] nk by (simp add: ring_at_def unat_mod_ring)
    then show "ring_at (epoch_run e evs) (of_nat n) \<noteq> base" using assms(4) k by (metis nth_mem)
  qed
  then show ?thesis
    using hi diff cur by (auto simp: still_valid_def still_valid_at_def hi_xor u64_simps not_less)
qed

text \<open>A lock with two frees behind it, the second of them while the answer was being checked.\<close>

definition demo_epochs :: epochs where
  "demo_epochs = \<lparr>stamp = 0x10000, ring = replicate 64 0, rng = 7\<rparr>"

lemma demo_drawn: "drawn demo_epochs [Freed 0x100, Freed 0x200] = []"
  by (simp add: demo_epochs_def draws_def note_free_def kCountMask_def kRing_def Let_def)


lemma still_valid_complete_witness:
  "still_valid 0x10000 0x300 (epoch_run demo_epochs [Freed 0x100, Freed 0x200]) = Some (Some 0x10002)"
proof -
  have st: "stamp demo_epochs = 0x10000"
    "stamp (epoch_run demo_epochs [Freed 0x100, Freed 0x200]) = 0x10002"
    by (simp_all add: demo_epochs_def note_free_def kCountMask_def kRing_def Let_def)
  have "length (ring demo_epochs) = 64" by (simp add: demo_epochs_def)
  from still_valid_complete [OF this demo_drawn, of "0x300"] st show ?thesis by simp
qed

end
