(* ===== verification/Address_Space.thy ===== *)
theory Address_Space
  imports Errors
begin

text \<open>
  The process-wide address space of \<^verbatim>\<open>src/include/vgpu/memory.hpp\<close>: the windows of the devices and
  of functions and kernels, and which device owns an address.
\<close>

section \<open>Windows\<close>

definition kDeviceVaBase :: u64 where
  "kDeviceVaBase = 0x200000000000"

definition kFuncVaBase :: u64 where
  "kFuncVaBase = 0x6ffb00000000"

definition kFuncVaStride :: u64 where
  "kFuncVaStride = 8"

definition kFuncVaSize :: u64 where
  "kFuncVaSize = 0x100000"

definition kKernelVaBase :: u64 where
  "kKernelVaBase = 0x6ffc00000000"

definition kKernelVaStride :: u64 where
  "kKernelVaStride = 8"

definition kDeviceVaStride :: u64 where
  "kDeviceVaStride = 0x10000000000"

definition kDeviceVaWindows :: u64 where
  "kDeviceVaWindows = 16"

definition kDeviceVaEnd :: u64 where
  "kDeviceVaEnd = kDeviceVaBase + kDeviceVaWindows * kDeviceVaStride"

definition is_device_va :: "u64 \<Rightarrow> bool" where
  "is_device_va addr \<longleftrightarrow> addr \<ge> kDeviceVaBase \<and> addr < kDeviceVaEnd"

definition kAllocAlign :: u64 where
  "kAllocAlign = 256"

text \<open>The first address of a device, and its window as \<^verbatim>\<open>owns\<close> tests it.\<close>

definition device_va_base :: "u32 \<Rightarrow> u64" where
  "device_va_base ordinal = kDeviceVaBase + ucast ordinal * kDeviceVaStride"

definition in_window :: "u64 \<Rightarrow> u64 \<Rightarrow> bool" where
  "in_window va_base addr \<longleftrightarrow> addr \<ge> va_base \<and> addr < va_base + kDeviceVaStride"

lemmas va_defs = kDeviceVaBase_def kDeviceVaStride_def kDeviceVaWindows_def kDeviceVaEnd_def

lemma is_device_va_iff: "is_device_va addr \<longleftrightarrow> 0x200000000000 \<le> unat addr \<and> unat addr < 0x300000000000"
  by (simp add: is_device_va_def va_defs u64_simps)

lemma unat_device_va_base:
  assumes "ordinal < 16"
  shows "unat (device_va_base ordinal) = 0x200000000000 + unat ordinal * 0x10000000000"
proof -
  have o: "unat ordinal < 16" using assms by (simp add: word_less_nat_alt)
  have u: "unat (ucast ordinal :: u64) = unat ordinal" using o by (simp add: unsigned_ucast_eq take_bit_eq_mod)
  have "unat ((ucast ordinal :: u64) * 0x10000000000) = unat ordinal * 0x10000000000"
    using o by (subst unat_mult64) (simp_all add: u)
  then show ?thesis
    using o unfolding device_va_base_def va_defs by (subst unat_add64) simp_all
qed

lemma in_window_iff:
  assumes "ordinal < 16"
  shows "in_window (device_va_base ordinal) addr \<longleftrightarrow>
    0x200000000000 + unat ordinal * 0x10000000000 \<le> unat addr \<and> unat addr < 0x200000000000 + Suc (unat ordinal) * 0x10000000000"
proof -
  have o: "unat ordinal < 16" using assms by (simp add: word_less_nat_alt)
  have b: "unat (device_va_base ordinal) = 0x200000000000 + unat ordinal * 0x10000000000"
    by (rule unat_device_va_base [OF assms])
  have "unat (device_va_base ordinal + kDeviceVaStride) = 0x200000000000 + Suc (unat ordinal) * 0x10000000000"
    using o by (subst unat_add64) (simp_all add: b kDeviceVaStride_def)
  then show ?thesis by (simp add: in_window_def u64_simps b)
qed

section \<open>Properties\<close>

text \<open>
  An address identifies its device: the windows of two devices of a rack do not share an address,
  every window lies in the range of device addresses, and that range does not meet the windows of
  functions and kernels.
\<close>

theorem windows_disjoint:
  assumes "i < 16" "j < 16" "in_window (device_va_base i) addr"
  shows "(in_window (device_va_base j) addr \<longrightarrow> i = j) \<and> is_device_va addr \<and>
    addr < kFuncVaBase \<and> kFuncVaBase + kFuncVaSize \<le> kKernelVaBase"
proof -
  have "i = j" if "in_window (device_va_base j) addr"
  proof -
    have "0x200000000000 + unat i * 0x10000000000 < 0x200000000000 + Suc (unat j) * 0x10000000000"
      "0x200000000000 + unat j * 0x10000000000 < 0x200000000000 + Suc (unat i) * (0x10000000000 :: nat)"
      using that assms(3) unfolding in_window_iff [OF assms(1)] in_window_iff [OF assms(2)] by linarith+
    then have "unat i = unat j" by simp
    then show ?thesis by (simp add: word_unat_eq_iff)
  qed
  moreover have "0x200000000000 \<le> unat addr" "unat addr < 0x300000000000"
    using assms(1,3) unfolding in_window_iff [OF assms(1)] by (simp_all add: word_less_nat_alt)
  ultimately show ?thesis
    by (simp add: is_device_va_iff) (simp add: kFuncVaBase_def kFuncVaSize_def kKernelVaBase_def u64_simps)
qed

lemma windows_disjoint_witness:
  "in_window (device_va_base 3) 0x230000000010 \<and> \<not> in_window (device_va_base 4) 0x230000000010"
proof -
  have w: "in_window (device_va_base 3) 0x230000000010" by (simp add: in_window_iff u64_simps)
  have "(3 :: u32) < 16" "(4 :: u32) < 16" by simp_all
  from windows_disjoint [OF this w] w show ?thesis by auto
qed

end
