(* ===== verification/Host_Maps.thy ===== *)
theory Host_Maps
  imports Address_Space Std_Map
begin

text \<open>
  Host memory the device can address (\<^verbatim>\<open>HostMaps\<close> of \<^verbatim>\<open>src/include/vgpu/memory.hpp\<close>
  and \<^verbatim>\<open>map_host\<close>, \<^verbatim>\<open>unmap_host\<close>, \<^verbatim>\<open>lookup_host\<close>, \<^verbatim>\<open>host_pieces\<close> of
  \<^verbatim>\<open>src/core/memory.cpp\<close>): the table of mapped buffers, the range tests that keep ordinary
  accesses away from it, the per-thread cache of hits and the split of an access into pieces.

  The table is a vector, so a list in its order. \<^verbatim>\<open>fresh_generation\<close> counts for the whole process;
  its counter is a field here, and other tables may advance it at any time. A cache entry of
  another table never matches (its owner differs), so an entry is one of this table or none.
\<close>

section \<open>The table\<close>

record host_map =
  hm_base :: u64
  hm_len :: u64
  hm_host :: u64
  hm_read_only :: bool

record host_maps =
  hms :: "host_map list"
  hm_retired :: "host_map list"
  hm_lo :: u64
  hm_hi :: u64
  hm_gen :: u64
  in_device_window :: bool
  hm_counter :: u64

definition kRetiredHostMaps :: nat where
  "kRetiredHostMaps = 256"

text \<open>\<^verbatim>\<open>fresh_generation\<close> on a table: the counter and the generation it gives.\<close>

definition fresh_generation :: "host_maps \<Rightarrow> host_maps" where
  "fresh_generation h = h\<lparr>hm_gen := hm_counter h + 1, hm_counter := hm_counter h + 1\<rparr>"

definition no_host_maps :: "u64 \<Rightarrow> host_maps" where
  "no_host_maps counter = fresh_generation \<lparr>hms = [], hm_retired = [], hm_lo = - 1, hm_hi = 0, hm_gen = 0,
     in_device_window = False, hm_counter = counter\<rparr>"

definition may_contain :: "host_maps \<Rightarrow> u64 \<Rightarrow> bool" where
  "may_contain h addr =
     (if is_device_va addr \<and> \<not> in_device_window h then False
      else addr \<ge> hm_lo h \<and> addr < hm_hi h)"

definition may_overlap :: "host_maps \<Rightarrow> u64 \<Rightarrow> u64 \<Rightarrow> bool" where
  "may_overlap h fst_addr lst_addr =
     (if is_device_va fst_addr \<and> is_device_va lst_addr \<and> \<not> in_device_window h then False
      else fst_addr < hm_hi h \<and> lst_addr \<ge> hm_lo h)"

definition host_map_free_span :: "host_maps \<Rightarrow> u64 \<Rightarrow> u64 \<Rightarrow> bool" where
  "host_map_free_span h base sz \<longleftrightarrow>
     is_device_va base \<and> is_device_va (base + sz - 1) \<and> \<not> in_device_window h"

definition map_holds :: "host_map \<Rightarrow> u64 \<Rightarrow> u64 \<Rightarrow> bool" where
  "map_holds m addr len \<longleftrightarrow> addr \<ge> hm_base m \<and> addr + len \<le> hm_base m + hm_len m"

definition find_host_map_locked :: "host_maps \<Rightarrow> u64 \<Rightarrow> u64 \<Rightarrow> host_map option" where
  "find_host_map_locked h addr len = find (\<lambda>m. map_holds m addr len) (hms h)"

definition map_host :: "u64 \<Rightarrow> u64 \<Rightarrow> u64 \<Rightarrow> bool \<Rightarrow> host_maps \<Rightarrow> host_maps" where
  "map_host addr host len read_only h = fresh_generation (h\<lparr>
     hms := hms h @ [\<lparr>hm_base = addr, hm_len = len, hm_host = host, hm_read_only = read_only\<rparr>],
     hm_retired := filter (\<lambda>r. \<not> (hm_base r < addr + len \<and> addr < hm_base r + hm_len r)) (hm_retired h),
     hm_lo := (if addr < hm_lo h then addr else hm_lo h),
     hm_hi := (if addr + len > hm_hi h then addr + len else hm_hi h),
     in_device_window := (in_device_window h \<or> addr < kDeviceVaEnd \<and> addr + len > kDeviceVaBase)\<rparr>)"

text \<open>The first buffer at the address leaves the table and is remembered as retired.\<close>

fun take_map :: "u64 \<Rightarrow> host_map list \<Rightarrow> (host_map \<times> host_map list) option" where
  "take_map addr [] = None"
| "take_map addr (m # ms) = (if hm_base m = addr then Some (m, ms)
     else map_option (\<lambda>(r, rest). (r, m # rest)) (take_map addr ms))"

definition unmap_host :: "u64 \<Rightarrow> host_maps \<Rightarrow> host_maps" where
  "unmap_host addr h = (case take_map addr (hms h) of
     None \<Rightarrow> h
   | Some (m, rest) \<Rightarrow>
       (let old = (if length (hm_retired h) \<ge> kRetiredHostMaps then tl (hm_retired h) else hm_retired h)
        in fresh_generation (h\<lparr>hms := rest,
             hm_retired := old @ [\<lparr>hm_base = hm_base m, hm_len = hm_len m, hm_host = 0, hm_read_only = False\<rparr>]\<rparr>)))"

section \<open>The cache of hits\<close>

text \<open>The four entries of a thread, each the generation it was found under and the hit.\<close>

record host_cache =
  hc_entries :: "(u64 \<times> host_map) option list"
  hc_next :: u32

definition empty_host_cache :: host_cache where
  "empty_host_cache = \<lparr>hc_entries = replicate 4 None, hc_next = 0\<rparr>"

definition cache_hit :: "host_maps \<Rightarrow> u64 \<Rightarrow> u64 \<Rightarrow> (u64 \<times> host_map) option \<Rightarrow> bool" where
  "cache_hit h addr len e = (case e of None \<Rightarrow> False | Some (g, m) \<Rightarrow> g = hm_gen h \<and> map_holds m addr len)"

definition lookup_host :: "bool \<Rightarrow> host_maps \<Rightarrow> u64 \<Rightarrow> u64 \<Rightarrow> host_cache \<Rightarrow> host_map option \<times> host_cache" where
  "lookup_host cached h addr len c =
     (if \<not> cached then (find_host_map_locked h addr len, c)
      else case find (cache_hit h addr len) (hc_entries c) of
          Some e \<Rightarrow> (map_option snd e, c)
        | None \<Rightarrow> (case find_host_map_locked h addr len of
              None \<Rightarrow> (None, c)
            | Some m \<Rightarrow> (Some m, c\<lparr>hc_entries := (hc_entries c)[unat (hc_next c mod 4) := Some (hm_gen h, m)],
                                  hc_next := hc_next c + 1\<rparr>)))"

section \<open>Pieces of an access\<close>

record host_piece =
  hp_host :: u64
  hp_offset :: u64
  hp_len :: u64

text \<open>
  The loop of \<^verbatim>\<open>host_pieces\<close>. A buffer that wraps round the end of the address space could
  hold \<^verbatim>\<open>at\<close> and leave nothing to advance by, so the loop is partial.
\<close>

partial_function (option) pieces_loop ::
    "host_maps \<Rightarrow> bool \<Rightarrow> u64 \<Rightarrow> u64 \<Rightarrow> u64 \<Rightarrow> host_piece list \<Rightarrow> host_piece list option result option" where
  "pieces_loop h for_write addr at left acc =
     (if left = 0 then Some (Inr (Some acc))
      else case find_host_map_locked h at 1 of
          None \<Rightarrow> Some (Inr None)
        | Some m \<Rightarrow>
            if for_write \<and> hm_read_only m then Some (Inl (Throw Trap))
            else (let n = min left (hm_base m + hm_len m - at)
                  in pieces_loop h for_write addr (at + n) (left - n)
                       (acc @ [\<lparr>hp_host = hm_host m + (at - hm_base m), hp_offset = at - addr, hp_len = n\<rparr>])))"

definition host_pieces :: "host_maps \<Rightarrow> u64 \<Rightarrow> u64 \<Rightarrow> bool \<Rightarrow> host_piece list option result option" where
  "host_pieces h addr len for_write =
     (if may_contain h addr then pieces_loop h for_write addr addr len [] else Some (Inr None))"

section \<open>Well-formed tables\<close>

text \<open>
  No buffer reaches the last byte of the address space; what was mapped is within the bounds, and
  the flag is up when a buffer meets a device window.
\<close>

definition map_ok :: "host_map \<Rightarrow> bool" where
  "map_ok m \<longleftrightarrow> unat (hm_base m) + unat (hm_len m) < 2 ^ 64 - 1"

abbreviation in_map :: "host_map \<Rightarrow> u64 \<Rightarrow> bool" where
  "in_map m \<equiv> in_range (hm_base m) (hm_len m)"

definition hosts_ok :: "host_maps \<Rightarrow> bool" where
  "hosts_ok h \<longleftrightarrow> (\<forall>m \<in> set (hms h). map_ok m \<and> hm_lo h \<le> hm_base m \<and> hm_base m + hm_len m \<le> hm_hi h \<and>
     (hm_base m < kDeviceVaEnd \<and> hm_base m + hm_len m > kDeviceVaBase \<longrightarrow> in_device_window h))"

lemma map_ok_end: "map_ok m \<Longrightarrow> unat (hm_base m + hm_len m) = unat (hm_base m) + unat (hm_len m)"
  by (rule unat_add64) (simp add: map_ok_def)

lemma map_holds_iff:
  assumes "map_ok m" "unat addr + unat len < 2 ^ 64"
  shows "map_holds m addr len \<longleftrightarrow>
    unat (hm_base m) \<le> unat addr \<and> unat addr + unat len \<le> unat (hm_base m) + unat (hm_len m)"
  using assms by (simp add: map_holds_def u64_simps map_ok_end unat_add64)

lemma map_holds_1: "map_ok m \<Longrightarrow> unat addr < 2 ^ 64 - 1 \<Longrightarrow> map_holds m addr 1 \<longleftrightarrow> in_map m addr"
  by (subst map_holds_iff) (auto simp: in_range_def)

lemma hosts_ok_empty: "hosts_ok (no_host_maps n)"
  by (simp add: hosts_ok_def no_host_maps_def fresh_generation_def)

lemma hosts_ok_map_host:
  assumes "hosts_ok h" "unat addr + unat len < 2 ^ 64 - 1"
  shows "hosts_ok (map_host addr host len ro h)"
  using assms unfolding hosts_ok_def map_host_def fresh_generation_def
  by (auto simp: map_ok_def intro: order_trans less_imp_le)

lemma take_map_set: "take_map addr ms = Some (m, rest) \<Longrightarrow> set ms = insert m (set rest) \<and> hm_base m = addr"
  by (induction ms arbitrary: rest) (auto split: if_splits)

lemma hosts_ok_unmap_host: "hosts_ok h \<Longrightarrow> hosts_ok (unmap_host addr h)"
  unfolding unmap_host_def hosts_ok_def fresh_generation_def Let_def
  by (auto split: option.splits dest!: take_map_set)

text \<open>The range tests never miss a mapped address.\<close>

lemma in_map_bounds:
  assumes "hosts_ok h" "m \<in> set (hms h)" "in_map m a"
  shows "hm_lo h \<le> a" "a < hm_hi h" "is_device_va a \<Longrightarrow> in_device_window h"
proof -
  have ok: "map_ok m" "hm_lo h \<le> hm_base m" "hm_base m + hm_len m \<le> hm_hi h"
    and w: "hm_base m < kDeviceVaEnd \<and> hm_base m + hm_len m > kDeviceVaBase \<longrightarrow> in_device_window h"
    using assms(1,2) by (auto simp: hosts_ok_def)
  note e = map_ok_end [OF ok(1)]
  show "hm_lo h \<le> a" "a < hm_hi h" using ok(2,3) assms(3) e by (auto simp: in_range_def u64_simps)
  show "in_device_window h" if "is_device_va a"
    using that assms(3) w e by (auto simp: in_range_def is_device_va_def u64_simps)
qed

lemma may_contain_complete: "hosts_ok h \<Longrightarrow> m \<in> set (hms h) \<Longrightarrow> in_map m a \<Longrightarrow> may_contain h a"
  using in_map_bounds [of h m a] by (auto simp: may_contain_def)

lemma may_overlap_complete:
  assumes "hosts_ok h" "m \<in> set (hms h)" "in_map m a" "first \<le> a" "a \<le> l"
  shows "may_overlap h first l"
proof -
  note b = in_map_bounds [OF assms(1-3)]
  have "is_device_va a" if "is_device_va first" "is_device_va l"
    using that assms(4,5) by (auto simp: is_device_va_def)
  then show ?thesis using b assms(4,5) by (auto simp: may_overlap_def)
qed

lemma host_map_free_span_sound:
  assumes "hosts_ok h" "host_map_free_span h base sz" "unat base + unat sz \<le> 2 ^ 64" "in_range base sz a" "m \<in> set (hms h)"
  shows "\<not> in_map m a"
proof
  assume "in_map m a"
  have sz: "1 \<le> unat sz" using assms(4) by (simp add: in_range_def)
  then have "unat (sz - 1) = unat sz - 1" by (subst unat_sub64) (simp_all add: u64_simps)
  then have "unat (base + (sz - 1)) = unat base + (unat sz - 1)" using assms(3) sz by (subst unat_add64) auto
  then have "is_device_va a"
    using assms(2,4) sz by (auto simp: host_map_free_span_def is_device_va_iff in_range_def add_diff_eq)
  then show False using in_map_bounds(3) [OF assms(1,5) \<open>in_map m a\<close>] assms(2) by (simp add: host_map_free_span_def)
qed

section \<open>The cache answers as the table does\<close>

text \<open>
  An entry of the current generation is a buffer that is mapped now. Every change of the table takes
  a generation above all that were ever handed out, so a change never makes a false entry current.
\<close>

definition cache_ok :: "host_maps \<Rightarrow> host_cache \<Rightarrow> bool" where
  "cache_ok h c \<longleftrightarrow> hm_gen h \<le> hm_counter h \<and>
     (\<forall>g m. Some (g, m) \<in> set (hc_entries c) \<longrightarrow> g \<le> hm_counter h \<and> (g = hm_gen h \<longrightarrow> m \<in> set (hms h)))"

text \<open>What happens to a table and a thread's cache.\<close>

inductive host_run :: "host_maps \<Rightarrow> host_cache \<Rightarrow> bool" where
  start: "host_run (no_host_maps n) empty_host_cache" if "n \<noteq> - 1"
| mapped: "host_run (map_host addr host len ro h) c"
    if "host_run h c" "hm_counter h \<noteq> - 1" "unat addr + unat len < 2 ^ 64 - 1"
| unmapped: "host_run (unmap_host addr h) c" if "host_run h c" "hm_counter h \<noteq> - 1"
| looked_up: "host_run h c'" if "host_run h c" "lookup_host cached h addr len c = (r, c')"
| elsewhere: "host_run (h\<lparr>hm_counter := hm_counter h + 1\<rparr>) c" if "host_run h c" "hm_counter h \<noteq> - 1"

lemma counter_up: "(n :: u64) \<noteq> - 1 \<Longrightarrow> g \<le> n \<Longrightarrow> g < n + 1"
proof -
  assume a: "n \<noteq> - 1" "g \<le> n"
  have "unat n \<noteq> unat (- 1 :: u64)" using a(1) by (simp add: word_unat_eq_iff)
  moreover have "unat (- 1 :: u64) = 2 ^ 64 - 1" by (simp add: unsigned_minus_1_eq_mask mask_eq_exp_minus_1)
  ultimately have "unat n + 1 < 2 ^ 64" using unat_u64_lt [of n] by simp
  then have "unat (n + 1) = unat n + 1" by (simp add: unat_add64)
  with a(2) show ?thesis by (simp add: u64_simps)
qed

lemma cache_ok_fresh:
  assumes "cache_ok h c" "hm_counter h \<noteq> - 1" "hm_counter h' = hm_counter h"
  shows "cache_ok (fresh_generation h') c"
proof -
  have up: "g < hm_counter h + 1" if "g \<le> hm_counter h" for g by (rule counter_up [OF assms(2) that])
  then show ?thesis
    using assms(1,3) unfolding cache_ok_def fresh_generation_def by (auto intro: less_imp_le)
qed

lemma lookup_host_split:
  assumes "lookup_host cached h addr len c = (r, c')"
  shows "r = find_host_map_locked h addr len \<and> c' = c \<or>
    (\<exists>g m. Some (g, m) \<in> set (hc_entries c) \<and> g = hm_gen h \<and> map_holds m addr len \<and> r = Some m \<and> c' = c) \<or>
    (\<exists>m. find_host_map_locked h addr len = Some m \<and> r = Some m \<and>
      hc_entries c' = (hc_entries c)[unat (hc_next c mod 4) := Some (hm_gen h, m)])"
proof (cases "cached \<and> find (cache_hit h addr len) (hc_entries c) \<noteq> None")
  case True
  then obtain e where e: "find (cache_hit h addr len) (hc_entries c) = Some e" "cached" by auto
  then have m: "e \<in> set (hc_entries c)" "cache_hit h addr len e" by (auto simp: find_Some_iff)
  then obtain g hit where "e = Some (g, hit)" by (auto simp: cache_hit_def split: option.splits)
  then show ?thesis using assms e m by (auto simp: lookup_host_def cache_hit_def)
next
  case False
  then show ?thesis
    using assms by (cases "find_host_map_locked h addr len") (auto simp: lookup_host_def split: if_splits)
qed

lemma find_host_map_SomeD:
  "find_host_map_locked h addr len = Some m \<Longrightarrow> m \<in> set (hms h) \<and> map_holds m addr len"
  by (auto simp: find_host_map_locked_def find_Some_iff)

lemma find_host_map_None: "find_host_map_locked h addr len = None \<longleftrightarrow> (\<forall>m \<in> set (hms h). \<not> map_holds m addr len)"
  by (auto simp: find_host_map_locked_def find_None_iff)

lemma lookup_host_cases:
  assumes "cache_ok h c" "lookup_host cached h addr len c = (r, c')"
  shows "r = None \<Longrightarrow> find_host_map_locked h addr len = None"
    "r = Some m \<Longrightarrow> m \<in> set (hms h) \<and> map_holds m addr len"
    "cache_ok h c'"
proof -
  note split = lookup_host_split [OF assms(2)]
  have ok: "m \<in> set (hms h)" if "Some (hm_gen h, m) \<in> set (hc_entries c)" for m
    using assms(1) that unfolding cache_ok_def by blast
  show "r = None \<Longrightarrow> find_host_map_locked h addr len = None" using split by auto
  show "r = Some m \<Longrightarrow> m \<in> set (hms h) \<and> map_holds m addr len"
    using split by (elim disjE exE conjE) (auto dest: ok find_host_map_SomeD)
  show "cache_ok h c'"
  proof (cases "c' = c")
    case False
    then obtain m where m: "m \<in> set (hms h)"
      and c': "hc_entries c' = (hc_entries c)[unat (hc_next c mod 4) := Some (hm_gen h, m)]"
      using split find_host_map_SomeD by blast
    have "set (hc_entries c') \<subseteq> insert (Some (hm_gen h, m)) (set (hc_entries c))"
      unfolding c' by (rule set_update_subset_insert)
    moreover have "hm_gen h \<le> hm_counter h" using assms(1) by (simp add: cache_ok_def)
    ultimately show ?thesis using assms(1) m unfolding cache_ok_def by blast
  qed (use assms(1) in simp)
qed

lemma host_run_ok: "host_run h c \<Longrightarrow> hosts_ok h \<and> cache_ok h c"
proof (induction rule: host_run.induct)
  case (start n)
  have "cache_ok (no_host_maps n) empty_host_cache"
    by (auto simp: cache_ok_def no_host_maps_def fresh_generation_def empty_host_cache_def)
  then show ?case by (simp add: hosts_ok_empty)
next
  case (mapped h c addr len host ro)
  then have "cache_ok (map_host addr host len ro h) c"
    unfolding map_host_def by (intro cache_ok_fresh [of h]) auto
  then show ?case using mapped by (simp add: hosts_ok_map_host)
next
  case (unmapped h c addr)
  then have "cache_ok (unmap_host addr h) c"
    by (auto simp: unmap_host_def Let_def intro!: cache_ok_fresh split: option.splits)
  then show ?case using unmapped by (simp add: hosts_ok_unmap_host)
next
  case (looked_up h c cached addr len r c')
  then show ?case using lookup_host_cases(3) by blast
next
  case (elsewhere h c)
  have "g \<le> hm_counter h + 1" if "g \<le> hm_counter h" for g
    using counter_up [OF elsewhere(2) that] by simp
  then show ?case using elsewhere.IH by (auto simp: hosts_ok_def cache_ok_def)
qed

section \<open>Pieces\<close>

text \<open>\<open>at_host h w a p\<close>: device address \<open>a\<close> is host address \<open>p\<close> (in a buffer that may be written, for \<open>w\<close>).\<close>

definition at_host :: "host_maps \<Rightarrow> bool \<Rightarrow> u64 \<Rightarrow> u64 \<Rightarrow> bool" where
  "at_host h w a p \<longleftrightarrow>
     (\<exists>m \<in> set (hms h). in_map m a \<and> p = hm_host m + (a - hm_base m) \<and> (w \<longrightarrow> \<not> hm_read_only m))"

definition piece_addrs :: "host_piece \<Rightarrow> u64 list" where
  "piece_addrs p = map (\<lambda>i. hp_host p + of_nat i) [0 ..< unat (hp_len p)]"

text \<open>Pieces that lie end to end from an offset on, and reach the bytes of a range in order.\<close>

fun pieces_from :: "nat \<Rightarrow> host_piece list \<Rightarrow> bool" where
  "pieces_from off [] \<longleftrightarrow> True"
| "pieces_from off (p # ps) \<longleftrightarrow> unat (hp_offset p) = off \<and> pieces_from (off + unat (hp_len p)) ps"

definition covers :: "host_maps \<Rightarrow> bool \<Rightarrow> u64 \<Rightarrow> nat \<Rightarrow> host_piece list \<Rightarrow> bool" where
  "covers h w addr n ps \<longleftrightarrow> (let as = concat (map piece_addrs ps) in
     length as = n \<and> (\<forall>i < n. at_host h w (addr + of_nat i) (as ! i)))"

lemma length_piece_addrs [simp]: "length (piece_addrs p) = unat (hp_len p)"
  by (simp add: piece_addrs_def)

lemma covers_Nil [simp]: "covers h w addr 0 []"
  by (simp add: covers_def)

lemma covers_Cons:
  assumes "m \<in> set (hms h)" "w \<longrightarrow> \<not> hm_read_only m" "unat (hp_len p) = n"
    and "hp_host p = hm_host m + (at - hm_base m)" "\<And>i. i < n \<Longrightarrow> in_map m (at + of_nat i)"
    and "covers h w (at + of_nat n) k ps"
  shows "covers h w at (n + k) (p # ps)"
proof -
  have "at_host h w (at + of_nat i) ((piece_addrs p @ concat (map piece_addrs ps)) ! i)" if i: "i < n + k" for i
  proof (cases "i < n")
    case True
    then have "(piece_addrs p @ concat (map piece_addrs ps)) ! i = hm_host m + (at + of_nat i - hm_base m)"
      using assms(3,4) by (simp add: nth_append piece_addrs_def)
    then show ?thesis using True assms(1,2,5) unfolding at_host_def by (intro bexI [of _ m]) auto
  next
    case False
    then obtain j where j: "i = n + j" "j < k" using i by (metis add_diff_inverse_nat nat_add_left_cancel_less)
    then have "at_host h w (at + of_nat n + of_nat j) (concat (map piece_addrs ps) ! j)"
      using assms(6) by (simp add: covers_def Let_def)
    then show ?thesis using j(1) assms(3) by (simp add: nth_append add.assoc)
  qed
  then show ?thesis using assms(3,6) by (simp add: covers_def Let_def)
qed

definition unmapped_in :: "host_maps \<Rightarrow> u64 \<Rightarrow> nat \<Rightarrow> bool" where
  "unmapped_in h addr n \<longleftrightarrow> (\<exists>i < n. \<forall>m \<in> set (hms h). \<not> in_map m (addr + of_nat i))"

definition read_only_in :: "host_maps \<Rightarrow> u64 \<Rightarrow> nat \<Rightarrow> bool" where
  "read_only_in h addr n \<longleftrightarrow> (\<exists>i < n. \<exists>m \<in> set (hms h). in_map m (addr + of_nat i) \<and> hm_read_only m)"

lemma later_in:
  assumes "n \<le> k"
  shows "unmapped_in h (at + of_nat n) (k - n) \<Longrightarrow> unmapped_in h at k"
    and "read_only_in h (at + of_nat n) (k - n) \<Longrightarrow> read_only_in h at k"
proof -
  have *: "at + of_nat n + of_nat i = at + of_nat (n + i)" for i by (simp add: add.assoc)
  show "unmapped_in h (at + of_nat n) (k - n) \<Longrightarrow> unmapped_in h at k"
    "read_only_in h (at + of_nat n) (k - n) \<Longrightarrow> read_only_in h at k"
    unfolding unmapped_in_def read_only_in_def * by (metis less_diff_conv add.commute)+
qed

lemma pieces_loop_spec:
  assumes "hosts_ok h" "unat at + unat left < 2 ^ 64 - 1" "unat addr \<le> unat at"
  shows "\<exists>r. pieces_loop h w addr at left acc = Some r \<and>
    ((\<exists>ps. r = Inr (Some (acc @ ps)) \<and> covers h w at (unat left) ps \<and> pieces_from (unat at - unat addr) ps) \<or>
     r = Inr None \<and> unmapped_in h at (unat left) \<or>
     r = Inl (Throw Trap) \<and> w \<and> read_only_in h at (unat left))"
  using assms(2,3)
proof (induction "unat left" arbitrary: at left acc rule: less_induct)
  case less
  note step = pieces_loop.simps [of h w addr at left acc]
  show ?case
  proof (cases "left = 0")
    case True
    then have "pieces_loop h w addr at left acc = Some (Inr (Some (acc @ [])))" unfolding step by (simp add: True)
    moreover have "covers h w at (unat left) []" "pieces_from (unat at - unat addr) []" using True by simp_all
    ultimately show ?thesis by blast
  next
    case False
    then have pos: "0 < unat left" by (simp add: unat_gt_0)
    have small: "unat at < 2 ^ 64 - 1" using less.prems(1) by linarith
    show ?thesis
    proof (cases "find_host_map_locked h at 1")
      case None
      have "\<not> in_map m at" if "m \<in> set (hms h)" for m
        using None that assms(1) map_holds_1 [OF _ small, of m] by (auto simp: find_host_map_None hosts_ok_def)
      then have "unmapped_in h at (unat left)" using pos unfolding unmapped_in_def by (intro exI [of _ 0]) simp
      then show ?thesis using None False by (simp add: step)
    next
      case (Some m)
      have m: "m \<in> set (hms h)" "map_ok m" "in_map m at"
        using find_host_map_SomeD [OF Some] assms(1) map_holds_1 [OF _ small] by (auto simp: hosts_ok_def)
      show ?thesis
      proof (cases "w \<and> hm_read_only m")
        case True
        have "read_only_in h at (unat left)" using True m pos unfolding read_only_in_def by (intro exI [of _ 0]) auto
        moreover have "pieces_loop h w addr at left acc = Some (Inl (Throw Trap))"
          unfolding step using Some False True by simp
        ultimately show ?thesis using True by blast
      next
        case wr: False
        define n where "n = min left (hm_base m + hm_len m - at)"
        have e: "unat (hm_base m + hm_len m - at) = unat (hm_base m) + unat (hm_len m) - unat at"
          using m(2,3) by (subst unat_sub64) (auto simp: map_ok_end in_range_def)
        have n: "0 < unat n" "unat n \<le> unat left" "unat at + unat n \<le> unat (hm_base m) + unat (hm_len m)"
          using pos e m(3) by (auto simp: n_def min_def u64_simps in_range_def)
        have an: "unat (at + n) = unat at + unat n" using n(2) less.prems(1) by (subst unat_add64) auto
        have ln: "unat (left - n) = unat left - unat n" using n(2) by (rule unat_sub64)
        let ?p = "\<lparr>hp_host = hm_host m + (at - hm_base m), hp_offset = at - addr, hp_len = n\<rparr>"
        have rec: "pieces_loop h w addr at left acc = pieces_loop h w addr (at + n) (left - n) (acc @ [?p])"
          unfolding step n_def Let_def by (simp add: Some wr False)
        obtain r where r: "pieces_loop h w addr (at + n) (left - n) (acc @ [?p]) = Some r"
          "(\<exists>ps. r = Inr (Some ((acc @ [?p]) @ ps)) \<and> covers h w (at + n) (unat (left - n)) ps \<and>
              pieces_from (unat (at + n) - unat addr) ps) \<or>
           r = Inr None \<and> unmapped_in h (at + n) (unat (left - n)) \<or>
           r = Inl (Throw Trap) \<and> w \<and> read_only_in h (at + n) (unat (left - n))"
          using less.hyps [of "left - n" "at + n" "acc @ [?p]"] less.prems n an ln by auto
        have inm: "in_map m (at + of_nat i)" if "i < unat n" for i
        proof -
          have "unat (at + of_nat i :: u64) = unat at + i"
            using that n less.prems(1) by (subst unat_add64) (auto simp: unat_of_nat64)
          then show ?thesis using that n m(3) by (simp add: in_range_def)
        qed
        have cov: "covers h w at (unat left) (?p # ps)" if "covers h w (at + n) (unat (left - n)) ps" for ps
          using covers_Cons [of m h w ?p "unat n" at "unat left - unat n" ps] m(1) wr inm that n(2) ln by simp
        have off: "unat (at - addr) = unat at - unat addr" using less.prems(2) by (rule unat_sub64)
        show ?thesis
          unfolding rec r(1) using r(2) later_in [OF n(2), of h at] ln an off cov less.prems(2)
          by (auto simp: Suc_diff_le)
      qed
    qed
  qed
qed

section \<open>Properties\<close>


definition demo_hosts :: host_maps where
  "demo_hosts = map_host 0x5000 0x5000 0x1000 False (map_host 0x6000 0x9000 0x1000 True (no_host_maps 0))"

lemma demo_hosts_ok: "hosts_ok demo_hosts"
  unfolding demo_hosts_def by (intro hosts_ok_map_host hosts_ok_empty) simp_all




text \<open>
  The test for the whole range of a bulk access adds the length to the address, and the sum wraps:
  a length of \<open>2\<^sup>6\<^sup>4 - k\<close> from \<open>k\<close> bytes or more into any mapped buffer is answered with that buffer,
  though the range runs far past its end.
\<close>

theorem host_lookup_length_wraps:
  assumes "m \<in> set (hms h)" "map_ok m" "in_map m addr" "0 < unat k" "unat (hm_base m) + unat k \<le> unat addr"
  shows "find_host_map_locked h addr (- k) \<noteq> None \<and> unat (hm_base m) + unat (hm_len m) < unat addr + unat (- k)"
proof -
  have "unat (- k) = 2 ^ 64 - unat k" using assms(4) unat_sub_if' [of 0 k] by auto
  moreover have "unat (addr + - k) = unat addr - unat k" using assms(5) unat_sub64 [of k addr] by simp
  ultimately have "map_holds m addr (- k)" "unat (hm_base m) + unat (hm_len m) < unat addr + unat (- k)"
    using assms(2,3,5) unat_u64_lt [of k] by (auto simp: map_holds_def u64_simps map_ok_end in_range_def map_ok_def)
  then show ?thesis using assms(1) by (auto simp: find_host_map_None)
qed

lemma host_lookup_length_wraps_witness: "find_host_map_locked demo_hosts 0x5010 (- 8) \<noteq> None"
proof -
  have "\<lparr>hm_base = 0x5000, hm_len = 0x1000, hm_host = 0x5000, hm_read_only = False\<rparr> \<in> set (hms demo_hosts)"
    by (simp add: demo_hosts_def map_host_def no_host_maps_def fresh_generation_def)
  from host_lookup_length_wraps [OF this, of "0x5010" 8] show ?thesis by (simp add: map_ok_def in_range_def)
qed

end
