(* ===== verification/Manager.thy ===== *)
theory Manager
  imports Backing Quarantine Epoch Host_Maps
begin

text \<open>
  The state of \<^verbatim>\<open>MemoryManager\<close> (\<^verbatim>\<open>src/include/vgpu/memory.hpp\<close>) and the operations that
  hand out and take back device memory: \<^verbatim>\<open>alloc\<close>, \<^verbatim>\<open>free\<close>, the device heap,
  \<^verbatim>\<open>free_all\<close> and \<^verbatim>\<open>resident_bytes\<close> of \<^verbatim>\<open>src/core/memory.cpp\<close>.

  Every operation here runs under the table lock (theory \<open>Br_Lock\<close>), so it is one step from a state to
  a state. \<open>exclusive\<close> is a lock that is not quiet: it voids what threads remember before and after.
  The usage observer is the list of the totals it was told, newest first. The card gate of the
  host-GPU mode is absent (null), and the containers' own memory does not run out.
\<close>

section \<open>State\<close>

record mapping =
  mp_size :: u64
  mp_offset :: u64
  mp_handle :: u64
  mp_readable :: bool
  mp_writable :: bool

record vhandle =
  vh_size :: u64
  vh_refs :: u32
  vh_mapped :: u32
  vh_types :: u32
  vh_compressible :: bool
  vh_fd :: int
  vh_mem :: allocation

record shared_region =
  sr_va :: u64
  sr_size :: u64
  sr_host :: u64
  sr_path :: string
  sr_owner :: bool

record device_heap =
  dh_used :: u64
  dh_blocks :: "(u64, u64) omap"
  dh_strings :: "(string \<times> u64) list"

record mm =
  backing_st :: bstate
  capacity :: u64
  va_base :: u64
  used :: u64
  next_va :: u64
  page :: u64
  alloc_align :: u64
  high_water :: u64
  live :: "(u64, allocation) omap"
  spare_live :: "allocation option"
  quar :: quarantine
  reserved :: "(u64, u64) omap"
  vmaps :: "(u64, mapping) omap"
  handles :: "(u64, vhandle) omap"
  next_handle :: u64
  shared :: "(u64, shared_region) omap"
  hosts :: host_maps
  dev_heap :: device_heap
  usage_log :: "u64 list"
  table_epochs :: epochs
  hmem :: "u64 \<Rightarrow> u8"

text \<open>The constructor, over the process's backing, table epochs and host memory as they are then.\<close>

definition new_manager :: "u64 \<Rightarrow> u32 \<Rightarrow> bstate \<Rightarrow> epochs \<Rightarrow> u64 \<Rightarrow> (u64 \<Rightarrow> u8) \<Rightarrow> mm" where
  "new_manager capacity_bytes device_ordinal b e gen mem =
     \<lparr>backing_st = b, capacity = capacity_bytes, va_base = device_va_base device_ordinal, used = 0,
      next_va = device_va_base device_ordinal, page = 0, alloc_align = kAllocAlign,
      high_water = device_va_base device_ordinal, live = [], spare_live = None, quar = empty_quarantine,
      reserved = [], vmaps = [], handles = [], next_handle = 1, shared = [], hosts = no_host_maps gen,
      dev_heap = \<lparr>dh_used = 0, dh_blocks = [], dh_strings = []\<rparr>, usage_log = [], table_epochs = e, hmem = mem\<rparr>"

definition set_page_size :: "u64 \<Rightarrow> mm \<Rightarrow> mm" where
  "set_page_size bytes m = m\<lparr>page := bytes\<rparr>"

definition set_alloc_alignment :: "u64 \<Rightarrow> mm \<Rightarrow> mm" where
  "set_alloc_alignment bytes m = m\<lparr>alloc_align := bytes\<rparr>"

definition notify_usage :: "mm \<Rightarrow> mm" where
  "notify_usage m = m\<lparr>usage_log := used m # usage_log m\<rparr>"

definition void_lookups :: "mm \<Rightarrow> mm" where
  "void_lookups m = m\<lparr>table_epochs := new_stamp (table_epochs m)\<rparr>"

definition exclusive :: "(mm \<Rightarrow> ('a, mm) outcome) \<Rightarrow> mm \<Rightarrow> ('a, mm) outcome" where
  "exclusive f m = (case f (void_lookups m) of (r, m') \<Rightarrow> (r, void_lookups m'))"

section \<open>Allocations\<close>

definition over_capacity :: "u64 \<Rightarrow> mm \<Rightarrow> bool" where
  "over_capacity sz m \<longleftrightarrow> used m + sz > capacity m \<or> used m + sz < used m"

definition alloc_alignment :: "u64 \<Rightarrow> mm \<Rightarrow> u64" where
  "alloc_alignment request m = max (max (alloc_align m) (page m)) request"

definition round_up :: "u64 \<Rightarrow> u64 \<Rightarrow> u64" where
  "round_up v to = (v + to - 1) div to * to"

definition alloc :: "u64 \<Rightarrow> u64 \<Rightarrow> mm \<Rightarrow> (u64, mm) outcome" where
  "alloc sz request m =
     (if sz = 0 then (Inl (Throw InvalidValue), m)
      else if over_capacity sz m then (Inl (Throw OutOfMemory), m)
      else (let align = alloc_alignment request m;
                base = (next_va m + align - 1) div align * align;
                padded = (sz + align - 1) div align * align;
                node = (case spare_live m of None \<Rightarrow> empty_allocation | Some a \<Rightarrow> a)
            in (Inr base, notify_usage (m\<lparr>next_va := base + padded, high_water := base + padded, used := used m + sz,
                  spare_live := None, live := om_emplace base (set_up sz node) (live m)\<rparr>))))"

definition drop_shared :: "u64 \<Rightarrow> shared_region \<Rightarrow> mm \<Rightarrow> mm" where
  "drop_shared key r m = m\<lparr>hosts := unmap_host (sr_va r) (hosts m), shared := om_erase key (shared m)\<rparr>"

text \<open>What \<^verbatim>\<open>free\<close> says of a pointer that is no allocation's base.\<close>

definition bad_free :: "u64 \<Rightarrow> mm \<Rightarrow> Err" where
  "bad_free ptr m =
     (if om_find (freed (quar m)) ptr \<noteq> None then DoubleFree
      else case om_floor (live m) ptr of
          Some (b, a) \<Rightarrow> if ptr < b + al_size a then InvalidFree else InvalidPointer
        | None \<Rightarrow> InvalidPointer)"

definition note_freed :: "u64 \<Rightarrow> u64 \<Rightarrow> mm \<Rightarrow> (unit, mm) outcome" where
  "note_freed ptr sz m = (case remember_freed ptr sz (quar m) of
     Inl e \<Rightarrow> (Inl e, m\<lparr>used := used m - sz\<rparr>)
   | Inr q \<Rightarrow> (Inr (), m\<lparr>used := used m - sz, quar := q, table_epochs := note_free ptr (table_epochs m)\<rparr>))"

definition free_live :: "u64 \<Rightarrow> allocation \<Rightarrow> mm \<Rightarrow> mm" where
  "free_live ptr a m = (case recycle release a (backing_st m) of (a', b) \<Rightarrow>
     notify_usage (m\<lparr>backing_st := b, live := om_erase ptr (live m), spare_live := Some a'\<rparr>))"

definition free_ordinary :: "u64 \<Rightarrow> mm \<Rightarrow> (unit, mm) outcome" where
  "free_ordinary ptr m = (case om_find (live m) ptr of
     Some a \<Rightarrow> then_do (note_freed ptr (al_size a) m) (\<lambda>_ m'. (Inr (), free_live ptr a m'))
   | None \<Rightarrow> (Inl (Throw (bad_free ptr m)), m))"

definition free :: "u64 \<Rightarrow> mm \<Rightarrow> (unit, mm) outcome" where
  "free ptr m = (case om_find (shared m) ptr of
     Some r \<Rightarrow> if sr_owner r
       then then_do (note_freed ptr (sr_size r) m) (\<lambda>_ m'. (Inr (), notify_usage (drop_shared ptr r m')))
       else free_ordinary ptr m
   | None \<Rightarrow> free_ordinary ptr m)"

section \<open>The device heap\<close>

definition heap_alloc :: "u64 \<Rightarrow> u64 \<Rightarrow> mm \<Rightarrow> (u64, mm) outcome" where
  "heap_alloc sz limit m =
     (let h = dev_heap m in
      if sz = 0 \<or> dh_used h > limit \<or> sz > limit - dh_used h then (Inr 0, m)
      else case alloc sz 0 m of
          (Inl (Throw e), m') \<Rightarrow> (Inr 0, m')
        | (Inl e, m') \<Rightarrow> (Inl e, m')
        | (Inr p, m') \<Rightarrow> (Inr p, m'\<lparr>dev_heap := (dev_heap m')\<lparr>dh_used := dh_used (dev_heap m') + sz,
                                     dh_blocks := om_emplace p sz (dh_blocks (dev_heap m'))\<rparr>\<rparr>))"

definition heap_free :: "u64 \<Rightarrow> mm \<Rightarrow> (bool, mm) outcome" where
  "heap_free ptr m =
     (let h = dev_heap m in
      case om_find (dh_blocks h) ptr of
        None \<Rightarrow> (Inr False, m)
      | Some sz \<Rightarrow> then_do (free ptr (m\<lparr>dev_heap := h\<lparr>dh_used := dh_used h - sz, dh_blocks := om_erase ptr (dh_blocks h)\<rparr>\<rparr>))
          (\<lambda>_ m'. (Inr True, m')))"

definition heap_used :: "mm \<Rightarrow> u64" where
  "heap_used m = dh_used (dev_heap m)"

definition heap_contains :: "u64 \<Rightarrow> mm \<Rightarrow> bool" where
  "heap_contains addr m = (case om_floor (dh_blocks (dev_heap m)) addr of
     None \<Rightarrow> False
   | Some (b, sz) \<Rightarrow> addr - b < sz)"

section \<open>Reset\<close>

text \<open>Destroying a handle gives its chunks back.\<close>

definition destroy_handle :: "vhandle \<Rightarrow> mm \<Rightarrow> mm" where
  "destroy_handle h m = m\<lparr>backing_st := snd (release_alloc release (vh_mem h) (backing_st m))\<rparr>"

fun drop_owned :: "(u64 \<times> shared_region) list \<Rightarrow> mm \<Rightarrow> mm" where
  "drop_owned [] m = m"
| "drop_owned (e # rs) m = drop_owned rs
     (if sr_owner (snd e) then drop_shared (fst e) (snd e) (m\<lparr>used := used m - sr_size (snd e)\<rparr>) else m)"

fun free_each :: "u64 list \<Rightarrow> mm \<Rightarrow> (unit, mm) outcome" where
  "free_each [] m = (Inr (), m)"
| "free_each (b # bs) m = then_do (free b m) (\<lambda>_ m'. free_each bs m')"

definition drop_mappings :: "mm \<Rightarrow> mm" where
  "drop_mappings m = (let m1 = m\<lparr>vmaps := [], reserved := [], used := fold (\<lambda>e u. u - vh_size (snd e)) (handles m) (used m)\<rparr>
     in (fold (\<lambda>e. destroy_handle (snd e)) (handles m) m1)\<lparr>handles := []\<rparr>)"

definition free_all :: "mm \<Rightarrow> (unit, mm) outcome" where
  "free_all m = exclusive (\<lambda>m. let m2 = drop_mappings m; m3 = drop_owned (shared m2) m2
       in free_each (map fst (live m3)) m3)
     (m\<lparr>dev_heap := \<lparr>dh_used = 0, dh_blocks = [], dh_strings = []\<rparr>\<rparr>)"

definition resident_chunks :: "allocation \<Rightarrow> nat" where
  "resident_chunks a = (if slots a = [] then 0
     else length (filter (\<lambda>c. case c of Real _ \<Rightarrow> True | _ \<Rightarrow> False) (take (chunk_count a) (slots a))))"

definition resident_bytes :: "mm \<Rightarrow> u64" where
  "resident_bytes m = of_nat (sum_list (map (\<lambda>e. resident_chunks (snd e)) (live m))) * of_nat kChunkSize"

definition live_ranges :: "mm \<Rightarrow> (u64 \<times> u64) list" where
  "live_ranges m = map (\<lambda>e. (fst e, al_size (snd e))) (live m)"

definition find_shared :: "u64 \<Rightarrow> mm \<Rightarrow> (u64 \<times> u64) option" where
  "find_shared addr m = (case om_floor (shared m) addr of
     None \<Rightarrow> None
   | Some (_, r) \<Rightarrow> if addr \<ge> sr_va r + sr_size r then None else Some (sr_va r, sr_size r))"

definition find_allocation :: "u64 \<Rightarrow> mm \<Rightarrow> (u64 \<times> u64) option" where
  "find_allocation addr m = (case om_floor (live m) addr of
     Some (b, a) \<Rightarrow> if addr < b + al_size a then Some (b, al_size a) else find_shared addr m
   | None \<Rightarrow> find_shared addr m)"

definition owns :: "u64 \<Rightarrow> mm \<Rightarrow> bool" where
  "owns addr m \<longleftrightarrow> in_window (va_base m) addr \<or>
     may_contain (hosts m) addr \<and> find_host_map_locked (hosts m) addr 1 \<noteq> None"

end
