(* ===== verification/Vmm.thy ===== *)
theory Vmm
  imports Manager
begin

text \<open>
  Virtual memory management of \<^verbatim>\<open>src/core/memory.cpp\<close>: address space is reserved, memory is
  created as a handle, a handle is mapped into a reservation, and access is granted to a mapping;
  handles are counted references, and can be exported to and imported from a file. What the operating
  system answers (a descriptor, the address of a mapping, the contents of a file) is an argument.

  The loops of \<^verbatim>\<open>unmap\<close> and \<^verbatim>\<open>set_access\<close> compare wrapping 64-bit sums, so they are
  partial functions; \<open>Hang\<close> stands for a loop that does not end.
\<close>

unbundle bit_operations_syntax

definition kVmmGranularity :: u64 where
  "kVmmGranularity = 2 * 1024 * 1024"

section \<open>Reservations\<close>

definition reserve_locked :: "u64 \<Rightarrow> u64 \<Rightarrow> mm \<Rightarrow> (u64, mm) outcome" where
  "reserve_locked sz alignment m =
     (if sz = 0 \<or> sz mod kVmmGranularity \<noteq> 0 then (Inl (Throw InvalidValue), m)
     else if alignment AND (alignment - 1) \<noteq> 0 then (Inl (Throw InvalidValue), m)
     else (let align = (if alignment < kVmmGranularity then kVmmGranularity else alignment);
               base = round_up (next_va m) align
           in if base + sz > va_base m + kDeviceVaStride \<or> base + sz < base then (Inl (Throw OutOfMemory), m)
              else (Inr base, m\<lparr>next_va := base + sz, high_water := base + sz,
                                reserved := om_emplace base sz (reserved m)\<rparr>)))"

definition reserve :: "u64 \<Rightarrow> u64 \<Rightarrow> mm \<Rightarrow> (u64, mm) outcome" where
  "reserve sz alignment = exclusive (reserve_locked sz alignment)"

definition range_mapped :: "u64 \<Rightarrow> u64 \<Rightarrow> mm \<Rightarrow> bool" where
  "range_mapped va sz m =
     (if (case om_lower_bound (vmaps m) va of Some (a, _) \<Rightarrow> a < va + sz | None \<Rightarrow> False) then True
      else case om_before (vmaps m) va of
          Some (b, p) \<Rightarrow> va - b < mp_size p
        | None \<Rightarrow> False)"

definition address_free_locked :: "u64 \<Rightarrow> u64 \<Rightarrow> mm \<Rightarrow> (unit, mm) outcome" where
  "address_free_locked va sz m =
     (if om_find (reserved m) va \<noteq> Some sz then (Inl (Throw InvalidValue), m)
     else if (case om_lower_bound (vmaps m) va of Some (a, _) \<Rightarrow> a < va + sz | None \<Rightarrow> False)
     then (Inl (Throw InvalidValue), m)
     else (Inr (), m\<lparr>reserved := om_erase va (reserved m)\<rparr>))"

definition address_free :: "u64 \<Rightarrow> u64 \<Rightarrow> mm \<Rightarrow> (unit, mm) outcome" where
  "address_free va sz = exclusive (address_free_locked va sz)"

section \<open>Handles\<close>

definition chunks_for :: "u64 \<Rightarrow> nat" where
  "chunks_for sz = unat ((sz + of_nat kChunkSize - 1) div of_nat kChunkSize)"

definition new_handle :: "u64 \<Rightarrow> u32 \<Rightarrow> bool \<Rightarrow> vhandle" where
  "new_handle sz types compressible =
     \<lparr>vh_size = sz, vh_refs = 1, vh_mapped = 0, vh_types = types, vh_compressible = compressible, vh_fd = - 1,
      vh_mem = \<lparr>al_size = sz, chunk_count = chunks_for sz, slots = replicate (chunks_for sz) Untouched,
                external = False, card_valid = 0\<rparr>\<rparr>"

definition add_handle :: "vhandle \<Rightarrow> mm \<Rightarrow> (u64, mm) outcome" where
  "add_handle h m = (Inr (next_handle m), notify_usage (m\<lparr>used := used m + vh_size h,
     next_handle := next_handle m + 1, handles := om_emplace (next_handle m) h (handles m)\<rparr>))"

definition create_locked :: "u64 \<Rightarrow> u32 \<Rightarrow> bool \<Rightarrow> mm \<Rightarrow> (u64, mm) outcome" where
  "create_locked sz types compressible m =
     (if sz = 0 \<or> sz mod kVmmGranularity \<noteq> 0 then (Inl (Throw InvalidValue), m)
     else if over_capacity sz m then (Inl (Throw OutOfMemory), m)
     else add_handle (new_handle sz types compressible) m)"

definition create_handle :: "u64 \<Rightarrow> u32 \<Rightarrow> bool \<Rightarrow> mm \<Rightarrow> (u64, mm) outcome" where
  "create_handle sz types compressible = exclusive (create_locked sz types compressible)"

definition with_handle :: "(vhandle \<Rightarrow> 'a) \<Rightarrow> u64 \<Rightarrow> mm \<Rightarrow> 'a result" where
  "with_handle f handle m = (case om_find (handles m) handle of
     None \<Rightarrow> Inl (Throw InvalidValue) | Some h \<Rightarrow> Inr (f h))"

definition handle_types :: "u64 \<Rightarrow> mm \<Rightarrow> u32 result" where
  "handle_types = with_handle vh_types"

definition handle_compressible :: "u64 \<Rightarrow> mm \<Rightarrow> bool result" where
  "handle_compressible = with_handle vh_compressible"

definition handle_size :: "u64 \<Rightarrow> mm \<Rightarrow> u64 result" where
  "handle_size = with_handle vh_size"

definition retain_locked :: "u64 \<Rightarrow> mm \<Rightarrow> (unit, mm) outcome" where
  "retain_locked handle m = (case om_find (handles m) handle of
     None \<Rightarrow> (Inl (Throw InvalidValue), m)
   | Some h \<Rightarrow> (Inr (), m\<lparr>handles := om_set handle (h\<lparr>vh_refs := vh_refs h + 1\<rparr>) (handles m)\<rparr>))"

definition retain_handle :: "u64 \<Rightarrow> mm \<Rightarrow> (unit, mm) outcome" where
  "retain_handle handle = exclusive (retain_locked handle)"

definition retain_handle_at_locked :: "u64 \<Rightarrow> mm \<Rightarrow> (u64, mm) outcome" where
  "retain_handle_at_locked va m =
     (case om_floor (vmaps m) va of
     None \<Rightarrow> (Inr 0, m)
   | Some (b, p) \<Rightarrow> if va - b \<ge> mp_size p then (Inr 0, m)
       else then_do (retain_locked (mp_handle p) m) (\<lambda>_ m'. (Inr (mp_handle p), m')))"

definition retain_handle_at :: "u64 \<Rightarrow> mm \<Rightarrow> (u64, mm) outcome" where
  "retain_handle_at va = exclusive (retain_handle_at_locked va)"

text \<open>The memory of a handle goes when its last reference and its last mapping are gone.\<close>

definition collect_handle :: "u64 \<Rightarrow> mm \<Rightarrow> mm" where
  "collect_handle handle m = (case om_find (handles m) handle of
     None \<Rightarrow> m
   | Some h \<Rightarrow> if vh_refs h \<noteq> 0 \<or> vh_mapped h \<noteq> 0 then m
       else notify_usage (destroy_handle h (m\<lparr>used := used m - vh_size h, handles := om_erase handle (handles m)\<rparr>)))"

definition release_locked :: "u64 \<Rightarrow> mm \<Rightarrow> (unit, mm) outcome" where
  "release_locked handle m =
     (case om_find (handles m) handle of
     None \<Rightarrow> (Inl (Throw InvalidValue), m)
   | Some h \<Rightarrow> if vh_refs h = 0 then (Inl (Throw InvalidValue), m)
       else (Inr (), collect_handle handle (m\<lparr>handles := om_set handle (h\<lparr>vh_refs := vh_refs h - 1\<rparr>) (handles m)\<rparr>)))"

definition release_handle :: "u64 \<Rightarrow> mm \<Rightarrow> (unit, mm) outcome" where
  "release_handle handle = exclusive (release_locked handle)"

section \<open>Mappings\<close>

definition inside_reservation :: "u64 \<Rightarrow> u64 \<Rightarrow> mm \<Rightarrow> bool" where
  "inside_reservation va sz m = (case om_floor (reserved m) va of
     None \<Rightarrow> False
   | Some (b, n) \<Rightarrow> va - b < n \<and> va + sz \<le> b + n)"

definition map_locked :: "u64 \<Rightarrow> u64 \<Rightarrow> u64 \<Rightarrow> u64 \<Rightarrow> mm \<Rightarrow> (unit, mm) outcome" where
  "map_locked va sz offset handle m =
     (if sz = 0 \<or> sz mod kVmmGranularity \<noteq> 0 \<or> va mod kVmmGranularity \<noteq> 0 then (Inl (Throw InvalidValue), m)
     else if offset \<noteq> 0 then (Inl (Throw InvalidValue), m)
     else case om_find (handles m) handle of
         None \<Rightarrow> (Inl (Throw InvalidValue), m)
       | Some h \<Rightarrow>
           if sz > vh_size h - offset then (Inl (Throw InvalidValue), m)
           else if \<not> inside_reservation va sz m then (Inl (Throw InvalidValue), m)
           else if range_mapped va sz m then (Inl (Throw InvalidValue), m)
           else (Inr (), m\<lparr>vmaps := om_emplace va \<lparr>mp_size = sz, mp_offset = offset, mp_handle = handle,
                                                   mp_readable = False, mp_writable = False\<rparr> (vmaps m),
                           handles := om_set handle (h\<lparr>vh_mapped := vh_mapped h + 1\<rparr>) (handles m)\<rparr>))"

definition map_mem :: "u64 \<Rightarrow> u64 \<Rightarrow> u64 \<Rightarrow> u64 \<Rightarrow> mm \<Rightarrow> (unit, mm) outcome" where
  "map_mem va sz offset handle = exclusive (map_locked va sz offset handle)"

text \<open>The first pass of \<^verbatim>\<open>unmap\<close>: the handles of the whole mappings the range consists of.\<close>

partial_function (option) unmap_scan ::
    "(u64, mapping) omap \<Rightarrow> u64 \<Rightarrow> u64 \<Rightarrow> u64 \<Rightarrow> u64 list \<Rightarrow> u64 list result option" where
  "unmap_scan maps va sz at hs =
     (if sz \<noteq> 0 \<and> at < va + sz
      then case om_find maps at of
          None \<Rightarrow> Some (Inl (Throw InvalidValue))
        | Some p \<Rightarrow>
            if at + mp_size p > va + sz then Some (Inl (Throw InvalidValue))
            else unmap_scan maps va sz (at + mp_size p) (hs @ [mp_handle p])
      else Some (Inr hs))"

partial_function (option) unmap_erase :: "u64 \<Rightarrow> u64 \<Rightarrow> (u64, mapping) omap \<Rightarrow> (u64, mapping) omap result option" where
  "unmap_erase end_va a maps =
     (if a < end_va
      then case om_find maps a of
          None \<Rightarrow> Some (Inl Stray)
        | Some p \<Rightarrow> unmap_erase end_va (a + mp_size p) (om_erase a maps)
      else Some (Inr maps))"

definition unmap_handle :: "u64 \<Rightarrow> mm \<Rightarrow> mm" where
  "unmap_handle handle m = collect_handle handle (case om_find (handles m) handle of
     Some h \<Rightarrow> if vh_mapped h \<noteq> 0 then m\<lparr>handles := om_set handle (h\<lparr>vh_mapped := vh_mapped h - 1\<rparr>) (handles m)\<rparr> else m
   | None \<Rightarrow> m)"

definition unmap_locked :: "u64 \<Rightarrow> u64 \<Rightarrow> mm \<Rightarrow> (unit, mm) outcome" where
  "unmap_locked va sz m =
     (case unmap_scan (vmaps m) va sz va [] of
     None \<Rightarrow> (Inl Hang, m)
   | Some (Inl e) \<Rightarrow> (Inl e, m)
   | Some (Inr hs) \<Rightarrow>
       if hs = [] then (Inl (Throw InvalidValue), m)
       else (case unmap_erase (va + sz) va (vmaps m) of
           None \<Rightarrow> (Inl Hang, m)
         | Some (Inl e) \<Rightarrow> (Inl e, m)
         | Some (Inr maps) \<Rightarrow> (Inr (), fold unmap_handle hs (m\<lparr>vmaps := maps\<rparr>))))"

definition unmap :: "u64 \<Rightarrow> u64 \<Rightarrow> mm \<Rightarrow> (unit, mm) outcome" where
  "unmap va sz = exclusive (unmap_locked va sz)"

text \<open>The loop of \<^verbatim>\<open>set_access\<close> changes each mapping as it comes to it.\<close>

partial_function (option) access_loop ::
    "u64 \<Rightarrow> bool \<Rightarrow> bool \<Rightarrow> u64 \<Rightarrow> (u64, mapping) omap \<Rightarrow> (unit result \<times> (u64, mapping) omap) option" where
  "access_loop end_va readable writable at maps =
     (if at < end_va
      then case om_find maps at of
          None \<Rightarrow> Some (Inl (Throw InvalidValue), maps)
        | Some p \<Rightarrow>
            if mp_size p > end_va - at then Some (Inl (Throw InvalidValue), maps)
            else access_loop end_va readable writable (at + mp_size p)
                   (om_set at (p\<lparr>mp_readable := readable, mp_writable := writable\<rparr>) maps)
      else Some (Inr (), maps))"

definition set_access_locked :: "u64 \<Rightarrow> u64 \<Rightarrow> bool \<Rightarrow> bool \<Rightarrow> mm \<Rightarrow> (unit, mm) outcome" where
  "set_access_locked va sz readable writable m =
     (if sz = 0 \<or> sz mod kVmmGranularity \<noteq> 0 \<or> va mod kVmmGranularity \<noteq> 0 then (Inl (Throw InvalidValue), m)
     else case access_loop (va + sz) readable writable va (vmaps m) of
         None \<Rightarrow> (Inl Hang, m)
       | Some (r, maps) \<Rightarrow> (r, m\<lparr>vmaps := maps\<rparr>))"

definition set_access :: "u64 \<Rightarrow> u64 \<Rightarrow> bool \<Rightarrow> bool \<Rightarrow> mm \<Rightarrow> (unit, mm) outcome" where
  "set_access va sz readable writable = exclusive (set_access_locked va sz readable writable)"

definition access_at :: "u64 \<Rightarrow> mm \<Rightarrow> (bool \<times> bool) option" where
  "access_at va m = (case om_floor (vmaps m) va of
     None \<Rightarrow> None
   | Some (b, p) \<Rightarrow> if va - b \<ge> mp_size p then None else Some (mp_readable p, mp_writable p))"

section \<open>Handles in files\<close>

text \<open>
  The move of a handle's memory into a file mapped at \<open>host\<close>: chunk by chunk, what is there goes into the
  file, and the chunk goes back to the backing.
\<close>

definition file_chunk :: "u64 \<Rightarrow> nat \<Rightarrow> (nat \<Rightarrow> u8) \<Rightarrow> chunk" where
  "file_chunk host i bytes = Real \<lparr>rc_ptr = host + of_nat (i * kChunkSize), rc_bytes = bytes\<rparr>"

fun move_out :: "u64 \<Rightarrow> u64 \<Rightarrow> nat list \<Rightarrow> allocation \<times> bstate \<Rightarrow> allocation \<times> bstate" where
  "move_out host sz [] st = st"
| "move_out host sz (i # is) (a, b) =
     (let old = slots a ! i; n = min kChunkSize (unat (sz - of_nat (i * kChunkSize)))
      in move_out host sz is
           (set_slot i (file_chunk host i (\<lambda>j. if j < n then chunk_byte old j else 0)) a,
            (case old of Real c \<Rightarrow> release c kChunkSize b | _ \<Rightarrow> b)))"

definition to_file :: "int \<Rightarrow> u64 \<Rightarrow> vhandle \<Rightarrow> bstate \<Rightarrow> vhandle \<times> bstate" where
  "to_file fd host h b = (case move_out host (vh_size h) [0 ..< chunk_count (vh_mem h)] (vh_mem h, b) of
     (a, b') \<Rightarrow> (h\<lparr>vh_mem := a\<lparr>external := True\<rparr>, vh_fd := fd\<rparr>, b'))"

text \<open>\<open>memfd\<close>, \<open>host\<close> and \<open>dup\<close> are what \<^verbatim>\<open>memfd_create\<close>, the mapping of the file and \<^verbatim>\<open>dup\<close> gave.\<close>

definition export_locked :: "u64 \<Rightarrow> int option \<Rightarrow> u64 option \<Rightarrow> int option \<Rightarrow> mm \<Rightarrow> (int, mm) outcome" where
  "export_locked handle memfd host dup m =
     (case om_find (handles m) handle of
     None \<Rightarrow> (Inl (Throw InvalidValue), m)
   | Some h \<Rightarrow>
       if vh_types h AND 1 = 0 then (Inl (Throw InvalidValue), m)
       else then_do
         (if vh_fd h \<ge> 0 then (Inr (), m)
          else (case (memfd, host) of
              (Some fd, Some p) \<Rightarrow> (case to_file fd p h (backing_st m) of
                  (h', b) \<Rightarrow> (Inr (), m\<lparr>handles := om_set handle h' (handles m), backing_st := b\<rparr>))
            | _ \<Rightarrow> (Inl (Throw Internal), m)))
         (\<lambda>_ m'. case dup of None \<Rightarrow> (Inl (Throw Internal), m') | Some out \<Rightarrow> (Inr out, m')))"

definition export_handle :: "u64 \<Rightarrow> int option \<Rightarrow> u64 option \<Rightarrow> int option \<Rightarrow> mm \<Rightarrow> (int, mm) outcome" where
  "export_handle handle memfd host dup = exclusive (export_locked handle memfd host dup)"

text \<open>\<open>stat\<close> is the size of the file behind the descriptor (none: it is no file), \<open>host\<close> where it was mapped,
  \<open>keep\<close> the duplicate descriptor and \<open>bytes\<close> what the file holds.\<close>

definition import_locked :: "u64 \<Rightarrow> u64 option \<Rightarrow> int \<Rightarrow> (nat \<Rightarrow> u8) \<Rightarrow> mm \<Rightarrow> (u64, mm) outcome" where
  "import_locked sz host keep bytes m =
     (if sz mod kVmmGranularity \<noteq> 0 then (Inl (Throw NotFound), m)
      else if over_capacity sz m then (Inl (Throw OutOfMemory), m)
      else case host of
          None \<Rightarrow> (Inl (Throw NotFound), m)
        | Some p \<Rightarrow> add_handle \<lparr>vh_size = sz, vh_refs = 1, vh_mapped = 0, vh_types = 1, vh_compressible = False,
            vh_fd = keep, vh_mem = \<lparr>al_size = sz, chunk_count = chunks_for sz,
              slots = map (\<lambda>i. file_chunk p i (\<lambda>j. bytes (i * kChunkSize + j))) [0 ..< chunks_for sz],
              external = True, card_valid = 0\<rparr>\<rparr> m)"

definition import_handle :: "int \<Rightarrow> int option \<Rightarrow> u64 option \<Rightarrow> int \<Rightarrow> (nat \<Rightarrow> u8) \<Rightarrow> mm \<Rightarrow> (u64, mm) outcome" where
  "import_handle fd stat host keep bytes m =
     (if fd < 0 \<or> stat = None \<or> the stat \<le> 0 then (Inl (Throw NotFound), m)
      else exclusive (import_locked (word_of_int (the stat)) host keep bytes) m)"

end
