(* ===== verification/Sharing.thy ===== *)
theory Sharing
  imports Vmm
begin

text \<open>
  Memory another process can map (\<^verbatim>\<open>share\<close>, \<^verbatim>\<open>adopt\<close>, \<^verbatim>\<open>abandon\<close>,
  \<^verbatim>\<open>unlink_shared\<close> and \<^verbatim>\<open>is_shared\<close> of \<^verbatim>\<open>src/core/memory.cpp\<close>): an exported
  allocation moves into a file mapped at a host address and stays at its device address as a host
  mapping. Whether the file could be made and where it was mapped are arguments.
\<close>

text \<open>Host memory as a byte array, and a copy into it.\<close>

definition host_put :: "u64 \<Rightarrow> u8 list \<Rightarrow> (u64 \<Rightarrow> u8) \<Rightarrow> (u64 \<Rightarrow> u8)" where
  "host_put p bs mem = (\<lambda>q. if unat (q - p) < length bs then bs ! unat (q - p) else mem q)"

definition host_get :: "u64 \<Rightarrow> nat \<Rightarrow> (u64 \<Rightarrow> u8) \<Rightarrow> u8 list" where
  "host_get p n mem = map (\<lambda>i. mem (p + of_nat i)) [0 ..< n]"

text \<open>The copy of an allocation into the mapped file, which reads as zeros: chunks that do are skipped.\<close>

fun share_copy :: "allocation \<Rightarrow> u64 \<Rightarrow> nat list \<Rightarrow> (u64 \<Rightarrow> u8) \<Rightarrow> (u64 \<Rightarrow> u8) result" where
  "share_copy a host [] mem = Inr mem"
| "share_copy a host (i # is) mem =
     (case slot_at a i of
        Inl e \<Rightarrow> Inl e
      | Inr chunk \<Rightarrow>
          if chunk = Untouched \<or> chunk = Uniform 0 then share_copy a host is mem
          else (case read_chunks a (i * kChunkSize) (min kChunkSize (unat (al_size a) - i * kChunkSize)) of
              Inl e \<Rightarrow> Inl e
            | Inr bs \<Rightarrow> share_copy a host is (host_put (host + of_nat (i * kChunkSize)) bs mem)))"

definition share_locked :: "u64 \<Rightarrow> string \<Rightarrow> bool \<Rightarrow> u64 option \<Rightarrow> mm \<Rightarrow> (u64, mm) outcome" where
  "share_locked ptr path created host m =
     (case om_find (shared m) ptr of
       Some r \<Rightarrow> (Inr (sr_size r), m)
     | None \<Rightarrow> (case om_find (live m) ptr of
         None \<Rightarrow> (Inl (Throw InvalidPointer), m)
       | Some a \<Rightarrow>
           if \<not> created then (Inl (Throw Internal), m)
           else (case host of
               None \<Rightarrow> (Inl (Throw Internal), m)
             | Some p \<Rightarrow>
                 (case share_copy a p [0 ..< (unat (al_size a) + kChunkSize - 1) div kChunkSize]
                     (host_put p (replicate (unat (al_size a)) 0) (hmem m)) of
                    Inl e \<Rightarrow> (Inl e, m)
                  | Inr mem \<Rightarrow>
                      (Inr (al_size a), m\<lparr>hmem := mem, live := om_erase ptr (live m),
                         backing_st := snd (release_alloc release a (backing_st m)),
                         hosts := map_host ptr p (al_size a) False (hosts m),
                         shared := om_set ptr \<lparr>sr_va = ptr, sr_size = al_size a, sr_host = p, sr_path = path,
                                               sr_owner = True\<rparr> (shared m)\<rparr>)))))"

definition share :: "u64 \<Rightarrow> string \<Rightarrow> bool \<Rightarrow> u64 option \<Rightarrow> mm \<Rightarrow> (u64, mm) outcome" where
  "share ptr path created host = exclusive (share_locked ptr path created host)"

definition is_shared :: "u64 \<Rightarrow> mm \<Rightarrow> bool" where
  "is_shared ptr m \<longleftrightarrow> om_find (shared m) ptr \<noteq> None"

definition adopt_locked :: "string \<Rightarrow> u64 \<Rightarrow> bool \<Rightarrow> u64 option \<Rightarrow> mm \<Rightarrow> (u64, mm) outcome" where
  "adopt_locked path sz opened host m =
     (if \<not> opened then (Inl (Throw InvalidValue), m)
     else (case host of
         None \<Rightarrow> (Inl (Throw Internal), m)
       | Some p \<Rightarrow>
           (let va = next_va m; top = va + (sz + kAllocAlign - 1) div kAllocAlign * kAllocAlign
            in (Inr va, m\<lparr>next_va := top, high_water := top, hosts := map_host va p sz False (hosts m),
                  shared := om_set va \<lparr>sr_va = va, sr_size = sz, sr_host = p, sr_path = path, sr_owner = False\<rparr> (shared m)\<rparr>))))"

definition adopt :: "string \<Rightarrow> u64 \<Rightarrow> bool \<Rightarrow> u64 option \<Rightarrow> mm \<Rightarrow> (u64, mm) outcome" where
  "adopt path sz opened host = exclusive (adopt_locked path sz opened host)"

definition unlink_shared_locked :: "u64 \<Rightarrow> mm \<Rightarrow> (bool, mm) outcome" where
  "unlink_shared_locked ptr m =
     (case om_find (shared m) ptr of
     None \<Rightarrow> (Inr False, m) | Some r \<Rightarrow> (Inr (sr_owner r), m))"

definition unlink_shared :: "u64 \<Rightarrow> mm \<Rightarrow> (bool, mm) outcome" where
  "unlink_shared ptr = exclusive (unlink_shared_locked ptr)"

definition abandon_locked :: "u64 \<Rightarrow> mm \<Rightarrow> (unit, mm) outcome" where
  "abandon_locked va m =
     (case om_find (shared m) va of
     None \<Rightarrow> (Inl (Throw InvalidPointer), m)
   | Some r \<Rightarrow> if sr_owner r then (Inl (Throw InvalidPointer), m) else (Inr (), drop_shared va r m))"

definition abandon :: "u64 \<Rightarrow> mm \<Rightarrow> (unit, mm) outcome" where
  "abandon va = exclusive (abandon_locked va)"

end
