(* ===== verification/Manager_Inv.thy ===== *)
theory Manager_Inv
  imports Sharing
begin

text \<open>
  The invariant of the memory manager. Its ghost is the list of every address range the device ever
  handed out, newest first: each lies above all older ones, so ranges never overlap and are never
  handed out again, and the tables of allocations, reservations and shared regions hold only ranges of
  the list, each in at most one table.
\<close>

section \<open>The invariant\<close>

type_synonym zones = "(u64 \<times> nat) list"

definition power_of_two :: "u64 \<Rightarrow> bool" where
  "power_of_two v \<longleftrightarrow> (\<exists>k. unat v = 2 ^ k)"

definition settings_ok :: "mm \<Rightarrow> bool" where
  "settings_ok m \<longleftrightarrow> power_of_two (alloc_align m) \<and> (page m = 0 \<or> power_of_two (page m) \<and> unat (page m) \<le> kChunkSize)"

definition base_align :: "mm \<Rightarrow> nat" where
  "base_align m = max (unat (alloc_align m)) (unat (page m))"

definition handed_ok :: "zones \<Rightarrow> mm \<Rightarrow> bool" where
  "handed_ok Z m \<longleftrightarrow> sorted_wrt (\<lambda>x y. unat (fst y) + snd y \<le> unat (fst x)) Z \<and>
     (\<forall>z \<in> set Z. unat (va_base m) \<le> unat (fst z) \<and> 0 < snd z \<and> unat (fst z) + snd z \<le> unat (next_va m)) \<and>
     unat (va_base m) \<le> unat (next_va m) \<and> kChunkSize \<le> unat (va_base m) \<and> high_water m = next_va m"

definition live_ok :: "zones \<Rightarrow> mm \<Rightarrow> bool" where
  "live_ok Z m \<longleftrightarrow> om_inv (live m) \<and> (\<forall>b a. om_find (live m) b = Some a \<longrightarrow>
     alloc_inv a \<and> \<not> external a \<and> card_valid a = 0 \<and> 0 < unat (al_size a) \<and>
     (\<exists>n. (b, n) \<in> set Z \<and> round_up_nat (unat (al_size a)) (base_align m) \<le> n))"

definition reserved_ok :: "zones \<Rightarrow> mm \<Rightarrow> bool" where
  "reserved_ok Z m \<longleftrightarrow> om_inv (reserved m) \<and> (\<forall>b n. om_find (reserved m) b = Some n \<longrightarrow> (b, unat n) \<in> set Z)"

definition shared_ok :: "zones \<Rightarrow> mm \<Rightarrow> bool" where
  "shared_ok Z m \<longleftrightarrow> om_inv (shared m) \<and> (\<forall>b r. om_find (shared m) b = Some r \<longrightarrow>
     sr_va r = b \<and> 0 < unat (sr_size r) \<and> (\<exists>n. (b, n) \<in> set Z \<and> unat (sr_size r) \<le> n))"

definition apart_ok :: "mm \<Rightarrow> bool" where
  "apart_ok m \<longleftrightarrow> om_keys (live m) \<inter> om_keys (reserved m) = {} \<and> om_keys (live m) \<inter> om_keys (shared m) = {} \<and>
     om_keys (reserved m) \<inter> om_keys (shared m) = {}"

text \<open>A mapping lies in one reservation and in its handle; a handle counts the mappings that name it.\<close>

definition mapped_to :: "u64 \<Rightarrow> (u64, mapping) omap \<Rightarrow> nat" where
  "mapped_to hid maps = sum_list (map (\<lambda>e. if mp_handle (snd e) = hid then 1 else 0) maps)"

definition maps_ok :: "mm \<Rightarrow> bool" where
  "maps_ok m \<longleftrightarrow> ranges_ok mp_size (vmaps m) \<and> length (vmaps m) < 2 ^ 32 \<and>
     (\<forall>va p. om_find (vmaps m) va = Some p \<longrightarrow> 0 < unat (mp_size p) \<and> mp_offset p = 0 \<and>
       (\<exists>b n. om_find (reserved m) b = Some n \<and> unat b \<le> unat va \<and> unat va + unat (mp_size p) \<le> unat b + unat n) \<and>
       (\<exists>h. om_find (handles m) (mp_handle p) = Some h \<and> unat (mp_size p) \<le> unat (vh_size h)))"

definition handles_ok :: "mm \<Rightarrow> bool" where
  "handles_ok m \<longleftrightarrow> om_inv (handles m) \<and> (\<forall>hid h. om_find (handles m) hid = Some h \<longrightarrow>
     unat hid < unat (next_handle m) \<and> alloc_inv (vh_mem h) \<and> al_size (vh_mem h) = vh_size h \<and> 0 < unat (vh_size h) \<and>
     card_valid (vh_mem h) = 0 \<and> unat (vh_mapped h) = mapped_to hid (vmaps m))"

definition bytes_used :: "mm \<Rightarrow> nat" where
  "bytes_used m = sum_list (map (\<lambda>e. unat (al_size (snd e))) (live m)) +
     sum_list (map (\<lambda>e. unat (vh_size (snd e))) (handles m)) +
     sum_list (map (\<lambda>e. if sr_owner (snd e) then unat (sr_size (snd e)) else 0) (shared m))"

definition used_ok :: "mm \<Rightarrow> bool" where
  "used_ok m \<longleftrightarrow> unat (used m) = bytes_used m \<and> unat (used m) \<le> unat (capacity m)"

definition spare_ok :: "mm \<Rightarrow> bool" where
  "spare_ok m \<longleftrightarrow> (\<forall>a. spare_live m = Some a \<longrightarrow> \<not> external a \<and> (\<forall>i < length (slots a). slots a ! i = Untouched))"

definition quar_ok :: "mm \<Rightarrow> bool" where
  "quar_ok m \<longleftrightarrow> (\<exists>hist. quarantine_rep (quar m) hist)"

definition mm_inv :: "zones \<Rightarrow> mm \<Rightarrow> bool" where
  "mm_inv Z m \<longleftrightarrow> backing_ok (backing_st m) \<and> settings_ok m \<and> handed_ok Z m \<and> live_ok Z m \<and> reserved_ok Z m \<and>
     shared_ok Z m \<and> apart_ok m \<and> maps_ok m \<and> handles_ok m \<and> used_ok m \<and> spare_ok m \<and> quar_ok m \<and> hosts_ok (hosts m)"

lemmas mm_part_defs = settings_ok_def base_align_def handed_ok_def live_ok_def reserved_ok_def shared_ok_def apart_ok_def
  maps_ok_def handles_ok_def bytes_used_def used_ok_def spare_ok_def quar_ok_def

lemma mm_invD:
  assumes "mm_inv Z m"
  shows "backing_ok (backing_st m)" "settings_ok m" "handed_ok Z m" "live_ok Z m" "reserved_ok Z m" "shared_ok Z m"
    "apart_ok m" "maps_ok m" "handles_ok m" "used_ok m" "spare_ok m" "quar_ok m" "hosts_ok (hosts m)"
  using assms by (simp_all add: mm_inv_def)

text \<open>Each part looks at a few fields only.\<close>

lemma part_cong:
  "alloc_align m' = alloc_align m \<Longrightarrow> page m' = page m \<Longrightarrow> settings_ok m' = settings_ok m"
  "va_base m' = va_base m \<Longrightarrow> next_va m' = next_va m \<Longrightarrow> high_water m' = high_water m \<Longrightarrow> handed_ok Z m' = handed_ok Z m"
  "live m' = live m \<Longrightarrow> alloc_align m' = alloc_align m \<Longrightarrow> page m' = page m \<Longrightarrow> live_ok Z m' = live_ok Z m"
  "reserved m' = reserved m \<Longrightarrow> reserved_ok Z m' = reserved_ok Z m"
  "shared m' = shared m \<Longrightarrow> shared_ok Z m' = shared_ok Z m"
  "live m' = live m \<Longrightarrow> reserved m' = reserved m \<Longrightarrow> shared m' = shared m \<Longrightarrow> apart_ok m' = apart_ok m"
  "vmaps m' = vmaps m \<Longrightarrow> reserved m' = reserved m \<Longrightarrow> handles m' = handles m \<Longrightarrow> maps_ok m' = maps_ok m"
  "vmaps m' = vmaps m \<Longrightarrow> handles m' = handles m \<Longrightarrow> next_handle m' = next_handle m \<Longrightarrow> handles_ok m' = handles_ok m"
  "live m' = live m \<Longrightarrow> handles m' = handles m \<Longrightarrow> shared m' = shared m \<Longrightarrow> used m' = used m \<Longrightarrow>
    capacity m' = capacity m \<Longrightarrow> used_ok m' = used_ok m"
  "spare_live m' = spare_live m \<Longrightarrow> spare_ok m' = spare_ok m"
  "quar m' = quar m \<Longrightarrow> quar_ok m' = quar_ok m"
  by (simp_all add: mm_part_defs)

text \<open>Fields the invariant does not look at.\<close>

lemma mm_inv_frame [simp]:
  "mm_inv Z (m\<lparr>usage_log := l\<rparr>) = mm_inv Z m" "mm_inv Z (m\<lparr>table_epochs := e\<rparr>) = mm_inv Z m"
  "mm_inv Z (m\<lparr>dev_heap := h\<rparr>) = mm_inv Z m" "mm_inv Z (m\<lparr>hmem := f\<rparr>) = mm_inv Z m"
  by (simp_all add: mm_inv_def mm_part_defs)

lemma mm_inv_notify [simp]: "mm_inv Z (notify_usage m) = mm_inv Z m"
  by (simp add: notify_usage_def)

lemma mm_inv_void [simp]: "mm_inv Z (void_lookups m) = mm_inv Z m"
  by (simp add: void_lookups_def)


section \<open>Ranges that were handed out\<close>

lemma handed_apart:
  assumes "handed_ok Z m" "(b, n) \<in> set Z" "(c, k) \<in> set Z" "b \<noteq> c"
  shows "unat b + n \<le> unat c \<or> unat c + k \<le> unat b"
proof -
  have "sorted_wrt (\<lambda>x y. unat (fst y) + snd y \<le> unat (fst x)) Z" using assms(1) by (simp add: handed_ok_def)
  then show ?thesis using assms(2-4)
  proof (induction Z)
    case (Cons z Z)
    then show ?case by (cases "z = (b, n)"; cases "z = (c, k)") (force)+
  qed simp
qed

lemma handed_unique: "handed_ok Z m \<Longrightarrow> (b, n) \<in> set Z \<Longrightarrow> (b, k) \<in> set Z \<Longrightarrow> n = k"
proof -
  assume a: "handed_ok Z m" "(b, n) \<in> set Z" "(b, k) \<in> set Z"
  have "sorted_wrt (\<lambda>x y. unat (fst y) + snd y \<le> unat (fst x)) Z" "\<forall>z \<in> set Z. 0 < snd z"
    using a(1) by (auto simp: handed_ok_def)
  then show ?thesis using a(2,3)
  proof (induction Z)
    case (Cons z Z)
    then show ?case by (cases "z = (b, n)"; cases "z = (b, k)") force+
  qed simp
qed

lemma handed_below: "handed_ok Z m \<Longrightarrow> (b, n) \<in> set Z \<Longrightarrow> unat b + n \<le> unat (next_va m) \<and> unat (va_base m) \<le> unat b \<and> 0 < n"
  by (auto simp: handed_ok_def)

section \<open>Alignment\<close>

lemma power_of_two_dvd: "power_of_two u \<Longrightarrow> power_of_two v \<Longrightarrow> unat u \<le> unat v \<Longrightarrow> unat u dvd unat v"
  by (auto simp: power_of_two_def power_increasing_iff le_imp_power_dvd)

lemma round_up_nat_least: "0 < k \<Longrightarrow> k dvd n \<Longrightarrow> v \<le> n \<Longrightarrow> round_up_nat v k \<le> n"
proof -
  assume k: "0 < k" "k dvd n" "v \<le> n"
  then obtain q where q: "n = k * q" by (auto elim: dvdE)
  have "v + k - 1 < k * Suc q" using k q by simp
  then have "(v + k - 1) div k < Suc q" using k(1) by (simp add: div_less_iff_less_mult mult.commute)
  then have "(v + k - 1) div k * k \<le> q * k" by simp
  then show ?thesis by (simp add: round_up_nat_def q mult.commute)
qed

definition request_ok :: "u64 \<Rightarrow> bool" where
  "request_ok request \<longleftrightarrow> request = 0 \<or> power_of_two request"

lemma unat_max: "unat (max a b :: u64) = max (unat a) (unat b)"
  by (simp add: max_def u64_simps)

lemma base_align_pos: "settings_ok m \<Longrightarrow> 0 < base_align m"
  by (auto simp: settings_ok_def base_align_def power_of_two_def less_max_iff_disj)

lemma base_align_dvd:
  assumes "settings_ok m" "request_ok request"
  shows "base_align m dvd unat (alloc_alignment request m)" "0 < unat (alloc_alignment request m)"
proof -
  have pw: "power_of_two (max a b)" if "power_of_two a" "b = 0 \<or> power_of_two b" for a b :: u64
    using that by (auto simp: max_def)
  have two: "power_of_two (max (alloc_align m) (page m))" using assms(1) by (auto simp: settings_ok_def intro: pw)
  moreover have "power_of_two (alloc_alignment request m)"
    unfolding alloc_alignment_def using two assms(2) by (auto simp: request_ok_def intro: pw)
  moreover have "unat (max (alloc_align m) (page m)) = base_align m" by (simp add: base_align_def unat_max)
  ultimately show "base_align m dvd unat (alloc_alignment request m)"
    using power_of_two_dvd [of "max (alloc_align m) (page m)" "alloc_alignment request m"]
    by (simp add: alloc_alignment_def unat_max)
  show "0 < unat (alloc_alignment request m)"
    using \<open>power_of_two (alloc_alignment request m)\<close> by (auto simp: power_of_two_def)
qed

text \<open>There is room above the addresses handed out: nothing wraps round the end of the address space.\<close>

definition room :: "u64 \<Rightarrow> u64 \<Rightarrow> mm \<Rightarrow> bool" where
  "room sz align m \<longleftrightarrow> unat (next_va m) + unat sz + 2 * unat align < 2 ^ 64"

lemma room_sums:
  assumes "room sz align m" "0 < unat align"
  shows "unat ((next_va m + align - 1) div align * align) = round_up_nat (unat (next_va m)) (unat align)"
    "unat ((sz + align - 1) div align * align) = round_up_nat (unat sz) (unat align)"
    "unat ((next_va m + align - 1) div align * align + (sz + align - 1) div align * align) =
       round_up_nat (unat (next_va m)) (unat align) + round_up_nat (unat sz) (unat align)"
proof -
  have r: "unat (next_va m) + unat sz + 2 * unat align < 2 ^ 64" using assms(1) by (simp add: room_def)
  show 1: "unat ((next_va m + align - 1) div align * align) = round_up_nat (unat (next_va m)) (unat align)"
    using r assms(2) by (intro round_up64) auto
  show 2: "unat ((sz + align - 1) div align * align) = round_up_nat (unat sz) (unat align)"
    using r assms(2) by (intro round_up64) auto
  have "round_up_nat (unat (next_va m)) (unat align) + round_up_nat (unat sz) (unat align) < 2 ^ 64"
    using r round_up_nat_less [OF assms(2), of "unat (next_va m)"] round_up_nat_less [OF assms(2), of "unat sz"] by linarith
  then show "unat ((next_va m + align - 1) div align * align + (sz + align - 1) div align * align) =
       round_up_nat (unat (next_va m)) (unat align) + round_up_nat (unat sz) (unat align)"
    using 1 2 by (simp add: unat_add64)
qed

section \<open>Allocation\<close>

lemma over_capacity_iff: "over_capacity sz m \<longleftrightarrow> unat (capacity m) < unat (used m) + unat sz \<or> 2 ^ 64 \<le> unat (used m) + unat sz"
proof (cases "unat (used m) + unat sz < 2 ^ 64")
  case True
  then show ?thesis using wrap_test64 [of "used m" sz] by (simp add: over_capacity_def u64_simps unat_add64)
next
  case False
  then show ?thesis using wrap_test64 [of "used m" sz] by (simp add: over_capacity_def)
qed

lemma new_zone:
  assumes "handed_ok Z m" "unat (next_va m) \<le> unat b" "0 < n" "unat b + n \<le> unat v"
    "next_va m' = v" "high_water m' = v" "va_base m' = va_base m"
  shows "handed_ok ((b, n) # Z) m'"
  using assms by (force simp: handed_ok_def)

lemma fresh_key:
  assumes "handed_ok Z m" "unat (next_va m) \<le> unat b"
  shows "(b, n) \<notin> set Z"
  using assms handed_below [OF assms(1), of b n] by auto

lemma fresh_keys:
  assumes "mm_inv Z m" "unat (next_va m) \<le> unat b"
  shows "om_find (live m) b = None" "om_find (reserved m) b = None" "om_find (shared m) b = None"
proof -
  note inv = mm_invD [OF assms(1)]
  have no: "(b, n) \<notin> set Z" for n by (rule fresh_key [OF inv(3) assms(2)])
  show "om_find (live m) b = None" using inv(4) no by (cases "om_find (live m) b") (auto simp: live_ok_def)
  show "om_find (reserved m) b = None" using inv(5) no by (cases "om_find (reserved m) b") (auto simp: reserved_ok_def)
  show "om_find (shared m) b = None" using inv(6) no by (cases "om_find (shared m) b") (auto simp: shared_ok_def)
qed

lemma live_ok_more: "live_ok Z m \<Longrightarrow> live_ok (z # Z) m"
  by (auto simp: live_ok_def)

lemma reserved_ok_more: "reserved_ok Z m \<Longrightarrow> reserved_ok (z # Z) m"
  by (auto simp: reserved_ok_def)

lemma shared_ok_more: "shared_ok Z m \<Longrightarrow> shared_ok (z # Z) m"
  by (auto simp: shared_ok_def)

lemma set_up_spare:
  assumes "spare_ok m" "unat sz + kChunkSize \<le> 2 ^ 64"
  defines "a \<equiv> set_up sz (case spare_live m of None \<Rightarrow> empty_allocation | Some a \<Rightarrow> a)"
  shows "alloc_inv a" "al_size a = sz" "\<And>i. i < unat sz \<Longrightarrow> alloc_byte a i = 0" "\<not> external a" "card_valid a = 0"
proof -
  let ?n = "case spare_live m of None \<Rightarrow> empty_allocation | Some a \<Rightarrow> a"
  have clean: "\<forall>i < length (slots ?n). slots ?n ! i = Untouched" "\<not> external ?n"
    using assms(1) by (auto simp: spare_ok_def empty_allocation_def split: option.splits)
  note s = set_up_inv [OF clean(1) assms(2)]
  show "alloc_inv a" "al_size a = sz" "\<And>i. i < unat sz \<Longrightarrow> alloc_byte a i = 0" "\<not> external a" "card_valid a = 0"
    using s clean(2) by (simp_all add: a_def)
qed

definition alloc_result :: "u64 \<Rightarrow> u64 \<Rightarrow> mm \<Rightarrow> u64 \<Rightarrow> mm \<Rightarrow> bool" where
  "alloc_result sz request m base m' \<longleftrightarrow>
     (let align = unat (alloc_alignment request m); n = round_up_nat (unat sz) align in
      unat base = round_up_nat (unat (next_va m)) align \<and> unat (next_va m') = unat base + n \<and> high_water m' = next_va m' \<and>
      unat sz \<le> n \<and> 0 < unat sz \<and> unat (used m') = unat (used m) + unat sz \<and> unat (used m') \<le> unat (capacity m) \<and>
      (\<exists>a. live m' = om_set base a (live m) \<and> alloc_inv a \<and> al_size a = sz \<and> \<not> external a \<and> card_valid a = 0 \<and>
           (\<forall>i < unat sz. alloc_byte a i = 0)) \<and>
      m' = m\<lparr>next_va := next_va m', high_water := high_water m', used := used m', live := live m', spare_live := None,
             usage_log := used m' # usage_log m\<rparr>)"

lemma alloc_Inr:
  assumes inv: "mm_inv Z m" and room: "room sz (alloc_alignment request m) m" "request_ok request"
    and al: "alloc sz request m = (Inr base, m')"
  shows "alloc_result sz request m base m'"
proof -
  note parts = mm_invD [OF inv]
  let ?align = "alloc_alignment request m"
  note pos = base_align_dvd(2) [OF parts(2) room(2)]
  note sums = room_sums [OF room(1) pos]
  have sz: "sz \<noteq> 0" "\<not> over_capacity sz m" using al by (auto simp: alloc_def split: if_splits)
  define a where "a = set_up sz (case spare_live m of None \<Rightarrow> empty_allocation | Some a \<Rightarrow> a)"
  have b: "base = (next_va m + ?align - 1) div ?align * ?align"
    using al sz by (simp add: alloc_def Let_def)
  have m': "m' = notify_usage (m\<lparr>next_va := base + (sz + ?align - 1) div ?align * ?align,
      high_water := base + (sz + ?align - 1) div ?align * ?align, used := used m + sz,
      spare_live := None, live := om_emplace base a (live m)\<rparr>)"
    using al sz by (simp add: alloc_def Let_def b a_def)
  have "unat (next_va m) \<le> unat base" using sums(1) pos by (simp add: b round_up_nat_ge)
  then have new: "om_find (live m) base = None" by (rule fresh_keys(1) [OF inv])
  have "unat sz + kChunkSize \<le> 2 ^ 64"
    using room(1) parts(3) by (auto simp: room_def handed_ok_def)
  note a = set_up_spare [OF parts(11) this, folded a_def]
  have "unat (used m + sz) = unat (used m) + unat sz" "unat (used m) + unat sz \<le> unat (capacity m)"
    using sz(2) by (auto simp: over_capacity_iff unat_add64)
  moreover have "om_emplace base a (live m) = om_set base a (live m)" using new by (simp add: om_emplace_def)
  moreover have "unat sz \<le> round_up_nat (unat sz) (unat ?align)" using pos by (rule round_up_nat_ge)
  moreover have "0 < unat sz" using sz(1) by (simp add: unat_gt_0)
  ultimately show ?thesis
    unfolding alloc_result_def Let_def using sums a
    by (simp add: m' b [symmetric] notify_usage_def) (auto simp: b)
qed

lemma alloc_mm_inv:
  assumes inv: "mm_inv Z m" and res: "alloc_result sz request m base m'" "settings_ok m" "request_ok request"
  shows "mm_inv ((base, round_up_nat (unat sz) (unat (alloc_alignment request m))) # Z) m'"
proof -
  note parts = mm_invD [OF inv]
  let ?n = "round_up_nat (unat sz) (unat (alloc_alignment request m))"
  note al = base_align_dvd [OF res(2,3)]
  obtain a where r: "unat base = round_up_nat (unat (next_va m)) (unat (alloc_alignment request m))"
    "unat (next_va m') = unat base + ?n" "high_water m' = next_va m'" "unat sz \<le> ?n" "0 < unat sz"
    "unat (used m') = unat (used m) + unat sz" "unat (used m') \<le> unat (capacity m)"
    and a: "live m' = om_set base a (live m)" "alloc_inv a" "al_size a = sz" "\<not> external a" "card_valid a = 0"
    and m': "m' = m\<lparr>next_va := next_va m', high_water := high_water m', used := used m', live := live m',
      spare_live := None, usage_log := used m' # usage_log m\<rparr>"
    using res(1) unfolding alloc_result_def Let_def by auto
  have same: "backing_st m' = backing_st m" "capacity m' = capacity m" "va_base m' = va_base m" "page m' = page m"
    "alloc_align m' = alloc_align m" "reserved m' = reserved m" "vmaps m' = vmaps m" "handles m' = handles m"
    "next_handle m' = next_handle m" "shared m' = shared m" "quar m' = quar m" "hosts m' = hosts m" "spare_live m' = None"
    by (subst m', simp)+
  have above: "unat (next_va m) \<le> unat base" using r(1) al(2) by (simp add: round_up_nat_ge)
  note new = fresh_keys [OF inv above]
  have "base_align m dvd ?n" using al(1) round_up_nat_dvd by (rule dvd_trans)
  then have pad: "round_up_nat (unat sz) (base_align m) \<le> ?n"
    using round_up_nat_least [OF base_align_pos [OF res(2)]] r(4) by blast
  have ba: "base_align m' = base_align m" by (simp add: base_align_def same)
  have "handed_ok ((base, ?n) # Z) m'"
    by (rule new_zone [OF parts(3) above]) (use r same in auto)
  moreover have "live_ok ((base, ?n) # Z) m'"
    using parts(4) a pad r(5) unfolding live_ok_def ba by (auto simp: om_inv_set)
  moreover have "apart_ok m'" using parts(7) new a(1) by (auto simp: apart_ok_def same)
  moreover have "used_ok m'"
    using parts(10) r(6,7) a(1,3) new(1) by (simp add: used_ok_def bytes_used_def same sum_om_set_new)
  moreover have "settings_ok m'" "maps_ok m'" "handles_ok m'" "quar_ok m'"
    using parts(2,8,9,12) part_cong(1,7,8,11) [of m' m] same by simp_all
  moreover have "reserved_ok ((base, ?n) # Z) m'" "shared_ok ((base, ?n) # Z) m'"
    using reserved_ok_more [OF parts(5)] shared_ok_more [OF parts(6)] part_cong(4,5) [of m' m] same by simp_all
  moreover have "spare_ok m'" by (simp add: spare_ok_def same)
  ultimately show ?thesis using parts(1,13) by (simp add: mm_inv_def same)
qed

section \<open>Freeing\<close>

lemma note_freed_ok:
  assumes "quar_ok m"
  shows "\<exists>q. note_freed ptr sz m =
      (Inr (), m\<lparr>used := used m - sz, quar := q, table_epochs := note_free ptr (table_epochs m)\<rparr>) \<and>
    (\<exists>hist. quarantine_rep q ((ptr, sz) # hist) \<and> quarantine_rep (quar m) hist)"
proof -
  obtain hist where h: "quarantine_rep (quar m) hist" using assms by (auto simp: quar_ok_def)
  from quar.rep_remember [OF h] obtain q where q: "remember_freed ptr sz (quar m) = Inr q" "quarantine_rep q ((ptr, sz) # hist)"
    by blast
  then show ?thesis using h by (intro exI [of _ q]) (auto simp only: note_freed_def sum.case)
qed

lemma free_cases:
  assumes "quar_ok m" "free ptr m = (r, m')"
  obtains (bad) "r = Inl (Throw (bad_free ptr m))" "m' = m" "om_find (live m) ptr = None"
    | (shared) x q where "r = Inr ()" "om_find (shared m) ptr = Some x" "sr_owner x"
        "m' = notify_usage (drop_shared ptr x (m\<lparr>used := used m - sr_size x, quar := q, table_epochs := note_free ptr (table_epochs m)\<rparr>))"
        "\<exists>hist. quarantine_rep q hist"
    | (live) a q where "r = Inr ()" "om_find (live m) ptr = Some a"
        "m' = free_live ptr a (m\<lparr>used := used m - al_size a, quar := q, table_epochs := note_free ptr (table_epochs m)\<rparr>)"
        "\<exists>hist. quarantine_rep q hist"
proof -
  have ord: thesis if f: "free_ordinary ptr m = (r, m')"
  proof (cases "om_find (live m) ptr")
    case None
    with f have "r = Inl (Throw (bad_free ptr m))" "m' = m" by (auto simp: free_ordinary_def)
    then show ?thesis using None by (rule bad)
  next
    case (Some a)
    obtain q hist where q: "note_freed ptr (al_size a) m =
        (Inr (), m\<lparr>used := used m - al_size a, quar := q, table_epochs := note_free ptr (table_epochs m)\<rparr>)"
      "quarantine_rep q ((ptr, al_size a) # hist)"
      using note_freed_ok [OF assms(1)] by blast
    show ?thesis
    proof (rule live [of a q])
      show "om_find (live m) ptr = Some a" by (rule Some)
      show "\<exists>hist. quarantine_rep q hist" using q(2) by blast
    qed (use f in \<open>simp_all add: free_ordinary_def Some q(1)\<close>)
  qed
  show thesis
  proof (cases "om_find (shared m) ptr")
    case None
    then show ?thesis by (intro ord) (use assms(2) in \<open>simp add: free_def\<close>)
  next
    case (Some x)
    show ?thesis
    proof (cases "sr_owner x")
      case True
      obtain q hist where q: "note_freed ptr (sr_size x) m =
          (Inr (), m\<lparr>used := used m - sr_size x, quar := q, table_epochs := note_free ptr (table_epochs m)\<rparr>)"
        "quarantine_rep q ((ptr, sr_size x) # hist)"
        using note_freed_ok [OF assms(1)] by blast
      show ?thesis
      proof (rule shared [of x q])
        show "om_find (shared m) ptr = Some x" "sr_owner x" by (rule Some, rule True)
        show "\<exists>hist. quarantine_rep q hist" using q(2) by blast
      qed (use assms(2) in \<open>simp_all add: free_def Some True q(1)\<close>)
    next
      case False
      then show ?thesis by (intro ord) (use Some assms(2) in \<open>simp add: free_def\<close>)
    qed
  qed
qed

lemma unat_used_minus: "used_ok m \<Longrightarrow> unat sz \<le> bytes_used m \<Longrightarrow> unat (used m - sz) = unat (used m) - unat sz"
  by (simp add: used_ok_def unat_sub64)

lemma free_live_inv:
  assumes inv: "mm_inv Z m" and a: "om_find (live m) ptr = Some a" and q: "\<exists>hist. quarantine_rep q hist"
  shows "mm_inv Z (free_live ptr a (m\<lparr>used := used m - al_size a, quar := q, table_epochs := e\<rparr>))"
proof -
  note parts = mm_invD [OF inv]
  obtain a' b where rec: "recycle release a (backing_st m) = (a', b)" by force
  have ai: "alloc_inv a" using parts(4) a by (simp add: live_ok_def)
  have b: "backing_ok b"
    using bk.release_alloc_inv [OF ai parts(1)] snd_recycle [of release a "backing_st m"] rec by simp
  define m1 where "m1 = m\<lparr>used := used m - al_size a, quar := q, backing_st := b, live := om_erase ptr (live m), spare_live := Some a'\<rparr>"
  have m': "free_live ptr a (m\<lparr>used := used m - al_size a, quar := q, table_epochs := e\<rparr>) = notify_usage (m1\<lparr>table_epochs := e\<rparr>)"
    using rec by (cases m) (simp add: free_live_def m1_def)
  have inv': "om_inv (live m)" using parts(4) by (simp add: live_ok_def)
  note sum = sum_om_erase [OF inv' a, of "\<lambda>e. unat (al_size (snd e))"]
  have "unat (al_size a) \<le> bytes_used m" using sum by (simp add: bytes_used_def)
  note u = unat_used_minus [OF parts(10) this]
  have "live_ok Z m1" using parts(4) unfolding live_ok_def base_align_def by (simp add: m1_def om_inv_erase)
  moreover have "apart_ok m1" using parts(7) by (auto simp: apart_ok_def m1_def)
  moreover have "used_ok m1" using parts(10) u sum by (simp add: used_ok_def bytes_used_def m1_def)
  moreover have "spare_ok m1" using recycle_clean [OF ai rec] by (simp add: spare_ok_def m1_def)
  moreover have "quar_ok m1" using q by (simp add: quar_ok_def m1_def)
  moreover have "settings_ok m1" "handed_ok Z m1" "reserved_ok Z m1" "shared_ok Z m1" "maps_ok m1" "handles_ok m1"
    using parts(2,3,5,6,8,9) part_cong(1,2,4,5,7,8) [of m1 m] by (simp_all add: m1_def)
  ultimately have "mm_inv Z m1" using parts(13) b by (simp add: mm_inv_def) (simp add: m1_def)
  then show ?thesis unfolding m' by simp
qed

lemma drop_shared_inv:
  assumes inv: "mm_inv Z m" and x: "om_find (shared m) ptr = Some x"
  shows "mm_inv Z (drop_shared ptr x (if sr_owner x then m\<lparr>used := used m - sr_size x\<rparr> else m))"
proof -
  note parts = mm_invD [OF inv]
  define m1 where "m1 = drop_shared ptr x (if sr_owner x then m\<lparr>used := used m - sr_size x\<rparr> else m)"
  have inv': "om_inv (shared m)" using parts(6) by (simp add: shared_ok_def)
  note sum = sum_om_erase [OF inv' x, of "\<lambda>e. if sr_owner (snd e) then unat (sr_size (snd e)) else 0"]
  have "sr_owner x \<Longrightarrow> unat (sr_size x) \<le> bytes_used m" using sum by (simp add: bytes_used_def)
  then have u: "sr_owner x \<Longrightarrow> unat (used m - sr_size x) = unat (used m) - unat (sr_size x)"
    using unat_used_minus [OF parts(10)] by simp
  have "shared_ok Z m1" using parts(6) by (simp add: shared_ok_def m1_def drop_shared_def om_inv_erase)
  moreover have "apart_ok m1" using parts(7) by (auto simp: apart_ok_def m1_def drop_shared_def)
  moreover have "used_ok m1"
    using parts(10) u sum by (cases "sr_owner x") (simp_all add: used_ok_def bytes_used_def m1_def drop_shared_def)
  moreover have "settings_ok m1" "handed_ok Z m1" "live_ok Z m1" "reserved_ok Z m1" "maps_ok m1" "handles_ok m1" "spare_ok m1" "quar_ok m1"
    using parts(2,3,4,5,8,9,11,12) part_cong(1,2,3,4,7,8,10,11) [of m1 m] by (simp_all add: m1_def drop_shared_def)
  moreover have "backing_ok (backing_st m1)" "hosts_ok (hosts m1)"
    using parts(1,13) by (simp_all add: m1_def drop_shared_def hosts_ok_unmap_host)
  ultimately show ?thesis unfolding m1_def [symmetric] by (simp add: mm_inv_def)
qed

lemma mm_inv_quar: "mm_inv Z m \<Longrightarrow> \<exists>hist. quarantine_rep q hist \<Longrightarrow> mm_inv Z (m\<lparr>quar := q\<rparr>)"
  by (simp add: mm_inv_def mm_part_defs)

lemma free_mm_inv:
  assumes inv: "mm_inv Z m" and f: "free ptr m = (r, m')"
  shows "mm_inv Z m'" "r \<noteq> Inl Stray" "r \<noteq> Inl Hang" "r \<noteq> Inl BadAlloc"
proof -
  have quar: "quar_ok m" using mm_invD [OF inv] by simp
  from quar f have "mm_inv Z m' \<and> r \<noteq> Inl Stray \<and> r \<noteq> Inl Hang \<and> r \<noteq> Inl BadAlloc"
  proof (cases rule: free_cases)
    case bad
    then show ?thesis using inv by simp
  next
    case (shared x q)
    have "mm_inv Z (drop_shared ptr x (m\<lparr>used := used m - sr_size x\<rparr>))" using drop_shared_inv [OF inv shared(2)] shared(3) by simp
    then have "mm_inv Z ((drop_shared ptr x (m\<lparr>used := used m - sr_size x\<rparr>))\<lparr>quar := q\<rparr>)" using shared(5) by (rule mm_inv_quar)
    moreover have "m' = notify_usage (((drop_shared ptr x (m\<lparr>used := used m - sr_size x\<rparr>))\<lparr>quar := q\<rparr>)\<lparr>table_epochs := note_free ptr (table_epochs m)\<rparr>)"
      unfolding shared(4) by (cases m) (simp add: drop_shared_def)
    ultimately show ?thesis using shared(1) by simp
  next
    case (live a q)
    then show ?thesis using free_live_inv [OF inv live(2,4)] by simp
  qed
  then show "mm_inv Z m'" "r \<noteq> Inl Stray" "r \<noteq> Inl Hang" "r \<noteq> Inl BadAlloc" by simp_all
qed

section \<open>Reset\<close>

lemma exclusive_mm_inv:
  assumes "exclusive f m = (r, m')"
  obtains m1 where "f (void_lookups m) = (r, m1)" "m' = void_lookups m1"
  using assms by (auto simp: exclusive_def split: prod.splits)

lemma void_lookups_fields [simp]:
  "backing_st (void_lookups m) = backing_st m" "capacity (void_lookups m) = capacity m" "va_base (void_lookups m) = va_base m"
  "used (void_lookups m) = used m" "next_va (void_lookups m) = next_va m" "page (void_lookups m) = page m"
  "alloc_align (void_lookups m) = alloc_align m" "high_water (void_lookups m) = high_water m"
  "live (void_lookups m) = live m" "spare_live (void_lookups m) = spare_live m" "quar (void_lookups m) = quar m"
  "reserved (void_lookups m) = reserved m" "vmaps (void_lookups m) = vmaps m" "handles (void_lookups m) = handles m"
  "next_handle (void_lookups m) = next_handle m" "shared (void_lookups m) = shared m" "hosts (void_lookups m) = hosts m"
  "dev_heap (void_lookups m) = dev_heap m" "usage_log (void_lookups m) = usage_log m" "hmem (void_lookups m) = hmem m"
  by (simp_all add: void_lookups_def)

lemma fold_minus:
  "(\<Sum>e\<leftarrow>hs. unat (vh_size (snd e))) \<le> unat u \<Longrightarrow>
    unat (fold (\<lambda>e u. u - vh_size (snd e)) hs u) = unat u - (\<Sum>e\<leftarrow>hs. unat (vh_size (snd e)))"
  by (induction hs arbitrary: u) (simp_all add: unat_sub64)

lemma fold_destroy:
  assumes "backing_ok (backing_st m)" "\<forall>e \<in> set hs. alloc_inv (vh_mem (snd e))"
  shows "\<exists>b. backing_ok b \<and> fold (\<lambda>e. destroy_handle (snd e)) hs m = m\<lparr>backing_st := b\<rparr>"
  using assms
proof (induction hs arbitrary: m)
  case Nil
  then show ?case by (intro exI [of _ "backing_st m"]) simp
next
  case (Cons e hs)
  define b where "b = snd (release_alloc release (vh_mem (snd e)) (backing_st m))"
  have "backing_ok b" using bk.release_alloc_inv Cons.prems by (simp add: b_def)
  then obtain b' where "backing_ok b'" "fold (\<lambda>e. destroy_handle (snd e)) hs (m\<lparr>backing_st := b\<rparr>) = m\<lparr>backing_st := b\<rparr>\<lparr>backing_st := b'\<rparr>"
    using Cons.IH [of "m\<lparr>backing_st := b\<rparr>"] Cons.prems by auto
  moreover have "destroy_handle (snd e) m = m\<lparr>backing_st := b\<rparr>" by (simp add: destroy_handle_def b_def)
  ultimately show ?case by (intro exI [of _ b']) simp
qed

lemma om_inv_find: "om_inv m \<Longrightarrow> e \<in> set m \<Longrightarrow> om_find m (fst e) = Some (snd e)"
  using om_inv_distinct [of m] by (cases e) (auto intro: map_of_is_SomeI)

lemma drop_mappings_inv:
  assumes inv: "mm_inv Z m"
  shows "mm_inv Z (drop_mappings m)" "live (drop_mappings m) = live m" "handles (drop_mappings m) = []"
    "vmaps (drop_mappings m) = []" "reserved (drop_mappings m) = []" "shared (drop_mappings m) = shared m"
proof -
  note parts = mm_invD [OF inv]
  define u where "u = fold (\<lambda>e u. u - vh_size (snd e)) (handles m) (used m)"
  have h: "om_inv (handles m)" using parts(9) by (simp add: handles_ok_def)
  have "\<forall>e \<in> set (handles m). alloc_inv (vh_mem (snd e))"
    using parts(9) om_inv_find [OF h] by (auto simp: handles_ok_def)
  then obtain b where b: "backing_ok b" "fold (\<lambda>e. destroy_handle (snd e)) (handles m) (m\<lparr>vmaps := [], reserved := [], used := u\<rparr>) =
      m\<lparr>vmaps := [], reserved := [], used := u\<rparr>\<lparr>backing_st := b\<rparr>"
    using fold_destroy [of "m\<lparr>vmaps := [], reserved := [], used := u\<rparr>" "handles m"] parts(1) by auto
  have eq: "drop_mappings m = m\<lparr>vmaps := [], reserved := [], used := u, backing_st := b, handles := []\<rparr>"
    using b(2) by (simp add: drop_mappings_def Let_def u_def)
  show "live (drop_mappings m) = live m" "handles (drop_mappings m) = []"
    "vmaps (drop_mappings m) = []" "reserved (drop_mappings m) = []" "shared (drop_mappings m) = shared m"
    by (simp_all add: eq)
  have "(\<Sum>e\<leftarrow>handles m. unat (vh_size (snd e))) \<le> unat (used m)" using parts(10) by (simp add: used_ok_def bytes_used_def)
  then have "unat u = unat (used m) - (\<Sum>e\<leftarrow>handles m. unat (vh_size (snd e)))" unfolding u_def by (rule fold_minus)
  then have "used_ok (drop_mappings m)" using parts(10) by (simp add: used_ok_def bytes_used_def eq)
  moreover have "settings_ok (drop_mappings m)" "handed_ok Z (drop_mappings m)" "live_ok Z (drop_mappings m)"
    "shared_ok Z (drop_mappings m)" "spare_ok (drop_mappings m)" "quar_ok (drop_mappings m)"
    using parts(2,3,4,6,11,12) part_cong(1,2,3,5,10,11) [of "drop_mappings m" m] by (simp_all add: eq)
  moreover have "reserved_ok Z (drop_mappings m)" "maps_ok (drop_mappings m)" "handles_ok (drop_mappings m)"
    by (simp_all add: eq reserved_ok_def maps_ok_def handles_ok_def)
  moreover have "apart_ok (drop_mappings m)" using parts(7) by (simp add: eq apart_ok_def)
  ultimately show "mm_inv Z (drop_mappings m)" using b(1) parts(13) by (simp add: mm_inv_def) (simp add: eq)
qed

lemma drop_owned_inv:
  assumes "mm_inv Z m" "\<forall>e \<in> set rs. om_find (shared m) (fst e) = Some (snd e)" "distinct (map fst rs)"
  shows "mm_inv Z (drop_owned rs m) \<and> live (drop_owned rs m) = live m \<and> handles (drop_owned rs m) = handles m \<and>
    vmaps (drop_owned rs m) = vmaps m \<and> reserved (drop_owned rs m) = reserved m \<and>
    om_find (shared (drop_owned rs m)) =
      (\<lambda>k. if \<exists>e \<in> set rs. fst e = k \<and> sr_owner (snd e) then None else om_find (shared m) k)"
  using assms
proof (induction rs arbitrary: m)
  case (Cons e rs)
  show ?case
  proof (cases "sr_owner (snd e)")
    case True
    let ?m = "drop_shared (fst e) (snd e) (m\<lparr>used := used m - sr_size (snd e)\<rparr>)"
    have f: "om_find (shared m) (fst e) = Some (snd e)" using Cons.prems(2) by simp
    have "mm_inv Z ?m" using drop_shared_inv [OF Cons.prems(1) f] True by simp
    moreover have "\<forall>x \<in> set rs. om_find (shared ?m) (fst x) = Some (snd x)"
      using Cons.prems(2,3) by (force simp: drop_shared_def)
    ultimately show ?thesis
      using Cons.IH [of ?m] Cons.prems(3) True by (auto simp: drop_shared_def fun_eq_iff)
  next
    case False
    then show ?thesis using Cons.IH [of m] Cons.prems by (auto simp: fun_eq_iff)
  qed
qed simp

lemma free_live_fields [simp]:
  "live (free_live ptr a m) = om_erase ptr (live m)" "handles (free_live ptr a m) = handles m"
  "vmaps (free_live ptr a m) = vmaps m" "reserved (free_live ptr a m) = reserved m" "shared (free_live ptr a m) = shared m"
  "next_va (free_live ptr a m) = next_va m" "used (free_live ptr a m) = used m" "usage_log (free_live ptr a m) = used m # usage_log m"
  "quar (free_live ptr a m) = quar m" "va_base (free_live ptr a m) = va_base m" "hosts (free_live ptr a m) = hosts m"
  "dev_heap (free_live ptr a m) = dev_heap m" "table_epochs (free_live ptr a m) = table_epochs m"
  by (simp_all add: free_live_def notify_usage_def split: prod.splits)

lemma free_live_ok:
  assumes inv: "mm_inv Z m" and a: "om_find (live m) ptr = Some a"
  shows "\<exists>q. free ptr m = (Inr (), free_live ptr a
      (m\<lparr>used := used m - al_size a, quar := q, table_epochs := note_free ptr (table_epochs m)\<rparr>)) \<and> (\<exists>hist. quarantine_rep q hist)"
proof -
  note parts = mm_invD [OF inv]
  obtain r m' where f: "free ptr m = (r, m')" by force
  have "om_find (shared m) ptr = None" using parts(7) a by (auto simp: apart_ok_def)
  with parts(12) f show ?thesis
  proof (cases rule: free_cases)
    case (live a' q)
    then have "a' = a" using a by simp
    then show ?thesis using live f by blast
  qed (use a in auto)
qed

lemma free_each_inv:
  assumes "mm_inv Z m" "distinct bs" "set bs \<subseteq> om_keys (live m)"
  shows "\<exists>m'. free_each bs m = (Inr (), m') \<and> mm_inv Z m' \<and>
    om_find (live m') = (\<lambda>k. if k \<in> set bs then None else om_find (live m) k) \<and>
    handles m' = handles m \<and> vmaps m' = vmaps m \<and> reserved m' = reserved m \<and> shared m' = shared m"
  using assms
proof (induction bs arbitrary: m)
  case (Cons b bs)
  obtain a where a: "om_find (live m) b = Some a" using Cons.prems(3) by auto
  obtain q where f: "free b m = (Inr (), free_live b a
      (m\<lparr>used := used m - al_size a, quar := q, table_epochs := note_free b (table_epochs m)\<rparr>))"
    using free_live_ok [OF Cons.prems(1) a] by blast
  define m1 where "m1 = free_live b a (m\<lparr>used := used m - al_size a, quar := q, table_epochs := note_free b (table_epochs m)\<rparr>)"
  have m1: "mm_inv Z m1" using free_mm_inv(1) [OF Cons.prems(1) f] by (simp add: m1_def)
  have fields: "live m1 = om_erase b (live m)" "handles m1 = handles m" "vmaps m1 = vmaps m"
    "reserved m1 = reserved m" "shared m1 = shared m" by (simp_all add: m1_def)
  have "set bs \<subseteq> om_keys (live m1)" using Cons.prems(2,3) by (auto simp: fields)
  then obtain m' where "free_each bs m1 = (Inr (), m')" "mm_inv Z m'"
    "om_find (live m') = (\<lambda>k. if k \<in> set bs then None else om_find (live m1) k)"
    "handles m' = handles m1" "vmaps m' = vmaps m1" "reserved m' = reserved m1" "shared m' = shared m1"
    using Cons.IH [OF m1] Cons.prems(2) by auto
  then show ?case using f by (intro exI [of _ m']) (auto simp: m1_def [symmetric] fields fun_eq_iff)
qed simp

lemma om_empty: "om_find m = (\<lambda>_. None) \<Longrightarrow> m = []"
  by (cases m) (auto simp: fun_eq_iff split: if_splits)

lemma free_all_ok:
  assumes inv: "mm_inv Z m"
  shows "\<exists>m'. free_all m = (Inr (), m') \<and> mm_inv Z m' \<and> live m' = [] \<and> handles m' = [] \<and> vmaps m' = [] \<and> reserved m' = [] \<and>
    (\<forall>k x. om_find (shared m') k = Some x \<longrightarrow> \<not> sr_owner x) \<and> used m' = 0"
proof -
  define m0 where "m0 = void_lookups (m\<lparr>dev_heap := \<lparr>dh_used = 0, dh_blocks = [], dh_strings = []\<rparr>\<rparr>)"
  have m0: "mm_inv Z m0" using inv by (simp add: m0_def)
  define m2 where "m2 = drop_mappings m0"
  note m2 = drop_mappings_inv [OF m0, folded m2_def]
  have sh: "om_inv (shared m2)" using mm_invD [OF m2(1)] by (simp add: shared_ok_def)
  define m3 where "m3 = drop_owned (shared m2) m2"
  have m3: "mm_inv Z m3" "live m3 = live m2" "handles m3 = []" "vmaps m3 = []" "reserved m3 = []"
    and m3s: "om_find (shared m3) = (\<lambda>k. if \<exists>e \<in> set (shared m2). fst e = k \<and> sr_owner (snd e) then None else om_find (shared m2) k)"
    using drop_owned_inv [OF m2(1), of "shared m2"] om_inv_find [OF sh] om_inv_distinct [OF sh] m2(3,4,5)
    by (simp_all add: m3_def)
  have lv: "om_inv (live m3)" using mm_invD [OF m3(1)] by (simp add: live_ok_def)
  obtain m4 where m4: "free_each (map fst (live m3)) m3 = (Inr (), m4)" "mm_inv Z m4"
    "om_find (live m4) = (\<lambda>k. if k \<in> set (map fst (live m3)) then None else om_find (live m3) k)"
    "handles m4 = []" "vmaps m4 = []" "reserved m4 = []" "shared m4 = shared m3"
    using free_each_inv [OF m3(1) om_inv_distinct [OF lv]] m3(3-5) by (auto simp: dom_map_of_conv_image_fst)
  have "live m4 = []" using m4(3) by (intro om_empty) (auto simp: fun_eq_iff map_of_eq_None_iff)
  moreover have own: "\<not> sr_owner x" if "om_find (shared m4) k = Some x" for k x
    using that m3s m4(7) map_of_SomeD by (fastforce split: if_splits)
  moreover have "used m4 = 0"
  proof -
    have "sum_list (map (\<lambda>e. if sr_owner (snd e) then unat (sr_size (snd e)) else 0) (shared m4)) = 0"
    proof -
      have "om_inv (shared m4)" using mm_invD [OF m4(2)] by (simp add: shared_ok_def)
      then show ?thesis using own om_inv_find by (fastforce simp: sum_list_eq_0_iff)
    qed
    then have "bytes_used m4 = 0" using \<open>live m4 = []\<close> m4(4) by (simp add: bytes_used_def)
    then show ?thesis using mm_invD(10) [OF m4(2)] by (simp add: used_ok_def unat_eq_zero)
  qed
  moreover have "free_all m = (Inr (), void_lookups m4)"
    using m4(1) by (simp add: free_all_def exclusive_def m0_def [symmetric] m2_def [symmetric] m3_def [symmetric] Let_def)
  ultimately show ?thesis using m4 by (intro exI [of _ "void_lookups m4"]) simp
qed

end
