(* ===== verification/Br_Lock.thy ===== *)
theory Br_Lock
  imports Epoch
begin

text \<open>
  The protocol of \<^verbatim>\<open>BigReaderLock\<close> (\<^verbatim>\<open>src/include/vgpu/brlock.hpp\<close>): readers count
  themselves in a slot of their own, a writer raises a flag and waits for the slots in use to empty.
  Each thread has a program counter, each access to a shared atomic is one step, and the steps of
  all threads interleave. The atomics are taken in the one total order that the sequentially
  consistent accesses of the source give those that matter (\<^verbatim>\<open>used_\<close>, the counts, the flag);
  \<^verbatim>\<open>owner_\<close>, \<^verbatim>\<open>depth_\<close> and \<^verbatim>\<open>bumped_\<close> are only ever compared with, or
  touched by, the thread that wrote them.

  The rule that readers do not nest is the shape of the relation: from \<open>Reads\<close> a thread can only let go.
\<close>

unbundle bit_operations_syntax

section \<open>The lock\<close>

type_synonym tid = u64

record brlock =
  slot_count :: "nat \<Rightarrow> int"
  writer :: bool
  used_slots :: u64
  lock_owner :: tid
  lock_epochs :: epochs
  depth :: int
  bumped :: bool
  lock_mu :: "tid option"

definition slot_of :: "tid \<Rightarrow> nat" where
  "slot_of t = unat (drop_bit 58 (t * 0x9E3779B97F4A7C15))"

text \<open>\<^verbatim>\<open>__builtin_ctzll\<close>: the place of the lowest bit set.\<close>

definition ctzll :: "u64 \<Rightarrow> nat" where
  "ctzll m = hd (filter (bit m) [0..<64])"

text \<open>
  Where a thread is. \<open>Holds\<close> has the lock for writing, \<open>Reads\<close> for reading; \<open>S_\<close> is in
  \<^verbatim>\<open>lock_shared\<close>, \<open>U_\<close> in \<^verbatim>\<open>unlock_shared\<close>, \<open>A_\<close> in
  \<^verbatim>\<open>acquire\<close> (with its argument), \<open>Q_\<close> in \<^verbatim>\<open>unlock\<close>. The flag of \<open>S_owner\<close>,
  \<open>U_owner\<close> and \<open>A_mine\<close> says which of the two the caller came from; no step reads it.
\<close>

datatype pc =
    Idle | Reads | Holds
  | S_owner bool | S_used | S_mark | S_count | S_test | S_back | S_spin
  | U_owner bool | U_leave
  | A_mine bool bool | A_mutex bool | A_owner bool | A_flag bool | A_mask bool | A_scan bool u64 | A_stamp bool
  | Q_depth | Q_stamp | Q_flag | Q_owner | Q_mutex

datatype call = LockShared | UnlockShared | Lock | LockQuiet | Unlock | NoteFree u64

fun lock_call :: "call \<Rightarrow> brlock \<Rightarrow> pc \<Rightarrow> (brlock \<times> pc) option" where
  "lock_call LockShared l p = (if p = Idle then Some (l, S_owner False) else if p = Holds then Some (l, S_owner True) else None)"
| "lock_call UnlockShared l p = (if p = Reads then Some (l, U_owner False) else if p = Holds then Some (l, U_owner True) else None)"
| "lock_call Lock l p = (if p = Idle then Some (l, A_mine False True) else if p = Holds then Some (l, A_mine True True) else None)"
| "lock_call LockQuiet l p = (if p = Idle then Some (l, A_mine False False) else if p = Holds then Some (l, A_mine True False) else None)"
| "lock_call Unlock l p = (if p = Holds then Some (l, Q_depth) else None)"
| "lock_call (NoteFree base) l p =
     (if p = Holds then Some (l\<lparr>lock_epochs := note_free base (lock_epochs l)\<rparr>, Holds) else None)"

definition add_count :: "nat \<Rightarrow> int \<Rightarrow> brlock \<Rightarrow> brlock" where
  "add_count s d l = l\<lparr>slot_count := (slot_count l)(s := slot_count l s + d)\<rparr>"

text \<open>\<^verbatim>\<open>lock_shared\<close> and \<^verbatim>\<open>unlock_shared\<close>; a wait is the absence of a step.\<close>

fun lock_shared_step :: "tid \<Rightarrow> brlock \<Rightarrow> pc \<Rightarrow> (brlock \<times> pc) option" where
  "lock_shared_step t l (S_owner _) = Some (l, if lock_owner l = t then Holds else S_used)"
| "lock_shared_step t l S_used = Some (l, if used_slots l AND push_bit (slot_of t) 1 = 0 then S_mark else S_count)"
| "lock_shared_step t l S_mark = Some (l\<lparr>used_slots := used_slots l OR push_bit (slot_of t) 1\<rparr>, S_count)"
| "lock_shared_step t l S_count = Some (add_count (slot_of t) 1 l, S_test)"
| "lock_shared_step t l S_test = Some (l, if writer l then S_back else Reads)"
| "lock_shared_step t l S_back = Some (add_count (slot_of t) (- 1) l, S_spin)"
| "lock_shared_step t l S_spin = (if writer l then None else Some (l, S_count))"
| "lock_shared_step t l _ = None"

fun unlock_shared_step :: "tid \<Rightarrow> brlock \<Rightarrow> pc \<Rightarrow> (brlock \<times> pc) option" where
  "unlock_shared_step t l (U_owner _) = Some (l, if lock_owner l = t then Holds else U_leave)"
| "unlock_shared_step t l U_leave = Some (add_count (slot_of t) (- 1) l, Idle)"
| "unlock_shared_step t l _ = None"

definition reader_step :: "tid \<Rightarrow> brlock \<Rightarrow> pc \<Rightarrow> (brlock \<times> pc) option" where
  "reader_step t l p = (case lock_shared_step t l p of None \<Rightarrow> unlock_shared_step t l p | Some r \<Rightarrow> Some r)"

definition void_answers :: "brlock \<Rightarrow> brlock" where
  "void_answers l = l\<lparr>lock_epochs := new_stamp (lock_epochs l)\<rparr>"

text \<open>\<^verbatim>\<open>acquire\<close> and \<^verbatim>\<open>unlock\<close>.\<close>

fun acquire_step :: "tid \<Rightarrow> brlock \<Rightarrow> pc \<Rightarrow> (brlock \<times> pc) option" where
  "acquire_step t l (A_mine _ bump) =
     (if lock_owner l = t
      then let l = l\<lparr>depth := depth l + 1\<rparr>
           in Some (if bump \<and> \<not> bumped l then void_answers (l\<lparr>bumped := True\<rparr>) else l, Holds)
      else Some (l, A_mutex bump))"
| "acquire_step t l (A_mutex bump) = (if lock_mu l = None then Some (l\<lparr>lock_mu := Some t\<rparr>, A_owner bump) else None)"
| "acquire_step t l (A_owner bump) = Some (l\<lparr>lock_owner := t, depth := 1\<rparr>, A_flag bump)"
| "acquire_step t l (A_flag bump) = Some (l\<lparr>writer := True\<rparr>, A_mask bump)"
| "acquire_step t l (A_mask bump) = Some (l, A_scan bump (used_slots l))"
| "acquire_step t l (A_scan bump m) =
     (if m = 0 then Some (l\<lparr>bumped := bump\<rparr>, A_stamp bump)
      else if slot_count l (ctzll m) = 0 then Some (l, A_scan bump (m AND (m - 1))) else None)"
| "acquire_step t l (A_stamp bump) = Some (if bump then void_answers l else l, Holds)"
| "acquire_step t l _ = None"

fun unlock_step :: "brlock \<Rightarrow> pc \<Rightarrow> (brlock \<times> pc) option" where
  "unlock_step l Q_depth = (let l = l\<lparr>depth := depth l - 1\<rparr> in Some (l, if depth l \<noteq> 0 then Holds else Q_stamp))"
| "unlock_step l Q_stamp = Some (if bumped l then (void_answers l)\<lparr>bumped := False\<rparr> else l, Q_flag)"
| "unlock_step l Q_flag = Some (l\<lparr>writer := False\<rparr>, Q_owner)"
| "unlock_step l Q_owner = Some (l\<lparr>lock_owner := 0\<rparr>, Q_mutex)"
| "unlock_step l Q_mutex = Some (l\<lparr>lock_mu := None\<rparr>, Idle)"
| "unlock_step l _ = None"

definition writer_step :: "tid \<Rightarrow> brlock \<Rightarrow> pc \<Rightarrow> (brlock \<times> pc) option" where
  "writer_step t l p = (case acquire_step t l p of None \<Rightarrow> unlock_step l p | Some r \<Rightarrow> Some r)"

section \<open>All threads\<close>

record lock_system =
  lk :: brlock
  pcs :: "tid \<Rightarrow> pc"

definition lock_init :: "epochs \<Rightarrow> lock_system" where
  "lock_init e = \<lparr>lk = \<lparr>slot_count = (\<lambda>_. 0), writer = False, used_slots = 0, lock_owner = 0, lock_epochs = e,
      depth = 0, bumped = False, lock_mu = None\<rparr>, pcs = (\<lambda>_. Idle)\<rparr>"

text \<open>A thread pointer is never null, so no thread has the tag 0.\<close>

inductive lock_step :: "lock_system \<Rightarrow> tid \<Rightarrow> lock_system \<Rightarrow> bool" where
  enter: "t \<noteq> 0 \<Longrightarrow> lock_call c (lk s) (pcs s t) = Some (l, p) \<Longrightarrow> lock_step s t \<lparr>lk = l, pcs = (pcs s)(t := p)\<rparr>"
| reader: "t \<noteq> 0 \<Longrightarrow> reader_step t (lk s) (pcs s t) = Some (l, p) \<Longrightarrow> lock_step s t \<lparr>lk = l, pcs = (pcs s)(t := p)\<rparr>"
| writer: "t \<noteq> 0 \<Longrightarrow> writer_step t (lk s) (pcs s t) = Some (l, p) \<Longrightarrow> lock_step s t \<lparr>lk = l, pcs = (pcs s)(t := p)\<rparr>"

inductive lock_reach :: "lock_system \<Rightarrow> bool" where
  start: "lock_reach (lock_init e)"
| step: "lock_reach s \<Longrightarrow> lock_step s t s' \<Longrightarrow> lock_reach s'"

inductive_cases lock_step_cases: "lock_step s t s'"

section \<open>Regions of the program\<close>

fun counted :: "pc \<Rightarrow> bool" where
  "counted S_test = True" | "counted S_back = True" | "counted Reads = True"
| "counted (U_owner h) = (\<not> h)" | "counted U_leave = True" | "counted _ = False"

fun reading :: "pc \<Rightarrow> bool" where
  "reading Reads = True" | "reading (U_owner h) = (\<not> h)" | "reading U_leave = True" | "reading _ = False"

fun marked :: "pc \<Rightarrow> bool" where
  "marked S_count = True" | "marked S_spin = True" | "marked p = counted p"

text \<open>From the end of the scan to the fall of the flag: the writer is alone.\<close>

fun excluding :: "pc \<Rightarrow> bool" where
  "excluding Holds = True" | "excluding (S_owner h) = h" | "excluding (U_owner h) = h" | "excluding (A_mine h _) = h"
| "excluding (A_stamp _) = True" | "excluding Q_depth = True" | "excluding Q_stamp = True" | "excluding Q_flag = True"
| "excluding _ = False"

fun flagged :: "pc \<Rightarrow> bool" where
  "flagged (A_mask _) = True" | "flagged (A_scan _ _) = True" | "flagged p = excluding p"

fun owning :: "pc \<Rightarrow> bool" where
  "owning (A_flag _) = True" | "owning Q_owner = True" | "owning p = flagged p"

fun inside :: "pc \<Rightarrow> bool" where
  "inside (A_owner _) = True" | "inside Q_mutex = True" | "inside p = owning p"

section \<open>What a step of one thread can do\<close>

definition thread_step :: "tid \<Rightarrow> brlock \<Rightarrow> pc \<Rightarrow> brlock \<Rightarrow> pc \<Rightarrow> bool" where
  "thread_step t l p l' p' \<longleftrightarrow> (\<exists>c. lock_call c l p = Some (l', p')) \<or> reader_step t l p = Some (l', p') \<or>
     writer_step t l p = Some (l', p')"

lemma lock_step_iff:
  "lock_step s t s' \<longleftrightarrow> t \<noteq> 0 \<and> (\<exists>l p. thread_step t (lk s) (pcs s t) l p \<and> s' = \<lparr>lk = l, pcs = (pcs s)(t := p)\<rparr>)"
  by (auto simp: lock_step.simps thread_step_def)

text \<open>One fact per shared variable: how it moves with the region the thread is in.\<close>

lemma call_shape:
  assumes "lock_call c l p = Some (l', p')"
  shows "\<exists>e. l' = l\<lparr>lock_epochs := e\<rparr>" "inside p' = inside p" "owning p' = owning p" "flagged p' = flagged p"
    "excluding p' = excluding p" "counted p' = counted p" "marked p' = marked p" "reading p' = reading p"
    "\<forall>b m. p' \<noteq> A_scan b m"
proof -
  have "l\<lparr>lock_epochs := lock_epochs l\<rparr> = l" by simp
  then show "\<exists>e. l' = l\<lparr>lock_epochs := e\<rparr>"
    using assms by (cases c) (auto split: if_splits intro: exI [of _ "lock_epochs l"])
qed (use assms in \<open>cases c; auto split: if_splits\<close>)+

text \<open>
  The effect of any step, in terms of the regions: each shared variable moves exactly when the thread
  enters or leaves the region it stands for.
\<close>

definition step_effect :: "tid \<Rightarrow> brlock \<Rightarrow> pc \<Rightarrow> brlock \<Rightarrow> pc \<Rightarrow> bool" where
  "step_effect t l p l' p' \<longleftrightarrow>
     (lock_mu l' = lock_mu l \<and> inside p' = inside p \<or> lock_mu l = None \<and> lock_mu l' = Some t \<and> inside p' \<or>
       inside p \<and> lock_mu l' = None \<and> \<not> inside p') \<and>
     (lock_owner l' = lock_owner l \<and> owning p' = owning p \<or> inside p \<and> \<not> owning p \<and> lock_owner l' = t \<and> owning p' \<or>
       owning p \<and> lock_owner l' = 0 \<and> \<not> owning p') \<and>
     (writer l' = writer l \<and> flagged p' = flagged p \<or> inside p \<and> \<not> flagged p \<and> writer l' \<and> flagged p' \<or>
       flagged p \<and> \<not> writer l' \<and> \<not> flagged p') \<and>
     (\<forall>i. bit (used_slots l) i \<longrightarrow> bit (used_slots l') i) \<and>
     (marked p' \<longrightarrow> marked p \<or> bit (used_slots l') (slot_of t)) \<and>
     slot_count l' = (slot_count l)(slot_of t := slot_count l (slot_of t) + of_bool (counted p') - of_bool (counted p)) \<and>
     (reading p' \<longrightarrow> reading p \<or> \<not> writer l) \<and>
     (\<forall>b m. p' = A_scan b m \<longrightarrow> p = A_mask b \<and> m = used_slots l \<or>
        (\<exists>m'. p = A_scan b m' \<and> m' \<noteq> 0 \<and> slot_count l (ctzll m') = 0 \<and> m = m' AND (m' - 1))) \<and>
     (excluding p' \<longrightarrow> excluding p \<or> (\<exists>b. p = A_scan b 0))"

lemma step_effectD:
  assumes "step_effect t l p l' p'"
  shows mu_effect: "lock_mu l' = lock_mu l \<and> inside p' = inside p \<or> lock_mu l = None \<and> lock_mu l' = Some t \<and> inside p' \<or>
       inside p \<and> lock_mu l' = None \<and> \<not> inside p'"
    and owner_effect: "lock_owner l' = lock_owner l \<and> owning p' = owning p \<or>
       inside p \<and> \<not> owning p \<and> lock_owner l' = t \<and> owning p' \<or> owning p \<and> lock_owner l' = 0 \<and> \<not> owning p'"
    and flag_effect: "writer l' = writer l \<and> flagged p' = flagged p \<or> inside p \<and> \<not> flagged p \<and> writer l' \<and> flagged p' \<or>
       flagged p \<and> \<not> writer l' \<and> \<not> flagged p'"
    and used_effect: "bit (used_slots l) i \<Longrightarrow> bit (used_slots l') i"
    and mark_effect: "marked p' \<Longrightarrow> marked p \<or> bit (used_slots l') (slot_of t)"
    and count_effect: "slot_count l' =
       (slot_count l)(slot_of t := slot_count l (slot_of t) + of_bool (counted p') - of_bool (counted p))"
    and read_effect: "reading p' \<Longrightarrow> reading p \<or> \<not> writer l"
    and scan_effect: "p' = A_scan b m \<Longrightarrow> p = A_mask b \<and> m = used_slots l \<or>
        (\<exists>m'. p = A_scan b m' \<and> m' \<noteq> 0 \<and> slot_count l (ctzll m') = 0 \<and> m = m' AND (m' - 1))"
    and exclude_effect: "excluding p' \<Longrightarrow> excluding p \<or> (\<exists>b. p = A_scan b 0)"
  using assms [unfolded step_effect_def, THEN conjunct1] assms [unfolded step_effect_def, THEN conjunct2, THEN conjunct1]
    assms [unfolded step_effect_def, THEN conjunct2, THEN conjunct2]
  by (assumption | simp)+

lemma slot_of_less: "slot_of t < 64"
proof -
  have "unat (t * 0x9E3779B97F4A7C15) < 2 ^ 64" by (rule unat_u64_lt)
  then show ?thesis by (simp add: slot_of_def unat_div drop_bit_eq_div less_mult_imp_div_less)
qed

lemma used_test: "(u :: u64) AND push_bit n 1 = 0 \<longleftrightarrow> \<not> bit u n" if "n < 64"
  using that by (auto simp: bit_eq_iff [where 'a = "64 word"] bit_and_iff bit_exp_iff)

lemma call_effect: "lock_call c l p = Some (l', p') \<Longrightarrow> step_effect t l p l' p'"
proof -
  assume c: "lock_call c l p = Some (l', p')"
  obtain e where l': "l' = l\<lparr>lock_epochs := e\<rparr>" using call_shape(1) [OF c] by blast
  show ?thesis using call_shape(2-) [OF c] unfolding step_effect_def by (simp add: l')
qed

lemma reader_effect:
  assumes "reader_step t l p = Some (l', p')" "owning p \<longleftrightarrow> lock_owner l = t"
  shows "step_effect t l p l' p'"
proof (cases p)
  case S_used
  then show ?thesis using assms used_test [OF slot_of_less]
    by (auto simp: reader_step_def step_effect_def split: if_splits)
next
  case S_mark
  then show ?thesis using assms slot_of_less [of t]
    by (auto simp: reader_step_def step_effect_def bit_or_iff bit_exp_iff)
qed (use assms in \<open>auto simp: reader_step_def step_effect_def add_count_def fun_eq_iff split: if_splits\<close>)

lemma writer_effect:
  assumes "writer_step t l p = Some (l', p')" "owning p \<longleftrightarrow> lock_owner l = t"
  shows "step_effect t l p l' p'"
  using assms by (cases p) (auto simp: writer_step_def step_effect_def void_answers_def Let_def split: if_splits)

lemma thread_effect:
  "thread_step t l p l' p' \<Longrightarrow> (owning p \<longleftrightarrow> lock_owner l = t) \<Longrightarrow> step_effect t l p l' p'"
  unfolding thread_step_def using call_effect reader_effect writer_effect by blast

section \<open>The scan of a writer\<close>

lemma ctzll_bit:
  assumes "(m :: u64) \<noteq> 0"
  shows "bit m (ctzll m)" "ctzll m < 64" "i < ctzll m \<Longrightarrow> \<not> bit m i"
proof -
  obtain n where n: "bit m n" "n < 64" using assms by (auto simp: bit_eq_iff)
  let ?xs = "filter (bit m) [0..<64]"
  have ne: "?xs \<noteq> []" using n by (auto simp: filter_empty_conv)
  then have "ctzll m \<in> set ?xs" unfolding ctzll_def by (rule hd_in_set)
  then show "bit m (ctzll m)" "ctzll m < 64" by auto
  show "\<not> bit m i" if "i < ctzll m"
  proof
    assume "bit m i"
    moreover have "i < 64" using that \<open>ctzll m < 64\<close> by simp
    ultimately have "i \<in> set ?xs" by simp
    moreover have "sorted ?xs" by (simp add: sorted_wrt_filter)
    ultimately have "ctzll m \<le> i" unfolding ctzll_def by (cases ?xs) auto
    with that show False by simp
  qed
qed

lemma clear_lowest:
  assumes "(m :: u64) \<noteq> 0"
  shows "bit (m AND (m - 1)) i \<longleftrightarrow> bit m i \<and> i \<noteq> ctzll m"
proof -
  define c where "c = ctzll m"
  define h where "h = m AND NOT (mask (Suc c))"
  note c = ctzll_bit [OF assms, folded c_def]
  have m: "m = h OR push_bit c 1"
    using c by (intro bit_word_eqI) (auto simp: h_def bit_or_iff bit_and_iff bit_not_iff bit_mask_iff bit_exp_iff less_Suc_eq)
  also have "\<dots> = h + push_bit c 1"
    by (rule disjunctive_add [symmetric]) (auto simp: h_def bit_and_iff bit_not_iff bit_mask_iff bit_exp_iff)
  finally have "m - 1 = h + mask c" by (simp add: mask_eq_exp_minus_1)
  also have "\<dots> = h OR mask c"
    by (rule disjunctive_add) (auto simp: h_def bit_and_iff bit_not_iff bit_mask_iff)
  finally have m1: "m - 1 = h OR mask c" .
  have "m AND (m - 1) = h"
    unfolding m1 by (subst m, intro bit_word_eqI) (auto simp: h_def bit_or_iff bit_and_iff bit_not_iff bit_mask_iff bit_exp_iff)
  then show ?thesis
    using c bit_imp_le_length [of m i] by (cases "i < c") (auto simp: h_def c_def bit_and_iff bit_not_iff bit_mask_iff less_Suc_eq)
qed

section \<open>The invariant\<close>

definition lock_inv :: "lock_system \<Rightarrow> bool" where
  "lock_inv s \<longleftrightarrow> pcs s 0 = Idle \<and>
     (\<forall>t. inside (pcs s t) \<longleftrightarrow> lock_mu (lk s) = Some t) \<and>
     (\<forall>t. t \<noteq> 0 \<longrightarrow> owning (pcs s t) \<longleftrightarrow> lock_owner (lk s) = t) \<and>
     (writer (lk s) \<longleftrightarrow> (\<exists>t. flagged (pcs s t))) \<and>
     (\<forall>t. marked (pcs s t) \<longrightarrow> bit (used_slots (lk s)) (slot_of t)) \<and>
     finite {t. counted (pcs s t)} \<and>
     (\<forall>n. slot_count (lk s) n = int (card {t. counted (pcs s t) \<and> slot_of t = n})) \<and>
     (\<forall>t u b m. pcs s t = A_scan b m \<longrightarrow> reading (pcs s u) \<longrightarrow> bit m (slot_of u)) \<and>
     (\<forall>t u. excluding (pcs s t) \<longrightarrow> \<not> reading (pcs s u))"

lemma region_chain:
  "excluding p \<Longrightarrow> flagged p" "flagged p \<Longrightarrow> owning p" "owning p \<Longrightarrow> inside p"
  "reading p \<Longrightarrow> counted p" "counted p \<Longrightarrow> marked p" "reading p \<Longrightarrow> \<not> inside p"
  by (cases p; simp)+

lemma lock_inv_init: "lock_inv (lock_init e)"
  by (simp add: lock_inv_def lock_init_def)

lemma card_count_step:
  assumes "finite {t. counted (P t)}"
  shows "finite {u. counted ((P(t := p')) u)}"
    "int (card {u. counted ((P(t := p')) u) \<and> slot_of u = n}) =
       int (card {u. counted (P u) \<and> slot_of u = n}) +
       (if n = slot_of t then of_bool (counted p') - of_bool (counted (P t)) else 0)"
proof -
  let ?A = "{u. counted (P u) \<and> slot_of u = n}"
  have "{u. counted ((P(t := p')) u)} \<subseteq> insert t {u. counted (P u)}" by auto
  then show "finite {u. counted ((P(t := p')) u)}" using assms by (meson finite.insertI finite_subset)
  have fin: "finite ?A" using assms by (rule rev_finite_subset) auto
  have "{u. counted ((P(t := p')) u) \<and> slot_of u = n} =
      (if counted p' \<and> n = slot_of t then insert t ?A else ?A - {t})" by auto
  moreover have "t \<in> ?A \<Longrightarrow> 0 < card ?A" using fin by (auto simp: card_gt_0_iff)
  ultimately show "int (card {u. counted ((P(t := p')) u) \<and> slot_of u = n}) =
       int (card ?A) + (if n = slot_of t then of_bool (counted p') - of_bool (counted (P t)) else 0)"
    using fin by (auto simp: card_insert_if card_Diff_singleton_if of_nat_diff)
qed

lemma empty_slot:
  assumes "finite {u. counted (P u)}" "\<And>n. c n = int (card {u. counted (P u) \<and> slot_of u = n})"
    and "c n = 0" "counted (P v)"
  shows "slot_of v \<noteq> n"
proof
  assume "slot_of v = n"
  then have "v \<in> {u. counted (P u) \<and> slot_of u = n}" using assms(4) by simp
  moreover have "finite {u. counted (P u) \<and> slot_of u = n}" using assms(1) by (rule rev_finite_subset) auto
  ultimately have "card {u. counted (P u) \<and> slot_of u = n} \<noteq> 0" by auto
  then show False using assms(2) [of n] assms(3) by linarith
qed

lemma lock_inv_step:
  assumes inv: "lock_inv s" and step: "lock_step s t s'"
  shows "lock_inv s'"
proof -
  obtain l p where t: "t \<noteq> 0" and th: "thread_step t (lk s) (pcs s t) l p" and s': "s' = \<lparr>lk = l, pcs = (pcs s)(t := p)\<rparr>"
    using step by (auto simp: lock_step_iff)
  define P where "P = pcs s"
  have zero: "P 0 = Idle" and mu: "\<And>u. inside (P u) \<longleftrightarrow> lock_mu (lk s) = Some u"
    and own: "\<And>u. u \<noteq> 0 \<Longrightarrow> owning (P u) \<longleftrightarrow> lock_owner (lk s) = u"
    and flag: "writer (lk s) \<longleftrightarrow> (\<exists>u. flagged (P u))"
    and mark: "\<And>u. marked (P u) \<Longrightarrow> bit (used_slots (lk s)) (slot_of u)"
    and fin: "finite {u. counted (P u)}"
    and cnt: "\<And>n. slot_count (lk s) n = int (card {u. counted (P u) \<and> slot_of u = n})"
    and scan: "\<And>u v b m. P u = A_scan b m \<Longrightarrow> reading (P v) \<Longrightarrow> bit m (slot_of v)"
    and excl: "\<And>u v. excluding (P u) \<Longrightarrow> \<not> reading (P v)"
    using inv by (auto simp: lock_inv_def P_def)
  have eff: "step_effect t (lk s) (P t) l p"
    using thread_effect [OF th] own [OF t] by (simp add: P_def)
  have only: "u = t" if "inside (P u)" "inside (P t)" for u using that mu by auto
  have "(P(t := p)) 0 = Idle" using zero t by simp
  moreover have "inside ((P(t := p)) u) \<longleftrightarrow> lock_mu l = Some u" for u
    using mu_effect [OF eff] mu [of u] mu [of t] by auto
  moreover have "owning ((P(t := p)) u) \<longleftrightarrow> lock_owner l = u" if "u \<noteq> 0" for u
    using owner_effect [OF eff] own [OF that] own [OF t] that only [of u] region_chain(3) [of "P u"] region_chain(3) [of "P t"]
    by auto
  moreover have "writer l \<longleftrightarrow> (\<exists>u. flagged ((P(t := p)) u))"
  proof -
    have "u = t" if "flagged (P u)" "inside (P t)" for u using that only region_chain by blast
    moreover have "(\<exists>u. flagged ((P(t := p)) u)) \<longleftrightarrow> flagged p \<or> (\<exists>u. u \<noteq> t \<and> flagged (P u))" by auto
    moreover have "(\<exists>u. flagged (P u)) \<longleftrightarrow> flagged (P t) \<or> (\<exists>u. u \<noteq> t \<and> flagged (P u))" by auto
    ultimately show ?thesis
      using flag_effect [OF eff] flag region_chain(2,3) [of "P t"] by blast
  qed
  moreover have "bit (used_slots l) (slot_of u)" if "marked ((P(t := p)) u)" for u
    using mark_effect [OF eff] used_effect [OF eff] mark [of u] that by (cases "u = t") auto
  moreover have "finite {u. counted ((P(t := p)) u)}" by (rule card_count_step(1) [OF fin])
  moreover have "slot_count l n = int (card {u. counted ((P(t := p)) u) \<and> slot_of u = n})" for n
    using cnt card_count_step(2) [OF fin, of t p n] by (simp add: count_effect [OF eff])
  moreover have "bit m (slot_of v)" if "(P(t := p)) u = A_scan b m" "reading ((P(t := p)) v)" for u v b m
  proof -
    have "inside (P u)" using that(1) scan_effect [OF eff] by (cases "u = t") auto
    then have w: "writer (lk s)" if "u \<noteq> t" using that flag \<open>(P(t := p)) u = A_scan b m\<close> by (auto intro: exI [of _ u])
    have v: "reading (P v)"
    proof (cases "v = t")
      case True
      then have "reading p" using that(2) by simp
      then have "u \<noteq> t" using that(1) by auto
      then show ?thesis using w read_effect [OF eff \<open>reading p\<close>] True by simp
    qed (use that in simp)
    show ?thesis
    proof (cases "u = t")
      case True
      then have "p = A_scan b m" using that(1) by simp
      then show ?thesis
        using scan_effect [OF eff] v scan [of t b _ v] mark [of v] region_chain(4,5) [of "P v"]
          empty_slot [OF fin cnt] by (auto simp: clear_lowest)
    qed (use that v scan in auto)
  qed
  moreover have "\<not> reading ((P(t := p)) v)" if "excluding ((P(t := p)) u)" for u v
  proof
    assume r: "reading ((P(t := p)) v)"
    show False
    proof (cases "u = t")
      case True
      then have e: "excluding p" using that by simp
      then have "v \<noteq> t" using r region_chain(1,2,3,6) [of p] by auto
      then have "reading (P v)" using r by simp
      then show False using exclude_effect [OF eff e] excl scan [of t _ 0 v] by auto
    next
      case False
      then have "excluding (P u)" using that by simp
      moreover from this have "writer (lk s)" using flag region_chain(1) by blast
      ultimately show False using r excl read_effect [OF eff] by (cases "v = t") auto
    qed
  qed
  ultimately show ?thesis unfolding lock_inv_def s' P_def [symmetric] by simp
qed

lemma lock_reach_inv: "lock_reach s \<Longrightarrow> lock_inv s"
  by (induction rule: lock_reach.induct) (auto intro: lock_inv_init lock_inv_step)

lemma writer_moves:
  assumes inv: "lock_inv s" and "inside (pcs s t)"
  shows "\<exists>u. u \<noteq> 0 \<and> (pcs s u \<in> {Reads, Holds} \<or> reader_step u (lk s) (pcs s u) \<noteq> None \<or> writer_step u (lk s) (pcs s u) \<noteq> None)"
proof -
  have "pcs s 0 = Idle" using inv by (simp add: lock_inv_def)
  then have t0: "t \<noteq> 0" using assms(2) by (metis inside.simps(3) owning.simps(3) flagged.simps(3) excluding.simps(9))
  show ?thesis
  proof (cases "\<exists>b m. pcs s t = A_scan b m \<and> m \<noteq> 0 \<and> slot_count (lk s) (ctzll m) \<noteq> 0")
    case False
    then have "pcs s t = Holds \<or> reader_step t (lk s) (pcs s t) \<noteq> None \<or> writer_step t (lk s) (pcs s t) \<noteq> None"
      using assms(2) by (cases "pcs s t") (auto simp: reader_step_def writer_step_def Let_def)
    then show ?thesis using t0 by auto
  next
    case True
    then obtain m where "slot_count (lk s) (ctzll m) \<noteq> 0" by blast
    then have "card {u. counted (pcs s u) \<and> slot_of u = ctzll m} \<noteq> 0" using inv by (auto simp: lock_inv_def)
    then obtain u where u: "counted (pcs s u)" by (metis (no_types, lifting) card.empty empty_Collect_eq)
    then have "u \<noteq> 0" using inv by (auto simp: lock_inv_def)
    moreover have "pcs s u = Reads \<or> reader_step u (lk s) (pcs s u) \<noteq> None" using u by (cases "pcs s u") (auto simp: reader_step_def)
    ultimately show ?thesis by auto
  qed
qed

section \<open>Properties\<close>

text \<open>
  C7. Mutual exclusion: in every reachable state of any number of threads, while one has the lock for
  writing (from the end of its scan until it lowers the flag) no other thread has it for reading
  or for writing.
\<close>

theorem mutual_exclusion:
  assumes "lock_reach s" "excluding (pcs s t)" "u \<noteq> t"
  shows "\<not> reading (pcs s u) \<and> \<not> excluding (pcs s u)"
proof -
  have inv: "lock_inv s" by (rule lock_reach_inv [OF assms(1)])
  have "\<not> inside (pcs s u) \<or> \<not> inside (pcs s t)" using inv assms(3) by (auto simp: lock_inv_def)
  then show ?thesis
    using inv assms(2) region_chain(1,2,3) [of "pcs s u"] region_chain(1,2,3) [of "pcs s t"]
    by (auto simp: lock_inv_def)
qed

text \<open>
  C35. No deadlock: whenever some thread is inside a call of the lock, some thread can take a step of
  its own, or holds the lock and can let go. A wait is never a wait for nothing.
\<close>

theorem no_deadlock:
  assumes "lock_reach s" "pcs s t \<noteq> Idle"
  shows "\<exists>u. u \<noteq> 0 \<and> (pcs s u \<in> {Reads, Holds} \<or> reader_step u (lk s) (pcs s u) \<noteq> None \<or> writer_step u (lk s) (pcs s u) \<noteq> None)"
proof (cases "\<exists>u. inside (pcs s u)")
  case True
  then show ?thesis using writer_moves [OF lock_reach_inv [OF assms(1)]] by blast
next
  case False
  have inv: "lock_inv s" by (rule lock_reach_inv [OF assms(1)])
  then have "\<forall>u. lock_mu (lk s) \<noteq> Some u" "writer (lk s) \<longleftrightarrow> (\<exists>u. flagged (pcs s u))" "pcs s 0 = Idle"
    using False by (simp_all add: lock_inv_def)
  then have "lock_mu (lk s) = None" "\<not> writer (lk s)" "t \<noteq> 0"
    using False assms(2) region_chain(2,3) by (blast, blast, metis)
  moreover have "\<not> inside (pcs s t)" using False by simp
  ultimately have "pcs s t = Reads \<or> reader_step t (lk s) (pcs s t) \<noteq> None \<or> writer_step t (lk s) (pcs s t) \<noteq> None"
    using assms(2) by (cases "pcs s t") (auto simp: reader_step_def writer_step_def Let_def)
  then show ?thesis using \<open>t \<noteq> 0\<close> by blast
qed

text \<open>A run: thread 1 takes the lock for writing, thread 2 asks to read and has to wait.\<close>

datatype act = Call tid call | Go tid

definition go :: "tid \<Rightarrow> lock_system \<Rightarrow> (brlock \<times> pc) option" where
  "go t s = (case reader_step t (lk s) (pcs s t) of Some r \<Rightarrow> Some r | None \<Rightarrow> writer_step t (lk s) (pcs s t))"

fun drive :: "act list \<Rightarrow> lock_system \<Rightarrow> lock_system option" where
  "drive [] s = Some s"
| "drive (Call t c # as) s = (if t = 0 then None else case lock_call c (lk s) (pcs s t) of None \<Rightarrow> None
     | Some (l, p) \<Rightarrow> drive as \<lparr>lk = l, pcs = (pcs s)(t := p)\<rparr>)"
| "drive (Go t # as) s = (if t = 0 then None else case go t s of None \<Rightarrow> None
     | Some (l, p) \<Rightarrow> drive as \<lparr>lk = l, pcs = (pcs s)(t := p)\<rparr>)"

lemma drive_reach: "drive as s = Some s' \<Longrightarrow> lock_reach s \<Longrightarrow> lock_reach s'"
proof (induction as arbitrary: s)
  case (Cons a as)
  obtain t l p where t: "t \<noteq> 0" and d: "drive as \<lparr>lk = l, pcs = (pcs s)(t := p)\<rparr> = Some s'"
    and st: "lock_step s t \<lparr>lk = l, pcs = (pcs s)(t := p)\<rparr>"
  proof (cases a)
    case (Call t c)
    then show ?thesis using Cons.prems(1) that
      by (auto split: if_splits option.splits intro: lock_step.enter simp del: lock_call.simps)
  next
    case (Go t)
    then show ?thesis using Cons.prems(1) that
      by (auto simp: go_def split: if_splits option.splits intro: lock_step.intros)
  qed
  show ?case by (rule Cons.IH [OF d lock_reach.step [OF Cons.prems(2) st]])
qed simp

definition demo_lock :: lock_system where
  "demo_lock = (case drive ([Call 1 LockQuiet] @ replicate 7 (Go 1) @ [Call 2 LockShared] @ replicate 6 (Go 2))
      (lock_init demo_epochs) of Some s \<Rightarrow> s | None \<Rightarrow> lock_init demo_epochs)"

lemma demo_lock_reach: "lock_reach demo_lock"
  unfolding demo_lock_def
  by (cases "drive ([Call 1 LockQuiet] @ replicate 7 (Go 1) @ [Call 2 LockShared] @ replicate 6 (Go 2)) (lock_init demo_epochs)")
    (simp_all only: option.case lock_reach.start drive_reach)

lemma demo_lock_pcs: "pcs demo_lock 1 = Holds \<and> pcs demo_lock 2 = S_spin"
  by (simp add: demo_lock_def lock_init_def go_def reader_step_def writer_step_def add_count_def slot_of_def eval_nat_numeral)

lemma mutual_exclusion_witness: "lock_reach demo_lock \<and> pcs demo_lock 1 = Holds \<and> \<not> reading (pcs demo_lock 2)"
  using mutual_exclusion [OF demo_lock_reach, of 1 2] demo_lock_pcs demo_lock_reach by simp

lemma no_deadlock_witness:
  "pcs demo_lock 2 = S_spin \<and> (\<exists>u. u \<noteq> 0 \<and> (pcs demo_lock u \<in> {Reads, Holds} \<or>
     reader_step u (lk demo_lock) (pcs demo_lock u) \<noteq> None \<or> writer_step u (lk demo_lock) (pcs demo_lock u) \<noteq> None))"
  using no_deadlock [OF demo_lock_reach, of 2] demo_lock_pcs by simp

end
