(* ===== verification/Vmm_Inv.thy ===== *)
theory Vmm_Inv
  imports Manager_Inv Br_Lock
begin

text \<open>
  Virtual memory management keeps the manager's invariant: reservations are fresh address space,
  a mapping stays inside one reservation and over one handle, a handle counts its mappings, and the
  loops over mappings end.
\<close>

unbundle bit_operations_syntax

lemma maps_okE:
  assumes "maps_ok m" "om_find (vmaps m) va = Some p"
  obtains b n h where "0 < unat (mp_size p)" "mp_offset p = 0" "om_find (reserved m) b = Some n" "unat b \<le> unat va"
    "unat va + unat (mp_size p) \<le> unat b + unat n" "om_find (handles m) (mp_handle p) = Some h" "unat (mp_size p) \<le> unat (vh_size h)"
proof -
  have "0 < unat (mp_size p) \<and> mp_offset p = 0 \<and>
       (\<exists>b n. om_find (reserved m) b = Some n \<and> unat b \<le> unat va \<and> unat va + unat (mp_size p) \<le> unat b + unat n) \<and>
       (\<exists>h. om_find (handles m) (mp_handle p) = Some h \<and> unat (mp_size p) \<le> unat (vh_size h))"
    using assms unfolding maps_ok_def by blast
  then show thesis using that by blast
qed

section \<open>Reservations\<close>

lemma power_of_two_and:
  assumes "(a :: u64) AND (a - 1) = 0" "a \<noteq> 0"
  shows "power_of_two a"
proof -
  have "\<not> bit (a AND (a - 1)) i" for i using assms(1) by simp
  then have "bit a i \<longleftrightarrow> i = ctzll a" for i
    using clear_lowest [OF assms(2), of i] ctzll_bit(1) [OF assms(2)] by auto
  then have "a = 2 ^ ctzll a"
    using ctzll_bit(2) [OF assms(2)] by (intro bit_word_eqI) (auto simp: bit_exp_iff)
  moreover have "unat (2 ^ ctzll a :: u64) = 2 ^ ctzll a"
  proof -
    have "(2 :: nat) ^ ctzll a < 2 ^ 64" using ctzll_bit(2) [OF assms(2)] by (intro power_strict_increasing) auto
    then show ?thesis using unat_of_nat64 [of "2 ^ ctzll a"] by simp
  qed
  ultimately have "unat a = 2 ^ ctzll a" by simp
  then show ?thesis by (auto simp: power_of_two_def)
qed

lemma power_of_two_half: "power_of_two a \<Longrightarrow> unat a \<le> 2 ^ 63"
proof -
  assume "power_of_two a"
  then obtain k where k: "unat a = 2 ^ k" by (auto simp: power_of_two_def)
  have "k < 64"
  proof (rule ccontr)
    assume "\<not> k < 64"
    then have "(2 :: nat) ^ 64 \<le> 2 ^ k" by (intro power_increasing) auto
    then show False using k unat_u64_lt [of a] by simp
  qed
  then have "(2 :: nat) ^ k \<le> 2 ^ 63" by (intro power_increasing) auto
  then show ?thesis using k by simp
qed

text \<open>The device's addresses are in the lower half of the address space.\<close>

definition low_half :: "mm \<Rightarrow> bool" where
  "low_half m \<longleftrightarrow> unat (next_va m) \<le> 2 ^ 63"

lemma gran_unat: "unat kVmmGranularity = 2 ^ 21"
  by (simp add: kVmmGranularity_def)

lemma reserve_locked_Inr:
  assumes inv: "mm_inv Z m" and low: "low_half m" and r: "reserve_locked sz alignment m = (Inr base, m')"
  shows "mm_inv ((base, unat sz) # Z) m'" "unat base + unat sz \<le> unat (va_base m + kDeviceVaStride)"
    "unat (next_va m) \<le> unat base" "om_find (reserved m') base = Some sz" "unat kVmmGranularity dvd unat base"
proof -
  note parts = mm_invD [OF inv]
  define align where "align = (if alignment < kVmmGranularity then kVmmGranularity else alignment)"
  have guards: "sz \<noteq> 0" "alignment AND (alignment - 1) = 0"
    "\<not> (base + sz > va_base m + kDeviceVaStride)" "\<not> (base + sz < base)"
    and b: "base = round_up (next_va m) align"
    and m': "m' = m\<lparr>next_va := base + sz, high_water := base + sz, reserved := om_emplace base sz (reserved m)\<rparr>"
    using r unfolding reserve_locked_def align_def [symmetric] by (auto simp: Let_def split: if_splits)
  have pg: "power_of_two kVmmGranularity" unfolding power_of_two_def gran_unat by blast
  have pa: "power_of_two align"
  proof (cases "alignment < kVmmGranularity")
    case False
    then have "alignment \<noteq> 0" by (auto simp: kVmmGranularity_def)
    then show ?thesis using False guards(2) by (simp add: align_def power_of_two_and)
  qed (simp add: align_def pg)
  have ge: "unat kVmmGranularity \<le> unat align" by (auto simp: align_def u64_simps)
  then have pos: "0 < unat align" by (simp add: gran_unat)
  have "unat (next_va m) + unat align \<le> 2 ^ 64"
    using low power_of_two_half [OF pa] by (simp add: low_half_def)
  then have base: "unat base = round_up_nat (unat (next_va m)) (unat align)"
    unfolding b round_up_def by (intro round_up64 pos)
  then show above: "unat (next_va m) \<le> unat base" using round_up_nat_ge [OF pos] by simp
  have "unat kVmmGranularity dvd unat align" by (rule power_of_two_dvd [OF pg pa ge])
  then show "unat kVmmGranularity dvd unat base" unfolding base using round_up_nat_dvd by (rule dvd_trans)
  have sum: "unat (base + sz) = unat base + unat sz" using guards(4) wrap_test64 [of base sz] by (simp add: unat_add64)
  then show "unat base + unat sz \<le> unat (va_base m + kDeviceVaStride)" using guards(3) by (simp add: u64_simps)
  note new = fresh_keys [OF inv above]
  have rs: "reserved m' = om_set base sz (reserved m)" using new(2) by (simp add: m' om_emplace_def)
  then show "om_find (reserved m') base = Some sz" by simp
  have "handed_ok ((base, unat sz) # Z) m'"
    by (rule new_zone [OF parts(3) above, of _ "base + sz"]) (use sum guards(1) in \<open>simp_all add: m' unat_gt_0\<close>)
  moreover have "reserved_ok ((base, unat sz) # Z) m'" using parts(5) by (auto simp: reserved_ok_def rs om_inv_set)
  moreover have "apart_ok m'" using parts(7) new by (auto simp: apart_ok_def rs) (auto simp: m')
  moreover have "maps_ok m'"
    using parts(8) new(2) unfolding maps_ok_def rs by (fastforce simp: m')
  moreover have "live_ok ((base, unat sz) # Z) m'" "shared_ok ((base, unat sz) # Z) m'"
    using live_ok_more [OF parts(4)] shared_ok_more [OF parts(6)] part_cong(3,5) [of m' m] by (simp_all add: m')
  moreover have "settings_ok m'" "handles_ok m'" "used_ok m'" "spare_ok m'" "quar_ok m'"
    using parts(2,9,10,11,12) part_cong(1,8,9,10,11) [of m' m] by (simp_all add: m')
  ultimately show "mm_inv ((base, unat sz) # Z) m'" using parts(1,13) by (simp add: mm_inv_def) (simp add: m')
qed

lemma reserve_locked_Inl: "reserve_locked sz alignment m = (Inl e, m') \<Longrightarrow> m' = m \<and> (\<exists>x. e = Throw x)"
  by (auto simp: reserve_locked_def Let_def split: if_splits)

lemma address_free_locked_inv:
  assumes inv: "mm_inv Z m" and r: "address_free_locked va sz m = (res, m')"
  shows "mm_inv Z m'" "res = Inl e \<Longrightarrow> m' = m \<and> e = Throw InvalidValue"
proof -
  note parts = mm_invD [OF inv]
  have om: "om_inv (vmaps m)" using parts(8) by (auto simp: maps_ok_def dest: ranges_okD(1))
  have "mm_inv Z m' \<and> (\<forall>e. res = Inl e \<longrightarrow> m' = m \<and> e = Throw InvalidValue)"
  proof (cases "res = Inr ()")
    case False
    then show ?thesis using r inv by (auto simp: address_free_locked_def split: if_splits)
  next
    case True
    then have f: "om_find (reserved m) va = Some sz" and m': "m' = m\<lparr>reserved := om_erase va (reserved m)\<rparr>"
      and lb: "\<not> (case om_lower_bound (vmaps m) va of Some (a, _) \<Rightarrow> a < va + sz | None \<Rightarrow> False)"
      using r by (auto simp: address_free_locked_def split: if_splits)
    have z: "(va, unat sz) \<in> set Z" using parts(5) f by (simp add: reserved_ok_def)
    have "unat va + unat sz \<le> unat (next_va m)" using handed_below [OF parts(3) z] by simp
    then have top: "unat (va + sz) = unat va + unat sz" using unat_u64_lt [of "next_va m"] by (intro unat_add64) linarith
    have none: "unat va + unat sz \<le> unat a" if "om_find (vmaps m) a = Some p" "unat va \<le> unat a" for a p
    proof -
      have mem: "a \<in> om_keys (vmaps m)" using that(1) by auto
      have "\<not> a < va" using that(2) by (simp add: u64_simps not_less)
      then have "om_lower_bound (vmaps m) va \<noteq> None" using om_lower_bound_None [OF om, of va] mem by blast
      then obtain c q where c: "om_lower_bound (vmaps m) va = Some (c, q)" by auto
      then have "c \<le> a" using om_lower_bound_SomeD [OF om c] mem that(2) by (auto simp: u64_simps)
      moreover have "\<not> c < va + sz" using lb c by simp
      ultimately show ?thesis using top by (simp add: u64_simps)
    qed
    have "maps_ok m'"
      unfolding maps_ok_def
    proof (intro conjI allI impI)
      fix a p assume a: "om_find (vmaps m') a = Some p"
      then have a': "om_find (vmaps m) a = Some p" by (simp add: m')
      then show "0 < unat (mp_size p)" "mp_offset p = 0" "\<exists>h. om_find (handles m') (mp_handle p) = Some h \<and> unat (mp_size p) \<le> unat (vh_size h)"
        using parts(8) by (auto simp: maps_ok_def m')
      obtain b n where b: "om_find (reserved m) b = Some n" "unat b \<le> unat a" "unat a + unat (mp_size p) \<le> unat b + unat n" "0 < unat (mp_size p)"
        using maps_okE [OF parts(8) a'] by metis
      have "b \<noteq> va"
      proof
        assume "b = va"
        then show False using none [OF a'] b f by auto
      qed
      then show "\<exists>b n. om_find (reserved m') b = Some n \<and> unat b \<le> unat a \<and> unat a + unat (mp_size p) \<le> unat b + unat n"
        using b by (auto simp: m')
    qed (use parts(8) in \<open>auto simp: maps_ok_def m'\<close>)
    moreover have "reserved_ok Z m'" using parts(5) by (auto simp: reserved_ok_def m' om_inv_erase)
    moreover have "apart_ok m'" using parts(7) by (auto simp: apart_ok_def m')
    moreover have "settings_ok m'" "handed_ok Z m'" "live_ok Z m'" "shared_ok Z m'" "handles_ok m'" "used_ok m'" "spare_ok m'" "quar_ok m'"
      using parts(2,3,4,6,9,10,11,12) part_cong(1,2,3,5,8,9,10,11) [of m' m] by (simp_all add: m')
    ultimately have "mm_inv Z m'" using parts(1,13) by (simp add: mm_inv_def) (simp add: m')
    then show ?thesis using True by simp
  qed
  then show "mm_inv Z m'" "res = Inl e \<Longrightarrow> m' = m \<and> e = Throw InvalidValue" by simp_all
qed

section \<open>Handles\<close>

lemma chunks_for_eq: "unat sz + kChunkSize \<le> 2 ^ 64 \<Longrightarrow> chunks_for sz = (unat sz + kChunkSize - 1) div kChunkSize"
proof -
  assume "unat sz + kChunkSize \<le> 2 ^ 64"
  moreover have k: "unat (of_nat kChunkSize :: u64) = kChunkSize" by (simp add: kChunkSize_def)
  ultimately have "unat (sz + of_nat kChunkSize - 1) = unat sz + kChunkSize - 1"
    using unat_add64 [of sz "of_nat kChunkSize - 1"] unat_sub64 [of 1 "of_nat kChunkSize"]
    by (simp add: kChunkSize_def add_diff_eq add.commute)
  then show ?thesis by (simp add: chunks_for_def unat_div k)
qed

lemma whole_granules: "sz mod kVmmGranularity = 0 \<Longrightarrow> unat sz + kChunkSize \<le> 2 ^ 64"
proof -
  assume "sz mod kVmmGranularity = 0"
  then have "unat sz mod 2 ^ 21 = 0" using unat_mod [of sz kVmmGranularity] by (simp add: gran_unat)
  then obtain q where q: "unat sz = 2 ^ 21 * q" by (auto simp: mod_eq_0_iff_dvd elim: dvdE)
  have "q < 2 ^ 43"
  proof (rule ccontr)
    assume "\<not> q < 2 ^ 43"
    then have "2 ^ 21 * 2 ^ 43 \<le> 2 ^ 21 * q" by simp
    then show False using q unat_u64_lt [of sz] by simp
  qed
  then have "unat sz + 2 ^ 21 \<le> 2 ^ 64" using q by simp
  then show ?thesis by (simp add: kChunkSize_def)
qed

lemma new_handle_mem:
  assumes "sz mod kVmmGranularity = 0"
  shows "alloc_inv (vh_mem (new_handle sz types c))" "al_size (vh_mem (new_handle sz types c)) = sz"
    "\<forall>i < unat sz. alloc_byte (vh_mem (new_handle sz types c)) i = 0"
proof -
  have "vh_mem (new_handle sz types c) = set_up sz empty_allocation"
    by (simp add: new_handle_def set_up_def empty_allocation_def chunks_for_def Let_def)
  moreover have "\<forall>i < length (slots empty_allocation). slots empty_allocation ! i = Untouched"
    by (simp add: empty_allocation_def)
  ultimately show "alloc_inv (vh_mem (new_handle sz types c))" "al_size (vh_mem (new_handle sz types c)) = sz"
    "\<forall>i < unat sz. alloc_byte (vh_mem (new_handle sz types c)) i = 0"
    using set_up_inv [of empty_allocation sz] whole_granules [OF assms] by simp_all
qed

text \<open>What the memory of a handle has to be for the handle to enter the table.\<close>

definition handle_fit :: "vhandle \<Rightarrow> bool" where
  "handle_fit h \<longleftrightarrow> alloc_inv (vh_mem h) \<and> al_size (vh_mem h) = vh_size h \<and> 0 < unat (vh_size h) \<and> card_valid (vh_mem h) = 0"

lemma unmapped_handle:
  assumes "maps_ok m" "om_find (handles m) hid = None"
  shows "mapped_to hid (vmaps m) = 0"
proof -
  have "mp_handle (snd e) \<noteq> hid" if "e \<in> set (vmaps m)" for e
  proof -
    have "om_inv (vmaps m)" using assms(1) by (auto simp: maps_ok_def dest: ranges_okD(1))
    then have "om_find (vmaps m) (fst e) = Some (snd e)" using that by (rule om_inv_find)
    then show ?thesis using assms by (force simp: maps_ok_def)
  qed
  then show ?thesis by (simp add: mapped_to_def sum_list_eq_0_iff)
qed

lemma add_handle_inv:
  assumes inv: "mm_inv Z m" and h: "handle_fit h" "vh_mapped h = 0" "\<not> over_capacity (vh_size h) m"
    and nxt: "unat (next_handle m) + 1 < 2 ^ 64" and r: "add_handle h m = (res, m')"
  shows "mm_inv Z m'" "res = Inr (next_handle m)" "om_find (handles m) (next_handle m) = None"
    "handles m' = om_set (next_handle m) h (handles m)"
proof -
  note parts = mm_invD [OF inv]
  show none: "om_find (handles m) (next_handle m) = None"
    using parts(9) by (cases "om_find (handles m) (next_handle m)") (auto simp: handles_ok_def)
  define m1 where "m1 = m\<lparr>used := used m + vh_size h, next_handle := next_handle m + 1, handles := om_set (next_handle m) h (handles m)\<rparr>"
  have m': "m' = notify_usage m1" "res = Inr (next_handle m)"
    using r none by (simp_all add: add_handle_def m1_def om_emplace_def)
  show "res = Inr (next_handle m)" by (rule m'(2))
  show "handles m' = om_set (next_handle m) h (handles m)" by (simp add: m' m1_def notify_usage_def)
  have u: "unat (used m + vh_size h) = unat (used m) + unat (vh_size h)" "unat (used m) + unat (vh_size h) \<le> unat (capacity m)"
    using h(3) by (auto simp: over_capacity_iff unat_add64)
  have nh: "unat (next_handle m + 1) = unat (next_handle m) + 1" using nxt by (simp add: unat_add64)
  have "handles_ok m1"
    using parts(9) h(1,2) none unmapped_handle [OF parts(8) none] nh
    unfolding handles_ok_def by (auto simp: m1_def om_inv_set handle_fit_def intro: less_SucI)
  moreover have "maps_ok m1" using parts(8) none unfolding maps_ok_def by (fastforce simp: m1_def)
  moreover have "used_ok m1"
    using parts(10) u none by (simp add: used_ok_def bytes_used_def m1_def sum_om_set_new)
  moreover have "settings_ok m1" "handed_ok Z m1" "live_ok Z m1" "reserved_ok Z m1" "shared_ok Z m1" "apart_ok m1" "spare_ok m1" "quar_ok m1"
    using parts(2,3,4,5,6,7,11,12) part_cong(1,2,3,4,5,6,10,11) [of m1 m] by (simp_all add: m1_def)
  ultimately have "mm_inv Z m1" using parts(1,13) by (simp add: mm_inv_def) (simp add: m1_def)
  then show "mm_inv Z m'" by (simp add: m')
qed

text \<open>A handle replaced by one of the same size and count.\<close>

lemma set_handle_inv:
  assumes inv: "mm_inv Z m" and h: "om_find (handles m) hid = Some h" "handle_fit h'" "vh_size h' = vh_size h" "vh_mapped h' = vh_mapped h"
    and b: "backing_ok b"
  shows "mm_inv Z (m\<lparr>handles := om_set hid h' (handles m), backing_st := b\<rparr>)"
proof -
  note parts = mm_invD [OF inv]
  define m1 where "m1 = m\<lparr>handles := om_set hid h' (handles m), backing_st := b\<rparr>"
  have om: "om_inv (handles m)" using parts(9) by (simp add: handles_ok_def)
  have "handles_ok m1" using parts(9) h unfolding handles_ok_def by (auto simp: m1_def om_inv_set handle_fit_def)
  moreover have "maps_ok m1" using parts(8) h unfolding maps_ok_def by (fastforce simp: m1_def)
  moreover have "used_ok m1"
    using parts(10) h(3) sum_om_set_same [OF om h(1), of "\<lambda>e. unat (vh_size (snd e))" h'] by (simp add: used_ok_def bytes_used_def m1_def)
  moreover have "settings_ok m1" "handed_ok Z m1" "live_ok Z m1" "reserved_ok Z m1" "shared_ok Z m1" "apart_ok m1" "spare_ok m1" "quar_ok m1"
    using parts(2,3,4,5,6,7,11,12) part_cong(1,2,3,4,5,6,10,11) [of m1 m] by (simp_all add: m1_def)
  ultimately show ?thesis using b parts(13) unfolding m1_def [symmetric] by (simp add: mm_inv_def) (simp add: m1_def)
qed

lemma handle_fitD: "handles_ok m \<Longrightarrow> om_find (handles m) hid = Some h \<Longrightarrow> handle_fit h"
  by (simp add: handles_ok_def handle_fit_def)

lemma create_locked_inv:
  assumes inv: "mm_inv Z m" and nxt: "unat (next_handle m) + 1 < 2 ^ 64" and r: "create_locked sz types c m = (res, m')"
  shows "mm_inv Z m'" "res = Inl e \<Longrightarrow> m' = m \<and> (\<exists>x. e = Throw x)"
    "res = Inr hid \<Longrightarrow> om_find (handles m) hid = None \<and> handles m' = om_set hid (new_handle sz types c) (handles m) \<and>
       handle_fit (new_handle sz types c) \<and> vh_size (new_handle sz types c) = sz"
proof -
  have "(\<exists>x. res = Inl (Throw x)) \<and> m' = m \<or>
    sz \<noteq> 0 \<and> sz mod kVmmGranularity = 0 \<and> \<not> over_capacity sz m \<and> add_handle (new_handle sz types c) m = (res, m')"
    using r by (auto simp: create_locked_def split: if_splits)
  then show "mm_inv Z m'" "res = Inl e \<Longrightarrow> m' = m \<and> (\<exists>x. e = Throw x)"
    "res = Inr hid \<Longrightarrow> om_find (handles m) hid = None \<and> handles m' = om_set hid (new_handle sz types c) (handles m) \<and>
       handle_fit (new_handle sz types c) \<and> vh_size (new_handle sz types c) = sz"
  proof (atomize (full), elim disjE)
    assume "(\<exists>x. res = Inl (Throw x)) \<and> m' = m"
    then show "mm_inv Z m' \<and> (res = Inl e \<longrightarrow> m' = m \<and> (\<exists>x. e = Throw x)) \<and>
      (res = Inr hid \<longrightarrow> om_find (handles m) hid = None \<and> handles m' = om_set hid (new_handle sz types c) (handles m) \<and>
       handle_fit (new_handle sz types c) \<and> vh_size (new_handle sz types c) = sz)" using inv by auto
  next
    assume a: "sz \<noteq> 0 \<and> sz mod kVmmGranularity = 0 \<and> \<not> over_capacity sz m \<and> add_handle (new_handle sz types c) m = (res, m')"
    have fit: "handle_fit (new_handle sz types c)"
      using new_handle_mem [of sz types c] a by (simp add: handle_fit_def) (simp add: new_handle_def unat_gt_0)
    have sz: "vh_size (new_handle sz types c) = sz" "vh_mapped (new_handle sz types c) = 0" by (simp_all add: new_handle_def)
    show "mm_inv Z m' \<and> (res = Inl e \<longrightarrow> m' = m \<and> (\<exists>x. e = Throw x)) \<and>
      (res = Inr hid \<longrightarrow> om_find (handles m) hid = None \<and> handles m' = om_set hid (new_handle sz types c) (handles m) \<and>
       handle_fit (new_handle sz types c) \<and> vh_size (new_handle sz types c) = sz)"
      using add_handle_inv [OF inv fit sz(2) _ nxt, of res m'] a sz fit by auto
  qed
qed

text \<open>Where the operating system puts a mapping of a file: an aligned address, with room for it.\<close>

definition host_place :: "u64 \<Rightarrow> u64 \<Rightarrow> bool" where
  "host_place p sz \<longleftrightarrow> p \<noteq> 0 \<and> even (unat p) \<and> unat p + unat sz < 2 ^ 64"

lemma file_chunk_ok:
  assumes "host_place p sz" "i * kChunkSize < unat sz"
  shows "ptr_ok \<lparr>rc_ptr = p + of_nat (i * kChunkSize), rc_bytes = f\<rparr>"
proof -
  have "unat (of_nat (i * kChunkSize) :: u64) = i * kChunkSize"
    using assms unat_u64_lt [of sz] by (intro unat_of_nat64) linarith
  then have "unat (p + of_nat (i * kChunkSize)) = unat p + i * kChunkSize"
    using assms by (subst unat_add64) (auto simp: host_place_def)
  moreover have "even kChunkSize" by (simp add: kChunkSize_def)
  ultimately have "even (unat (p + of_nat (i * kChunkSize)))" "unat (p + of_nat (i * kChunkSize)) \<noteq> 0"
    using assms(1) by (auto simp: host_place_def unat_eq_zero)
  then show ?thesis using even_not_uniform by (auto simp: ptr_ok_def unat_eq_zero)
qed

lemma chunk_start_less: "i < (n + kChunkSize - 1) div kChunkSize \<Longrightarrow> i * kChunkSize < n"
proof -
  assume "i < (n + kChunkSize - 1) div kChunkSize"
  then have "Suc i \<le> (n + kChunkSize - 1) div kChunkSize" by (rule Suc_leI)
  then have "Suc i * kChunkSize \<le> n + kChunkSize - 1" by (simp only: less_eq_div_iff_mult_less_eq kChunkSize_pos)
  then show ?thesis by (simp add: kChunkSize_def)
qed

lemma import_locked_inv:
  assumes inv: "mm_inv Z m" and nxt: "unat (next_handle m) + 1 < 2 ^ 64" "0 < unat sz" "\<And>p. host = Some p \<Longrightarrow> host_place p sz"
    and r: "import_locked sz host keep bytes m = (res, m')"
  shows "mm_inv Z m'" "res = Inl e \<Longrightarrow> m' = m \<and> (\<exists>x. e = Throw x)"
proof -
  have "mm_inv Z m' \<and> (\<forall>e. res = Inl e \<longrightarrow> m' = m \<and> (\<exists>x. e = Throw x))"
  proof (cases "sz mod kVmmGranularity \<noteq> 0 \<or> over_capacity sz m \<or> host = None")
    case True
    then show ?thesis using r inv by (auto simp: import_locked_def split: if_splits)
  next
    case False
    then obtain p where p: "host = Some p" by auto
    define h where "h = \<lparr>vh_size = sz, vh_refs = 1, vh_mapped = 0, vh_types = 1, vh_compressible = False,
            vh_fd = keep, vh_mem = \<lparr>al_size = sz, chunk_count = chunks_for sz,
              slots = map (\<lambda>i. file_chunk p i (\<lambda>j. bytes (i * kChunkSize + j))) [0 ..< chunks_for sz],
              external = True, card_valid = 0\<rparr>\<rparr>"
    have g: "sz mod kVmmGranularity = 0" using False by simp
    have n: "chunks_for sz = (unat sz + kChunkSize - 1) div kChunkSize" using whole_granules [OF g] by (rule chunks_for_eq)
    have whole: "kChunkSize \<le> unat sz - i * kChunkSize" if "i < chunks_for sz" for i
    proof -
      have "unat sz mod 2 ^ 21 = 0" using g unat_mod [of sz kVmmGranularity] by (simp add: gran_unat)
      then obtain q where q: "unat sz = kChunkSize * (32 * q)" by (auto simp: mod_eq_0_iff_dvd kChunkSize_def elim!: dvdE)
      have "i * kChunkSize < (32 * q) * kChunkSize"
        using chunk_start_less [of i "unat sz"] that q unfolding n by (simp add: mult.commute)
      then have "i < 32 * q" by (simp only: mult_less_cancel2)
      then have "kChunkSize * Suc i \<le> kChunkSize * (32 * q)" by (intro mult_le_mono2) simp
      then show ?thesis using q by (simp add: mult.commute [of i])
    qed
    have slot: "slot_ok (unat sz - i * kChunkSize) (file_chunk p i f)" if i: "i < chunks_for sz" for i f
    proof -
      have "i * kChunkSize < unat sz" using i unfolding n by (rule chunk_start_less)
      then have "ptr_ok \<lparr>rc_ptr = p + of_nat (i * kChunkSize), rc_bytes = f\<rparr>" by (rule file_chunk_ok [OF nxt(3) [OF p]])
      then show ?thesis using whole [OF i] by (simp add: file_chunk_def)
    qed
    have "alloc_inv (vh_mem h)"
      using n slot by (simp add: alloc_inv_def h_def)
    then have "handle_fit h" using nxt(2) by (simp add: handle_fit_def h_def)
    moreover have "add_handle h m = (res, m')" using r False p by (simp add: import_locked_def h_def)
    ultimately show ?thesis
      using add_handle_inv [OF inv _ _ _ nxt(1), of h res m'] False by (auto simp: h_def)
  qed
  then show "mm_inv Z m'" "res = Inl e \<Longrightarrow> m' = m \<and> (\<exists>x. e = Throw x)" by simp_all
qed

lemma retain_locked_inv:
  assumes inv: "mm_inv Z m" and r: "retain_locked hid m = (res, m')"
  shows "mm_inv Z m'" "res = Inl e \<Longrightarrow> m' = m \<and> e = Throw InvalidValue"
proof -
  have "mm_inv Z m' \<and> (\<forall>e. res = Inl e \<longrightarrow> m' = m \<and> e = Throw InvalidValue)"
  proof (cases "om_find (handles m) hid")
    case None
    then show ?thesis using r inv by (auto simp: retain_locked_def)
  next
    case (Some h)
    have fit: "handle_fit (h\<lparr>vh_refs := vh_refs h + 1\<rparr>)"
      using handle_fitD [OF mm_invD(9) [OF inv] Some] by (simp add: handle_fit_def)
    have "mm_inv Z (m\<lparr>handles := om_set hid (h\<lparr>vh_refs := vh_refs h + 1\<rparr>) (handles m), backing_st := backing_st m\<rparr>)"
      by (rule set_handle_inv [OF inv Some fit]) (use mm_invD(1) [OF inv] in simp_all)
    then show ?thesis using r Some by (auto simp: retain_locked_def)
  qed
  then show "mm_inv Z m'" "res = Inl e \<Longrightarrow> m' = m \<and> e = Throw InvalidValue" by simp_all
qed

section \<open>References and mappings\<close>

text \<open>While \<^verbatim>\<open>unmap\<close> works through its list, the counts of the handles still in it are behind.\<close>

definition handles_pend :: "u64 list \<Rightarrow> mm \<Rightarrow> bool" where
  "handles_pend hs m \<longleftrightarrow> om_inv (handles m) \<and> (\<forall>hid h. om_find (handles m) hid = Some h \<longrightarrow>
     unat hid < unat (next_handle m) \<and> handle_fit h \<and> unat (vh_mapped h) = mapped_to hid (vmaps m) + count_list hs hid)"

definition mm_pend :: "u64 list \<Rightarrow> zones \<Rightarrow> mm \<Rightarrow> bool" where
  "mm_pend hs Z m \<longleftrightarrow> backing_ok (backing_st m) \<and> settings_ok m \<and> handed_ok Z m \<and> live_ok Z m \<and> reserved_ok Z m \<and>
     shared_ok Z m \<and> apart_ok m \<and> maps_ok m \<and> handles_pend hs m \<and> used_ok m \<and> spare_ok m \<and> quar_ok m \<and> hosts_ok (hosts m)"

lemma mm_pend_Nil: "mm_pend [] Z m \<longleftrightarrow> mm_inv Z m"
  by (auto simp: mm_pend_def mm_inv_def handles_pend_def handles_ok_def handle_fit_def)

lemma mm_pendD:
  assumes "mm_pend hs Z m"
  shows "backing_ok (backing_st m)" "settings_ok m" "handed_ok Z m" "live_ok Z m" "reserved_ok Z m" "shared_ok Z m"
    "apart_ok m" "maps_ok m" "handles_pend hs m" "used_ok m" "spare_ok m" "quar_ok m" "hosts_ok (hosts m)"
  using assms by (simp_all add: mm_pend_def)

lemma mm_pend_notify [simp]: "mm_pend hs Z (notify_usage m) = mm_pend hs Z m"
  by (simp add: mm_pend_def notify_usage_def handles_pend_def mm_part_defs)

lemma mapped_to_pos: "om_find maps va = Some p \<Longrightarrow> 0 < mapped_to (mp_handle p) maps"
  using sum_om_ge [of maps va p "\<lambda>e. if mp_handle (snd e) = mp_handle p then 1 else 0"] by (simp add: mapped_to_def)

lemma collect_handle_inv:
  assumes inv: "mm_pend hs Z m"
  shows "mm_pend hs Z (collect_handle hid m)"
proof (cases "\<exists>h. om_find (handles m) hid = Some h \<and> vh_refs h = 0 \<and> vh_mapped h = 0")
  case False
  then have "collect_handle hid m = m" by (auto simp: collect_handle_def split: option.splits)
  then show ?thesis using inv by simp
next
  case True
  note parts = mm_pendD [OF inv]
  obtain h where h: "om_find (handles m) hid = Some h" "vh_refs h = 0" "vh_mapped h = 0" using True by auto
  define b where "b = snd (release_alloc release (vh_mem h) (backing_st m))"
  define m1 where "m1 = m\<lparr>used := used m - vh_size h, handles := om_erase hid (handles m), backing_st := b\<rparr>"
  have eq: "collect_handle hid m = notify_usage m1"
    using h by (simp add: collect_handle_def destroy_handle_def m1_def b_def)
  have om: "om_inv (handles m)" and fit: "handle_fit h" and "unat (vh_mapped h) = mapped_to hid (vmaps m) + count_list hs hid"
    using parts(9) h(1) by (auto simp: handles_pend_def)
  then have zero: "mapped_to hid (vmaps m) = 0" "count_list hs hid = 0" using h(3) by simp_all
  have b: "backing_ok b" using bk.release_alloc_inv parts(1) fit by (simp add: b_def handle_fit_def)
  note sum = sum_om_erase [OF om h(1), of "\<lambda>e. unat (vh_size (snd e))"]
  have "unat (vh_size h) \<le> bytes_used m" using sum by (simp add: bytes_used_def)
  note u = unat_used_minus [OF parts(10) this]
  have "mp_handle p \<noteq> hid" if "om_find (vmaps m) va = Some p" for va p
    using mapped_to_pos [OF that] zero by auto
  then have "maps_ok m1" using parts(8) unfolding maps_ok_def by (auto simp: m1_def)
  moreover have "handles_pend hs m1" using parts(9) om unfolding handles_pend_def by (auto simp: m1_def om_inv_erase)
  moreover have "used_ok m1" using parts(10) u sum by (simp add: used_ok_def bytes_used_def m1_def)
  moreover have "settings_ok m1" "handed_ok Z m1" "live_ok Z m1" "reserved_ok Z m1" "shared_ok Z m1" "apart_ok m1" "spare_ok m1" "quar_ok m1"
    using parts(2,3,4,5,6,7,11,12) part_cong(1,2,3,4,5,6,10,11) [of m1 m] by (simp_all add: m1_def)
  ultimately have "mm_pend hs Z m1" using b parts(13) by (simp add: mm_pend_def) (simp add: m1_def)
  then show ?thesis by (simp add: eq)
qed

lemma set_pend_inv:
  assumes inv: "mm_pend hs Z m" and h: "om_find (handles m) hid = Some h" "handle_fit h'" "vh_size h' = vh_size h"
    and c: "unat (vh_mapped h') = mapped_to hid (vmaps m) + count_list hs' hid"
    and others: "\<And>k. k \<noteq> hid \<Longrightarrow> count_list hs' k = count_list hs k"
  shows "mm_pend hs' Z (m\<lparr>handles := om_set hid h' (handles m)\<rparr>)"
proof -
  note parts = mm_pendD [OF inv]
  define m1 where "m1 = m\<lparr>handles := om_set hid h' (handles m)\<rparr>"
  have om: "om_inv (handles m)" using parts(9) by (simp add: handles_pend_def)
  have "handles_pend hs' m1" using parts(9) h c others unfolding handles_pend_def by (auto simp: m1_def om_inv_set)
  moreover have "maps_ok m1" using parts(8) h unfolding maps_ok_def by (fastforce simp: m1_def)
  moreover have "used_ok m1"
    using parts(10) h(3) sum_om_set_same [OF om h(1), of "\<lambda>e. unat (vh_size (snd e))" h'] by (simp add: used_ok_def bytes_used_def m1_def)
  moreover have "settings_ok m1" "handed_ok Z m1" "live_ok Z m1" "reserved_ok Z m1" "shared_ok Z m1" "apart_ok m1" "spare_ok m1" "quar_ok m1"
    using parts(2,3,4,5,6,7,11,12) part_cong(1,2,3,4,5,6,10,11) [of m1 m] by (simp_all add: m1_def)
  ultimately show ?thesis using parts(1,13) unfolding m1_def [symmetric] by (simp add: mm_pend_def) (simp add: m1_def)
qed

lemma release_locked_inv:
  assumes inv: "mm_inv Z m" and r: "release_locked hid m = (res, m')"
  shows "mm_inv Z m'" "res = Inl e \<Longrightarrow> m' = m \<and> e = Throw InvalidValue"
proof -
  have "mm_inv Z m' \<and> (\<forall>e. res = Inl e \<longrightarrow> m' = m \<and> e = Throw InvalidValue)"
  proof (cases "\<exists>h. om_find (handles m) hid = Some h \<and> vh_refs h \<noteq> 0")
    case False
    then show ?thesis using r inv by (auto simp: release_locked_def split: option.splits if_splits)
  next
    case True
    then obtain h where h: "om_find (handles m) hid = Some h" "vh_refs h \<noteq> 0" by auto
    have p: "mm_pend [] Z m" using inv by (simp add: mm_pend_Nil)
    have fit: "handle_fit (h\<lparr>vh_refs := vh_refs h - 1\<rparr>)"
      using handle_fitD [OF mm_invD(9) [OF inv] h(1)] by (simp add: handle_fit_def)
    have "mm_pend [] Z (m\<lparr>handles := om_set hid (h\<lparr>vh_refs := vh_refs h - 1\<rparr>) (handles m)\<rparr>)"
      by (rule set_pend_inv [OF p h(1) fit]) (use mm_pendD(9) [OF p] h(1) in \<open>auto simp: handles_pend_def\<close>)
    from collect_handle_inv [OF this, of hid] show ?thesis
      using r h by (auto simp: release_locked_def mm_pend_Nil)
  qed
  then show "mm_inv Z m'" "res = Inl e \<Longrightarrow> m' = m \<and> e = Throw InvalidValue" by simp_all
qed

end
