(* ===== verification/Vmm_Maps.thy ===== *)
theory Vmm_Maps
  imports Vmm_Inv
begin

text \<open>
  The mappings of handles into reservations: \<^verbatim>\<open>map\<close>, \<^verbatim>\<open>unmap\<close> and \<^verbatim>\<open>set_access\<close> keep the
  manager's invariant, their loops end, and each handle's count is the number of its mappings.
\<close>

lemma ranges_ok_set_apart:
  assumes "ranges_ok sz m" "om_find m b = None" "unat b + unat (sz v) \<le> 2 ^ 64"
    and "\<And>c w. om_find m c = Some w \<Longrightarrow> unat c + unat (sz w) \<le> unat b \<or> unat b + unat (sz v) \<le> unat c"
    and "0 < unat (sz v)" "\<And>c w. om_find m c = Some w \<Longrightarrow> 0 < unat (sz w)"
  shows "ranges_ok sz (om_set b v m)"
proof -
  have x: "unat c + unat (sz w) \<le> unat b" if "om_find m c = Some w" "c < b" for c w
    using assms(4) [OF that(1)] that(2) assms(5) by (auto simp: u64_simps)
  have y: "unat b + unat (sz v) \<le> unat c" if "om_find m c = Some w" "b < c" for c w
    using assms(4) [OF that(1)] that(2) assms(6) [OF that(1)] by (auto simp: u64_simps)
  show ?thesis using assms(1-3) x y unfolding ranges_ok_def by (auto simp: om_inv_set split: if_splits)
qed

lemma map_zone:
  assumes inv: "maps_ok m" "reserved_ok Z m" "handed_ok Z m" and p: "om_find (vmaps m) va = Some p"
  shows "unat va + unat (mp_size p) \<le> unat (next_va m)" "unat (va + mp_size p) = unat va + unat (mp_size p)" "0 < unat (mp_size p)"
proof -
  obtain b n where b: "om_find (reserved m) b = Some n" "unat va + unat (mp_size p) \<le> unat b + unat n" and s: "0 < unat (mp_size p)"
    by (rule maps_okE [OF inv(1) p])
  have "(b, unat n) \<in> set Z" using inv(2) b(1) by (simp add: reserved_ok_def)
  then show le: "unat va + unat (mp_size p) \<le> unat (next_va m)" using handed_below [OF inv(3)] b(2) by fastforce
  show "unat (va + mp_size p) = unat va + unat (mp_size p)"
    using le unat_u64_lt [of "next_va m"] by (intro unat_add64) linarith
  show "0 < unat (mp_size p)" by (rule s)
qed

lemma not_range_mapped:
  assumes ok: "maps_ok m" "reserved_ok Z m" "handed_ok Z m" and va: "unat va + unat sz < 2 ^ 64"
    and r: "\<not> range_mapped va sz m" and p: "om_find (vmaps m) a = Some p"
  shows "unat a + unat (mp_size p) \<le> unat va \<or> unat va + unat sz \<le> unat a"
proof (cases "unat va \<le> unat a")
  case True
  have om: "om_inv (vmaps m)" using ok(1) by (auto simp: maps_ok_def dest: ranges_okD(1))
  have "\<not> a < va" using True by (simp add: u64_simps not_less)
  then have "om_lower_bound (vmaps m) va \<noteq> None" using om_lower_bound_None [OF om, of va] p by blast
  then obtain c q where c: "om_lower_bound (vmaps m) va = Some (c, q)" by auto
  then have "c \<le> a" using om_lower_bound_SomeD [OF om c] p True by (auto simp: u64_simps)
  moreover have "\<not> c < va + sz" using r c by (auto simp: range_mapped_def split: if_splits)
  ultimately show ?thesis using va by (simp add: u64_simps unat_add64)
next
  case False
  have om: "om_inv (vmaps m)" and ro: "ranges_ok mp_size (vmaps m)" using ok(1) by (auto simp: maps_ok_def dest: ranges_okD(1))
  have mem: "a \<in> om_keys (vmaps m)" using p by auto
  have lt: "a < va" using False by (simp add: u64_simps)
  have "om_before (vmaps m) va \<noteq> None" using om_before_None [OF om, of va] mem lt by (metis leD)
  then obtain c q where c: "om_before (vmaps m) va = Some (c, q)" by auto
  then have cq: "om_find (vmaps m) c = Some q" "c < va" "a \<le> c" using om_before_SomeD [OF om c] p lt by auto
  have "\<not> (va - c < mp_size q)" using r c by (auto simp: range_mapped_def split: if_splits)
  then have "unat c + unat (mp_size q) \<le> unat va"
    using offset_test64 [OF ranges_okD(2) [OF ro cq(1)]] cq(2) by (auto simp: u64_simps)
  moreover have "unat a + unat (mp_size p) \<le> unat c + unat (mp_size q)"
  proof (cases "a = c")
    case False
    then have "unat a + unat (mp_size p) \<le> unat c" using ranges_okD(3) [OF ro p cq(1)] cq(3) by simp
    then show ?thesis by simp
  qed (use p cq(1) in simp)
  ultimately show ?thesis by simp
qed

text \<open>The bounds under which 64-bit and 32-bit counts do not wrap.\<close>

definition modest :: "mm \<Rightarrow> bool" where
  "modest m \<longleftrightarrow> low_half m \<and> unat (capacity m) \<le> 2 ^ 63 \<and> length (vmaps m) + 1 < 2 ^ 32 \<and> unat (next_handle m) + 1 < 2 ^ 64"

lemma mapped_to_le: "mapped_to hid maps \<le> length maps"
  unfolding mapped_to_def by (induction maps) auto

lemma handle_size_le:
  assumes "mm_inv Z m" "om_find (handles m) hid = Some h"
  shows "unat (vh_size h) \<le> unat (capacity m)"
proof -
  have "unat (vh_size h) \<le> bytes_used m"
    using sum_om_ge [OF assms(2), of "\<lambda>e. unat (vh_size (snd e))"] by (simp add: bytes_used_def)
  then show ?thesis using mm_invD(10) [OF assms(1)] by (simp add: used_ok_def)
qed

lemma inside_reservation_D:
  assumes "reserved_ok Z m" "handed_ok Z m" "inside_reservation va sz m" "unat va + unat sz < 2 ^ 64"
  obtains b n where "om_find (reserved m) b = Some n" "unat b \<le> unat va" "unat va + unat sz \<le> unat b + unat n" "(b, unat n) \<in> set Z"
proof -
  obtain b n where f: "om_floor (reserved m) va = Some (b, n)" and t: "va + sz \<le> b + n"
    using assms(3) by (auto simp: inside_reservation_def split: option.splits)
  have om: "om_inv (reserved m)" using assms(1) by (simp add: reserved_ok_def)
  have b: "om_find (reserved m) b = Some n" "b \<le> va" using om_floor_SomeD [OF om f] by auto
  have z: "(b, unat n) \<in> set Z" using assms(1) b(1) by (simp add: reserved_ok_def)
  have "unat (b + n) = unat b + unat n"
    using handed_below [OF assms(2) z] unat_u64_lt [of "next_va m"] by (intro unat_add64) linarith
  then show thesis using that [OF b(1) _ _ z] t b(2) assms(4) by (simp add: u64_simps unat_add64)
qed

lemma inside_reservation_low:
  assumes "reserved_ok Z m" "handed_ok Z m" "inside_reservation va sz m"
  shows "unat va < unat (next_va m)"
proof -
  obtain b n where f: "om_floor (reserved m) va = Some (b, n)" and t: "va - b < n"
    using assms(3) by (auto simp: inside_reservation_def split: option.splits)
  have om: "om_inv (reserved m)" using assms(1) by (simp add: reserved_ok_def)
  have b: "om_find (reserved m) b = Some n" "b \<le> va" using om_floor_SomeD [OF om f] by auto
  have "(b, unat n) \<in> set Z" using assms(1) b(1) by (simp add: reserved_ok_def)
  note le = handed_below [OF assms(2) this]
  have "unat va < unat b + unat n"
    using offset_test64 [of b n va] t b(2) le unat_u64_lt [of "next_va m"] by (auto simp: u64_simps)
  then show ?thesis using le by simp
qed

lemma length_om_set_new: "om_find m k = None \<Longrightarrow> length (om_set k v m) = Suc (length m)"
  using length_om_emplace_new [of m k v] by (simp add: om_emplace_def)

lemma map_entry_ok:
  assumes c: "maps_ok m" and r: "ranges_ok mp_size (om_set va p (vmaps m))" "length (vmaps m) + 1 < 2 ^ 32" "om_find (vmaps m) va = None"
    and p: "0 < unat (mp_size p)" "mp_offset p = 0" "om_find (reserved m') b = Some n" "unat b \<le> unat va" "unat va + unat (mp_size p) \<le> unat b + unat n"
      "om_find (handles m') (mp_handle p) = Some h" "unat (mp_size p) \<le> unat (vh_size h)"
    and m': "vmaps m' = om_set va p (vmaps m)" "reserved m' = reserved m"
    and hs: "\<And>k h1. om_find (handles m) k = Some h1 \<Longrightarrow> \<exists>h2. om_find (handles m') k = Some h2 \<and> vh_size h2 = vh_size h1"
  shows "maps_ok m'"
  unfolding maps_ok_def
proof (intro conjI allI impI)
  show "ranges_ok mp_size (vmaps m')" unfolding m' by (rule r(1))
  show "length (vmaps m') < 2 ^ 32" unfolding m'(1) length_om_set_new [OF r(3)] Suc_eq_plus1 by (rule r(2))
  fix a q assume "om_find (vmaps m') a = Some q"
  then have "a = va \<and> q = p \<or> om_find (vmaps m) a = Some q" unfolding m'(1) om_find_set by (simp split: if_splits)
  then consider "a = va" "q = p" | "om_find (vmaps m) a = Some q" by blast
  then have "0 < unat (mp_size q) \<and> mp_offset q = 0 \<and>
      (\<exists>b n. om_find (reserved m') b = Some n \<and> unat b \<le> unat a \<and> unat a + unat (mp_size q) \<le> unat b + unat n) \<and>
      (\<exists>h. om_find (handles m') (mp_handle q) = Some h \<and> unat (mp_size q) \<le> unat (vh_size h))"
  proof cases
    case 1
    then show ?thesis using p by blast
  next
    case 2
    obtain b n h where *: "0 < unat (mp_size q)" "mp_offset q = 0" "om_find (reserved m) b = Some n" "unat b \<le> unat a"
      "unat a + unat (mp_size q) \<le> unat b + unat n" "om_find (handles m) (mp_handle q) = Some h" "unat (mp_size q) \<le> unat (vh_size h)"
      by (rule maps_okE [OF c 2])
    obtain h2 where "om_find (handles m') (mp_handle q) = Some h2" "vh_size h2 = vh_size h" using hs [OF *(6)] by blast
    then show ?thesis using *(1,2,3,4,5,7) unfolding m'(2) by auto
  qed
  then show "0 < unat (mp_size q)" "mp_offset q = 0"
    "\<exists>b n. om_find (reserved m') b = Some n \<and> unat b \<le> unat a \<and> unat a + unat (mp_size q) \<le> unat b + unat n"
    "\<exists>h. om_find (handles m') (mp_handle q) = Some h \<and> unat (mp_size q) \<le> unat (vh_size h)" by simp_all
qed

lemma map_locked_inv:
  assumes inv: "mm_inv Z m" and mod: "modest m" and r: "map_locked va sz offset hid m = (res, m')"
  shows "mm_inv Z m'" "res = Inl e \<Longrightarrow> m' = m \<and> e = Throw InvalidValue"
proof -
  note parts = mm_invD [OF inv]
  have "mm_inv Z m' \<and> (\<forall>e. res = Inl e \<longrightarrow> m' = m \<and> e = Throw InvalidValue)"
  proof (cases "res = Inr ()")
    case False
    then show ?thesis using r inv by (auto simp: map_locked_def split: if_splits option.splits)
  next
    case True
    then obtain h where g: "sz \<noteq> 0" "offset = 0" "om_find (handles m) hid = Some h" "\<not> sz > vh_size h"
      "inside_reservation va sz m" "\<not> range_mapped va sz m"
      and m': "m' = m\<lparr>vmaps := om_emplace va \<lparr>mp_size = sz, mp_offset = offset, mp_handle = hid, mp_readable = False, mp_writable = False\<rparr> (vmaps m),
         handles := om_set hid (h\<lparr>vh_mapped := vh_mapped h + 1\<rparr>) (handles m)\<rparr>"
      using r by (auto simp: map_locked_def split: if_splits option.splits)
    note c = parts(8)
    have om: "om_inv (handles m)" using parts(9) by (simp add: handles_ok_def)
    have low: "unat (next_va m) \<le> 2 ^ 63" "unat (capacity m) \<le> 2 ^ 63" "length (vmaps m) + 1 < 2 ^ 32"
      using mod by (simp_all add: modest_def low_half_def)
    have sz: "unat sz \<le> unat (vh_size h)" using g(4) by (simp add: u64_simps not_less)
    then have "unat sz \<le> 2 ^ 63" using handle_size_le [OF inv g(3)] low(2) by linarith
    moreover have "unat va < 2 ^ 63"
      using inside_reservation_low [OF parts(5,3) g(5)] low(1) by linarith
    ultimately have nowrap: "unat va + unat sz < 2 ^ 64" by simp
    have pos: "0 < unat sz" using g(1) by (simp add: unat_gt_0)
    obtain b n where b: "om_find (reserved m) b = Some n" "unat b \<le> unat va" "unat va + unat sz \<le> unat b + unat n"
      by (rule inside_reservation_D [OF parts(5,3) g(5) nowrap])
    note apart = not_range_mapped [OF c parts(5,3) nowrap g(6)]
    have none: "om_find (vmaps m) va = None"
    proof (cases "om_find (vmaps m) va")
      case (Some p)
      then show ?thesis using apart [OF Some] pos map_zone(3) [OF c parts(5,3) Some] by simp
    qed
    define p where "p = \<lparr>mp_size = sz, mp_offset = 0, mp_handle = hid, mp_readable = False, mp_writable = False\<rparr>"
    define h' where "h' = h\<lparr>vh_mapped := vh_mapped h + 1\<rparr>"
    have m1: "m' = m\<lparr>vmaps := om_set va p (vmaps m), handles := om_set hid h' (handles m)\<rparr>"
      using m' none g(2) by (simp add: om_emplace_def p_def h'_def)
    have hm: "unat (vh_mapped h) = mapped_to hid (vmaps m)" using parts(9) g(3) by (simp add: handles_ok_def)
    then have "unat (vh_mapped h) + 1 < 2 ^ 32" using mapped_to_le [of hid "vmaps m"] low(3) by linarith
    then have h1: "unat (vh_mapped h + 1) = mapped_to hid (vmaps m) + 1" using hm by (simp add: unat_word_ariths)
    have mt: "mapped_to k (om_set va p (vmaps m)) = mapped_to k (vmaps m) + (if k = hid then 1 else 0)" for k
      using sum_om_set_new [OF none, of "\<lambda>e. if mp_handle (snd e) = k then 1 else 0" p] by (simp add: mapped_to_def p_def)
    have ro: "ranges_ok mp_size (om_set va p (vmaps m))"
      by (rule ranges_ok_set_apart) (use c none nowrap apart pos map_zone(3) [OF c parts(5,3)] in \<open>auto simp: maps_ok_def p_def\<close>)
    have "maps_ok m'"
    proof (rule map_entry_ok [OF c ro low(3) none])
      show "om_find (reserved m') b = Some n" "om_find (handles m') (mp_handle p) = Some h'" using b(1) by (simp_all add: m1 p_def)
      show "\<exists>h2. om_find (handles m') k = Some h2 \<and> vh_size h2 = vh_size h1" if "om_find (handles m) k = Some h1" for k h1
        using that g(3) by (auto simp: m1 h'_def)
    qed (use b sz pos in \<open>simp_all add: p_def h'_def m1\<close>)
    moreover have "handles_ok m'"
      using parts(9) g(3) h1 mt by (auto simp: handles_ok_def m1 om_inv_set h'_def)
    moreover have "used_ok m'"
      using parts(10) sum_om_set_same [OF om g(3), of "\<lambda>e. unat (vh_size (snd e))" h'] by (simp add: used_ok_def bytes_used_def m1 h'_def)
    moreover have "settings_ok m'" "handed_ok Z m'" "live_ok Z m'" "reserved_ok Z m'" "shared_ok Z m'" "apart_ok m'" "spare_ok m'" "quar_ok m'"
      using parts(2,3,4,5,6,7,11,12) part_cong(1,2,3,4,5,6,10,11) [of m' m] by (simp_all add: m1)
    ultimately have "mm_inv Z m'" using parts(1,13) by (simp add: mm_inv_def) (simp add: m1)
    then show ?thesis using True by simp
  qed
  then show "mm_inv Z m'" "res = Inl e \<Longrightarrow> m' = m \<and> e = Throw InvalidValue" by simp_all
qed

section \<open>Walks over consecutive mappings\<close>

text \<open>The entries of a table from one address up to another.\<close>

abbreviation within :: "u64 \<Rightarrow> u64 \<Rightarrow> u64 \<times> 'v \<Rightarrow> bool" where
  "within lo hi e \<equiv> lo \<le> fst e \<and> fst e < hi"

lemma om_find_filter:
  assumes "om_inv m"
  shows "om_find (filter P m) k = (case om_find m k of Some v \<Rightarrow> if P (k, v) then Some v else None | None \<Rightarrow> None)"
  using assms by (induction m) (fastforce simp: om_inv_def split: option.splits dest: map_of_SomeD)+

lemma om_inv_filter: "om_inv m \<Longrightarrow> om_inv (filter P m)"
  by (induction m) (auto simp: om_inv_def)

lemma within_cons:
  assumes "om_inv m" "om_find m at = Some p" "at < nxt" "at < hi" "\<And>k. k \<in> fst ` set m \<Longrightarrow> at < k \<Longrightarrow> nxt \<le> k"
  shows "filter (within at hi) m = (at, p) # filter (within nxt hi) m"
  using assms
proof (induction m)
  case (Cons e m)
  obtain k v where e: "e = (k, v)" by (cases e)
  have later: "\<forall>x \<in> set m. k < fst x" and om: "om_inv m" using Cons.prems(1) e by (auto simp: om_inv_def)
  show ?case
  proof (cases "k = at")
    case True
    have "within at hi x = within nxt hi x" if "x \<in> set m" for x
      using that later True Cons.prems(3,5) by (auto simp: less_le_trans intro: less_imp_le)
    then have "filter (within at hi) m = filter (within nxt hi) m" by (rule filter_cong [OF refl])
    then show ?thesis using True e Cons.prems(2,3,4) by simp
  next
    case False
    then have f: "om_find m at = Some p" using Cons.prems(2) e by simp
    then have "k < at" using later by (fastforce dest: map_of_SomeD)
    then show ?thesis using Cons.IH [OF om f Cons.prems(3,4)] Cons.prems(3,5) e by auto
  qed
qed simp

text \<open>A table whose mappings are not empty and do not run past the end of the address space.\<close>

definition walkable :: "(u64, mapping) omap \<Rightarrow> bool" where
  "walkable maps \<longleftrightarrow> ranges_ok mp_size maps \<and>
     (\<forall>a p. om_find maps a = Some p \<longrightarrow> 0 < unat (mp_size p) \<and> unat a + unat (mp_size p) < 2 ^ 64)"

lemma walkable_maps:
  assumes "maps_ok m" "reserved_ok Z m" "handed_ok Z m"
  shows "walkable (vmaps m)"
  unfolding walkable_def
proof (intro conjI allI impI)
  show "ranges_ok mp_size (vmaps m)" using assms(1) by (simp add: maps_ok_def)
  fix a p assume p: "om_find (vmaps m) a = Some p"
  show "0 < unat (mp_size p)" by (rule map_zone(3) [OF assms p])
  show "unat a + unat (mp_size p) < 2 ^ 64" using map_zone(1) [OF assms p] unat_u64_lt [of "next_va m"] by (rule le_less_trans)
qed

lemma walk_step:
  assumes w: "walkable maps" and p: "om_find maps at = Some p"
  shows "at < at + mp_size p" "unat (at + mp_size p) = unat at + unat (mp_size p)"
    "k \<in> fst ` set maps \<Longrightarrow> at < k \<Longrightarrow> at + mp_size p \<le> k"
proof -
  have s: "0 < unat (mp_size p)" "unat at + unat (mp_size p) < 2 ^ 64" using w p by (auto simp: walkable_def)
  then show u: "unat (at + mp_size p) = unat at + unat (mp_size p)" by (simp add: unat_add64)
  then show "at < at + mp_size p" using s by (simp add: u64_simps)
  have ro: "ranges_ok mp_size maps" using w by (simp add: walkable_def)
  show "at + mp_size p \<le> k" if "k \<in> fst ` set maps" "at < k"
  proof -
    have "k \<in> om_keys maps" using that(1) om_keys_iff [of k maps] by simp
    then obtain q where "om_find maps k = Some q" by blast
    then show ?thesis using ranges_okD(3) [OF ro p] that(2) u by (simp add: u64_simps)
  qed
qed

lemma unmap_scan_spec:
  assumes w: "walkable maps"
  shows "\<exists>r. unmap_scan maps va sz at hs = Some r \<and> (\<forall>e. r = Inl e \<longrightarrow> e = Throw InvalidValue) \<and>
    (\<forall>out. r = Inr out \<longrightarrow> out = hs @ (if sz = 0 then [] else map (mp_handle \<circ> snd) (filter (within at (va + sz)) maps)) \<and>
      (sz \<noteq> 0 \<longrightarrow> (\<forall>m0. om_inv m0 \<and> (\<forall>k \<ge> at. om_find m0 k = om_find maps k) \<longrightarrow>
        unmap_erase (va + sz) at m0 = Some (Inr (filter (\<lambda>e. \<not> within at (va + sz) e) m0)))))"
proof (induction "2 ^ 64 - unat at" arbitrary: at hs rule: less_induct)
  case less
  have om: "om_inv maps" using w by (auto simp: walkable_def dest: ranges_okD(1))
  show ?case
  proof (cases "sz \<noteq> 0 \<and> at < va + sz")
    case False
    then have "filter (within at (va + sz)) maps = []" if "sz \<noteq> 0" using that by (auto simp: filter_empty_conv)
    moreover have "unmap_erase (va + sz) at m0 = Some (Inr (filter (\<lambda>e. \<not> within at (va + sz) e) m0))" if "sz \<noteq> 0" for m0
    proof -
      have "filter (\<lambda>e. \<not> within at (va + sz) e) m0 = m0" using False that by (auto simp: filter_id_conv)
      then show ?thesis using False that by (subst unmap_erase.simps) simp
    qed
    ultimately show ?thesis using False by (subst unmap_scan.simps) auto
  next
    case True
    show ?thesis
    proof (cases "om_find maps at")
      case None
      then show ?thesis using True by (subst unmap_scan.simps) simp
    next
      case (Some p)
      note st = walk_step [OF w Some]
      show ?thesis
      proof (cases "at + mp_size p > va + sz")
        case False
        define nxt where "nxt = at + mp_size p"
        have dec: "2 ^ 64 - unat nxt < 2 ^ 64 - unat at"
          using st(1,2) unat_u64_lt [of nxt] by (simp add: nxt_def u64_simps)
        obtain r where r: "unmap_scan maps va sz nxt (hs @ [mp_handle p]) = Some r" "\<forall>e. r = Inl e \<longrightarrow> e = Throw InvalidValue"
          "\<forall>out. r = Inr out \<longrightarrow> out = (hs @ [mp_handle p]) @ (if sz = 0 then [] else map (mp_handle \<circ> snd) (filter (within nxt (va + sz)) maps)) \<and>
      (sz \<noteq> 0 \<longrightarrow> (\<forall>m0. om_inv m0 \<and> (\<forall>k \<ge> nxt. om_find m0 k = om_find maps k) \<longrightarrow>
        unmap_erase (va + sz) nxt m0 = Some (Inr (filter (\<lambda>e. \<not> within nxt (va + sz) e) m0))))"
          using less [OF dec, of "hs @ [mp_handle p]"] by blast
        have eq: "unmap_scan maps va sz at hs = Some r" using r(1) True Some False by (subst unmap_scan.simps) (simp add: nxt_def)
        have fc: "filter (within at (va + sz)) maps = (at, p) # filter (within nxt (va + sz)) maps"
          by (rule within_cons [OF om Some]) (use st True nxt_def in auto)
        have er: "unmap_erase (va + sz) at m0 = Some (Inr (filter (\<lambda>e. \<not> within at (va + sz) e) m0))"
          if m0: "om_inv m0" "\<forall>k \<ge> at. om_find m0 k = om_find maps k" and out: "r = Inr out" for m0 out
        proof -
          have f: "om_find m0 at = Some p" using m0(2) Some by simp
          have lt: "at < nxt" using st(1) by (simp add: nxt_def)
          have "om_inv (om_erase at m0)" "\<forall>k \<ge> nxt. om_find (om_erase at m0) k = om_find maps k"
            using m0 lt by (auto simp: om_inv_erase)
          then have "unmap_erase (va + sz) nxt (om_erase at m0) = Some (Inr (filter (\<lambda>e. \<not> within nxt (va + sz) e) (om_erase at m0)))"
            using r(3) out True by blast
          moreover have "filter (\<lambda>e. \<not> within nxt (va + sz) e) (om_erase at m0) = filter (\<lambda>e. \<not> within at (va + sz) e) m0"
          proof -
            have "\<not> within nxt (va + sz) e \<and> fst e \<noteq> at \<longleftrightarrow> \<not> within at (va + sz) e" if "e \<in> set m0" for e
            proof -
              have "nxt \<le> fst e" if "at < fst e"
              proof -
                have "fst e \<in> om_keys m0" using \<open>e \<in> set m0\<close> om_keys_iff [of "fst e" m0] by simp
                then have "fst e \<in> om_keys maps" using m0(2) that by (auto simp: dom_def)
                then show ?thesis using st(3) [of "fst e"] that om_keys_iff [of "fst e" maps] by (simp add: nxt_def)
              qed
              then show ?thesis using lt True by (cases "fst e = at") (auto simp: order_le_less)
            qed
            then show ?thesis unfolding om_erase_def filter_filter by (intro filter_cong) auto
          qed
          ultimately show ?thesis using True f by (subst unmap_erase.simps) (simp add: nxt_def)
        qed
        show ?thesis using eq r(2,3) er fc True by (intro exI [of _ r]) simp
      qed (use True Some in \<open>subst unmap_scan.simps, simp\<close>)
    qed
  qed
qed

lemma mapped_to_filter:
  "mapped_to k maps = mapped_to k (filter (\<lambda>e. \<not> P e) maps) + count_list (map (mp_handle \<circ> snd) (filter P maps)) k"
  unfolding mapped_to_def by (induction maps) auto

lemma unmap_handle_inv:
  assumes inv: "mm_pend (hid # hs) Z m"
  shows "mm_pend hs Z (unmap_handle hid m)"
proof (cases "om_find (handles m) hid")
  case None
  have "handles_pend hs m" using mm_pendD(9) [OF inv] None by (auto simp: handles_pend_def split: if_splits)
  then have "mm_pend hs Z m" using inv by (simp add: mm_pend_def)
  then show ?thesis using None by (simp add: unmap_handle_def collect_handle_inv)
next
  case (Some h)
  have fit: "handle_fit h" and c: "unat (vh_mapped h) = mapped_to hid (vmaps m) + (count_list hs hid + 1)"
    using mm_pendD(9) [OF inv] Some by (auto simp: handles_pend_def)
  then have nz: "vh_mapped h \<noteq> 0" by auto
  then have "unat (vh_mapped h - 1) = unat (vh_mapped h) - 1" by (simp add: unat_minus_one)
  then have "mm_pend hs Z (m\<lparr>handles := om_set hid (h\<lparr>vh_mapped := vh_mapped h - 1\<rparr>) (handles m)\<rparr>)"
    by (intro set_pend_inv [OF inv Some]) (use fit c in \<open>auto simp: handle_fit_def\<close>)
  then show ?thesis using Some nz by (simp add: unmap_handle_def collect_handle_inv)
qed

lemma fold_unmap_handle: "mm_pend hs Z m \<Longrightarrow> mm_inv Z (fold unmap_handle hs m)"
  by (induction hs arbitrary: m) (simp_all add: mm_pend_Nil unmap_handle_inv)

lemma maps_ok_filter:
  assumes "maps_ok m"
  shows "maps_ok (m\<lparr>vmaps := filter P (vmaps m)\<rparr>)"
proof -
  have ro: "ranges_ok mp_size (vmaps m)" and len: "length (vmaps m) < 2 ^ 32" using assms by (simp_all add: maps_ok_def)
  have om: "om_inv (vmaps m)" using ro by (rule ranges_okD(1))
  have f: "om_find (vmaps m) a = Some p" if "om_find (filter P (vmaps m)) a = Some p" for a p
    using that by (auto simp: om_find_filter [OF om] split: option.splits if_splits)
  have "ranges_ok mp_size (filter P (vmaps m))"
    using ro f om_inv_filter [OF om] unfolding ranges_ok_def by blast
  moreover have "length (filter P (vmaps m)) < 2 ^ 32" using length_filter_le len by (rule le_less_trans)
  ultimately show ?thesis using assms unfolding maps_ok_def by (simp, blast dest: f)
qed

lemma unmap_locked_inv:
  assumes inv: "mm_inv Z m" and r: "unmap_locked va sz m = (res, m')"
  shows "mm_inv Z m'" "res = Inl e \<Longrightarrow> m' = m \<and> e = Throw InvalidValue"
    "res = Inr () \<Longrightarrow> sz \<noteq> 0 \<and> vmaps m' = filter (\<lambda>e. \<not> within va (va + sz) e) (vmaps m)"
proof -
  note parts = mm_invD [OF inv]
  have w: "walkable (vmaps m)" by (rule walkable_maps [OF parts(8,5,3)])
  have om: "om_inv (vmaps m)" using w by (auto simp: walkable_def dest: ranges_okD(1))
  obtain s where s: "unmap_scan (vmaps m) va sz va [] = Some s" "\<forall>e. s = Inl e \<longrightarrow> e = Throw InvalidValue"
    "\<forall>out. s = Inr out \<longrightarrow> out = (if sz = 0 then [] else map (mp_handle \<circ> snd) (filter (within va (va + sz)) (vmaps m))) \<and>
      (sz \<noteq> 0 \<longrightarrow> unmap_erase (va + sz) va (vmaps m) = Some (Inr (filter (\<lambda>e. \<not> within va (va + sz) e) (vmaps m))))"
    using unmap_scan_spec [OF w, of va sz va "[]"] om by auto
  define rest where "rest = filter (\<lambda>e. \<not> within va (va + sz) e) (vmaps m)"
  define hs where "hs = map (mp_handle \<circ> snd) (filter (within va (va + sz)) (vmaps m))"
  have split: "m' = m \<and> res = Inl (Throw InvalidValue) \<or> sz \<noteq> 0 \<and> res = Inr () \<and> m' = fold unmap_handle hs (m\<lparr>vmaps := rest\<rparr>)"
  proof (cases s)
    case (Inl e)
    then show ?thesis using s(1,2) r by (simp add: unmap_locked_def)
  next
    case (Inr out)
    then show ?thesis using s(1,3) r by (cases "sz = 0") (auto simp: unmap_locked_def hs_def rest_def split: if_splits)
  qed
  have pend: "mm_pend hs Z (m\<lparr>vmaps := rest\<rparr>)"
  proof -
    have "handles_pend hs (m\<lparr>vmaps := rest\<rparr>)"
      using parts(9) mapped_to_filter [of _ "vmaps m" "within va (va + sz)"]
      by (simp add: handles_pend_def handles_ok_def handle_fit_def rest_def hs_def)
    moreover have "maps_ok (m\<lparr>vmaps := rest\<rparr>)" unfolding rest_def by (rule maps_ok_filter [OF parts(8)])
    moreover have "settings_ok (m\<lparr>vmaps := rest\<rparr>)" "handed_ok Z (m\<lparr>vmaps := rest\<rparr>)" "live_ok Z (m\<lparr>vmaps := rest\<rparr>)" "reserved_ok Z (m\<lparr>vmaps := rest\<rparr>)"
      "shared_ok Z (m\<lparr>vmaps := rest\<rparr>)" "apart_ok (m\<lparr>vmaps := rest\<rparr>)" "used_ok (m\<lparr>vmaps := rest\<rparr>)" "spare_ok (m\<lparr>vmaps := rest\<rparr>)" "quar_ok (m\<lparr>vmaps := rest\<rparr>)"
      using parts(2,3,4,5,6,7,10,11,12) part_cong(1,2,3,4,5,6,9,10,11) [of "m\<lparr>vmaps := rest\<rparr>" m] by simp_all
    ultimately show ?thesis using parts(1,13) by (simp add: mm_pend_def)
  qed
  from split show "mm_inv Z m'" using inv fold_unmap_handle [OF pend] by auto
  from split show "res = Inl e \<Longrightarrow> m' = m \<and> e = Throw InvalidValue" by auto
  have "vmaps (fold unmap_handle hs n) = vmaps n" for n
    by (induction hs arbitrary: n) (simp_all add: unmap_handle_def collect_handle_def destroy_handle_def notify_usage_def Let_def split: option.splits prod.splits)
  with split show "res = Inr () \<Longrightarrow> sz \<noteq> 0 \<and> vmaps m' = filter (\<lambda>e. \<not> within va (va + sz) e) (vmaps m)" by (auto simp: rest_def)
qed

section \<open>Access rights\<close>

text \<open>The table after the rights of every mapping that starts in a range have been set.\<close>

definition repaint :: "u64 \<Rightarrow> u64 \<Rightarrow> bool \<Rightarrow> bool \<Rightarrow> (u64, mapping) omap \<Rightarrow> (u64, mapping) omap" where
  "repaint lo hi rd wr = map (\<lambda>e. if within lo hi e then (fst e, (snd e)\<lparr>mp_readable := rd, mp_writable := wr\<rparr>) else e)"

lemma om_find_repaint: "om_find (repaint lo hi rd wr maps) k =
    map_option (\<lambda>p. if lo \<le> k \<and> k < hi then p\<lparr>mp_readable := rd, mp_writable := wr\<rparr> else p) (om_find maps k)"
  unfolding repaint_def by (induction maps) auto

lemma fst_repaint: "map fst (repaint lo hi rd wr maps) = map fst maps"
  unfolding repaint_def by (induction maps) auto

lemma om_inv_repaint: "om_inv (repaint lo hi rd wr maps) = om_inv maps"
  unfolding om_inv_def fst_repaint by simp

lemma repaint_size: "om_find (repaint lo hi rd wr maps) k = Some p \<Longrightarrow>
    \<exists>q. om_find maps k = Some q \<and> mp_size q = mp_size p \<and> mp_offset q = mp_offset p \<and> mp_handle q = mp_handle p"
  by (auto simp: om_find_repaint)

lemma ranges_ok_repaint:
  assumes "ranges_ok mp_size maps"
  shows "ranges_ok mp_size (repaint lo hi rd wr maps)"
  unfolding ranges_ok_def om_inv_repaint
proof (intro conjI allI impI)
  show "om_inv maps" by (rule ranges_okD(1) [OF assms])
  fix b p assume b: "om_find (repaint lo hi rd wr maps) b = Some p"
  obtain q where q: "om_find maps b = Some q" "mp_size q = mp_size p" using repaint_size [OF b] by blast
  show "unat b + unat (mp_size p) \<le> 2 ^ 64" using ranges_okD(2) [OF assms q(1)] unfolding q(2) .
  fix c u assume c: "om_find (repaint lo hi rd wr maps) c = Some u" and bc: "b < c"
  obtain v where v: "om_find maps c = Some v" using repaint_size [OF c] by blast
  show "unat b + unat (mp_size p) \<le> unat c" using ranges_okD(3) [OF assms q(1) v bc] unfolding q(2) .
qed

lemma walkable_repaint:
  assumes "walkable maps"
  shows "walkable (repaint lo hi rd wr maps)"
proof -
  have "0 < unat (mp_size p) \<and> unat a + unat (mp_size p) < 2 ^ 64" if a: "om_find (repaint lo hi rd wr maps) a = Some p" for a p
  proof -
    obtain q where q: "om_find maps a = Some q" "mp_size q = mp_size p" using repaint_size [OF a] by blast
    have "0 < unat (mp_size q) \<and> unat a + unat (mp_size q) < 2 ^ 64" using assms q(1) unfolding walkable_def by blast
    then show ?thesis unfolding q(2) .
  qed
  then show ?thesis using assms ranges_ok_repaint unfolding walkable_def by blast
qed

lemma mapped_to_repaint: "mapped_to k (repaint lo hi rd wr maps) = mapped_to k maps"
  unfolding mapped_to_def repaint_def by (induction maps) auto

lemma repaint_none:
  assumes "hi \<le> lo"
  shows "repaint lo hi rd wr maps = maps"
proof -
  have "\<not> within lo hi e" for e :: "u64 \<times> mapping" using assms by (meson le_less_trans leD less_imp_le order.trans)
  then show ?thesis unfolding repaint_def by (intro map_idI) (simp only: if_False)
qed

lemma repaint_repaint:
  assumes "lo \<le> mid" "mid \<le> hi"
  shows "repaint mid hi rd wr (repaint lo mid rd wr maps) = repaint lo hi rd wr maps"
proof -
  have "within lo hi e \<longleftrightarrow> (if fst e < mid then lo \<le> fst e else fst e < hi)" for e :: "u64 \<times> mapping"
    using assms by (meson leI less_le_trans order.trans)
  moreover have "within mid hi e \<longleftrightarrow> \<not> fst e < mid \<and> fst e < hi" "within lo mid e \<longleftrightarrow> lo \<le> fst e \<and> fst e < mid" for e :: "u64 \<times> mapping"
    by (simp_all add: not_less)
  ultimately show ?thesis unfolding repaint_def by (induction maps) simp_all
qed

lemma om_set_old: "om_inv m \<Longrightarrow> om_find m k = Some w \<Longrightarrow> om_set k v m = map (\<lambda>e. if fst e = k then (k, v) else e) m"
proof (induction m)
  case (Cons e m)
  obtain a u where e: "e = (a, u)" by (cases e)
  have later: "\<forall>x \<in> set m. a < fst x" and om: "om_inv m" using Cons.prems(1) e by (auto simp: om_inv_def)
  show ?case
  proof (cases "k = a")
    case True
    then have "map (\<lambda>e. if fst e = k then (k, v) else e) m = m" using later by (intro map_idI) auto
    then show ?thesis using True e by simp
  next
    case False
    then have f: "om_find m k = Some w" using Cons.prems(2) e by simp
    then have "a < k" using later by (fastforce dest: map_of_SomeD)
    then show ?thesis using Cons.IH [OF om f] e False by auto
  qed
qed simp

lemma paint_one:
  assumes w: "walkable maps" and p: "om_find maps at = Some p"
  shows "om_set at (p\<lparr>mp_readable := rd, mp_writable := wr\<rparr>) maps = repaint at (at + mp_size p) rd wr maps"
proof -
  have om: "om_inv maps" using w by (auto simp: walkable_def dest: ranges_okD(1))
  note st = walk_step [OF w p]
  have "(if fst e = at then (at, p\<lparr>mp_readable := rd, mp_writable := wr\<rparr>) else e) =
    (if within at (at + mp_size p) e then (fst e, (snd e)\<lparr>mp_readable := rd, mp_writable := wr\<rparr>) else e)" if e: "e \<in> set maps" for e
  proof (cases "fst e = at")
    case True
    then have "snd e = p" using om_inv_find [OF om e] p by simp
    then show ?thesis using True st(1) by simp
  next
    case False
    then have "\<not> within at (at + mp_size p) e" using st(3) [of "fst e"] e by (auto simp: not_less order_le_less)
    then show ?thesis using False by (simp only: if_False)
  qed
  then show ?thesis unfolding om_set_old [OF om p] repaint_def by simp
qed

text \<open>The mappings that start in a range leave no gap in it.\<close>

definition covered :: "(u64, mapping) omap \<Rightarrow> u64 \<Rightarrow> u64 \<Rightarrow> bool" where
  "covered maps lo hi \<longleftrightarrow> (\<forall>x. unat lo \<le> x \<and> x < unat hi \<longrightarrow>
     (\<exists>k p. om_find maps k = Some p \<and> lo \<le> k \<and> k < hi \<and> unat k \<le> x \<and> x < unat k + unat (mp_size p) \<and>
        unat k + unat (mp_size p) \<le> unat hi))"

lemma access_loop_spec:
  assumes "walkable maps" "at \<le> end_va"
  shows "\<exists>r c. access_loop end_va rd wr at maps = Some (r, repaint at c rd wr maps) \<and> at \<le> c \<and> c \<le> end_va \<and>
    (r = Inr () \<and> c = end_va \<and> covered maps at end_va \<or> r = Inl (Throw InvalidValue))"
  using assms
proof (induction "2 ^ 64 - unat at" arbitrary: at maps rule: less_induct)
  case less
  note w = less.prems(1)
  have stop: ?case if "access_loop end_va rd wr at maps = Some (Inl (Throw InvalidValue), maps)"
    using that less.prems(2) by (intro exI [of _ "Inl (Throw InvalidValue)"] exI [of _ at]) (simp add: repaint_none)
  show ?case
  proof (cases "at < end_va")
    case False
    then have "at = end_va" using less.prems(2) by simp
    then show ?thesis by (subst access_loop.simps) (auto simp: repaint_none covered_def intro!: exI [of _ end_va])
  next
    case True
    show ?thesis
    proof (cases "om_find maps at")
      case None
      then show ?thesis using True by (intro stop) (subst access_loop.simps, simp)
    next
      case (Some p)
      note st = walk_step [OF w Some]
      define nxt where "nxt = at + mp_size p"
      define maps1 where "maps1 = repaint at nxt rd wr maps"
      show ?thesis
      proof (cases "mp_size p > end_va - at")
        case False
        have le: "nxt \<le> end_va"
          using False True st(2) unat_sub64 [of at end_va] by (simp add: nxt_def u64_simps not_less)
        have dec: "2 ^ 64 - unat nxt < 2 ^ 64 - unat at"
          using st(1,2) unat_u64_lt [of nxt] by (simp add: nxt_def u64_simps)
        have lt: "at < nxt" using st(1) by (simp add: nxt_def)
        have w1: "walkable maps1" unfolding maps1_def by (rule walkable_repaint [OF w])
        obtain r c where rc: "access_loop end_va rd wr nxt maps1 = Some (r, repaint nxt c rd wr maps1)" "nxt \<le> c" "c \<le> end_va"
          "r = Inr () \<and> c = end_va \<and> covered maps1 nxt end_va \<or> r = Inl (Throw InvalidValue)"
          using less.hyps [OF dec w1 le] by blast
        have "access_loop end_va rd wr at maps = Some (r, repaint at c rd wr maps)"
          using True Some False rc(1) paint_one [OF w Some, where rd = rd and wr = wr] repaint_repaint [of at nxt c rd wr maps] lt rc(2)
          by (subst access_loop.simps) (simp add: maps1_def nxt_def)
        moreover have "covered maps at end_va" if cov: "covered maps1 nxt end_va"
          unfolding covered_def
        proof (intro allI impI)
          fix x assume x: "unat at \<le> x \<and> x < unat end_va"
          show "\<exists>k p. om_find maps k = Some p \<and> at \<le> k \<and> k < end_va \<and> unat k \<le> x \<and> x < unat k + unat (mp_size p) \<and>
            unat k + unat (mp_size p) \<le> unat end_va"
          proof (cases "x < unat nxt")
            case True
            then show ?thesis using Some x le \<open>at < end_va\<close> st(2) by (intro exI [of _ at] exI [of _ p]) (simp add: nxt_def u64_simps)
          next
            case False
            then obtain k q where k: "om_find maps1 k = Some q" "nxt \<le> k" "k < end_va" "unat k \<le> x" "x < unat k + unat (mp_size q)"
              "unat k + unat (mp_size q) \<le> unat end_va"
              using cov x unfolding covered_def by (metis not_less)
            obtain p' where "om_find maps k = Some p'" "mp_size p' = mp_size q" using repaint_size k(1) unfolding maps1_def by blast
            then show ?thesis using k(2-) lt by (intro exI [of _ k] exI [of _ p']) auto
          qed
        qed
        ultimately show ?thesis using rc(2-4) lt by (intro exI [of _ r] exI [of _ c]) auto
      qed (use True Some in \<open>intro stop, subst access_loop.simps, simp\<close>)
    qed
  qed
qed

lemma maps_ok_repaint:
  assumes "maps_ok m"
  shows "maps_ok (m\<lparr>vmaps := repaint lo hi rd wr (vmaps m)\<rparr>)"
proof -
  have "ranges_ok mp_size (repaint lo hi rd wr (vmaps m))" using assms ranges_ok_repaint by (simp add: maps_ok_def)
  moreover have "length (repaint lo hi rd wr (vmaps m)) < 2 ^ 32" using assms by (simp add: maps_ok_def repaint_def)
  moreover have "0 < unat (mp_size p) \<and> mp_offset p = 0 \<and>
       (\<exists>b n. om_find (reserved m) b = Some n \<and> unat b \<le> unat va \<and> unat va + unat (mp_size p) \<le> unat b + unat n) \<and>
       (\<exists>h. om_find (handles m) (mp_handle p) = Some h \<and> unat (mp_size p) \<le> unat (vh_size h))"
    if p: "om_find (repaint lo hi rd wr (vmaps m)) va = Some p" for va p
  proof -
    obtain q where q: "om_find (vmaps m) va = Some q" "mp_size q = mp_size p" "mp_offset q = mp_offset p" "mp_handle q = mp_handle p"
      using repaint_size [OF p] by blast
    show ?thesis using assms q(1) unfolding maps_ok_def q(2-4) [symmetric] by blast
  qed
  ultimately show ?thesis unfolding maps_ok_def by simp
qed

lemma set_access_locked_inv:
  assumes inv: "mm_inv Z m" and r: "set_access_locked va sz rd wr m = (res, m')"
  shows "mm_inv Z m'" "res = Inl e \<Longrightarrow> e = Throw InvalidValue"
    "\<exists>c. m' = m\<lparr>vmaps := repaint va c rd wr (vmaps m)\<rparr> \<and> (res = Inr () \<longrightarrow> c = va + sz) \<and>
       (res = Inr () \<and> va \<le> va + sz \<longrightarrow> covered (vmaps m) va (va + sz))"
proof -
  note parts = mm_invD [OF inv]
  have w: "walkable (vmaps m)" by (rule walkable_maps [OF parts(8,5,3)])
  have key: "\<exists>c. m' = m\<lparr>vmaps := repaint va c rd wr (vmaps m)\<rparr> \<and> (res = Inr () \<and> c = va + sz \<and> (va \<le> va + sz \<longrightarrow> covered (vmaps m) va (va + sz)) \<or>
      res = Inl (Throw InvalidValue))"
  proof (cases "sz = 0 \<or> sz mod kVmmGranularity \<noteq> 0 \<or> va mod kVmmGranularity \<noteq> 0")
    case True
    then have "m' = m" "res = Inl (Throw InvalidValue)" using r by (simp_all add: set_access_locked_def)
    then show ?thesis by (intro exI [of _ va]) (simp add: repaint_none)
  next
    case False
    show ?thesis
    proof (cases "va \<le> va + sz")
      case True
      obtain x c where x: "access_loop (va + sz) rd wr va (vmaps m) = Some (x, repaint va c rd wr (vmaps m))"
        "x = Inr () \<and> c = va + sz \<and> covered (vmaps m) va (va + sz) \<or> x = Inl (Throw InvalidValue)"
        using access_loop_spec [OF w True, where rd = rd and wr = wr] by blast
      then show ?thesis using False r by (intro exI [of _ c]) (auto simp: set_access_locked_def)
    next
      case wrap: False
      then have "\<not> va < va + sz" by (meson less_imp_le)
      then have "access_loop (va + sz) rd wr va (vmaps m) = Some (Inr (), vmaps m)" by (subst access_loop.simps) (simp only: if_False)
      moreover have "repaint va (va + sz) rd wr (vmaps m) = vmaps m" using wrap by (intro repaint_none) (meson linear)
      ultimately show ?thesis using False wrap r by (intro exI [of _ "va + sz"]) (auto simp: set_access_locked_def)
    qed
  qed
  then show "res = Inl e \<Longrightarrow> e = Throw InvalidValue"
    "\<exists>c. m' = m\<lparr>vmaps := repaint va c rd wr (vmaps m)\<rparr> \<and> (res = Inr () \<longrightarrow> c = va + sz) \<and>
       (res = Inr () \<and> va \<le> va + sz \<longrightarrow> covered (vmaps m) va (va + sz))" by auto
  obtain c where m': "m' = m\<lparr>vmaps := repaint va c rd wr (vmaps m)\<rparr>" using key by blast
  have "maps_ok m'" unfolding m' by (rule maps_ok_repaint [OF parts(8)])
  moreover have "handles_ok m'" using parts(9) by (simp add: handles_ok_def m' mapped_to_repaint)
  moreover have "settings_ok m'" "handed_ok Z m'" "live_ok Z m'" "reserved_ok Z m'" "shared_ok Z m'" "apart_ok m'" "used_ok m'" "spare_ok m'" "quar_ok m'"
    using parts(2,3,4,5,6,7,10,11,12) part_cong(1,2,3,4,5,6,9,10,11) [of m' m] by (simp_all add: m')
  ultimately show "mm_inv Z m'" using parts(1,13) by (simp add: mm_inv_def) (simp add: m')
qed

lemma retain_handle_at_locked_inv:
  assumes inv: "mm_inv Z m" and r: "retain_handle_at_locked va m = (res, m')"
  shows "mm_inv Z m'" "\<exists>hid. res = Inr hid"
proof -
  have om: "om_inv (vmaps m)" using mm_invD(8) [OF inv] by (auto simp: maps_ok_def dest: ranges_okD(1))
  have "mm_inv Z m' \<and> (\<exists>hid. res = Inr hid)"
  proof (cases "om_floor (vmaps m) va")
    case None
    then show ?thesis using r inv by (auto simp: retain_handle_at_locked_def)
  next
    case (Some e)
    obtain b p where e: "om_floor (vmaps m) va = Some (b, p)" using Some by (cases e) auto
    have "om_find (vmaps m) b = Some p" using om_floor_SomeD [OF om e] by simp
    then obtain h where "om_find (handles m) (mp_handle p) = Some h" by (rule maps_okE [OF mm_invD(8) [OF inv]]) blast
    then show ?thesis
      using r e inv retain_locked_inv(1) [OF inv, of "mp_handle p"]
      by (auto simp: retain_handle_at_locked_def retain_locked_def split: if_splits)
  qed
  then show "mm_inv Z m'" "\<exists>hid. res = Inr hid" by simp_all
qed

section \<open>Exports\<close>

lemma move_out_spec:
  assumes "alloc_inv a" "backing_ok b" "host_place p sz" "al_size a = sz" "\<forall>i \<in> set is. i < chunk_count a"
    and "move_out p sz is (a, b) = (a', b')"
  shows "alloc_inv a' \<and> backing_ok b' \<and> al_size a' = sz \<and> card_valid a' = card_valid a \<and> chunk_count a' = chunk_count a \<and>
    (\<forall>k < unat sz. alloc_byte a' k = alloc_byte a k)"
  using assms
proof (induction "is" arbitrary: a b)
  case (Cons i "is")
  define old where "old = slots a ! i"
  define n where "n = min kChunkSize (unat (sz - of_nat (i * kChunkSize)))"
  define a1 where "a1 = set_slot i (file_chunk p i (\<lambda>j. if j < n then chunk_byte old j else 0)) a"
  define b1 where "b1 = (case old of Real c \<Rightarrow> release c kChunkSize b | _ \<Rightarrow> b)"
  have i: "i < chunk_count a" "i < length (slots a)" using Cons.prems(1,5) by (auto simp: alloc_inv_def)
  have ok: "slot_ok (unat sz - i * kChunkSize) old" using Cons.prems(1,4) i by (simp add: alloc_inv_def old_def)
  have "i < (unat sz + kChunkSize - 1) div kChunkSize" using Cons.prems(1,4) i(1) by (simp add: alloc_inv_def)
  then have start: "i * kChunkSize < unat sz" by (rule chunk_start_less)
  have "unat (of_nat (i * kChunkSize) :: u64) = i * kChunkSize"
    using start unat_u64_lt [of sz] by (intro unat_of_nat64) linarith
  then have "unat (sz - of_nat (i * kChunkSize)) = unat sz - i * kChunkSize"
    using start unat_sub64 [of "of_nat (i * kChunkSize)" sz] by simp
  then have n: "n = min kChunkSize (unat sz - i * kChunkSize)" by (simp add: n_def)
  have same: "(if j < n then chunk_byte old j else 0) = chunk_byte old j" if "j < kChunkSize" for j
    using ok that n by (cases old) auto
  have "ptr_ok \<lparr>rc_ptr = p + of_nat (i * kChunkSize), rc_bytes = f\<rparr>" for f by (rule file_chunk_ok [OF Cons.prems(3) start])
  then have "slot_ok (unat sz - i * kChunkSize) (file_chunk p i (\<lambda>j. if j < n then chunk_byte old j else 0))"
    using n by (simp add: file_chunk_def)
  then have inv1: "alloc_inv a1" unfolding a1_def using Cons.prems(4) by (intro alloc_inv_set_slot Cons.prems(1) i(1)) simp
  have b1: "backing_ok b1" using Cons.prems(2) ok by (auto simp: b1_def intro: bk.rel_inv split: chunk.splits)
  have shape: "al_size a1 = sz" "card_valid a1 = card_valid a" "chunk_count a1 = chunk_count a"
    using Cons.prems(4) by (simp_all add: a1_def set_slot_def)
  have bytes: "alloc_byte a1 k = alloc_byte a k" for k
    using same [of "k mod kChunkSize"] unfolding a1_def alloc_byte_set_slot [OF i(2)]
    by (simp add: file_chunk_def alloc_byte_def old_def kChunkSize_pos)
  have "move_out p sz is (a1, b1) = (a', b')" using Cons.prems(6) by (simp only: move_out.simps a1_def b1_def old_def n_def Let_def)
  from Cons.IH [OF inv1 b1 Cons.prems(3) shape(1) _ this] show ?case using Cons.prems(5) shape bytes by simp
qed simp

lemma export_locked_inv:
  assumes inv: "mm_inv Z m" and host: "\<And>p h. host = Some p \<Longrightarrow> om_find (handles m) hid = Some h \<Longrightarrow> host_place p (vh_size h)"
    and r: "export_locked hid memfd host dup m = (res, m')"
  shows "mm_inv Z m'" "res = Inl e \<Longrightarrow> \<exists>x. e = Throw x"
    "om_find (handles m) hid = Some h \<Longrightarrow> \<exists>h'. om_find (handles m') hid = Some h' \<and> vh_size h' = vh_size h \<and>
       (\<forall>k < unat (vh_size h). alloc_byte (vh_mem h') k = alloc_byte (vh_mem h) k)"
proof -
  note parts = mm_invD [OF inv]
  have "mm_inv Z m' \<and> (\<forall>e. res = Inl e \<longrightarrow> (\<exists>x. e = Throw x)) \<and>
    (\<forall>h. om_find (handles m) hid = Some h \<longrightarrow> (\<exists>h'. om_find (handles m') hid = Some h' \<and> vh_size h' = vh_size h \<and>
       (\<forall>k < unat (vh_size h). alloc_byte (vh_mem h') k = alloc_byte (vh_mem h) k)))"
  proof (cases "\<exists>h fd p. om_find (handles m) hid = Some h \<and> vh_types h AND 1 \<noteq> 0 \<and> vh_fd h < 0 \<and> memfd = Some fd \<and> host = Some p")
    case False
    then have "m' = m \<and> (\<forall>e. res = Inl e \<longrightarrow> (\<exists>x. e = Throw x))"
      using r by (cases "om_find (handles m) hid"; cases memfd; cases host; cases dup)
        (auto simp: export_locked_def split: if_splits)
    then show ?thesis using inv by auto
  next
    case True
    then obtain h fd p where h: "om_find (handles m) hid = Some h" "vh_types h AND 1 \<noteq> 0" "vh_fd h < 0" "memfd = Some fd" "host = Some p" by blast
    obtain a b where ab: "move_out p (vh_size h) [0 ..< chunk_count (vh_mem h)] (vh_mem h, backing_st m) = (a, b)" by fastforce
    note fit = handle_fitD [OF parts(9) h(1)]
    have sp: "alloc_inv a \<and> backing_ok b \<and> al_size a = vh_size h \<and> card_valid a = card_valid (vh_mem h) \<and> chunk_count a = chunk_count (vh_mem h) \<and>
      (\<forall>k < unat (vh_size h). alloc_byte a k = alloc_byte (vh_mem h) k)"
      using move_out_spec [OF _ parts(1) host [OF h(5,1)] _ _ ab] fit by (simp add: handle_fit_def)
    define h' where "h' = h\<lparr>vh_mem := a\<lparr>external := True\<rparr>, vh_fd := fd\<rparr>"
    have "m' = m\<lparr>handles := om_set hid h' (handles m), backing_st := b\<rparr>" "\<forall>e. res = Inl e \<longrightarrow> (\<exists>x. e = Throw x)"
      using r h ab by (auto simp: export_locked_def to_file_def h'_def split: option.splits)
    moreover have "alloc_inv (a\<lparr>external := True\<rparr>) = alloc_inv a" by (simp add: alloc_inv_def)
    then have "handle_fit h'" using sp fit by (simp add: handle_fit_def h'_def)
    then have "mm_inv Z (m\<lparr>handles := om_set hid h' (handles m), backing_st := b\<rparr>)"
      by (intro set_handle_inv [OF inv h(1)]) (use sp in \<open>simp_all add: h'_def\<close>)
    moreover have "vh_size h' = vh_size h" "alloc_byte (vh_mem h') k = alloc_byte a k" for k by (simp_all add: h'_def alloc_byte_def)
    ultimately show ?thesis using sp h(1) by simp
  qed
  then show "mm_inv Z m'" "res = Inl e \<Longrightarrow> \<exists>x. e = Throw x"
    "om_find (handles m) hid = Some h \<Longrightarrow> \<exists>h'. om_find (handles m') hid = Some h' \<and> vh_size h' = vh_size h \<and>
       (\<forall>k < unat (vh_size h). alloc_byte (vh_mem h') k = alloc_byte (vh_mem h) k)" by blast+
qed

end
