(* ===== verification/Resolve.thy ===== *)
theory Resolve
  imports Vmm_Maps
begin

text \<open>
  Which memory an address names: \<^verbatim>\<open>resolve_mapped\<close>, \<^verbatim>\<open>resolve\<close> and \<^verbatim>\<open>resolve_mut\<close> of
  \<^verbatim>\<open>src/core/memory.cpp\<close>. A reference to an \<^verbatim>\<open>Allocation\<close> is the table entry that holds it. The
  message of an error is left out, its code is kept. The card gate is null.
\<close>

section \<open>Definitions\<close>

datatype place = InLive u64 | InHandle u64

definition alloc_of :: "place \<Rightarrow> mm \<Rightarrow> allocation option" where
  "alloc_of pl m = (case pl of
     InLive b \<Rightarrow> om_find (live m) b
   | InHandle h \<Rightarrow> map_option vh_mem (om_find (handles m) h))"

definition in_reservation :: "u64 \<Rightarrow> mm \<Rightarrow> bool" where
  "in_reservation addr m = (case om_floor (reserved m) addr of
     Some (b, n) \<Rightarrow> addr - b < n
   | None \<Rightarrow> False)"

definition resolve_mapped :: "u64 \<Rightarrow> u64 \<Rightarrow> bool \<Rightarrow> mm \<Rightarrow> (place \<times> u64) option result" where
  "resolve_mapped addr len writing m =
     (if vmaps m = [] \<and> reserved m = [] then Inr None
      else case om_floor (vmaps m) addr of
        Some (va, p) \<Rightarrow>
          if addr - va < mp_size p
          then if len > va + mp_size p - addr then Inl (Throw OutOfBounds)
            else if \<not> mp_readable p \<and> \<not> mp_writable p then Inl (Throw InvalidPointer)
            else if writing \<and> \<not> mp_writable p then Inl (Throw InvalidPointer)
            else if om_find (handles m) (mp_handle p) = None then Inl (Throw Internal)
            else Inr (Some (InHandle (mp_handle p), va - mp_offset p))
          else if in_reservation addr m then Inl (Throw InvalidPointer) else Inr None
      | None \<Rightarrow> if in_reservation addr m then Inl (Throw InvalidPointer) else Inr None)"

text \<open>What is said of an address that is in no allocation and in no mapping.\<close>

definition stray_access :: "u64 \<Rightarrow> mm \<Rightarrow> Err" where
  "stray_access addr m =
     (if (case om_floor (freed (quar m)) addr of Some (b, r) \<Rightarrow> addr < b + fr_size r | None \<Rightarrow> False) then UseAfterFree
      else if addr \<ge> va_base m \<and> addr < high_water m then UseAfterFree
      else if \<not> is_device_va addr \<and> (\<exists>r \<in> set (hm_retired (hosts m)). addr \<ge> hm_base r \<and> addr - hm_base r < hm_len r) then UseAfterFree
      else InvalidPointer)"

definition extent :: "bool \<Rightarrow> allocation \<Rightarrow> mm \<Rightarrow> u64" where
  "extent page_slack a m = (if page_slack \<and> page m \<noteq> 0 then (al_size a + page m - 1) div page m * page m else al_size a)"

definition padded_size :: "allocation \<Rightarrow> mm \<Rightarrow> u64" where
  "padded_size a m = (let align = max (alloc_align m) (page m) in (al_size a + align - 1) div align * align)"

definition resolve :: "u64 \<Rightarrow> u64 \<Rightarrow> bool \<Rightarrow> bool \<Rightarrow> mm \<Rightarrow> (place \<times> u64) result" where
  "resolve addr len writing page_slack m =
     (let rest = (case resolve_mapped addr len writing m of
          Inl e \<Rightarrow> Inl e
        | Inr (Some r) \<Rightarrow> Inr r
        | Inr None \<Rightarrow> Inl (Throw (stray_access addr m)))
      in case om_floor (live m) addr of
        Some (base, a) \<Rightarrow>
          if addr < base + extent page_slack a m
          then if len > base + extent page_slack a m - addr then Inl (Throw OutOfBounds) else Inr (InLive base, base)
          else if addr < base + padded_size a m then Inl (Throw OutOfBounds)
          else rest
      | None \<Rightarrow> rest)"

definition resolve_mut :: "u64 \<Rightarrow> u64 \<Rightarrow> mm \<Rightarrow> (place \<times> u64) result" where
  "resolve_mut addr len m = resolve addr len True False m"

section \<open>Zones\<close>

lemma zone_top: "handed_ok Z m \<Longrightarrow> (b, n) \<in> set Z \<Longrightarrow> unat b + n < 2 ^ 64"
  using handed_below [of Z m b n] unat_u64_lt [of "next_va m"] by fastforce

text \<open>An address of a zone is below every other entry above it, so the entry found for it is the zone's own.\<close>

lemma floor_in_zone:
  assumes h: "handed_ok Z m" "(b, n) \<in> set Z" "unat b \<le> unat addr" "unat addr < unat b + n"
    and t: "om_inv t" "om_find t b = Some v" "\<And>c w. om_find t c = Some w \<Longrightarrow> \<exists>k. (c, k) \<in> set Z"
  shows "om_floor t addr = Some (b, v)"
  unfolding om_floor_Some [OF t(1)]
proof (intro conjI ballI impI)
  show "om_find t b = Some v" by (rule t(2))
  show "b \<le> addr" using h(3) by (simp add: u64_simps)
  fix c assume c: "c \<in> om_keys t" "c \<le> addr"
  then obtain w where "om_find t c = Some w" by blast
  then obtain k where k: "(c, k) \<in> set Z" using t(3) by blast
  show "c \<le> b"
  proof (cases "c = b")
    case False
    then have "unat b + n \<le> unat c \<or> unat c + k \<le> unat b" using handed_apart [OF h(1,2) k] by auto
    then show ?thesis using c(2) h(4) by (auto simp: u64_simps)
  qed simp
qed

lemma floor_off_zone:
  assumes h: "handed_ok Z m" "(b, n) \<in> set Z" "unat b \<le> unat addr" "unat addr < unat b + n"
    and t: "om_inv t" "om_find t b = None" "\<And>c w. om_find t c = Some w \<Longrightarrow> \<exists>k. (c, k) \<in> set Z \<and> unat (f w) \<le> k"
    and f: "om_floor t addr = Some (c, w)"
  shows "unat c + unat (f w) \<le> unat addr"
proof -
  have c: "om_find t c = Some w" "c \<le> addr" using om_floor_SomeD [OF t(1) f] by auto
  obtain k where k: "(c, k) \<in> set Z" "unat (f w) \<le> k" using t(3) [OF c(1)] by blast
  have "c \<noteq> b" using c(1) t(2) by auto
  then have "unat b + n \<le> unat c \<or> unat c + k \<le> unat b" using handed_apart [OF h(1,2) k(1)] by auto
  then show ?thesis using c(2) h(3,4) k(2) by (auto simp: u64_simps)
qed

lemma page_dvd_align: "settings_ok m \<Longrightarrow> page m \<noteq> 0 \<Longrightarrow> unat (page m) dvd base_align m"
  unfolding base_align_def settings_ok_def
  by (metis linorder_linear max.absorb1 max.absorb2 power_of_two_dvd dvd_refl)

lemma extent_padded:
  assumes inv: "mm_inv Z m" and low: "low_half m" and a: "om_find (live m) b = Some a"
  obtains n where "(b, n) \<in> set Z" "unat (padded_size a m) \<le> n" "unat (al_size a) \<le> unat (extent s a m)"
    "unat (extent s a m) \<le> unat (padded_size a m)" "0 < unat (al_size a)" "alloc_inv a"
    "unat (extent s a m) \<le> chunk_count a * kChunkSize" "unat b + n < 2 ^ 64" "unat b + n \<le> unat (next_va m)"
proof -
  note parts = mm_invD [OF inv]
  obtain n where n: "(b, n) \<in> set Z" "round_up_nat (unat (al_size a)) (base_align m) \<le> n"
    and ai: "alloc_inv a" "0 < unat (al_size a)"
    using parts(4) a by (auto simp: live_ok_def)
  note top = handed_below [OF parts(3) n(1)]
  let ?A = "max (alloc_align m) (page m)"
  have A: "unat ?A = base_align m" by (simp add: base_align_def unat_max)
  have pos: "0 < base_align m" by (rule base_align_pos [OF parts(2)])
  have sz: "unat (al_size a) \<le> round_up_nat (unat (al_size a)) (base_align m)" by (rule round_up_nat_ge [OF pos])
  have half: "round_up_nat (unat (al_size a)) (base_align m) \<le> 2 ^ 63" using n(2) top low by (simp add: low_half_def)
  have "base_align m dvd round_up_nat (unat (al_size a)) (base_align m)" by (rule round_up_nat_dvd)
  then have "base_align m \<le> round_up_nat (unat (al_size a)) (base_align m)" using sz ai(2) by (intro dvd_imp_le) auto
  then have fits: "unat (al_size a) + base_align m \<le> 2 ^ 64" using half sz by simp
  have pad: "unat (padded_size a m) = round_up_nat (unat (al_size a)) (base_align m)"
    unfolding padded_size_def Let_def using round_up64 [of ?A "al_size a"] A pos fits by simp
  have ext: "unat (al_size a) \<le> unat (extent s a m) \<and> unat (extent s a m) \<le> unat (padded_size a m) \<and>
     unat (extent s a m) \<le> chunk_count a * kChunkSize"
  proof (cases "s \<and> page m \<noteq> 0")
    case False
    then show ?thesis using sz pad alloc_inv_cover [OF ai(1), unfolded mult.commute [of kChunkSize]] by (auto simp: extent_def)
  next
    case True
    have pw: "power_of_two (page m)" "unat (page m) \<le> kChunkSize" using parts(2) True by (auto simp: settings_ok_def)
    have pp: "0 < unat (page m)" using pw(1) by (auto simp: power_of_two_def)
    have pd: "unat (page m) dvd base_align m" using page_dvd_align [OF parts(2)] True by blast
    then have "unat (page m) \<le> base_align m" using pos by (intro dvd_imp_le)
    then have e: "unat (extent s a m) = round_up_nat (unat (al_size a)) (unat (page m))"
      unfolding extent_def using True round_up64 [OF pp, of "al_size a"] fits by simp
    have "round_up_nat (unat (al_size a)) (unat (page m)) \<le> round_up_nat (unat (al_size a)) (base_align m)"
      by (rule round_up_nat_least [OF pp dvd_trans [OF pd round_up_nat_dvd] sz])
    moreover have "unat (page m) dvd chunk_count a * kChunkSize"
    proof -
      have "power_of_two (of_nat kChunkSize)" unfolding power_of_two_def by (rule exI [of _ 16]) (simp add: kChunkSize_def)
      moreover have "unat (of_nat kChunkSize :: u64) = kChunkSize" by (simp add: kChunkSize_def)
      ultimately show ?thesis using power_of_two_dvd [OF pw(1), of "of_nat kChunkSize"] pw(2) by simp
    qed
    then have "round_up_nat (unat (al_size a)) (unat (page m)) \<le> chunk_count a * kChunkSize"
      using alloc_inv_cover [OF ai(1), unfolded mult.commute [of kChunkSize]] by (intro round_up_nat_least [OF pp])
    ultimately show ?thesis using e pad round_up_nat_ge [OF pp] by simp
  qed
  show thesis by (rule that [OF n(1)]) (use n(2) pad ext ai top zone_top [OF parts(3) n(1)] in auto)
qed

section \<open>Where each address goes\<close>

text \<open>The part of \<^verbatim>\<open>resolve\<close> after the allocations.\<close>

definition resolve_rest :: "u64 \<Rightarrow> u64 \<Rightarrow> bool \<Rightarrow> mm \<Rightarrow> (place \<times> u64) result" where
  "resolve_rest addr len writing m = (case resolve_mapped addr len writing m of
          Inl e \<Rightarrow> Inl e
        | Inr (Some r) \<Rightarrow> Inr r
        | Inr None \<Rightarrow> Inl (Throw (stray_access addr m)))"

lemma live_zones:
  assumes "live_ok Z m"
  shows "om_inv (live m)" "om_find (live m) c = Some w \<Longrightarrow> \<exists>k. (c, k) \<in> set Z"
  using assms by (auto simp: live_ok_def)

lemma resolve_live_eq:
  assumes inv: "mm_inv Z m" "low_half m" and a: "om_find (live m) b = Some a"
    and addr: "unat b \<le> unat addr" "unat addr < unat b + unat (padded_size a m)"
  shows "resolve addr len w s m =
    (if unat addr < unat b + unat (extent s a m) \<and> unat addr + unat len \<le> unat b + unat (extent s a m)
     then Inr (InLive b, b) else Inl (Throw OutOfBounds))"
proof -
  note parts = mm_invD [OF inv(1)]
  obtain n where n: "(b, n) \<in> set Z" "unat (padded_size a m) \<le> n" "unat (extent s a m) \<le> unat (padded_size a m)" "unat b + n < 2 ^ 64"
    by (rule extent_padded [OF inv a]) blast
  have f: "om_floor (live m) addr = Some (b, a)"
    by (rule floor_in_zone [OF parts(3) n(1) addr(1) _ live_zones(1) [OF parts(4)] a live_zones(2) [OF parts(4)]]) (use addr(2) n(2) in linarith)
  have sums: "unat (b + extent s a m) = unat b + unat (extent s a m)" "unat (b + padded_size a m) = unat b + unat (padded_size a m)"
    using n(2,3,4) by (simp_all add: unat_add64)
  show ?thesis
  proof (cases "unat addr < unat b + unat (extent s a m)")
    case True
    then have "unat (b + extent s a m - addr) = unat b + unat (extent s a m) - unat addr" using sums(1) unat_sub64 [of addr "b + extent s a m"] by simp
    then show ?thesis using f sums True by (auto simp: resolve_def Let_def u64_simps)
  next
    case False
    then show ?thesis using f sums addr(2) by (simp add: resolve_def Let_def u64_simps)
  qed
qed

lemma resolve_rest_eq:
  assumes inv: "mm_inv Z m" "low_half m"
    and off: "\<And>c a. om_floor (live m) addr = Some (c, a) \<Longrightarrow> unat c + unat (padded_size a m) \<le> unat addr"
  shows "resolve addr len w s m = resolve_rest addr len w m"
proof (cases "om_floor (live m) addr")
  case None
  then show ?thesis by (simp add: resolve_def resolve_rest_def Let_def)
next
  case (Some e)
  obtain c a where f: "om_floor (live m) addr = Some (c, a)" using Some by (cases e) auto
  have a: "om_find (live m) c = Some a"
    using om_floor_SomeD [OF live_zones(1) [OF mm_invD(4) [OF inv(1)]] f] by simp
  obtain n where n: "unat (padded_size a m) \<le> n" "unat (extent s a m) \<le> unat (padded_size a m)" "unat c + n < 2 ^ 64"
    by (rule extent_padded [OF inv a]) blast
  then have sums: "unat (c + extent s a m) = unat c + unat (extent s a m)" "unat (c + padded_size a m) = unat c + unat (padded_size a m)"
    by (simp_all add: unat_add64)
  have "\<not> addr < c + extent s a m" "\<not> addr < c + padded_size a m"
    using off [OF f] sums n(2) by (simp_all add: u64_simps)
  then show ?thesis using f by (simp add: resolve_def resolve_rest_def Let_def)
qed

lemma live_off_zone:
  assumes inv: "mm_inv Z m" "low_half m" and z: "(b, n) \<in> set Z" "unat b \<le> unat addr" "unat addr < unat b + n" "om_find (live m) b = None"
    and f: "om_floor (live m) addr = Some (c, a)"
  shows "unat c + unat (padded_size a m) \<le> unat addr"
proof (rule floor_off_zone [OF mm_invD(3) [OF inv(1)] z(1-3) live_zones(1) [OF mm_invD(4) [OF inv(1)]] z(4) _ f])
  fix c w assume w: "om_find (live m) c = Some w"
  show "\<exists>k. (c, k) \<in> set Z \<and> unat (padded_size w m) \<le> k" by (rule extent_padded [OF inv w]) blast
qed

lemma mapping_reserved:
  assumes "mm_inv Z m" "om_find (vmaps m) va = Some p"
  obtains b n h where "(b, unat n) \<in> set Z" "om_find (reserved m) b = Some n" "unat b \<le> unat va" "unat va + unat (mp_size p) \<le> unat b + unat n"
    "0 < unat (mp_size p)" "mp_offset p = 0" "om_find (handles m) (mp_handle p) = Some h" "unat (mp_size p) \<le> unat (vh_size h)"
    "unat va + unat (mp_size p) < 2 ^ 64" "om_find (live m) b = None"
proof -
  note parts = mm_invD [OF assms(1)]
  obtain b n h where *: "0 < unat (mp_size p)" "mp_offset p = 0" "om_find (reserved m) b = Some n" "unat b \<le> unat va"
    "unat va + unat (mp_size p) \<le> unat b + unat n" "om_find (handles m) (mp_handle p) = Some h" "unat (mp_size p) \<le> unat (vh_size h)"
    by (rule maps_okE [OF parts(8) assms(2)])
  have z: "(b, unat n) \<in> set Z" using parts(5) *(3) by (simp add: reserved_ok_def)
  have "om_find (live m) b = None"
    using parts(7) *(3) by (cases "om_find (live m) b") (auto simp: apart_ok_def)
  then show thesis using that [OF z *(3,4,5,1,2,6,7)] zone_top [OF parts(3) z] *(5) by linarith
qed

lemma floor_mapping:
  assumes ro: "ranges_ok mp_size t" and p: "om_find t va = Some p" "unat va \<le> unat addr" "unat addr < unat va + unat (mp_size p)"
  shows "om_floor t addr = Some (va, p)"
  unfolding om_floor_Some [OF ranges_okD(1) [OF ro]]
proof (intro conjI ballI impI)
  show "om_find t va = Some p" by (rule p(1))
  show "va \<le> addr" using p(2) by (simp add: u64_simps)
  fix c assume c: "c \<in> om_keys t" "c \<le> addr"
  then obtain q where q: "om_find t c = Some q" by blast
  show "c \<le> va"
  proof (rule ccontr)
    assume "\<not> c \<le> va"
    then have "unat va + unat (mp_size p) \<le> unat c" using ranges_okD(3) [OF ro p(1) q] by simp
    then show False using c(2) p(3) by (simp add: u64_simps)
  qed
qed

lemma resolve_map_eq:
  assumes inv: "mm_inv Z m" "low_half m" and p: "om_find (vmaps m) va = Some p"
    and addr: "unat va \<le> unat addr" "unat addr < unat va + unat (mp_size p)"
  shows "resolve addr len w s m =
    (if unat va + unat (mp_size p) < unat addr + unat len then Inl (Throw OutOfBounds)
     else if \<not> mp_readable p \<and> \<not> mp_writable p \<or> w \<and> \<not> mp_writable p then Inl (Throw InvalidPointer)
     else Inr (InHandle (mp_handle p), va))"
proof -
  note parts = mm_invD [OF inv(1)]
  obtain b h and n :: u64 where r: "(b, unat n) \<in> set Z" "unat b \<le> unat va" "unat va + unat (mp_size p) \<le> unat b + unat n"
    "mp_offset p = 0" "om_find (handles m) (mp_handle p) = Some h" "unat va + unat (mp_size p) < 2 ^ 64" "om_find (live m) b = None"
    by (rule mapping_reserved [OF inv(1) p]) blast
  have "resolve addr len w s m = resolve_rest addr len w m"
    by (rule resolve_rest_eq [OF inv], rule live_off_zone [OF inv r(1) _ _ r(7)]) (use r addr in auto)
  moreover have "om_floor (vmaps m) addr = Some (va, p)"
    by (rule floor_mapping [OF _ p addr]) (use parts(8) in \<open>simp add: maps_ok_def\<close>)
  moreover have "addr - va < mp_size p" using offset_test64 [of va "mp_size p" addr] r(6) addr by simp
  moreover have "len > va + mp_size p - addr \<longleftrightarrow> unat va + unat (mp_size p) < unat addr + unat len"
    using r(6) addr unat_sub64 [of addr "va + mp_size p"] by (auto simp: u64_simps unat_add64)
  moreover have "vmaps m \<noteq> []" using p by auto
  ultimately show ?thesis using r(4,5) by (simp add: resolve_rest_def resolve_mapped_def)
qed

lemma not_in_mapping:
  assumes inv: "mm_inv Z m" and no: "\<And>va p. om_find (vmaps m) va = Some p \<Longrightarrow> unat addr < unat va \<or> unat va + unat (mp_size p) \<le> unat addr"
  shows "resolve_mapped addr len w m = (if in_reservation addr m then Inl (Throw InvalidPointer) else Inr None)"
proof -
  have om: "om_inv (vmaps m)" using mm_invD(8) [OF inv] by (auto simp: maps_ok_def dest: ranges_okD(1))
  have "\<not> addr - va < mp_size p" if f: "om_floor (vmaps m) addr = Some (va, p)" for va p
  proof -
    have p: "om_find (vmaps m) va = Some p" using om_floor_SomeD [OF om f] by simp
    have "unat va + unat (mp_size p) < 2 ^ 64" by (rule mapping_reserved [OF inv p])
    then show ?thesis using offset_test64 [of va "mp_size p" addr] no [OF p] by auto
  qed
  then show ?thesis by (auto simp: resolve_mapped_def in_reservation_def split: option.splits)
qed

lemma in_reservation_iff:
  assumes inv: "mm_inv Z m"
  shows "in_reservation addr m \<longleftrightarrow> (\<exists>b n. om_find (reserved m) b = Some n \<and> unat b \<le> unat addr \<and> unat addr < unat b + unat n)"
proof -
  note parts = mm_invD [OF inv]
  have om: "om_inv (reserved m)" and z: "\<And>b n. om_find (reserved m) b = Some n \<Longrightarrow> (b, unat n) \<in> set Z"
    using parts(5) by (simp_all add: reserved_ok_def)
  have test: "addr - b < n \<longleftrightarrow> unat b \<le> unat addr \<and> unat addr < unat b + unat n" if "om_find (reserved m) b = Some n" for b n
    using zone_top [OF parts(3) z [OF that]] by (intro offset_test64) simp
  show ?thesis
  proof
    assume "in_reservation addr m"
    then obtain b n where f: "om_floor (reserved m) addr = Some (b, n)" and l: "addr - b < n"
      by (auto simp: in_reservation_def split: option.splits)
    have "om_find (reserved m) b = Some n" using om_floor_SomeD [OF om f] by simp
    then show "\<exists>b n. om_find (reserved m) b = Some n \<and> unat b \<le> unat addr \<and> unat addr < unat b + unat n" using test l by blast
  next
    assume "\<exists>b n. om_find (reserved m) b = Some n \<and> unat b \<le> unat addr \<and> unat addr < unat b + unat n"
    then obtain b n where b: "om_find (reserved m) b = Some n" "unat b \<le> unat addr" "unat addr < unat b + unat n" by blast
    have "om_floor (reserved m) addr = Some (b, n)"
      by (rule floor_in_zone [OF parts(3) z [OF b(1)] b(2,3) om b(1)]) (use z in blast)
    then show "in_reservation addr m" using test [OF b(1)] b(2,3) by (simp add: in_reservation_def)
  qed
qed

lemma stray_below_top: "handed_ok Z m \<Longrightarrow> (b, n) \<in> set Z \<Longrightarrow> unat b \<le> unat addr \<Longrightarrow> unat addr < unat b + n \<Longrightarrow> stray_access addr m = UseAfterFree"
  using handed_below [of Z m b n] by (auto simp: stray_access_def handed_ok_def u64_simps)

lemma other_reservation:
  assumes inv: "mm_inv Z m" and z: "(b, n) \<in> set Z" "unat b \<le> unat addr" "unat addr < unat b + n" "om_find (reserved m) b = None"
  shows "\<not> in_reservation addr m" "om_find (vmaps m) va = Some p \<Longrightarrow> unat addr < unat va \<or> unat va + unat (mp_size p) \<le> unat addr"
proof -
  note parts = mm_invD [OF inv]
  have apart: "unat addr < unat c \<or> unat c + unat k \<le> unat addr" if c: "om_find (reserved m) c = Some k" for c k
  proof -
    have "(c, unat k) \<in> set Z" using parts(5) c by (simp add: reserved_ok_def)
    moreover have "c \<noteq> b" using c z(4) by auto
    ultimately have "unat b + n \<le> unat c \<or> unat c + unat k \<le> unat b" using handed_apart [OF parts(3) z(1)] by metis
    then show ?thesis using z(2,3) by auto
  qed
  show "\<not> in_reservation addr m" unfolding in_reservation_iff [OF inv] using apart by fastforce
  show "unat addr < unat va \<or> unat va + unat (mp_size p) \<le> unat addr" if p: "om_find (vmaps m) va = Some p"
  proof -
    obtain c k where "om_find (reserved m) c = Some k" "unat c \<le> unat va" "unat va + unat (mp_size p) \<le> unat c + unat k"
      by (rule mapping_reserved [OF inv p]) blast
    then show ?thesis using apart [of c k] by linarith
  qed
qed

lemma resolve_retired:
  assumes inv: "mm_inv Z m" "low_half m" and z: "(b, n) \<in> set Z" "unat b \<le> unat addr" "unat addr < unat b + n"
    and gone: "om_find (live m) b = None" "om_find (reserved m) b = None"
  shows "resolve addr len w s m = Inl (Throw UseAfterFree)"
proof -
  note r = other_reservation [OF inv(1) z gone(2)]
  have "resolve addr len w s m = resolve_rest addr len w m"
    by (rule resolve_rest_eq [OF inv], rule live_off_zone [OF inv z gone(1)])
  moreover have "resolve_mapped addr len w m = Inr None"
    using not_in_mapping [OF inv(1) r(2)] r(1) by simp
  ultimately show ?thesis by (simp add: resolve_rest_def stray_below_top [OF mm_invD(3) [OF inv(1)] z])
qed

lemma resolve_reserved:
  assumes inv: "mm_inv Z m" "low_half m" and b: "om_find (reserved m) b = Some n" "unat b \<le> unat addr" "unat addr < unat b + unat n"
    and no: "\<And>va p. om_find (vmaps m) va = Some p \<Longrightarrow> unat addr < unat va \<or> unat va + unat (mp_size p) \<le> unat addr"
  shows "resolve addr len w s m = Inl (Throw InvalidPointer)"
proof -
  note parts = mm_invD [OF inv(1)]
  have z: "(b, unat n) \<in> set Z" using parts(5) b(1) by (simp add: reserved_ok_def)
  have "om_find (live m) b = None" using parts(7) b(1) by (cases "om_find (live m) b") (auto simp: apart_ok_def)
  then have "resolve addr len w s m = resolve_rest addr len w m"
    using live_off_zone [OF inv z b(2,3)] by (intro resolve_rest_eq [OF inv])
  moreover have "in_reservation addr m" unfolding in_reservation_iff [OF inv(1)] using b by blast
  ultimately show ?thesis using not_in_mapping [OF inv(1) no] by (simp add: resolve_rest_def)
qed

lemma resolve_outside:
  assumes inv: "mm_inv Z m" "low_half m" and no: "\<And>b n. (b, n) \<in> set Z \<Longrightarrow> unat addr < unat b \<or> unat b + n \<le> unat addr"
  shows "resolve addr len w s m = Inl (Throw (stray_access addr m))"
proof -
  note parts = mm_invD [OF inv(1)]
  have maps: "unat addr < unat va \<or> unat va + unat (mp_size p) \<le> unat addr" if p: "om_find (vmaps m) va = Some p" for va p
  proof -
    obtain b and n :: u64 where "(b, unat n) \<in> set Z" "unat b \<le> unat va" "unat va + unat (mp_size p) \<le> unat b + unat n"
      by (rule mapping_reserved [OF inv(1) p]) blast
    then show ?thesis using no [of b "unat n"] by linarith
  qed
  have "\<not> in_reservation addr m"
    unfolding in_reservation_iff [OF inv(1)] using no parts(5) by (fastforce simp: reserved_ok_def)
  moreover have "resolve addr len w s m = resolve_rest addr len w m"
  proof (rule resolve_rest_eq [OF inv])
    fix c a assume f: "om_floor (live m) addr = Some (c, a)"
    have c: "om_find (live m) c = Some a" "c \<le> addr" using om_floor_SomeD [OF live_zones(1) [OF parts(4)] f] by auto
    obtain n where "(c, n) \<in> set Z" "unat (padded_size a m) \<le> n" by (rule extent_padded [OF inv c(1)]) blast
    then show "unat c + unat (padded_size a m) \<le> unat addr" using no [of c n] c(2) by (auto simp: u64_simps)
  qed
  ultimately show ?thesis using not_in_mapping [OF inv(1) maps] by (simp add: resolve_rest_def)
qed

text \<open>An address is in a live allocation's padded range, in a mapping, in reserved space with nothing
  mapped, in a range that was handed out and given back, or in none that was handed out.\<close>

lemma address_cases:
  assumes inv: "mm_inv Z m" "low_half m"
  obtains (live) b a where "om_find (live m) b = Some a" "unat b \<le> unat addr" "unat addr < unat b + unat (padded_size a m)"
  | (mapped) va p where "om_find (vmaps m) va = Some p" "unat va \<le> unat addr" "unat addr < unat va + unat (mp_size p)"
  | (other) e where "\<And>len w s. resolve addr len w s m = Inl (Throw e)" "e \<in> {InvalidPointer, UseAfterFree}"
proof -
  note parts = mm_invD [OF inv(1)]
  have stray: "stray_access addr m \<in> {InvalidPointer, UseAfterFree}" by (simp add: stray_access_def)
  show thesis
  proof (cases "\<exists>va p. om_find (vmaps m) va = Some p \<and> unat va \<le> unat addr \<and> unat addr < unat va + unat (mp_size p)")
    case True
    then show thesis using mapped by blast
  next
    case False
    then have no: "unat addr < unat va \<or> unat va + unat (mp_size p) \<le> unat addr" if "om_find (vmaps m) va = Some p" for va p
      using that by (meson not_less)
    show thesis
    proof (cases "\<exists>b n. om_find (reserved m) b = Some n \<and> unat b \<le> unat addr \<and> unat addr < unat b + unat n")
      case True
      then show thesis using resolve_reserved [OF inv _ _ _ no] other [of InvalidPointer] by blast
    next
      case nores: False
      show thesis
      proof (cases "\<exists>b a. om_find (live m) b = Some a \<and> unat b \<le> unat addr \<and> unat addr < unat b + unat (padded_size a m)")
        case True
        then show thesis using live by blast
      next
        case nolive: False
        have "resolve addr len w s m = resolve_rest addr len w m" for len w s
        proof (rule resolve_rest_eq [OF inv])
          fix c a assume f: "om_floor (live m) addr = Some (c, a)"
          have "om_find (live m) c = Some a" "c \<le> addr" using om_floor_SomeD [OF live_zones(1) [OF parts(4)] f] by auto
          then show "unat c + unat (padded_size a m) \<le> unat addr" using nolive by (meson not_less word_le_nat_alt)
        qed
        moreover have "\<not> in_reservation addr m" unfolding in_reservation_iff [OF inv(1)] using nores by blast
        ultimately show thesis
          using not_in_mapping [OF inv(1) no] stray by (intro other [of "stray_access addr m"]) (simp_all add: resolve_rest_def)
      qed
    qed
  qed
qed

text \<open>What a successful lookup promises its caller.\<close>

definition names :: "mm \<Rightarrow> u64 \<Rightarrow> u64 \<Rightarrow> place \<times> u64 \<Rightarrow> bool" where
  "names m addr len r \<longleftrightarrow> (\<exists>a. alloc_of (fst r) m = Some a \<and> alloc_inv a \<and> card_valid a = 0 \<and> unat (snd r) \<le> unat addr \<and>
     unat addr - unat (snd r) + unat len \<le> chunk_count a * kChunkSize \<and> unat addr - unat (snd r) < chunk_count a * kChunkSize)"

lemma resolve_names:
  assumes inv: "mm_inv Z m" "low_half m" and r: "resolve addr len w s m = Inr r"
  shows "names m addr len r"
    "\<not> s \<Longrightarrow> \<exists>a. alloc_of (fst r) m = Some a \<and> unat addr - unat (snd r) + unat len \<le> unat (al_size a)"
proof -
  note parts = mm_invD [OF inv(1)]
  have "names m addr len r \<and> (\<not> s \<longrightarrow> (\<exists>a. alloc_of (fst r) m = Some a \<and> unat addr - unat (snd r) + unat len \<le> unat (al_size a)))"
  proof (rule address_cases [OF inv, of addr])
    fix b a assume a: "om_find (live m) b = Some a" "unat b \<le> unat addr" "unat addr < unat b + unat (padded_size a m)"
    have rr: "r = (InLive b, b)" "unat addr < unat b + unat (extent s a m)" "unat addr + unat len \<le> unat b + unat (extent s a m)"
      using r unfolding resolve_live_eq [OF inv a] by (auto split: if_splits)
    obtain n where "alloc_inv a" "unat (extent s a m) \<le> chunk_count a * kChunkSize" by (rule extent_padded [OF inv a(1)]) blast
    moreover have "\<not> s \<Longrightarrow> extent s a m = al_size a" by (simp add: extent_def)
    moreover have "card_valid a = 0" using parts(4) a(1) by (auto simp: live_ok_def)
    ultimately show ?thesis using rr a(1,2) by (auto simp: names_def alloc_of_def)
  next
    fix va p assume p: "om_find (vmaps m) va = Some p" "unat va \<le> unat addr" "unat addr < unat va + unat (mp_size p)"
    have rr: "r = (InHandle (mp_handle p), va)" "unat addr + unat len \<le> unat va + unat (mp_size p)"
      using r unfolding resolve_map_eq [OF inv p] by (auto split: if_splits)
    obtain h where h: "om_find (handles m) (mp_handle p) = Some h" "unat (mp_size p) \<le> unat (vh_size h)"
      by (rule mapping_reserved [OF inv(1) p(1)]) blast
    have fit: "alloc_inv (vh_mem h)" "al_size (vh_mem h) = vh_size h" "card_valid (vh_mem h) = 0"
      using parts(9) h(1) by (auto simp: handles_ok_def)
    then have "unat (vh_size h) \<le> chunk_count (vh_mem h) * kChunkSize" using alloc_inv_cover [OF fit(1)] by (simp add: mult.commute)
    then show ?thesis using rr h p(2,3) fit by (auto simp: names_def alloc_of_def)
  next
    fix e assume "\<And>len w s. resolve addr len w s m = Inl (Throw e)"
    then show ?thesis using r by simp
  qed
  then show "names m addr len r"
    "\<not> s \<Longrightarrow> \<exists>a. alloc_of (fst r) m = Some a \<and> unat addr - unat (snd r) + unat len \<le> unat (al_size a)" by simp_all
qed

lemma resolve_error:
  assumes inv: "mm_inv Z m" "low_half m" and r: "resolve addr len w s m = Inl e"
  shows "e \<in> {Throw OutOfBounds, Throw InvalidPointer, Throw UseAfterFree}"
proof (rule address_cases [OF inv, of addr])
  fix b a assume a: "om_find (live m) b = Some a" "unat b \<le> unat addr" "unat addr < unat b + unat (padded_size a m)"
  show ?thesis using r unfolding resolve_live_eq [OF inv a] by (auto split: if_splits)
next
  fix va p assume p: "om_find (vmaps m) va = Some p" "unat va \<le> unat addr" "unat addr < unat va + unat (mp_size p)"
  show ?thesis using r unfolding resolve_map_eq [OF inv p] by (auto split: if_splits)
next
  fix e' assume "\<And>len w s. resolve addr len w s m = Inl (Throw e')" "e' \<in> {InvalidPointer, UseAfterFree}"
  then show ?thesis using r by auto
qed

end
