(* ===== verification/Lookups.thy ===== *)
theory Lookups
  imports Resolve
begin

text \<open>
  A thread's memory of its recent lookups (\<^verbatim>\<open>LookupMemory\<close>, \<^verbatim>\<open>find_ordinary\<close>,
  \<^verbatim>\<open>find_ordinary_miss\<close>, \<^verbatim>\<open>hot_location\<close>, \<^verbatim>\<open>resolve_scalar\<close> and \<^verbatim>\<open>resolve_bulk\<close> of
  \<^verbatim>\<open>src/core/memory.cpp\<close>). The pointer an entry keeps to its allocation is the allocation's base:
  following it when the table has no such allocation any more is \<open>Stray\<close>.

  The memory is shown to change nothing: whatever was allocated, freed, mapped and looked up before, a
  lookup through it gives what the table gives.
\<close>

unbundle bit_operations_syntax

section \<open>Definitions\<close>

definition kWays :: nat where
  "kWays = 8"

record way =
  w_epoch :: u64
  w_base :: u64
  w_size :: u64

record lookup_memory =
  ways :: "way list"
  lst_way :: nat
  prv_way :: nat
  victim :: u32

definition empty_lookups :: lookup_memory where
  "empty_lookups = \<lparr>ways = replicate kWays \<lparr>w_epoch = 0, w_base = 0, w_size = 0\<rparr>, lst_way = 0, prv_way = 0, victim = 1\<rparr>"

text \<open>
  A thread: its two memories, whether each is switched on, whether it has to use the empty memory that
  is never written (\<^verbatim>\<open>g_ended_lookups\<close>), and whether it holds the table lock for writing.
\<close>

record thread =
  t_cache_on :: bool
  t_ended :: bool
  t_owner :: bool
  t_mem :: lookup_memory
  t_host_on :: bool
  t_hosts :: host_cache

definition way_holds :: "u64 \<Rightarrow> u64 \<Rightarrow> way \<Rightarrow> bool" where
  "way_holds addr len e \<longleftrightarrow> addr - w_base e < w_size e \<and> len \<le> w_size e - (addr - w_base e)"

definition next_victim :: "u32 \<Rightarrow> u32" where
  "next_victim v0 = (let v1 = v0 XOR push_bit 13 v0; v2 = v1 XOR drop_bit 17 v1 in v2 XOR push_bit 5 v2)"

definition answered :: "nat \<Rightarrow> way \<Rightarrow> lookup_memory \<Rightarrow> lookup_memory" where
  "answered i e mem = (if i \<noteq> lst_way mem then mem\<lparr>prv_way := lst_way mem\<rparr> else mem)\<lparr>lst_way := i, ways := (ways mem)[i := e]\<rparr>"

fun miss_scan :: "u64 \<Rightarrow> u64 \<Rightarrow> bool \<Rightarrow> epochs \<Rightarrow> nat list \<Rightarrow> lookup_memory \<Rightarrow> (u64 option, lookup_memory) outcome" where
  "miss_scan addr len ended eps [] mem = (Inr None, mem)"
| "miss_scan addr len ended eps (i # is) mem =
     (let e = ways mem ! i in
      if \<not> way_holds addr len e then miss_scan addr len ended eps is mem
      else if w_epoch e \<noteq> stamp eps
        then if ended \<or> w_epoch e = 0 then miss_scan addr len ended eps is mem
          else (case still_valid (w_epoch e) (w_base e) eps of
              None \<Rightarrow> (Inl Hang, mem)
            | Some None \<Rightarrow> miss_scan addr len ended eps is mem
            | Some (Some now) \<Rightarrow> (Inr (Some (w_base e)), answered i (e\<lparr>w_epoch := now\<rparr>) mem))
      else (Inr (Some (w_base e)), answered i e mem))"

definition find_ordinary_miss :: "u64 \<Rightarrow> u64 \<Rightarrow> thread \<Rightarrow> mm \<Rightarrow> (u64 option, thread) outcome" where
  "find_ordinary_miss addr len t m =
     (case miss_scan addr len (t_ended t) (table_epochs m) (prv_way (t_mem t) # [0 ..< kWays]) (t_mem t) of
       (Inl x, mem) \<Rightarrow> (Inl x, t\<lparr>t_mem := mem\<rparr>)
     | (Inr (Some b), mem) \<Rightarrow> (Inr (Some b), t\<lparr>t_mem := mem\<rparr>)
     | (Inr None, mem) \<Rightarrow>
         if t_owner t then (Inr None, t\<lparr>t_mem := mem\<rparr>)
         else (case om_floor (live m) addr of
             None \<Rightarrow> (Inr None, t\<lparr>t_mem := mem\<rparr>)
           | Some (b, a) \<Rightarrow>
               let off = addr - b in
               if \<not> (off < al_size a \<and> len \<le> al_size a - off) then (Inr None, t\<lparr>t_mem := mem\<rparr>)
               else if card_valid a \<noteq> 0 then (Inr None, t\<lparr>t_mem := mem\<rparr>)
               else if t_ended t then (Inr (Some b), t\<lparr>t_mem := mem\<rparr>)
               else let v = next_victim (victim mem); i = unat v mod kWays in
                 (Inr (Some b), t\<lparr>t_mem := mem\<lparr>victim := v, prv_way := lst_way mem, lst_way := i,
                    ways := (ways mem)[i := \<lparr>w_epoch = stamp (table_epochs m), w_base = b, w_size = al_size a\<rparr>]\<rparr>\<rparr>)))"

definition find_ordinary :: "u64 \<Rightarrow> u64 \<Rightarrow> u8 option \<Rightarrow> thread \<Rightarrow> mm \<Rightarrow> (u64 option \<times> u8 option, thread) outcome" where
  "find_ordinary addr len hint t m =
     (if \<not> t_cache_on t then (Inr (None, hint), t)
      else let first = (case hint of Some h \<Rightarrow> unat (h AND 7) | None \<Rightarrow> lst_way (t_mem t)); e = ways (t_mem t) ! first in
        if w_epoch e = stamp (table_epochs m) \<and> way_holds addr len e then (Inr (Some (w_base e), hint), t)
        else (case find_ordinary_miss addr len t m of
            (Inl x, t') \<Rightarrow> (Inl x, t')
          | (Inr None, t') \<Rightarrow> (Inr (None, hint), t')
          | (Inr (Some b), t') \<Rightarrow> (Inr (Some b, map_option (\<lambda>_. of_nat (lst_way (t_mem t'))) hint), t')))"

text \<open>The bytes of a scalar in a real chunk of the allocation the thread found last: base and offset.\<close>

definition hot_location :: "u64 \<Rightarrow> u64 \<Rightarrow> thread \<Rightarrow> mm \<Rightarrow> (u64 \<times> nat) option result" where
  "hot_location addr sz t m =
     (if \<not> t_cache_on t \<or> may_contain (hosts m) addr then Inr None
      else let e = ways (t_mem t) ! lst_way (t_mem t); off = unat (addr - w_base e) in
        if w_epoch e \<noteq> stamp (table_epochs m) \<or> \<not> way_holds addr sz e then Inr None
        else (case om_find (live m) (w_base e) of
            None \<Rightarrow> Inl Stray
          | Some a \<Rightarrow> (case slot_at a (off div kChunkSize) of
              Inl x \<Rightarrow> Inl x
            | Inr (Real c) \<Rightarrow> Inr (Some (w_base e, off))
            | Inr _ \<Rightarrow> Inr None)))"

definition resolve_scalar :: "u64 \<Rightarrow> u64 \<Rightarrow> bool \<Rightarrow> bool \<Rightarrow> thread \<Rightarrow> mm \<Rightarrow> (place \<times> u64, thread) outcome" where
  "resolve_scalar addr len writing page_slack t m = then_do (find_ordinary addr len None t m)
     (\<lambda>(r, _) t'. case r of Some b \<Rightarrow> (Inr (InLive b, b), t') | None \<Rightarrow> (resolve addr len writing page_slack m, t'))"

definition resolve_bulk :: "u64 \<Rightarrow> u64 \<Rightarrow> bool \<Rightarrow> thread \<Rightarrow> mm \<Rightarrow> (place \<times> u64, thread) outcome" where
  "resolve_bulk addr len writing t m = then_do (find_ordinary addr len None t m)
     (\<lambda>(r, _) t'. case r of Some b \<Rightarrow> (Inr (InLive b, b), t') | None \<Rightarrow> (resolve addr len writing False m, t'))"

section \<open>What the table gives\<close>

definition table_find :: "u64 \<Rightarrow> u64 \<Rightarrow> mm \<Rightarrow> u64 option" where
  "table_find addr len m = (case om_floor (live m) addr of
     None \<Rightarrow> None
   | Some (b, a) \<Rightarrow> if addr - b < al_size a \<and> len \<le> al_size a - (addr - b) \<and> card_valid a = 0 then Some b else None)"

lemma live_span:
  assumes "mm_inv Z m" "om_find (live m) b = Some a"
  shows "unat b + unat (al_size a) < 2 ^ 64"
    "addr - b < al_size a \<and> len \<le> al_size a - (addr - b) \<longleftrightarrow>
      unat b \<le> unat addr \<and> unat addr < unat b + unat (al_size a) \<and> unat addr + unat len \<le> unat b + unat (al_size a)"
proof -
  note parts = mm_invD [OF assms(1)]
  obtain n where n: "(b, n) \<in> set Z" "round_up_nat (unat (al_size a)) (base_align m) \<le> n"
    using parts(4) assms(2) by (auto simp: live_ok_def)
  have "unat (al_size a) \<le> n" using round_up_nat_ge [OF base_align_pos [OF parts(2)], of "unat (al_size a)"] n(2) by simp
  then show t: "unat b + unat (al_size a) < 2 ^ 64" using zone_top [OF parts(3) n(1)] by simp
  show "addr - b < al_size a \<and> len \<le> al_size a - (addr - b) \<longleftrightarrow>
      unat b \<le> unat addr \<and> unat addr < unat b + unat (al_size a) \<and> unat addr + unat len \<le> unat b + unat (al_size a)"
    by (rule span_test64) (use t in simp)
qed

lemma live_floor:
  assumes inv: "mm_inv Z m" and a: "om_find (live m) b = Some a" "unat b \<le> unat addr" "unat addr < unat b + unat (al_size a)"
  shows "om_floor (live m) addr = Some (b, a)"
proof -
  note parts = mm_invD [OF inv]
  obtain n where n: "(b, n) \<in> set Z" "round_up_nat (unat (al_size a)) (base_align m) \<le> n"
    using parts(4) a(1) by (auto simp: live_ok_def)
  have "unat (al_size a) \<le> n" using round_up_nat_ge [OF base_align_pos [OF parts(2)], of "unat (al_size a)"] n(2) by simp
  then show ?thesis
    using floor_in_zone [OF parts(3) n(1) a(2) _ live_zones(1) [OF parts(4)] a(1) live_zones(2) [OF parts(4)]] a(3) by simp
qed

lemma table_find_Some:
  assumes inv: "mm_inv Z m"
  shows "table_find addr len m = Some b \<longleftrightarrow> (\<exists>a. om_find (live m) b = Some a \<and> unat b \<le> unat addr \<and>
    unat addr < unat b + unat (al_size a) \<and> unat addr + unat len \<le> unat b + unat (al_size a))"
proof
  assume "table_find addr len m = Some b"
  then obtain a where f: "om_floor (live m) addr = Some (b, a)" "addr - b < al_size a \<and> len \<le> al_size a - (addr - b)"
    by (auto simp: table_find_def split: option.splits if_splits)
  have a: "om_find (live m) b = Some a" using om_floor_SomeD [OF live_zones(1) [OF mm_invD(4) [OF inv]] f(1)] by simp
  then show "\<exists>a. om_find (live m) b = Some a \<and> unat b \<le> unat addr \<and>
    unat addr < unat b + unat (al_size a) \<and> unat addr + unat len \<le> unat b + unat (al_size a)"
    using live_span(2) [OF inv a] f(2) by blast
next
  assume "\<exists>a. om_find (live m) b = Some a \<and> unat b \<le> unat addr \<and>
    unat addr < unat b + unat (al_size a) \<and> unat addr + unat len \<le> unat b + unat (al_size a)"
  then obtain a where a: "om_find (live m) b = Some a" "unat b \<le> unat addr" "unat addr < unat b + unat (al_size a)"
    "unat addr + unat len \<le> unat b + unat (al_size a)" by blast
  have "card_valid a = 0" using mm_invD(4) [OF inv] a(1) by (auto simp: live_ok_def)
  then show "table_find addr len m = Some b"
    using live_floor [OF inv a(1-3)] live_span(2) [OF inv a(1), of addr len] a(2-4) by (simp add: table_find_def)
qed

lemma resolve_table_find:
  assumes inv: "mm_inv Z m" "low_half m" and f: "table_find addr len m = Some b"
  shows "resolve addr len w s m = Inr (InLive b, b)"
proof -
  obtain a where a: "om_find (live m) b = Some a" "unat b \<le> unat addr" "unat addr < unat b + unat (al_size a)"
    "unat addr + unat len \<le> unat b + unat (al_size a)" using f unfolding table_find_Some [OF inv(1)] by blast
  obtain n where n: "unat (al_size a) \<le> unat (extent s a m)" "unat (extent s a m) \<le> unat (padded_size a m)"
    by (rule extent_padded [OF inv a(1)]) blast
  have "unat addr < unat b + unat (padded_size a m)" using a(3) n by linarith
  from resolve_live_eq [OF inv a(1,2) this] show ?thesis using a(3,4) n by simp
qed

section \<open>Entries that are good\<close>

text \<open>No epoch drawn along a run falls on an entry's, or on the one 64 frees further.\<close>

definition unlike :: "u64 \<Rightarrow> u64 list \<Rightarrow> bool" where
  "unlike s zs \<longleftrightarrow> (\<forall>z \<in> set zs. drop_bit 16 z \<noteq> drop_bit 16 s \<and> drop_bit 16 z \<noteq> drop_bit 16 (s + kRing))"

definition remembers :: "mm \<Rightarrow> way \<Rightarrow> bool" where
  "remembers m e \<longleftrightarrow> (\<exists>a. om_find (live m) (w_base e) = Some a \<and> al_size a = w_size e)"

definition entry_ok :: "mm \<Rightarrow> way \<Rightarrow> bool" where
  "entry_ok m e \<longleftrightarrow> w_size e = 0 \<or> (\<exists>ep evs. w_epoch e = stamp ep \<and> length (ring ep) = 64 \<and> table_epochs m = epoch_run ep evs \<and>
     unlike (stamp ep) (drawn ep evs) \<and> (Voided \<notin> set evs \<longrightarrow> Freed (w_base e) \<notin> set evs \<longrightarrow> remembers m e))"

definition lookups_ok :: "mm \<Rightarrow> lookup_memory \<Rightarrow> bool" where
  "lookups_ok m mem \<longleftrightarrow> length (ways mem) = kWays \<and> lst_way mem < kWays \<and> prv_way mem < kWays \<and> (\<forall>e \<in> set (ways mem). entry_ok m e)"

definition epochs_ok :: "mm \<Rightarrow> bool" where
  "epochs_ok m \<longleftrightarrow> length (ring (table_epochs m)) = 64 \<and> stamp (table_epochs m) \<noteq> - 1"

lemma quiet_no_void: "drawn e evs = [] \<Longrightarrow> Voided \<notin> set evs"
  by (induction evs arbitrary: e) (auto simp: draws_def split: if_splits)

lemma entry_hit:
  assumes "entry_ok m e" "w_size e \<noteq> 0" "w_epoch e = stamp (table_epochs m)"
  shows "remembers m e"
proof -
  obtain ep evs where e: "w_epoch e = stamp ep" "table_epochs m = epoch_run ep evs" "unlike (stamp ep) (drawn ep evs)"
    "Voided \<notin> set evs \<longrightarrow> Freed (w_base e) \<notin> set evs \<longrightarrow> remembers m e"
    using assms(1,2) unfolding entry_ok_def by blast
  have same: "stamp (epoch_run ep evs) = stamp ep" using assms(3) e(1,2) by simp
  have quiet: "drawn ep evs = []"
  proof (rule ccontr)
    assume "drawn ep evs \<noteq> []"
    then have "drop_bit 16 (last (stamp ep # drawn ep evs)) \<noteq> drop_bit 16 (stamp ep)"
      using e(3) by (simp add: unlike_def)
    then show False using run_hi [of ep evs] same by simp
  qed
  have "frees evs = []" using quiet_stamp [OF quiet] same by simp
  then have "Freed (w_base e) \<notin> set evs" using set_frees [of "w_base e" evs] by simp
  then show ?thesis using e(4) quiet_no_void [OF quiet] by blast
qed

lemma entry_still:
  assumes "entry_ok m e" "w_size e \<noteq> 0" "still_valid (w_epoch e) (w_base e) (table_epochs m) = Some (Some now)"
  shows "remembers m e" "now = stamp (table_epochs m)"
proof -
  obtain ep evs where e: "w_epoch e = stamp ep" "length (ring ep) = 64" "table_epochs m = epoch_run ep evs" "unlike (stamp ep) (drawn ep evs)"
    "Voided \<notin> set evs \<longrightarrow> Freed (w_base e) \<notin> set evs \<longrightarrow> remembers m e"
    using assms(1,2) unfolding entry_ok_def by blast
  have v: "still_valid_at (stamp ep) (w_base e) (stamp (epoch_run ep evs))
    (\<lambda>q. ring_at (epoch_run ep (evs @ take ((\<lambda>_. 0) q) [])) q) (stamp (epoch_run ep (evs @ []))) = Some (Some now)"
    using assms(3) by (simp add: still_valid_def e(1,3))
  have u: "\<forall>z\<in>set (drawn ep (evs @ [])). drop_bit 16 z \<noteq> drop_bit 16 (stamp ep) \<and> drop_bit 16 z \<noteq> drop_bit 16 (stamp ep + kRing)"
    using e(4) by (simp add: unlike_def)
  from valid_since [OF e(2) u v] show "remembers m e" "now = stamp (table_epochs m)" using e(3,5) by simp_all
qed

lemma still_valid_returns: "stamp eps \<noteq> - 1 \<Longrightarrow> \<exists>r. still_valid seen base eps = Some r"
  using ring_scan_returns [of "stamp eps" "ring_at eps" base "seen + 1"]
  by (auto simp: still_valid_def still_valid_at_def split: bool.splits)

lemma entry_fresh:
  assumes "epochs_ok m" "remembers m e" "w_epoch e = stamp (table_epochs m)"
  shows "entry_ok m e"
  unfolding entry_ok_def
  by (rule disjI2, rule exI [of _ "table_epochs m"], rule exI [of _ "[]"]) (use assms in \<open>simp add: epochs_ok_def unlike_def\<close>)

section \<open>Lookups\<close>

lemma way_table_find:
  assumes "mm_inv Z m" "remembers m e" "way_holds addr len e"
  shows "table_find addr len m = Some (w_base e)"
proof -
  obtain a where a: "om_find (live m) (w_base e) = Some a" "al_size a = w_size e" using assms(2) by (auto simp: remembers_def)
  show ?thesis
    unfolding table_find_Some [OF assms(1)] using a assms(3) live_span(2) [OF assms(1) a(1), of addr len]
    by (intro exI [of _ a]) (simp add: way_holds_def)
qed

lemma way_holds_size: "way_holds addr len e \<Longrightarrow> w_size e \<noteq> 0"
  by (auto simp: way_holds_def)

lemma answered_ok:
  assumes "lookups_ok m mem" "i < kWays" "entry_ok m e"
  shows "lookups_ok m (answered i e mem)"
  using assms by (auto simp: lookups_ok_def answered_def dest!: set_update_subset_insert [THEN subsetD])

lemma miss_scan_ok:
  assumes "mm_inv Z m" "epochs_ok m" "lookups_ok m mem" "\<forall>i \<in> set is. i < kWays"
    and "miss_scan addr len ended (table_epochs m) is mem = (r, mem')"
  shows "lookups_ok m mem' \<and> (r = Inr None \<and> mem' = mem \<or> (\<exists>b. r = Inr (Some b) \<and> table_find addr len m = Some b))"
  using assms(4,5)
proof (induction "is")
  case Nil
  then show ?case using assms(3) by simp
next
  case (Cons i "is")
  define e where "e = ways mem ! i"
  have i: "i < kWays" using Cons.prems(1) by simp
  have ok: "entry_ok m e" using assms(3) i by (auto simp: lookups_ok_def e_def)
  have next_way: ?case if "miss_scan addr len ended (table_epochs m) is mem = (r, mem')"
    using Cons.IH that Cons.prems(1) by simp
  show ?case
  proof (cases "way_holds addr len e")
    case False
    then show ?thesis using next_way Cons.prems(2) by (simp add: e_def Let_def)
  next
    case holds: True
    note sz = way_holds_size [OF holds]
    show ?thesis
    proof (cases "w_epoch e = stamp (table_epochs m)")
      case True
      have rem: "remembers m e" by (rule entry_hit [OF ok sz True])
      have "r = Inr (Some (w_base e))" "mem' = answered i e mem" using Cons.prems(2) holds True by (simp_all add: e_def Let_def)
      then show ?thesis using answered_ok [OF assms(3) i ok] way_table_find [OF assms(1) rem holds] by simp
    next
      case stale: False
      show ?thesis
      proof (cases "ended \<or> w_epoch e = 0")
        case True
        then show ?thesis using next_way Cons.prems(2) holds stale by (simp add: e_def Let_def)
      next
        case False
        have "stamp (table_epochs m) \<noteq> - 1" using assms(2) by (simp add: epochs_ok_def)
        from still_valid_returns [OF this] obtain v where v: "still_valid (w_epoch e) (w_base e) (table_epochs m) = Some v" by blast
        show ?thesis
        proof (cases v)
          case None
          then show ?thesis using next_way Cons.prems(2) holds stale False v by (simp add: e_def Let_def)
        next
          case (Some now)
          then have sv: "still_valid (w_epoch e) (w_base e) (table_epochs m) = Some (Some now)" using v by simp
          note valid = entry_still [OF ok sz sv]
          have rem': "remembers m (e\<lparr>w_epoch := now\<rparr>)" using valid(1) by (simp add: remembers_def)
          have "entry_ok m (e\<lparr>w_epoch := now\<rparr>)" by (rule entry_fresh [OF assms(2) rem']) (simp add: valid(2))
          moreover have "r = Inr (Some (w_base e))" "mem' = answered i (e\<lparr>w_epoch := now\<rparr>) mem"
            using Cons.prems(2) holds stale False sv by (simp_all add: e_def Let_def)
          ultimately show ?thesis using answered_ok [OF assms(3) i] way_table_find [OF assms(1) valid(1) holds] by simp
        qed
      qed
    qed
  qed
qed

lemma find_ordinary_miss_ok:
  assumes "mm_inv Z m" "epochs_ok m" "lookups_ok m (t_mem t)" "\<not> t_owner t"
  shows "\<exists>mem. find_ordinary_miss addr len t m = (Inr (table_find addr len m), t\<lparr>t_mem := mem\<rparr>) \<and> lookups_ok m mem"
proof -
  obtain r mem where s: "miss_scan addr len (t_ended t) (table_epochs m) (prv_way (t_mem t) # [0 ..< kWays]) (t_mem t) = (r, mem)" by fastforce
  have "\<forall>i \<in> set (prv_way (t_mem t) # [0 ..< kWays]). i < kWays" using assms(3) by (auto simp: lookups_ok_def)
  note scan = miss_scan_ok [OF assms(1-3) this s]
  note eq = find_ordinary_miss_def [of addr len t m, unfolded s]
  from scan consider (hit) b where "r = Inr (Some b)" "table_find addr len m = Some b" | (miss) "r = Inr None" "mem = t_mem t" by blast
  then show ?thesis
  proof cases
    case hit
    then show ?thesis using eq scan by (intro exI [of _ mem]) simp
  next
    case miss
    note eq = eq [unfolded miss(1), simplified]
    show ?thesis
    proof (cases "\<exists>b a. om_floor (live m) addr = Some (b, a) \<and> addr - b < al_size a \<and> len \<le> al_size a - (addr - b) \<and> card_valid a = 0")
      case False
      then show ?thesis
        using eq assms(3,4) miss(2) by (intro exI [of _ "t_mem t"]) (auto simp: table_find_def Let_def split: option.splits if_splits)
    next
      case True
      then obtain b a where f: "om_floor (live m) addr = Some (b, a)" "addr - b < al_size a" "len \<le> al_size a - (addr - b)" "card_valid a = 0" by blast
      have a: "om_find (live m) b = Some a" using om_floor_SomeD [OF live_zones(1) [OF mm_invD(4) [OF assms(1)]] f(1)] by simp
      have tf: "table_find addr len m = Some b" using f by (simp add: table_find_def)
      define e where "e = \<lparr>w_epoch = stamp (table_epochs m), w_base = b, w_size = al_size a\<rparr>"
      have "entry_ok m e" by (rule entry_fresh [OF assms(2)]) (simp_all add: remembers_def e_def a)
      moreover have "unat v mod kWays < kWays" for v :: u32 by (simp add: kWays_def)
      ultimately have "lookups_ok m (mem\<lparr>victim := v, prv_way := lst_way mem, lst_way := unat v mod kWays, ways := (ways mem)[unat v mod kWays := e]\<rparr>)" for v
        using scan by (auto simp: lookups_ok_def dest!: set_update_subset_insert [THEN subsetD])
      then show ?thesis using eq scan assms(4) f tf by (auto simp: Let_def e_def)
    qed
  qed
qed

lemma find_ordinary_ok:
  assumes "mm_inv Z m" "epochs_ok m" "lookups_ok m (t_mem t)" "\<not> t_owner t"
  shows "\<exists>mem hint'. find_ordinary addr len hint t m = (Inr (if t_cache_on t then table_find addr len m else None, hint'), t\<lparr>t_mem := mem\<rparr>) \<and>
    lookups_ok m mem"
proof (cases "t_cache_on t")
  case False
  then show ?thesis using assms(3) by (intro exI [of _ "t_mem t"] exI [of _ hint]) (simp add: find_ordinary_def)
next
  case on: True
  define first where "first = (case hint of Some h \<Rightarrow> unat (h AND 7) | None \<Rightarrow> lst_way (t_mem t))"
  define e where "e = ways (t_mem t) ! first"
  have "unat (h AND 7 :: u8) < 8" for h
  proof -
    have "h AND 7 = take_bit 3 h" by (simp add: take_bit_eq_mask mask_eq_exp_minus_1)
    then have "unat (h AND 7) = unat (take_bit 3 h)" by simp
    then show ?thesis by (simp add: unsigned_take_bit_eq take_bit_eq_mod unat_mod)
  qed
  then have first: "first < kWays" using assms(3) by (auto simp: first_def lookups_ok_def kWays_def split: option.splits)
  have ok: "entry_ok m e" using assms(3) first by (auto simp: lookups_ok_def e_def)
  show ?thesis
  proof (cases "w_epoch e = stamp (table_epochs m) \<and> way_holds addr len e")
    case True
    then have "remembers m e" using entry_hit [OF ok] way_holds_size by blast
    then have "table_find addr len m = Some (w_base e)" using way_table_find [OF assms(1)] True by blast
    then show ?thesis
      using on True assms(3) by (intro exI [of _ "t_mem t"] exI [of _ hint]) (simp add: find_ordinary_def first_def [symmetric] e_def [symmetric] Let_def)
  next
    case False
    obtain mem where mem: "find_ordinary_miss addr len t m = (Inr (table_find addr len m), t\<lparr>t_mem := mem\<rparr>)" "lookups_ok m mem"
      using find_ordinary_miss_ok [OF assms] by blast
    then show ?thesis
      using on False by (cases "table_find addr len m") (auto simp: find_ordinary_def first_def [symmetric] e_def [symmetric] Let_def)
  qed
qed

text \<open>The two roads to an allocation agree.\<close>

lemma resolve_scalar_ok:
  assumes "mm_inv Z m" "low_half m" "epochs_ok m" "lookups_ok m (t_mem t)" "\<not> t_owner t"
  shows "\<exists>mem. resolve_scalar addr len w s t m = (resolve addr len w s m, t\<lparr>t_mem := mem\<rparr>) \<and> lookups_ok m mem"
proof -
  obtain mem h where f: "find_ordinary addr len None t m = (Inr (if t_cache_on t then table_find addr len m else None, h), t\<lparr>t_mem := mem\<rparr>)" "lookups_ok m mem"
    using find_ordinary_ok [OF assms(1,3-5)] by blast
  then show ?thesis
    using resolve_table_find [OF assms(1,2), of addr len] by (intro exI [of _ mem]) (auto simp: resolve_scalar_def split: option.splits)
qed

lemma resolve_bulk_ok:
  assumes "mm_inv Z m" "low_half m" "epochs_ok m" "lookups_ok m (t_mem t)" "\<not> t_owner t"
  shows "\<exists>mem. resolve_bulk addr len w t m = (resolve addr len w False m, t\<lparr>t_mem := mem\<rparr>) \<and> lookups_ok m mem"
  using resolve_scalar_ok [OF assms, of addr len w False] by (simp add: resolve_bulk_def resolve_scalar_def)

lemma hot_location_ok:
  assumes "mm_inv Z m" "lookups_ok m (t_mem t)"
  shows "hot_location addr sz t m = Inr None \<or>
    (\<exists>b a c. hot_location addr sz t m = Inr (Some (b, unat (addr - b))) \<and> table_find addr sz m = Some b \<and> \<not> may_contain (hosts m) addr \<and>
       om_find (live m) b = Some a \<and> slots a ! (unat (addr - b) div kChunkSize) = Real c)"
proof (cases "t_cache_on t \<and> \<not> may_contain (hosts m) addr")
  case False
  then show ?thesis by (auto simp: hot_location_def)
next
  case True
  define e where "e = ways (t_mem t) ! lst_way (t_mem t)"
  have ok: "entry_ok m e" using assms(2) by (auto simp: lookups_ok_def e_def)
  show ?thesis
  proof (cases "w_epoch e = stamp (table_epochs m) \<and> way_holds addr sz e")
    case False
    then show ?thesis using True by (auto simp: hot_location_def e_def Let_def)
  next
    case hit: True
    then have rem: "remembers m e" using entry_hit [OF ok] way_holds_size by blast
    then obtain a where a: "om_find (live m) (w_base e) = Some a" "al_size a = w_size e" by (auto simp: remembers_def)
    have tf: "table_find addr sz m = Some (w_base e)" using way_table_find [OF assms(1) rem] hit by blast
    have "alloc_inv a" using mm_invD(4) [OF assms(1)] a(1) by (auto simp: live_ok_def)
    moreover have "unat (addr - w_base e) < unat (al_size a)" using hit a(2) by (simp add: way_holds_def u64_simps)
    ultimately have "unat (addr - w_base e) div kChunkSize < length (slots a)" using alloc_inv_index by blast
    then have "slot_at a (unat (addr - w_base e) div kChunkSize) = Inr (slots a ! (unat (addr - w_base e) div kChunkSize))"
      by (simp add: slot_at_def)
    then show ?thesis
      using True hit a tf by (auto simp: hot_location_def e_def [symmetric] Let_def split: chunk.splits)
  qed
qed

section \<open>Histories\<close>

text \<open>
  A change of the manager as a thread's memory sees it: events of the table's epoch, with every
  allocation still there at its size unless its free or a voiding of all answers is among them.
\<close>

definition table_change :: "epoch_event list \<Rightarrow> mm \<Rightarrow> mm \<Rightarrow> bool" where
  "table_change evs m m' \<longleftrightarrow> table_epochs m' = epoch_run (table_epochs m) evs \<and>
     (\<forall>b a. om_find (live m) b = Some a \<longrightarrow> Voided \<notin> set evs \<longrightarrow> Freed b \<notin> set evs \<longrightarrow>
        (\<exists>a'. om_find (live m') b = Some a' \<and> al_size a' = al_size a))"

lemma table_change_refl: "table_change [] m m"
  by (simp add: table_change_def)

lemma table_changeD:
  "table_change evs m m' \<Longrightarrow> om_find (live m) b = Some a \<Longrightarrow> Voided \<notin> set evs \<Longrightarrow> Freed b \<notin> set evs \<Longrightarrow>
    \<exists>a'. om_find (live m') b = Some a' \<and> al_size a' = al_size a"
  by (simp add: table_change_def)

lemma table_change_trans:
  assumes "table_change evs m m'" "table_change evs' m' m''"
  shows "table_change (evs @ evs') m m''"
proof -
  have "\<exists>a''. om_find (live m'') b = Some a'' \<and> al_size a'' = al_size a"
    if f: "om_find (live m) b = Some a" "Voided \<notin> set (evs @ evs')" "Freed b \<notin> set (evs @ evs')" for b a
  proof -
    obtain a' where a': "om_find (live m') b = Some a'" "al_size a' = al_size a" using table_changeD [OF assms(1) f(1)] f by auto
    then show ?thesis using table_changeD [OF assms(2) a'(1)] f by auto
  qed
  then show ?thesis using assms by (simp add: table_change_def)
qed

lemma entry_ok_change:
  assumes "entry_ok m e" "table_change evs m m'" "unlike (w_epoch e) (drawn (table_epochs m) evs)"
  shows "entry_ok m' e"
proof (cases "w_size e = 0")
  case False
  then obtain ep old where e: "w_epoch e = stamp ep" "length (ring ep) = 64" "table_epochs m = epoch_run ep old" "unlike (stamp ep) (drawn ep old)"
    "Voided \<notin> set old \<longrightarrow> Freed (w_base e) \<notin> set old \<longrightarrow> remembers m e"
    using assms(1) unfolding entry_ok_def by blast
  have "table_epochs m' = epoch_run ep (old @ evs)" using assms(2) e(3) by (simp add: table_change_def)
  moreover have "unlike (stamp ep) (drawn ep (old @ evs))" using assms(3) e(1,3,4) by (auto simp: unlike_def)
  moreover have "remembers m' e" if n: "Voided \<notin> set (old @ evs)" "Freed (w_base e) \<notin> set (old @ evs)"
  proof -
    have "remembers m e" using e(5) n by simp
    then obtain a where a: "om_find (live m) (w_base e) = Some a" "al_size a = w_size e" by (auto simp: remembers_def)
    then obtain a' where "om_find (live m') (w_base e) = Some a'" "al_size a' = al_size a"
      using table_changeD [OF assms(2) a(1)] n by auto
    then show ?thesis using a(2) by (simp add: remembers_def)
  qed
  ultimately show ?thesis using e(1,2) unfolding entry_ok_def by blast
qed (simp add: entry_ok_def)

lemma lookups_ok_change:
  assumes "lookups_ok m mem" "table_change evs m m'" "\<forall>e \<in> set (ways mem). unlike (w_epoch e) (drawn (table_epochs m) evs)"
  shows "lookups_ok m' mem"
  using assms entry_ok_change [OF _ assms(2)] by (auto simp: lookups_ok_def)

lemma empty_lookups_ok: "lookups_ok m empty_lookups"
  by (auto simp: lookups_ok_def empty_lookups_def kWays_def entry_ok_def)

end
