(* ===== verification/Access.thy ===== *)
theory Access
  imports Lookups
begin

text \<open>
  Whole-buffer accesses to device memory (\<^verbatim>\<open>read\<close>, \<^verbatim>\<open>write\<close>, \<^verbatim>\<open>fill\<close>,
  \<^verbatim>\<open>host_address\<close>, \<^verbatim>\<open>is_host_mapped\<close> and \<^verbatim>\<open>intern_string\<close> of
  \<^verbatim>\<open>src/core/memory.cpp\<close>), with the hooks of injected faults (\<^verbatim>\<open>AccessFault\<close> of
  \<^verbatim>\<open>src/include/vgpu/memory.hpp\<close>). A thread's view is what such a call runs on: the
  thread's own memories, the manager and the hook.

  The hook is an object behind a virtual interface: which faults it has armed now, and, for each call,
  the answer and the hook as it is afterwards. The theorems here are about memory as it is when no
  fault is armed: what is written is read back, nothing else changes, and every refusal leaves the
  bytes alone.
\<close>

unbundle bit_operations_syntax

section \<open>Definitions\<close>

codatatype access_fault =
  AccessFault (stuck_armed: bool) (copy_armed: bool) (load_armed: bool) (store_armed: bool)
    (on_read: "u64 \<Rightarrow> u8 list \<Rightarrow> u8 list \<times> access_fault")
    (on_copy: "u64 \<Rightarrow> u8 list \<Rightarrow> (exn + u8 list) \<times> access_fault")
    (on_load: "u64 \<Rightarrow> nat \<Rightarrow> u64 \<Rightarrow> (exn + u64) \<times> access_fault")
    (on_store: "u64 \<Rightarrow> nat \<Rightarrow> u64 \<Rightarrow> (exn + u64) \<times> access_fault")

record view =
  v_thread :: thread
  v_mm :: mm
  v_fault :: "access_fault option"

definition armed :: "(access_fault \<Rightarrow> bool) \<Rightarrow> view \<Rightarrow> bool" where
  "armed f v = (case v_fault v of None \<Rightarrow> False | Some h \<Rightarrow> f h)"

definition any_stuck :: "view \<Rightarrow> bool" where
  "any_stuck v = armed stuck_armed v"

definition access_faults_armed :: "view \<Rightarrow> bool" where
  "access_faults_armed v \<longleftrightarrow> armed stuck_armed v \<or> armed load_armed v \<or> armed store_armed v"

text \<open>A call of the hook, where one of its faults is armed.\<close>

definition ask :: "(access_fault \<Rightarrow> (exn + 'a) \<times> access_fault) \<Rightarrow> 'a \<Rightarrow> view \<Rightarrow> ('a, view) outcome" where
  "ask f x v = (case v_fault v of
     None \<Rightarrow> (Inr x, v)
   | Some h \<Rightarrow> (case f h of (r, h') \<Rightarrow> (r, v\<lparr>v_fault := Some h'\<rparr>)))"

definition stuck_bytes :: "u64 \<Rightarrow> u8 list \<Rightarrow> view \<Rightarrow> (u8 list, view) outcome" where
  "stuck_bytes addr bs v = (if any_stuck v
     then ask (\<lambda>h. case on_read h (addr - va_base (v_mm v)) bs of (bs', h') \<Rightarrow> (Inr bs', h')) bs v
     else (Inr bs, v))"

text \<open>A step that only the thread remembers, and one on the memory of an allocation.\<close>

definition in_thread :: "(thread \<Rightarrow> mm \<Rightarrow> ('a, thread) outcome) \<Rightarrow> view \<Rightarrow> ('a, view) outcome" where
  "in_thread f v = (case f (v_thread v) (v_mm v) of (r, t) \<Rightarrow> (r, v\<lparr>v_thread := t\<rparr>))"

definition put_alloc :: "place \<Rightarrow> allocation \<Rightarrow> mm \<Rightarrow> mm" where
  "put_alloc pl a m = (case pl of
     InLive b \<Rightarrow> m\<lparr>live := om_set b a (live m)\<rparr>
   | InHandle h \<Rightarrow> (case om_find (handles m) h of
       None \<Rightarrow> m
     | Some x \<Rightarrow> m\<lparr>handles := om_set h (x\<lparr>vh_mem := a\<rparr>) (handles m)\<rparr>))"

definition on_alloc :: "place \<Rightarrow> (allocation \<times> bstate \<Rightarrow> ('a, allocation \<times> bstate) outcome) \<Rightarrow> view \<Rightarrow> ('a, view) outcome" where
  "on_alloc pl f v = (let m = v_mm v in case alloc_of pl m of
     None \<Rightarrow> (Inl Stray, v)
   | Some a \<Rightarrow> (case f (a, backing_st m) of
       (r, (a', b')) \<Rightarrow> (r, v\<lparr>v_mm := put_alloc pl a' (m\<lparr>backing_st := b'\<rparr>)\<rparr>)))"

subsection \<open>Host memory mapped into the device\<close>

definition host_hit :: "u64 \<Rightarrow> u64 \<Rightarrow> view \<Rightarrow> host_map option \<times> view" where
  "host_hit addr len v =
     (if \<not> may_contain (hosts (v_mm v)) addr then (None, v)
      else case lookup_host (t_host_on (v_thread v)) (hosts (v_mm v)) addr len (t_hosts (v_thread v)) of
        (r, c) \<Rightarrow> (r, v\<lparr>v_thread := (v_thread v)\<lparr>t_hosts := c\<rparr>\<rparr>))"

definition host_at :: "host_map \<Rightarrow> u64 \<Rightarrow> u64" where
  "host_at h addr = hm_host h + (addr - hm_base h)"

definition host_address :: "u64 \<Rightarrow> u64 \<Rightarrow> view \<Rightarrow> (u64 option, view) outcome" where
  "host_address addr len v = (case host_hit addr len v of
     (None, v') \<Rightarrow> (Inr None, v')
   | (Some h, v') \<Rightarrow> if hm_read_only h then (Inl (Throw Trap), v') else (Inr (Some (host_at h addr)), v'))"

definition is_host_mapped :: "u64 \<Rightarrow> view \<Rightarrow> bool \<times> view" where
  "is_host_mapped addr v = (case host_hit addr 1 v of (r, v') \<Rightarrow> (r \<noteq> None, v'))"

text \<open>The pieces of a range, copied out to a buffer of \<open>n\<close> bytes, copied in, and filled with a pattern.\<close>

definition pieces_out :: "host_piece list \<Rightarrow> nat \<Rightarrow> (u64 \<Rightarrow> u8) \<Rightarrow> u8 list" where
  "pieces_out ps n mem = map (fold (\<lambda>p f. copy_in f (unat (hp_offset p)) (host_get (hp_host p) (unat (hp_len p)) mem)) ps (\<lambda>_. 0)) [0 ..< n]"

definition pieces_in :: "host_piece list \<Rightarrow> u8 list \<Rightarrow> (u64 \<Rightarrow> u8) \<Rightarrow> (u64 \<Rightarrow> u8)" where
  "pieces_in ps s mem = fold (\<lambda>p. host_put (hp_host p) (take (unat (hp_len p)) (drop (unat (hp_offset p)) s))) ps mem"

definition pieces_fill :: "host_piece list \<Rightarrow> u8 list \<Rightarrow> (u64 \<Rightarrow> u8) \<Rightarrow> (u64 \<Rightarrow> u8)" where
  "pieces_fill ps pattern mem = fold (\<lambda>p. host_put (hp_host p)
     (map (\<lambda>i. pattern ! ((unat (hp_offset p) + i) mod length pattern)) [0 ..< unat (hp_len p)])) ps mem"

definition in_host :: "((u64 \<Rightarrow> u8) \<Rightarrow> (u64 \<Rightarrow> u8)) \<Rightarrow> view \<Rightarrow> view" where
  "in_host f v = v\<lparr>v_mm := (v_mm v)\<lparr>hmem := f (hmem (v_mm v))\<rparr>\<rparr>"

subsection \<open>Reading\<close>

definition read_device :: "u64 \<Rightarrow> u64 \<Rightarrow> view \<Rightarrow> (u8 list, view) outcome" where
  "read_device src len v = then_do (in_thread (resolve_bulk src len False) v) (\<lambda>(pl, base) v.
     case alloc_of pl (v_mm v) of
       None \<Rightarrow> (Inl Stray, v)
     | Some a \<Rightarrow> (case read_chunks a (unat (src - base)) (unat len) of
         Inl e \<Rightarrow> (Inl e, v)
       | Inr d \<Rightarrow> then_do (stuck_bytes src d v) (\<lambda>d v.
           if armed copy_armed v then ask (\<lambda>h. on_copy h src d) d v else (Inr d, v))))"

text \<open>
  \<^verbatim>\<open>read\<close>: the bytes delivered to the buffer, or to a null pointer. A copy through a null
  pointer, where nothing was asked about it, is a stray access of the process.
\<close>

definition read_mem :: "u64 \<Rightarrow> bool \<Rightarrow> u64 \<Rightarrow> view \<Rightarrow> (u8 list, view) outcome" where
  "read_mem src null len v =
     (if len = 0 then (Inr [], v)
      else case host_hit src len v of
        (Some h, v) \<Rightarrow> if null then (Inl Stray, v) else (Inr (host_get (host_at h src) (unat len) (hmem (v_mm v))), v)
      | (None, v) \<Rightarrow>
          if null then (Inl (Throw InvalidPointer), v)
          else (case host_pieces (hosts (v_mm v)) src len False of
              None \<Rightarrow> (Inl Hang, v)
            | Some (Inl e) \<Rightarrow> (Inl e, v)
            | Some (Inr (Some ps)) \<Rightarrow> (Inr (pieces_out ps (unat len) (hmem (v_mm v))), v)
            | Some (Inr None) \<Rightarrow> read_device src len v))"

subsection \<open>Writing\<close>

definition write_device :: "u64 \<Rightarrow> u8 list \<Rightarrow> u64 \<Rightarrow> view \<Rightarrow> (unit, view) outcome" where
  "write_device dst s len v = then_do (in_thread (resolve_bulk dst len True) v) (\<lambda>(pl, base) v.
     on_alloc pl (write_chunks acquire (unat (dst - base)) (take (unat len) s)) v)"

definition write_mem :: "u64 \<Rightarrow> u8 list option \<Rightarrow> u64 \<Rightarrow> view \<Rightarrow> (unit, view) outcome" where
  "write_mem dst src len v =
     (if len = 0 then (Inr (), v)
      else case host_hit dst len v of
        (Some h, v) \<Rightarrow>
          if hm_read_only h then (Inl (Throw Trap), v)
          else (case src of
              None \<Rightarrow> (Inl Stray, v)
            | Some s \<Rightarrow> (Inr (), in_host (host_put (host_at h dst) (take (unat len) s)) v))
      | (None, v) \<Rightarrow> (case src of
            None \<Rightarrow> (Inl (Throw InvalidPointer), v)
          | Some s \<Rightarrow> (case host_pieces (hosts (v_mm v)) dst len True of
              None \<Rightarrow> (Inl Hang, v)
            | Some (Inl e) \<Rightarrow> (Inl e, v)
            | Some (Inr (Some ps)) \<Rightarrow> (Inr (), in_host (pieces_in ps s) v)
            | Some (Inr None) \<Rightarrow> write_device dst s len v)))"

subsection \<open>Filling\<close>

definition fill :: "u64 \<Rightarrow> u8 list \<Rightarrow> u64 \<Rightarrow> view \<Rightarrow> (unit, view) outcome" where
  "fill dst pattern len v =
     (if len = 0 then (Inr (), v)
      else case host_pieces (hosts (v_mm v)) dst len True of
        None \<Rightarrow> (Inl Hang, v)
      | Some (Inl e) \<Rightarrow> (Inl e, v)
      | Some (Inr (Some ps)) \<Rightarrow> (Inr (), in_host (pieces_fill ps pattern) v)
      | Some (Inr None) \<Rightarrow> (case resolve_mut dst len (v_mm v) of
          Inl e \<Rightarrow> (Inl e, v)
        | Inr (pl, base) \<Rightarrow> on_alloc pl (fill_chunks acquire release pattern (unat (dst - base)) 0 (unat len)) v))"

subsection \<open>Strings of the device heap\<close>

definition c_string :: "string \<Rightarrow> u8 list" where
  "c_string s = map of_char s @ [0]"

definition intern_string :: "string \<Rightarrow> view \<Rightarrow> (u64, view) outcome" where
  "intern_string s v = (case map_of (dh_strings (dev_heap (v_mm v))) s of
     Some va \<Rightarrow> (Inr va, v)
   | None \<Rightarrow> (case alloc (of_nat (length s) + 1) 0 (v_mm v) of
       (Inl e, m) \<Rightarrow> (Inl e, v\<lparr>v_mm := m\<rparr>)
     | (Inr va, m) \<Rightarrow> then_do (write_mem va (Some (c_string s)) (of_nat (length s) + 1) (v\<lparr>v_mm := m\<rparr>)) (\<lambda>_ v.
         (Inr va, v\<lparr>v_mm := (v_mm v)\<lparr>dev_heap := (dev_heap (v_mm v))\<lparr>dh_strings := (s, va) # dh_strings (dev_heap (v_mm v))\<rparr>\<rparr>\<rparr>))))"

section \<open>What a change of an allocation's bytes keeps\<close>

text \<open>Allocations and mappings start on a multiple of 16, so an aligned scalar lies in one chunk.\<close>

definition aligned_ok :: "mm \<Rightarrow> bool" where
  "aligned_ok m \<longleftrightarrow> 16 \<le> unat (alloc_align m) \<and> (\<forall>b \<in> om_keys (live m). 16 dvd unat b) \<and> (\<forall>va \<in> om_keys (vmaps m). 16 dvd unat va)"

definition view_ok :: "zones \<Rightarrow> view \<Rightarrow> bool" where
  "view_ok Z v \<longleftrightarrow> mm_inv Z (v_mm v) \<and> low_half (v_mm v) \<and> aligned_ok (v_mm v) \<and> epochs_ok (v_mm v) \<and>
     lookups_ok (v_mm v) (t_mem (v_thread v)) \<and> cache_ok (hosts (v_mm v)) (t_hosts (v_thread v)) \<and> \<not> t_owner (v_thread v)"

lemma view_okD:
  assumes "view_ok Z v"
  shows "mm_inv Z (v_mm v)" "low_half (v_mm v)" "aligned_ok (v_mm v)" "epochs_ok (v_mm v)"
    "lookups_ok (v_mm v) (t_mem (v_thread v))" "cache_ok (hosts (v_mm v)) (t_hosts (v_thread v))" "\<not> t_owner (v_thread v)"
  using assms by (simp_all add: view_ok_def)

lemma put_alloc_fields [simp]:
  "hosts (put_alloc pl a m) = hosts m" "hmem (put_alloc pl a m) = hmem m" "table_epochs (put_alloc pl a m) = table_epochs m"
  "vmaps (put_alloc pl a m) = vmaps m" "va_base (put_alloc pl a m) = va_base m" "next_va (put_alloc pl a m) = next_va m"
  "page (put_alloc pl a m) = page m" "alloc_align (put_alloc pl a m) = alloc_align m" "quar (put_alloc pl a m) = quar m"
  "high_water (put_alloc pl a m) = high_water m" "reserved (put_alloc pl a m) = reserved m" "dev_heap (put_alloc pl a m) = dev_heap m"
  "backing_st (put_alloc pl a m) = backing_st m" "shared (put_alloc pl a m) = shared m" "capacity (put_alloc pl a m) = capacity m"
  "used (put_alloc pl a m) = used m"
  by (auto simp: put_alloc_def split: place.splits option.splits)

lemma set_live_inv:
  assumes inv: "mm_inv Z m" and a: "om_find (live m) base = Some a" "same_shape a a'" "alloc_inv a'" and b: "backing_ok b"
  shows "mm_inv Z (m\<lparr>live := om_set base a' (live m), backing_st := b\<rparr>)"
proof -
  note parts = mm_invD [OF inv]
  define m1 where "m1 = m\<lparr>live := om_set base a' (live m), backing_st := b\<rparr>"
  have om: "om_inv (live m)" using parts(4) by (simp add: live_ok_def)
  have sz: "al_size a' = al_size a" "external a' = external a" "card_valid a' = card_valid a" using a(2) by (simp_all add: same_shape_def)
  have "base_align m1 = base_align m" by (simp add: m1_def base_align_def)
  then have "live_ok Z m1" using parts(4) a sz om unfolding live_ok_def by (auto simp: m1_def om_inv_set)
  moreover have "used_ok m1"
    using parts(10) sum_om_set_same [OF om a(1), of "\<lambda>e. unat (al_size (snd e))" a'] sz
    by (simp add: used_ok_def bytes_used_def m1_def)
  moreover have "apart_ok m1" using parts(7) a(1) by (auto simp: apart_ok_def m1_def)
  moreover have "settings_ok m1" "handed_ok Z m1" "reserved_ok Z m1" "shared_ok Z m1" "maps_ok m1" "handles_ok m1" "spare_ok m1" "quar_ok m1"
    using parts(2,3,5,6,8,9,11,12) part_cong(1,2,4,5,7,8,10,11) [of m1 m] by (simp_all add: m1_def)
  ultimately show ?thesis using b parts(13) unfolding m1_def [symmetric] by (simp add: mm_inv_def) (simp add: m1_def)
qed

lemma alloc_of_ok:
  assumes "mm_inv Z m" "alloc_of pl m = Some a"
  shows "alloc_inv a" "card_valid a = 0"
  using mm_invD(4,9) [OF assms(1)] assms(2) by (auto simp: alloc_of_def live_ok_def handles_ok_def split: place.splits)

lemma put_alloc_inv:
  assumes inv: "mm_inv Z m" and a: "alloc_of pl m = Some a" "same_shape a a'" "alloc_inv a'" and b: "backing_ok b"
  shows "mm_inv Z (put_alloc pl a' (m\<lparr>backing_st := b\<rparr>))"
proof (cases pl)
  case (InLive base)
  then have "om_find (live m) base = Some a" using a(1) by (simp add: alloc_of_def)
  from set_live_inv [OF inv this a(2,3) b] have "mm_inv Z (m\<lparr>live := om_set base a' (live m), backing_st := b\<rparr>)" .
  moreover have "put_alloc pl a' (m\<lparr>backing_st := b\<rparr>) = m\<lparr>live := om_set base a' (live m), backing_st := b\<rparr>"
    using InLive by (cases m) (simp add: put_alloc_def)
  ultimately show ?thesis by (simp only:)
next
  case (InHandle h)
  then obtain x where x: "om_find (handles m) h = Some x" "vh_mem x = a" using a(1) by (auto simp: alloc_of_def)
  have "handle_fit (x\<lparr>vh_mem := a'\<rparr>)"
    using handle_fitD [OF mm_invD(9) [OF inv] x(1)] a(2,3) x(2) by (simp add: handle_fit_def same_shape_def)
  from set_handle_inv [OF inv x(1) this _ _ b]
  have "mm_inv Z (m\<lparr>handles := om_set h (x\<lparr>vh_mem := a'\<rparr>) (handles m), backing_st := b\<rparr>)" by simp
  moreover have "put_alloc pl a' (m\<lparr>backing_st := b\<rparr>) = m\<lparr>handles := om_set h (x\<lparr>vh_mem := a'\<rparr>) (handles m), backing_st := b\<rparr>"
    using InHandle x(1) by (cases m) (simp add: put_alloc_def)
  ultimately show ?thesis by (simp only:)
qed

lemma alloc_of_put:
  assumes "alloc_of pl m = Some a"
  shows "alloc_of q (put_alloc pl a' m) = (if q = pl then Some a' else alloc_of q m)"
  using assms by (auto simp: alloc_of_def put_alloc_def split: place.splits)

lemma alloc_of_backing [simp]: "alloc_of pl (m\<lparr>backing_st := b\<rparr>) = alloc_of pl m"
  by (simp add: alloc_of_def split: place.splits)

lemma om_floor_set_old:
  assumes "om_inv m" "om_find m b = Some a"
  shows "om_floor (om_set b a' m) k = map_option (\<lambda>(c, x). (c, if c = b then a' else x)) (om_floor m k)"
proof (cases "om_floor m k")
  case None
  then have "\<forall>c \<in> om_keys m. k < c" using om_floor_None [OF assms(1)] by blast
  moreover have "om_keys (om_set b a' m) = om_keys m" using assms(2) by auto
  ultimately have "om_floor (om_set b a' m) k = None" using om_floor_None [OF om_inv_set [OF assms(1)], of b a' k] by auto
  then show ?thesis using None by simp
next
  case (Some cx)
  obtain c x where cx: "cx = (c, x)" by force
  note f = om_floor_SomeD [OF assms(1) Some [unfolded cx]]
  have "om_floor (om_set b a' m) k = Some (c, if c = b then a' else x)"
    unfolding om_floor_Some [OF om_inv_set [OF assms(1)]] using f assms(2) om_floor_Some [OF assms(1), of k c x] Some cx by auto
  then show ?thesis using Some cx by simp
qed

lemma resolve_parts_cong:
  assumes "vmaps m' = vmaps m" "reserved m' = reserved m" "\<And>k. (om_find (handles m') k = None) = (om_find (handles m) k = None)"
    and "quar m' = quar m" "va_base m' = va_base m" "high_water m' = high_water m" "hosts m' = hosts m"
    and "page m' = page m" "alloc_align m' = alloc_align m"
  shows "resolve_mapped addr len w m' = resolve_mapped addr len w m" "stray_access addr m' = stray_access addr m"
    "extent s x m' = extent s x m" "padded_size x m' = padded_size x m"
proof -
  have "in_reservation addr m' = in_reservation addr m" using assms(2) by (simp add: in_reservation_def)
  then show "resolve_mapped addr len w m' = resolve_mapped addr len w m" unfolding resolve_mapped_def assms(1-3) by simp
  show "stray_access addr m' = stray_access addr m" unfolding stray_access_def assms(4-7) by (rule refl)
  show "extent s x m' = extent s x m" "padded_size x m' = padded_size x m"
    unfolding extent_def padded_size_def assms(8,9) by (rule refl)+
qed

lemma resolve_put:
  assumes inv: "mm_inv Z m" and a: "alloc_of pl m = Some a" "al_size a' = al_size a"
  shows "resolve addr len w s (put_alloc pl a' m) = resolve addr len w s m"
proof -
  let ?m = "put_alloc pl a' m"
  have none: "(om_find (handles ?m) k = None) = (om_find (handles m) k = None)" for k
    by (auto simp: put_alloc_def split: place.splits option.splits)
  have eqs: "resolve_mapped addr len w ?m = resolve_mapped addr len w m" "stray_access addr ?m = stray_access addr m"
    "extent s x ?m = extent s x m" "padded_size x ?m = padded_size x m" for x
    by (rule resolve_parts_cong; simp add: none)+
  have om: "om_inv (live m)" using mm_invD(4) [OF inv] by (simp add: live_ok_def)
  show ?thesis
  proof (cases pl)
    case (InLive b)
    then have f: "om_find (live m) b = Some a" using a(1) by (simp add: alloc_of_def)
    have fl: "om_floor (live ?m) addr = map_option (\<lambda>(c, x). (c, if c = b then a' else x)) (om_floor (live m) addr)"
      using om_floor_set_old [OF om f] InLive by (simp add: put_alloc_def)
    have same: "extent s a' m = extent s a m" "padded_size a' m = padded_size a m" using a(2) by (simp_all add: extent_def padded_size_def)
    show ?thesis
    proof (cases "om_floor (live m) addr")
      case None
      then show ?thesis unfolding resolve_def fl eqs by simp
    next
      case (Some cx)
      obtain c x where cx: "cx = (c, x)" by force
      have "c = b \<Longrightarrow> x = a" using om_floor_SomeD [OF om Some [unfolded cx]] f by simp
      then show ?thesis unfolding resolve_def fl eqs using Some cx same by (cases "c = b") simp_all
    qed
  next
    case (InHandle h)
    then have "live ?m = live m" by (simp add: put_alloc_def split: option.splits)
    then show ?thesis unfolding resolve_def eqs by simp
  qed
qed

lemma resolve_backing [simp]: "resolve addr len w s (m\<lparr>backing_st := b\<rparr>) = resolve addr len w s m"
proof -
  let ?m = "m\<lparr>backing_st := b\<rparr>"
  have eqs: "resolve_mapped addr len w ?m = resolve_mapped addr len w m" "stray_access addr ?m = stray_access addr m"
    "extent s x ?m = extent s x m" "padded_size x ?m = padded_size x m" for x
    by (rule resolve_parts_cong; simp)+
  show ?thesis unfolding resolve_def eqs by simp
qed

lemma keys_put:
  assumes "alloc_of pl m = Some a"
  shows "om_keys (live (put_alloc pl a' m)) = om_keys (live m)"
  using assms by (auto simp: put_alloc_def alloc_of_def split: place.splits option.splits)

lemma table_change_put:
  assumes "alloc_of pl m = Some a" "al_size a' = al_size a"
  shows "table_change [] m (put_alloc pl a' (m\<lparr>backing_st := b\<rparr>))"
  using assms by (auto simp: table_change_def put_alloc_def alloc_of_def split: place.splits option.splits)

text \<open>
  \<open>quiet\<close>: only what the thread remembers changed. \<open>stored\<close>: one allocation was written, from an
  offset on, and nothing else anyone can see changed.
\<close>

definition quiet :: "zones \<Rightarrow> view \<Rightarrow> view \<Rightarrow> bool" where
  "quiet Z v v' \<longleftrightarrow> view_ok Z v' \<and> v_mm v' = v_mm v \<and> v_fault v' = v_fault v"

definition stored :: "zones \<Rightarrow> place \<Rightarrow> nat \<Rightarrow> u8 list \<Rightarrow> view \<Rightarrow> view \<Rightarrow> bool" where
  "stored Z pl off s v v' \<longleftrightarrow> view_ok Z v' \<and> v_fault v' = v_fault v \<and> hosts (v_mm v') = hosts (v_mm v) \<and>
     hmem (v_mm v') = hmem (v_mm v) \<and> va_base (v_mm v') = va_base (v_mm v) \<and>
     (\<forall>addr len w k. resolve addr len w k (v_mm v') = resolve addr len w k (v_mm v)) \<and>
     (\<forall>q a. alloc_of q (v_mm v) = Some a \<longrightarrow> (\<exists>a'. alloc_of q (v_mm v') = Some a' \<and> same_shape a a' \<and>
        alloc_byte a' = (if q = pl then copy_in (alloc_byte a) off s else alloc_byte a)))"

lemma quiet_refl: "view_ok Z v \<Longrightarrow> quiet Z v v"
  by (simp add: quiet_def)

lemma quiet_trans: "quiet Z v v' \<Longrightarrow> quiet Z v' v'' \<Longrightarrow> quiet Z v v''"
  by (simp add: quiet_def)

lemma quietD: "quiet Z v v' \<Longrightarrow> view_ok Z v'" "quiet Z v v' \<Longrightarrow> v_mm v' = v_mm v" "quiet Z v v' \<Longrightarrow> v_fault v' = v_fault v"
  by (simp_all add: quiet_def)

lemma quiet_stored: "quiet Z v v' \<Longrightarrow> stored Z pl off s v' v'' \<Longrightarrow> stored Z pl off s v v''"
  by (simp add: quiet_def stored_def)

lemma stored_quiet: "stored Z pl off s v v' \<Longrightarrow> quiet Z v' v'' \<Longrightarrow> stored Z pl off s v v''"
  by (simp add: quiet_def stored_def)

lemma stored_Nil: "quiet Z v v' \<Longrightarrow> stored Z pl off [] v v'"
  by (simp add: quiet_def stored_def)

lemma armed_cong: "v_fault v' = v_fault v \<Longrightarrow> armed f v' = armed f v"
  by (simp add: armed_def)

lemma stored_put:
  assumes v: "view_ok Z v" and a: "alloc_of pl (v_mm v) = Some a" and w: "wrote backing_ok (a, backing_st (v_mm v)) (a', b') off s"
  shows "stored Z pl off s v (v\<lparr>v_mm := put_alloc pl a' ((v_mm v)\<lparr>backing_st := b'\<rparr>)\<rparr>)"
proof -
  note ok = view_okD [OF v] and wd = wroteD [OF w, simplified]
  let ?m = "(v_mm v)\<lparr>backing_st := b'\<rparr>"
  have a1: "alloc_of pl ?m = Some a" using a by simp
  have sz: "al_size a' = al_size a" using wd(1) by (simp add: same_shape_def)
  have inv: "mm_inv Z (put_alloc pl a' ?m)" by (rule put_alloc_inv [OF ok(1) a wd(1,2,3)])
  have b: "mm_inv Z ?m"
    using ok(1) wd(3) by (simp add: mm_inv_def mm_part_defs)
  have res: "resolve addr len x k (put_alloc pl a' ?m) = resolve addr len x k (v_mm v)" for addr len x k
    using resolve_put [OF b a1 sz] by simp
  have "lookups_ok (put_alloc pl a' ?m) (t_mem (v_thread v))"
    by (rule lookups_ok_change [OF ok(5) table_change_put [OF a sz]]) (simp add: unlike_def)
  moreover have "aligned_ok (put_alloc pl a' ?m)" using ok(3) keys_put [OF a1, of a'] by (simp add: aligned_ok_def)
  ultimately have "view_ok Z (v\<lparr>v_mm := put_alloc pl a' ?m\<rparr>)"
    using inv ok by (simp add: view_ok_def low_half_def epochs_ok_def)
  then show ?thesis using res wd(1,4) a by (auto simp: stored_def alloc_of_put [OF a1])
qed

lemma on_alloc_stored:
  assumes v: "view_ok Z v" and a: "alloc_of pl (v_mm v) = Some a" and f: "f (a, backing_st (v_mm v)) = (r, st)"
    and w: "wrote backing_ok (a, backing_st (v_mm v)) st off s"
  shows "\<exists>v'. on_alloc pl f v = (r, v') \<and> stored Z pl off s v v'"
proof -
  obtain a' b' where st: "st = (a', b')" by force
  show ?thesis using stored_put [OF v a w [unfolded st]] a f st by (simp add: on_alloc_def Let_def)
qed

section \<open>Lookups of a view\<close>

lemma in_thread_bulk:
  assumes "view_ok Z v"
  shows "\<exists>v'. in_thread (resolve_bulk addr len w) v = (resolve addr len w False (v_mm v), v') \<and> quiet Z v v'"
proof -
  note ok = view_okD [OF assms]
  obtain mem where m: "resolve_bulk addr len w (v_thread v) (v_mm v) = (resolve addr len w False (v_mm v), (v_thread v)\<lparr>t_mem := mem\<rparr>)"
    "lookups_ok (v_mm v) mem" using resolve_bulk_ok [OF ok(1,2,4,5,7)] by blast
  then show ?thesis using ok by (auto simp: in_thread_def quiet_def view_ok_def)
qed

lemma in_thread_scalar:
  assumes "view_ok Z v"
  shows "\<exists>v'. in_thread (resolve_scalar addr len w s) v = (resolve addr len w s (v_mm v), v') \<and> quiet Z v v'"
proof -
  note ok = view_okD [OF assms]
  obtain mem where m: "resolve_scalar addr len w s (v_thread v) (v_mm v) = (resolve addr len w s (v_mm v), (v_thread v)\<lparr>t_mem := mem\<rparr>)"
    "lookups_ok (v_mm v) mem" using resolve_scalar_ok [OF ok(1,2,4,5,7)] by blast
  then show ?thesis using ok by (auto simp: in_thread_def quiet_def view_ok_def)
qed

lemma host_hit_ok:
  assumes v: "view_ok Z v" and h: "host_hit addr len v = (r, v')"
  shows "quiet Z v v'" "r = Some hm \<Longrightarrow> hm \<in> set (hms (hosts (v_mm v))) \<and> map_holds hm addr len \<and> may_contain (hosts (v_mm v)) addr"
    "r = None \<Longrightarrow> may_contain (hosts (v_mm v)) addr \<Longrightarrow> find_host_map_locked (hosts (v_mm v)) addr len = None"
proof -
  note ok = view_okD [OF v]
  obtain q c where l: "lookup_host (t_host_on (v_thread v)) (hosts (v_mm v)) addr len (t_hosts (v_thread v)) = (q, c)" by force
  note cases = lookup_host_cases [OF ok(6) l]
  show "quiet Z v v'" "r = Some hm \<Longrightarrow> hm \<in> set (hms (hosts (v_mm v))) \<and> map_holds hm addr len \<and> may_contain (hosts (v_mm v)) addr"
    "r = None \<Longrightarrow> may_contain (hosts (v_mm v)) addr \<Longrightarrow> find_host_map_locked (hosts (v_mm v)) addr len = None"
    using h l cases ok by (auto simp: host_hit_def quiet_def view_ok_def split: if_splits)
qed

lemma host_hit_none: "\<not> may_contain (hosts (v_mm v)) addr \<Longrightarrow> host_hit addr len v = (None, v)"
  by (simp add: host_hit_def)

section \<open>Reading and writing\<close>

text \<open>Bytes of an allocation: what the device holds from an offset on.\<close>

definition bytes_at :: "mm \<Rightarrow> place \<Rightarrow> nat \<Rightarrow> nat \<Rightarrow> u8 list" where
  "bytes_at m pl off n = (case alloc_of pl m of None \<Rightarrow> [] | Some a \<Rightarrow> map (alloc_byte a) [off ..< off + n])"

definition peek :: "u64 \<Rightarrow> u64 \<Rightarrow> mm \<Rightarrow> u8 list result" where
  "peek addr len m = (case resolve addr len False False m of
     Inl e \<Rightarrow> Inl e
   | Inr (pl, base) \<Rightarrow> Inr (bytes_at m pl (unat (addr - base)) (unat len)))"

lemma resolve_at:
  assumes v: "view_ok Z v" and r: "resolve addr len w k (v_mm v) = Inr (pl, base)"
  shows "\<exists>a. alloc_of pl (v_mm v) = Some a \<and> alloc_inv a \<and> unat (addr - base) = unat addr - unat base \<and>
    unat (addr - base) < kChunkSize * chunk_count a \<and> unat (addr - base) + unat len \<le> kChunkSize * length (slots a) \<and>
    (\<not> k \<longrightarrow> unat (addr - base) + unat len \<le> unat (al_size a))"
proof -
  note ok = view_okD [OF v]
  obtain a where a: "alloc_of pl (v_mm v) = Some a" "alloc_inv a" "unat base \<le> unat addr"
    "unat addr - unat base + unat len \<le> chunk_count a * kChunkSize" "unat addr - unat base < chunk_count a * kChunkSize"
    using resolve_names(1) [OF ok(1,2) r] by (auto simp: names_def)
  have off: "unat (addr - base) = unat addr - unat base" by (rule unat_sub64 [OF a(3)])
  have "chunk_count a * kChunkSize \<le> kChunkSize * length (slots a)" using a(2) by (simp add: alloc_inv_def)
  then show ?thesis using a off resolve_names(2) [OF ok(1,2) r] by (auto simp: mult.commute intro: le_trans)
qed

lemma read_device_ok:
  assumes v: "view_ok Z v" and f: "\<not> any_stuck v" "\<not> armed copy_armed v"
  shows "\<exists>v'. read_device src len v = (peek src len (v_mm v), v') \<and> quiet Z v v'"
proof -
  obtain v' where v': "in_thread (resolve_bulk src len False) v = (resolve src len False False (v_mm v), v')" "quiet Z v v'"
    using in_thread_bulk [OF v] by blast
  note q = quietD [OF v'(2)]
  show ?thesis
  proof (cases "resolve src len False False (v_mm v)")
    case (Inl e)
    then show ?thesis using v' by (simp add: read_device_def peek_def)
  next
    case (Inr r)
    obtain pl base where r: "r = (pl, base)" by force
    from resolve_at [OF v, of src len False False pl base] Inr r obtain a where a: "alloc_of pl (v_mm v) = Some a"
      "unat (src - base) + unat len \<le> kChunkSize * length (slots a)" by auto
    have "\<not> any_stuck v'" "\<not> armed copy_armed v'" using f armed_cong [OF q(3)] by (simp_all add: any_stuck_def)
    then show ?thesis
      using v' Inr r a q read_chunks_spec [OF a(2)] by (simp add: read_device_def peek_def bytes_at_def stuck_bytes_def)
  qed
qed

lemma write_device_ok:
  assumes v: "view_ok Z v" and len: "length s = unat len"
  shows "\<exists>r v'. write_device dst s len v = (r, v') \<and> (case resolve dst len True False (v_mm v) of
      Inl e \<Rightarrow> r = Inl e \<and> quiet Z v v'
    | Inr (pl, base) \<Rightarrow> \<exists>k \<le> length s. stored Z pl (unat (dst - base)) (take k s) v v' \<and>
        (r = Inr () \<and> k = length s \<or> (\<exists>e. r = Inl e \<and> refused acquire backing_ok e)))"
proof -
  obtain v1 where v1: "in_thread (resolve_bulk dst len True) v = (resolve dst len True False (v_mm v), v1)" "quiet Z v v1"
    using in_thread_bulk [OF v] by blast
  note q = quietD [OF v1(2)]
  show ?thesis
  proof (cases "resolve dst len True False (v_mm v)")
    case (Inl e)
    then show ?thesis using v1 by (simp add: write_device_def)
  next
    case (Inr r)
    obtain pl base where r: "r = (pl, base)" by force
    from resolve_at [OF v, of dst len True False pl base] Inr r obtain a where a: "alloc_of pl (v_mm v) = Some a" "alloc_inv a"
      "unat (dst - base) + unat len \<le> unat (al_size a)" by auto
    have a1: "alloc_of pl (v_mm v1) = Some a" using a(1) q by simp
    have bk: "backing_ok (backing_st (v_mm v1))" using mm_invD(1) [OF view_okD(1) [OF q(1)]] .
    obtain x st where w: "write_chunks acquire (unat (dst - base)) s (a, backing_st (v_mm v1)) = (x, st)" by (metis surj_pair)
    obtain k where k: "k \<le> length s" "wrote backing_ok (a, backing_st (v_mm v1)) st (unat (dst - base)) (take k s)"
      "x = Inr () \<and> k = length s \<or> (\<exists>e. x = Inl e \<and> refused acquire backing_ok e)"
      using bk.write_chunks_spec [OF _ _ _ w] a(2,3) bk len by auto
    from on_alloc_stored [where f = "write_chunks acquire (unat (dst - base)) s", OF q(1) a1 w k(2)] obtain v' where
      v': "on_alloc pl (write_chunks acquire (unat (dst - base)) s) v1 = (x, v')" "stored Z pl (unat (dst - base)) (take k s) v1 v'" by blast
    have "write_device dst s len v = (x, v')" using v1 Inr r v'(1) len by (simp add: write_device_def)
    then show ?thesis using quiet_stored [OF v1(2) v'(2)] k(1,3) Inr r by auto
  qed
qed

lemma fill_device_ok:
  assumes v: "view_ok Z v" and p: "pattern \<noteq> []" and r: "resolve dst len True False (v_mm v) = Inr (pl, base)"
  shows "\<exists>x v'. on_alloc pl (fill_chunks acquire release pattern (unat (dst - base)) 0 (unat len)) v = (x, v') \<and>
    (\<exists>k \<le> unat len. stored Z pl (unat (dst - base)) (pattern_run pattern 0 k) v v' \<and>
      (x = Inr () \<and> k = unat len \<or> (\<exists>e. x = Inl e \<and> refused acquire backing_ok e)))"
proof -
  from resolve_at [OF v r] obtain a where a: "alloc_of pl (v_mm v) = Some a" "alloc_inv a"
    "unat (dst - base) + unat len \<le> unat (al_size a)" by auto
  have bk: "backing_ok (backing_st (v_mm v))" using mm_invD(1) [OF view_okD(1) [OF v]] .
  obtain x st where w: "fill_chunks acquire release pattern (unat (dst - base)) 0 (unat len) (a, backing_st (v_mm v)) = (x, st)" by (metis surj_pair)
  obtain k where k: "k \<le> unat len" "wrote backing_ok (a, backing_st (v_mm v)) st (unat (dst - base)) (pattern_run pattern 0 k)"
    "x = Inr () \<and> k = unat len \<or> (\<exists>e. x = Inl e \<and> refused acquire backing_ok e)"
    using bk.fill_chunks_spec [OF _ _ _ p w] a(2,3) bk by auto
  then show ?thesis
    using on_alloc_stored [where f = "fill_chunks acquire release pattern (unat (dst - base)) 0 (unat len)", OF v a(1) w k(2)] by blast
qed

end
