(* ===== verification/Scalar.thy ===== *)
theory Scalar
  imports Access
begin

text \<open>
  A kernel's accesses to single words of device memory (\<^verbatim>\<open>load_scalar\<close>,
  \<^verbatim>\<open>store_scalar\<close>, \<^verbatim>\<open>load_quad\<close>, \<^verbatim>\<open>store_quad\<close>, \<^verbatim>\<open>scalar_location\<close>
  and the read-modify-writes of \<^verbatim>\<open>src/core/memory.cpp\<close>). A pointer into a chunk is the
  allocation and the offset; using it when the chunk is not real any more is a stray access.

  A compare-and-swap loop meets other threads: what they leave in the word before each exchange, and
  whether the exchange fails for no reason, is an argument of the loop.

  The lemmas give each access as a read or a write of the allocation's bytes, little-endian.
\<close>

unbundle bit_operations_syntax

section \<open>Definitions\<close>

subsection \<open>A word of a chunk\<close>

definition chunk_load :: "chunk \<Rightarrow> nat \<Rightarrow> nat \<Rightarrow> u64" where
  "chunk_load chunk coff sz = (case chunk of
     Untouched \<Rightarrow> 0
   | Uniform u \<Rightarrow> repeated u sz
   | Real c \<Rightarrow> load_at c coff sz)"

definition load_word :: "place \<Rightarrow> nat \<Rightarrow> nat \<Rightarrow> view \<Rightarrow> u64 result" where
  "load_word pl off sz v = (case alloc_of pl (v_mm v) of
     None \<Rightarrow> Inl Stray
   | Some a \<Rightarrow> (case slot_at a (off div kChunkSize) of
       Inl e \<Rightarrow> Inl e
     | Inr chunk \<Rightarrow> Inr (chunk_load chunk (off mod kChunkSize) sz)))"

definition store_real :: "nat \<Rightarrow> nat \<Rightarrow> u64 \<Rightarrow> allocation \<times> bstate \<Rightarrow> (unit, allocation \<times> bstate) outcome" where
  "store_real off sz x st = (case slot_at (fst st) (off div kChunkSize) of
     Inr (Real c) \<Rightarrow> (Inr (), (set_slot (off div kChunkSize) (Real (store_at c (off mod kChunkSize) sz x)) (fst st), snd st))
   | Inr _ \<Rightarrow> (Inl Stray, st)
   | Inl e \<Rightarrow> (Inl e, st))"

text \<open>A store that leaves a uniform chunk alone when it stores the chunk's own byte.\<close>

definition chunk_store :: "nat \<Rightarrow> nat \<Rightarrow> u64 \<Rightarrow> allocation \<times> bstate \<Rightarrow> (unit, allocation \<times> bstate) outcome" where
  "chunk_store off sz x st = (case slot_at (fst st) (off div kChunkSize) of
     Inl e \<Rightarrow> (Inl e, st)
   | Inr chunk \<Rightarrow>
       if (case chunk of Uniform u \<Rightarrow> x = repeated u sz | _ \<Rightarrow> False) then (Inr (), st)
       else then_do (materialize acquire (off div kChunkSize) st) (\<lambda>c st'.
         (Inr (), (set_slot (off div kChunkSize) (Real (store_at c (off mod kChunkSize) sz x)) (fst st'), snd st'))))"

subsection \<open>A word of mapped host memory\<close>

definition host_word :: "u64 \<Rightarrow> (u64 \<Rightarrow> u8) \<Rightarrow> rchunk" where
  "host_word p mem = \<lparr>rc_ptr = p, rc_bytes = (\<lambda>i. mem (p + of_nat i))\<rparr>"

definition host_load :: "u64 \<Rightarrow> nat \<Rightarrow> (u64 \<Rightarrow> u8) \<Rightarrow> u64" where
  "host_load p sz mem = load_at (host_word p mem) 0 sz"

definition host_store :: "u64 \<Rightarrow> nat \<Rightarrow> u64 \<Rightarrow> (u64 \<Rightarrow> u8) \<Rightarrow> (u64 \<Rightarrow> u8)" where
  "host_store p sz x mem = host_put p (map (rc_bytes (store_at (host_word p mem) 0 sz x)) [0 ..< sz]) mem"

subsection \<open>Where an access lands\<close>

datatype scalar_at = AtChunk place nat | AtUntouched | AtUniform u8 | AtUnchanged | AtHost u64

definition scalar_location :: "u64 \<Rightarrow> nat \<Rightarrow> u64 option \<Rightarrow> view \<Rightarrow> (scalar_at, view) outcome" where
  "scalar_location addr sz store v = (case host_hit addr (of_nat sz) v of
     (Some h, v) \<Rightarrow> if store \<noteq> None \<and> hm_read_only h then (Inl (Throw Trap), v) else (Inr (AtHost (host_at h addr)), v)
   | (None, v) \<Rightarrow> then_do (in_thread (resolve_scalar addr (of_nat sz) False (store = None)) v) (\<lambda>(pl, base) v.
       let off = unat (addr - base);
           make = then_do (on_alloc pl (materialize acquire (off div kChunkSize)) v) (\<lambda>_ v. (Inr (AtChunk pl off), v))
       in case alloc_of pl (v_mm v) of
         None \<Rightarrow> (Inl Stray, v)
       | Some a \<Rightarrow> (case slot_at a (off div kChunkSize) of
           Inl e \<Rightarrow> (Inl e, v)
         | Inr (Real c) \<Rightarrow> (Inr (AtChunk pl off), v)
         | Inr (Uniform u) \<Rightarrow> (case store of
             None \<Rightarrow> (Inr (AtUniform u), v)
           | Some x \<Rightarrow> if x = repeated u sz then (Inr AtUnchanged, v) else make)
         | Inr Untouched \<Rightarrow> (case store of None \<Rightarrow> (Inr AtUntouched, v) | Some x \<Rightarrow> make))))"

subsection \<open>Scalars\<close>

text \<open>What a load returns once the bytes are read: stuck cells, then a fault armed for loads.\<close>

definition loaded :: "u64 \<Rightarrow> nat \<Rightarrow> u64 \<Rightarrow> view \<Rightarrow> (u64, view) outcome" where
  "loaded addr sz x v = then_do (stuck_bytes addr (bytes_of x sz) v) (\<lambda>bs v.
     let y = value_of (bs @ drop sz (bytes_of x 8)) in
     if armed load_armed v then ask (\<lambda>h. on_load h addr sz y) y v else (Inr y, v))"

definition load_scalar :: "u64 \<Rightarrow> nat \<Rightarrow> view \<Rightarrow> (u64, view) outcome" where
  "load_scalar addr sz v =
     (if \<not> scalar_size sz then (Inl (Throw Internal), v)
      else if addr AND (of_nat sz - 1) \<noteq> 0 then (Inl (Throw MisalignedAccess), v)
      else case hot_location addr (of_nat sz) (v_thread v) (v_mm v) of
        Inl e \<Rightarrow> (Inl e, v)
      | Inr (Some (base, off)) \<Rightarrow> then_do (load_word (InLive base) off sz v, v) (loaded addr sz)
      | Inr None \<Rightarrow> then_do (scalar_location addr sz None v) (\<lambda>at v. case at of
          AtChunk pl off \<Rightarrow> then_do (load_word pl off sz v, v) (loaded addr sz)
        | AtUniform u \<Rightarrow> loaded addr sz (repeated u sz) v
        | AtUntouched \<Rightarrow> loaded addr sz 0 v
        | AtUnchanged \<Rightarrow> then_do (read_mem addr False (of_nat sz) v) (\<lambda>bs v. (Inr (value_of bs), v))
        | AtHost p \<Rightarrow> (Inr (host_load p sz (hmem (v_mm v))), v)))"

text \<open>A fault armed on stores changes the value, but not one that goes to mapped host memory.\<close>

definition to_store :: "u64 \<Rightarrow> nat \<Rightarrow> u64 \<Rightarrow> view \<Rightarrow> (u64, view) outcome" where
  "to_store addr sz x v =
     (if armed store_armed v then (case is_host_mapped addr v of
        (True, v) \<Rightarrow> (Inr x, v)
      | (False, v) \<Rightarrow> ask (\<lambda>h. on_store h addr sz x) x v)
      else (Inr x, v))"

definition store_word :: "u64 \<Rightarrow> nat \<Rightarrow> u64 \<Rightarrow> view \<Rightarrow> (unit, view) outcome" where
  "store_word addr sz x v = (case hot_location addr (of_nat sz) (v_thread v) (v_mm v) of
     Inl e \<Rightarrow> (Inl e, v)
   | Inr (Some (base, off)) \<Rightarrow> on_alloc (InLive base) (store_real off sz x) v
   | Inr None \<Rightarrow> then_do (scalar_location addr sz (Some x) v) (\<lambda>at v. case at of
       AtChunk pl off \<Rightarrow> on_alloc pl (store_real off sz x) v
     | AtUnchanged \<Rightarrow> (Inr (), v)
     | AtHost p \<Rightarrow> (Inr (), in_host (host_store p sz x) v)
     | _ \<Rightarrow> write_mem addr (Some (bytes_of x sz)) (of_nat sz) v))"

definition store_scalar :: "u64 \<Rightarrow> nat \<Rightarrow> u64 \<Rightarrow> view \<Rightarrow> (unit, view) outcome" where
  "store_scalar addr sz x v =
     (if \<not> scalar_size sz then (Inl (Throw Internal), v)
      else if addr AND (of_nat sz - 1) \<noteq> 0 then (Inl (Throw MisalignedAccess), v)
      else then_do (to_store addr sz x v) (store_word addr sz))"

subsection \<open>Sixteen bytes\<close>

text \<open>One instruction where the host has it and the address allows it, else two words under a lock.\<close>

definition load16 :: "bool \<Rightarrow> rchunk \<Rightarrow> nat \<Rightarrow> u64 \<times> u64" where
  "load16 one c off =
     (if one \<and> (rc_ptr c + of_nat off) mod 16 = 0
      then (let bs = map (rc_bytes c) [off ..< off + 16] in (value_of (take 8 bs), value_of (drop 8 bs)))
      else (load_at c off 8, load_at c (off + 8) 8))"

definition store16 :: "bool \<Rightarrow> rchunk \<Rightarrow> nat \<Rightarrow> u64 \<times> u64 \<Rightarrow> rchunk" where
  "store16 one c off q =
     (if one \<and> (rc_ptr c + of_nat off) mod 16 = 0
      then c\<lparr>rc_bytes := copy_in (rc_bytes c) off (bytes_of (fst q) 8 @ bytes_of (snd q) 8)\<rparr>
      else store_at (store_at c off 8 (fst q)) (off + 8) 8 (snd q))"

definition quad_load :: "bool \<Rightarrow> chunk \<Rightarrow> nat \<Rightarrow> u64 \<times> u64" where
  "quad_load one chunk coff = (case chunk of
     Untouched \<Rightarrow> (0, 0)
   | Uniform u \<Rightarrow> (repeated u 8, repeated u 8)
   | Real c \<Rightarrow> load16 one c coff)"

definition quad_store :: "bool \<Rightarrow> nat \<Rightarrow> u64 \<times> u64 \<Rightarrow> allocation \<times> bstate \<Rightarrow> (unit, allocation \<times> bstate) outcome" where
  "quad_store one off q st = (case slot_at (fst st) (off div kChunkSize) of
     Inl e \<Rightarrow> (Inl e, st)
   | Inr chunk \<Rightarrow>
       if (case chunk of Uniform u \<Rightarrow> fst q = snd q \<and> fst q = repeated u 8 | _ \<Rightarrow> False) then (Inr (), st)
       else then_do (materialize acquire (off div kChunkSize) st) (\<lambda>c st'.
         (Inr (), (set_slot (off div kChunkSize) (Real (store16 one c (off mod kChunkSize) q)) (fst st'), snd st'))))"

definition load_quad :: "bool \<Rightarrow> u64 \<Rightarrow> view \<Rightarrow> (u64 \<times> u64, view) outcome" where
  "load_quad one addr v =
     (if addr mod 16 \<noteq> 0 \<or> any_stuck v \<or> armed load_armed v \<or> may_contain (hosts (v_mm v)) addr
      then then_do (load_scalar addr 8 v) (\<lambda>x v. then_do (load_scalar (addr + 8) 8 v) (\<lambda>y v. (Inr (x, y), v)))
      else then_do (in_thread (resolve_scalar addr 16 False True) v) (\<lambda>(pl, base) v.
        let off = unat (addr - base) in
        case alloc_of pl (v_mm v) of
          None \<Rightarrow> (Inl Stray, v)
        | Some a \<Rightarrow> (case slot_at a (off div kChunkSize) of
            Inl e \<Rightarrow> (Inl e, v)
          | Inr chunk \<Rightarrow> (Inr (quad_load one chunk (off mod kChunkSize)), v))))"

definition store_quad :: "bool \<Rightarrow> u64 \<Rightarrow> u64 \<times> u64 \<Rightarrow> view \<Rightarrow> (unit, view) outcome" where
  "store_quad one addr q v =
     (if addr mod 16 \<noteq> 0 \<or> armed store_armed v \<or> may_contain (hosts (v_mm v)) addr
      then then_do (store_scalar addr 8 (fst q) v) (\<lambda>_ v. store_scalar (addr + 8) 8 (snd q) v)
      else then_do (in_thread (resolve_scalar addr 16 False False) v) (\<lambda>(pl, base) v.
        on_alloc pl (quad_store one (unat (addr - base)) q) v))"

subsection \<open>Read, modify, write\<close>

record rmw_slot =
  rs_base :: u64
  rs_off :: nat
  rs_chunk :: chunk

definition rmw_locate :: "u64 \<Rightarrow> nat \<Rightarrow> view \<Rightarrow> (rmw_slot option, view) outcome" where
  "rmw_locate addr sz v =
     (if \<not> scalar_size sz \<or> addr AND (of_nat sz - 1) \<noteq> 0 \<or> access_faults_armed v \<or> may_contain (hosts (v_mm v)) addr then (Inr None, v)
      else then_do (in_thread (find_ordinary addr (of_nat sz) None) v) (\<lambda>(r, _) v. case r of
        None \<Rightarrow> (Inr None, v)
      | Some base \<Rightarrow> (let off = unat (addr - base) in case alloc_of (InLive base) (v_mm v) of
          None \<Rightarrow> (Inl Stray, v)
        | Some a \<Rightarrow> (case slot_at a (off div kChunkSize) of
            Inl e \<Rightarrow> (Inl e, v)
          | Inr chunk \<Rightarrow> (Inr (Some \<lparr>rs_base = base, rs_off = off, rs_chunk = chunk\<rparr>), v)))))"

definition rmw_load :: "rmw_slot \<Rightarrow> nat \<Rightarrow> u64" where
  "rmw_load s sz = chunk_load (rs_chunk s) (rs_off s mod kChunkSize) sz"

definition rmw_store :: "rmw_slot \<Rightarrow> nat \<Rightarrow> u64 \<Rightarrow> view \<Rightarrow> (unit, view) outcome" where
  "rmw_store s sz x v = on_alloc (InLive (rs_base s)) (chunk_store (rs_off s) sz x) v"

definition rmw_scalar_fn :: "u64 \<Rightarrow> nat \<Rightarrow> (u64 \<Rightarrow> u64 result) \<Rightarrow> view \<Rightarrow> (u64 option, view) outcome" where
  "rmw_scalar_fn addr sz compute v = then_do (rmw_locate addr sz v) (\<lambda>r v. case r of
     None \<Rightarrow> (Inr None, v)
   | Some s \<Rightarrow> (let old = rmw_load s sz in case compute old of
       Inl e \<Rightarrow> (Inl e, v)
     | Inr new \<Rightarrow> then_do (rmw_store s sz new v) (\<lambda>_ v. (Inr (Some old), v))))"

definition rmw_if_changed_fn :: "u64 \<Rightarrow> nat \<Rightarrow> (u64 \<Rightarrow> u64 result) \<Rightarrow> view \<Rightarrow> (u64 option, view) outcome" where
  "rmw_if_changed_fn addr sz compute v =
     (if \<not> scalar_size sz \<or> addr AND (of_nat sz - 1) \<noteq> 0 \<or> access_faults_armed v then (Inr None, v)
      else case hot_location addr (of_nat sz) (v_thread v) (v_mm v) of
        Inl e \<Rightarrow> (Inl e, v)
      | Inr None \<Rightarrow> (Inr None, v)
      | Inr (Some (base, off)) \<Rightarrow> then_do (load_word (InLive base) off sz v, v) (\<lambda>old v. case compute old of
          Inl e \<Rightarrow> (Inl e, v)
        | Inr new \<Rightarrow>
            if new \<noteq> old then then_do (on_alloc (InLive base) (store_real off sz new) v) (\<lambda>_ v. (Inr (Some old), v))
            else (Inr (Some old), v)))"

subsection \<open>Atomics\<close>

text \<open>
  The compare-and-swap loop on a word that is \<open>w\<close> now and was \<open>old\<close> when last looked at. Each entry
  of \<open>others\<close> is one exchange: what other threads have made of the word by then, and whether the weak
  exchange fails though it need not. After the last the thread is alone.
\<close>

definition word_of :: "nat \<Rightarrow> u64 \<Rightarrow> u64" where
  "word_of sz x = (if sz = 4 then take_bit 32 x else x)"

function swap_loop :: "nat \<Rightarrow> (u64 \<Rightarrow> u64 result) \<Rightarrow> (u64 \<times> bool) list \<Rightarrow> u64 \<Rightarrow> u64 \<Rightarrow> (u64, u64) outcome" where
  "swap_loop sz compute others old w = (case compute old of
     Inl e \<Rightarrow> (Inl e, w)
   | Inr x \<Rightarrow> (let new = word_of sz x in
       if new = old then (Inr old, w)
       else case others of
           [] \<Rightarrow> if w = old then (Inr old, new) else swap_loop sz compute [] w w
         | (w', spurious) # others' \<Rightarrow>
             if w' = old \<and> \<not> spurious then (Inr old, new) else swap_loop sz compute others' w' w'))"
  by pat_completeness auto
termination
  by (relation "measures [\<lambda>(sz, compute, others, old, w). length others, \<lambda>(sz, compute, others, old, w). if w = old then 0 else 1]") auto

declare swap_loop.simps [simp del]

definition swap_word :: "nat \<Rightarrow> nat \<Rightarrow> (u64 \<Rightarrow> u64 result) \<Rightarrow> (u64 \<times> bool) list \<Rightarrow> allocation \<times> bstate \<Rightarrow> (u64, allocation \<times> bstate) outcome" where
  "swap_word off sz compute others st = (case slot_at (fst st) (off div kChunkSize) of
     Inl e \<Rightarrow> (Inl e, st)
   | Inr (Real c) \<Rightarrow> (let w = load_at c (off mod kChunkSize) sz in case swap_loop sz compute others w w of
       (r, w') \<Rightarrow> (r, (set_slot (off div kChunkSize) (Real (store_at c (off mod kChunkSize) sz w')) (fst st), snd st)))
   | Inr _ \<Rightarrow> (Inl Stray, st))"

definition atomic_rmw_slot :: "rmw_slot \<Rightarrow> nat \<Rightarrow> (u64 \<Rightarrow> u64 result) \<Rightarrow> bool \<Rightarrow> (u64 \<times> bool) list \<Rightarrow> view \<Rightarrow> (u64, view) outcome" where
  "atomic_rmw_slot s sz compute always_store others v =
     (let swap = on_alloc (InLive (rs_base s)) (swap_word (rs_off s) sz compute others) in
      case rs_chunk s of
        Real c \<Rightarrow> swap v
      | chunk \<Rightarrow> (let old = rmw_load s sz in case compute old of
          Inl e \<Rightarrow> (Inl e, v)
        | Inr new \<Rightarrow>
            if new = old \<and> (chunk \<noteq> Untouched \<or> \<not> always_store) then (Inr old, v)
            else then_do (on_alloc (InLive (rs_base s)) (materialize acquire (rs_off s div kChunkSize)) v) (\<lambda>_. swap)))"

definition atomic_rmw_fn :: "u64 \<Rightarrow> nat \<Rightarrow> (u64 \<Rightarrow> u64 result) \<Rightarrow> bool \<Rightarrow> (u64 \<times> bool) list \<Rightarrow> view \<Rightarrow> (u64 option, view) outcome" where
  "atomic_rmw_fn addr sz compute always_store others v =
     (if sz \<noteq> 4 \<and> sz \<noteq> 8 then (Inr None, v)
      else then_do (rmw_locate addr sz v) (\<lambda>r v. case r of
        None \<Rightarrow> (Inr None, v)
      | Some s \<Rightarrow> then_do (atomic_rmw_slot s sz compute always_store others v) (\<lambda>old v. (Inr (Some old), v))))"

section \<open>Alignment\<close>

lemma mask_dvd: "scalar_size n \<Longrightarrow> addr AND (of_nat n - 1) = 0 \<longleftrightarrow> n dvd unat (addr :: u64)"
proof -
  have *: "addr AND (2 ^ k - 1) = 0 \<longleftrightarrow> 2 ^ k dvd unat addr" for k
  proof -
    have "addr AND (2 ^ k - 1) = take_bit k addr" by (simp add: take_bit_eq_mask mask_eq_exp_minus_1)
    moreover have "take_bit k addr = 0 \<longleftrightarrow> unat (take_bit k addr) = 0" by (simp add: unsigned_eq_0_iff)
    moreover have "unat (take_bit k addr) = unat addr mod 2 ^ k" by (rule trans [OF unsigned_take_bit_eq take_bit_eq_mod])
    ultimately show ?thesis by (simp add: dvd_eq_mod_eq_0)
  qed
  assume "scalar_size n"
  then show ?thesis using * [of 0] * [of 1] * [of 2] * [of 3] by (auto simp: scalar_size_def)
qed

lemma chunk_fits:
  assumes "n dvd 16" "n dvd off"
  shows "off mod kChunkSize + n \<le> kChunkSize"
proof -
  have "n dvd kChunkSize" using dvd_trans [OF assms(1), of kChunkSize] by (simp add: kChunkSize_def)
  then have d: "n dvd kChunkSize - off mod kChunkSize" using assms(2) by (simp add: dvd_mod)
  have "off mod kChunkSize < kChunkSize" by simp
  then have "n \<le> kChunkSize - off mod kChunkSize" using dvd_imp_le [OF d] by simp
  with \<open>off mod kChunkSize < kChunkSize\<close> show ?thesis by linarith
qed

lemma scalar_dvd: "scalar_size n \<Longrightarrow> n dvd 16" "scalar_size n \<Longrightarrow> unat (of_nat n :: u64) = n" "scalar_size n \<Longrightarrow> 0 < n"
  by (auto simp: scalar_size_def)

lemma resolve_aligned:
  assumes v: "view_ok Z v" and r: "resolve addr len w k (v_mm v) = Inr (pl, base)"
  shows "16 dvd unat base"
proof (rule address_cases [OF view_okD(1,2) [OF v], of addr])
  note ok = view_okD [OF v]
  fix b a assume a: "om_find (live (v_mm v)) b = Some a" "unat b \<le> unat addr" "unat addr < unat b + unat (padded_size a (v_mm v))"
  have "base = b" using r unfolding resolve_live_eq [OF ok(1,2) a] by (auto split: if_splits)
  then show ?thesis using ok(3) a(1) by (auto simp: aligned_ok_def)
next
  note ok = view_okD [OF v]
  fix va p assume p: "om_find (vmaps (v_mm v)) va = Some p" "unat va \<le> unat addr" "unat addr < unat va + unat (mp_size p)"
  have "base = va" using r unfolding resolve_map_eq [OF ok(1,2) p] by (auto split: if_splits)
  then show ?thesis using ok(3) p(1) by (auto simp: aligned_ok_def)
next
  fix e assume "\<And>len w s. resolve addr len w s (v_mm v) = Inl (Throw e)"
  then show ?thesis using r by simp
qed

lemma resolve_fits:
  assumes v: "view_ok Z v" and r: "resolve addr len w k (v_mm v) = Inr (pl, base)" and n: "n dvd 16" "n dvd unat addr"
  shows "n dvd unat (addr - base)" "unat (addr - base) mod kChunkSize + n \<le> kChunkSize"
proof -
  have "unat (addr - base) = unat addr - unat base" using resolve_at [OF v r] by blast
  then show "n dvd unat (addr - base)" using n resolve_aligned [OF v r] by (simp add: dvd_diff_nat dvd_trans)
  then show "unat (addr - base) mod kChunkSize + n \<le> kChunkSize" by (rule chunk_fits [OF n(1)])
qed

section \<open>A word is its bytes\<close>

lemma value_of_zeros [simp]: "value_of (replicate n 0) = 0"
proof -
  have "le_val (replicate n 0) = 0" by (simp add: le_val_replicate)
  then show ?thesis by (simp add: value_of_def)
qed

lemma chunk_load_val: "scalar_size n \<Longrightarrow> chunk_load c off n = value_of (chunk_bytes c off n)"
  by (cases c) (simp_all add: chunk_load_def repeated_val load_at_val)

lemma load_word_val:
  assumes "alloc_of pl (v_mm v) = Some a" "off div kChunkSize < length (slots a)" "scalar_size n" "off mod kChunkSize + n \<le> kChunkSize"
  shows "load_word pl off n v = Inr (value_of (bytes_at (v_mm v) pl off n))"
  using assms by (simp add: load_word_def slot_at_def bytes_at_def chunk_load_val alloc_byte_piece)

lemma bytes_of_repeated: "scalar_size n \<Longrightarrow> bytes_of (repeated u n) n = replicate n u"
  using bytes_of_value_of [of "replicate n u"] by (auto simp: repeated_val scalar_size_def)

lemma store_at_copy: "scalar_size n \<Longrightarrow> store_at c off n x = c\<lparr>rc_bytes := copy_in (rc_bytes c) off (bytes_of x n)\<rparr>"
  by (cases c) (use store_at_bytes [of n c off x] in \<open>simp add: store_at_def\<close>)

lemma chunk_store_spec:
  assumes "alloc_inv (fst st)" "backing_ok (snd st)" "scalar_size n" "off mod kChunkSize + n \<le> kChunkSize" "off + n \<le> unat (al_size (fst st))"
    and "chunk_store off n x st = (r, st')"
  shows "(r = Inr () \<and> wrote backing_ok st st' off (bytes_of x n)) \<or>
    (\<exists>e. r = Inl e \<and> refused acquire backing_ok e \<and> wrote backing_ok st st' off [])"
proof -
  obtain a b where st: "st = (a, b)" by force
  define i where "i = off div kChunkSize"
  have off: "i * kChunkSize + off mod kChunkSize = off" by (simp add: i_def)
  have "off < unat (al_size a)" using assms(5) scalar_dvd(3) [OF assms(3)] st by simp
  then have i: "i < chunk_count a" "i < length (slots a)" using alloc_inv_index [of a off] assms(1) st by (auto simp: i_def)
  show ?thesis
  proof (cases "case slots a ! i of Uniform u \<Rightarrow> x = repeated u n | _ \<Rightarrow> False")
    case True
    then obtain u where u: "slots a ! i = Uniform u" "x = repeated u n" by (auto split: chunk.splits)
    have "copy_in (alloc_byte a) (i * kChunkSize + off mod kChunkSize) (bytes_of x n) = alloc_byte a"
      by (rule bk.chunk_run_self [OF i(2), where n = n]) (use assms(3,4) u in \<open>simp_all add: bytes_of_repeated\<close>)
    then have "wrote backing_ok st st off (bytes_of x n)" using assms(1,2) off st by (simp add: wrote_def)
    moreover have "r = Inr ()" "st' = st" using assms(6) True i st by (simp_all add: chunk_store_def slot_at_def flip: i_def)
    ultimately show ?thesis by simp
  next
    case False
    obtain q a1 b1 where m: "materialize acquire i (a, b) = (q, (a1, b1))" by (metis prod.exhaust)
    have f: "(r, st') = then_do (materialize acquire i st) (\<lambda>c st'. (Inr (), (set_slot i (Real (store_at c (off mod kChunkSize) n x)) (fst st'), snd st')))"
      using assms(6) False i st by (simp add: chunk_store_def slot_at_def flip: i_def)
    show ?thesis
    proof (cases q)
      case (Inl e)
      then show ?thesis using bk.materialize_spec [of a b i q a1 b1] f m assms(1,2) i(1) st by auto
    next
      case (Inr c)
      have "wrote backing_ok (a, b) (set_slot i (Real (c\<lparr>rc_bytes := copy_in (rc_bytes c) (off mod kChunkSize) (bytes_of x n)\<rparr>)) a1, b1)
          (i * kChunkSize + off mod kChunkSize) (bytes_of x n)"
        by (rule bk.update_real_spec) (use assms m i Inr st off in \<open>simp_all\<close>)
      then show ?thesis using f m Inr st off assms(3) by (simp add: store_at_copy)
    qed
  qed
qed

section \<open>Steps on one allocation\<close>

lemma om_set_twice [simp]: "om_set k v (om_set k w m) = om_set k v m"
  by (induction k w m rule: om_set.induct) auto

lemma put_alloc_twice:
  "put_alloc pl a' ((put_alloc pl a m)\<lparr>backing_st := b\<rparr>) = put_alloc pl a' (m\<lparr>backing_st := b\<rparr>)"
  by (cases m) (auto simp: put_alloc_def split: place.splits option.splits)

lemma put_alloc_backing: "put_alloc pl a (m\<lparr>backing_st := b, backing_st := b'\<rparr>) = put_alloc pl a (m\<lparr>backing_st := b'\<rparr>)"
  by simp

lemma on_alloc_then:
  assumes "alloc_of pl (v_mm v) = Some a"
  shows "then_do (on_alloc pl f v) (\<lambda>x v. on_alloc pl (g x) v) = on_alloc pl (\<lambda>st. then_do (f st) g) v"
proof -
  obtain r a1 b1 where f: "f (a, backing_st (v_mm v)) = (r, (a1, b1))" by (metis prod.exhaust)
  let ?m = "put_alloc pl a1 ((v_mm v)\<lparr>backing_st := b1\<rparr>)"
  have a1: "alloc_of pl ?m = Some a1" using alloc_of_put [of pl "(v_mm v)\<lparr>backing_st := b1\<rparr>" a pl a1] assms by simp
  have t: "put_alloc pl a2 (?m\<lparr>backing_st := b2\<rparr>) = put_alloc pl a2 ((v_mm v)\<lparr>backing_st := b2\<rparr>)" for a2 b2
    unfolding put_alloc_twice by simp
  show ?thesis
  proof (cases r)
    case (Inl e)
    then show ?thesis using f assms by (simp add: on_alloc_def)
  next
    case (Inr x)
    obtain r2 a2 b2 where g: "g x (a1, b1) = (r2, (a2, b2))" by (metis prod.exhaust)
    then show ?thesis using f assms Inr a1 t by (simp add: on_alloc_def)
  qed
qed

lemma on_alloc_id:
  assumes "mm_inv Z (v_mm v)" "alloc_of pl (v_mm v) = Some a"
  shows "on_alloc pl (\<lambda>st. (Inr x, st)) v = (Inr x, v)"
proof -
  have s: "om_inv m \<Longrightarrow> om_find m k = Some y \<Longrightarrow> om_set k y m = m" for m :: "('k::linorder, 'y) omap" and k y
    by (induction k y m rule: om_set.induct) (force simp: om_inv_Cons dest: map_of_SomeD)+
  have om: "om_inv (live (v_mm v))" "om_inv (handles (v_mm v))"
    using mm_invD(4,9) [OF assms(1)] by (simp_all add: live_ok_def handles_ok_def)
  have "put_alloc pl a (v_mm v) = v_mm v"
    using assms(2) s [OF om(1)] s [OF om(2)] by (cases "v_mm v") (auto simp: put_alloc_def alloc_of_def split: place.splits)
  moreover have "(v_mm v)\<lparr>backing_st := backing_st (v_mm v)\<rparr> = v_mm v" "v\<lparr>v_mm := v_mm v\<rparr> = v" by simp_all
  ultimately show ?thesis using assms(2) by (simp add: on_alloc_def)
qed

section \<open>Loads and stores of scalars\<close>

lemma loaded_plain:
  assumes "\<not> any_stuck v" "\<not> armed load_armed v" "scalar_size n"
  shows "loaded addr n x v = (Inr x, v)"
proof -
  have "n \<le> 8" using assms(3) by (auto simp: scalar_size_def)
  then have "take n (bytes_of x 8) = bytes_of x n" unfolding bytes_of_def take_map by (subst take_upt) simp_all
  then have "bytes_of x n @ drop n (bytes_of x 8) = bytes_of x 8" using append_take_drop_id [of n "bytes_of x 8"] by simp
  then show ?thesis using assms by (simp add: loaded_def stuck_bytes_def)
qed

lemma load_word_cong: "v_mm v' = v_mm v \<Longrightarrow> load_word pl off n v' = load_word pl off n v"
  by (simp add: load_word_def)

lemma hot_resolve:
  assumes v: "view_ok Z v" and h: "hot_location addr len (v_thread v) (v_mm v) = r"
  shows "r = Inr None \<or> (\<exists>b a c. r = Inr (Some (b, unat (addr - b))) \<and> (\<forall>w k. resolve addr len w k (v_mm v) = Inr (InLive b, b)) \<and>
    alloc_of (InLive b) (v_mm v) = Some a \<and> slot_at a (unat (addr - b) div kChunkSize) = Inr (Real c))"
proof -
  note ok = view_okD [OF v]
  consider "r = Inr None" | b a c where "r = Inr (Some (b, unat (addr - b)))" "table_find addr len (v_mm v) = Some b"
      "om_find (live (v_mm v)) b = Some a" "slots a ! (unat (addr - b) div kChunkSize) = Real c"
    using hot_location_ok [OF ok(1,5), of addr len] h by blast
  then show ?thesis
  proof cases
    case 2
    have res: "resolve addr len w k (v_mm v) = Inr (InLive b, b)" for w k by (rule resolve_table_find [OF ok(1,2) 2(2)])
    obtain a' where a': "alloc_of (InLive b) (v_mm v) = Some a'" "alloc_inv a'" "unat (addr - b) < kChunkSize * chunk_count a'"
      using resolve_at [OF v res [of False False]] by blast
    have "unat (addr - b) div kChunkSize < length (slots a')"
      using a'(2) chunk_div_less [OF a'(3)] by (simp add: alloc_inv_def)
    then show ?thesis using 2 a' res by (auto simp: alloc_of_def slot_at_def)
  qed simp
qed

lemma load_scalar_eq:
  assumes v: "view_ok Z v" and n: "scalar_size n" "n dvd unat addr" and h: "fst (host_hit addr (of_nat n) v) = None"
    and f: "\<not> any_stuck v" "\<not> armed load_armed v"
  shows "\<exists>v'. quiet Z v v' \<and> load_scalar addr n v = (case resolve addr (of_nat n) False True (v_mm v) of
      Inl e \<Rightarrow> Inl e
    | Inr (pl, base) \<Rightarrow> load_word pl (unat (addr - base)) n v, v')"
proof -
  have al: "addr AND (of_nat n - 1) = 0" using n by (simp add: mask_dvd)
  note head = load_scalar_def [of addr n v, simplified n(1) al if_False not_True_eq_False simp_thms]
  note plain = loaded_plain [OF _ _ n(1), of _ addr]
  obtain b a c where "hot_location addr (of_nat n) (v_thread v) (v_mm v) = Inr None \<or>
    hot_location addr (of_nat n) (v_thread v) (v_mm v) = Inr (Some (b, unat (addr - b))) \<and>
      (\<forall>w k. resolve addr (of_nat n) w k (v_mm v) = Inr (InLive b, b)) \<and>
    alloc_of (InLive b) (v_mm v) = Some a \<and> slot_at a (unat (addr - b) div kChunkSize) = Inr (Real c)"
    using hot_resolve [OF v refl, of addr "of_nat n"] by blast
  then show ?thesis
  proof
    assume hot: "hot_location addr (of_nat n) (v_thread v) (v_mm v) = Inr (Some (b, unat (addr - b))) \<and>
      (\<forall>w k. resolve addr (of_nat n) w k (v_mm v) = Inr (InLive b, b)) \<and>
      alloc_of (InLive b) (v_mm v) = Some a \<and> slot_at a (unat (addr - b) div kChunkSize) = Inr (Real c)"
    then have "load_word (InLive b) (unat (addr - b)) n v = Inr (chunk_load (Real c) (unat (addr - b) mod kChunkSize) n)"
      by (simp add: load_word_def)
    then show ?thesis using hot plain [OF f] quiet_refl [OF v] by (intro exI [of _ v]) (simp add: head)
  next
    assume cold: "hot_location addr (of_nat n) (v_thread v) (v_mm v) = Inr None"
    obtain v1 where v1: "host_hit addr (of_nat n) v = (None, v1)" using h by (metis fst_conv surj_pair)
    note q1 = host_hit_ok(1) [OF v v1]
    obtain v2 where v2: "in_thread (resolve_scalar addr (of_nat n) False True) v1 = (resolve addr (of_nat n) False True (v_mm v), v2)" "quiet Z v1 v2"
      using in_thread_scalar [OF quietD(1) [OF q1]] quietD(2) [OF q1] by metis
    note q2 = quiet_trans [OF q1 v2(2)]
    have f2: "\<not> any_stuck v2" "\<not> armed load_armed v2" using f armed_cong [OF quietD(3) [OF q2]] by (simp_all add: any_stuck_def)
    note m2 = quietD(2) [OF q2]
    show ?thesis
    proof (cases "resolve addr (of_nat n) False True (v_mm v)")
      case (Inl e)
      then show ?thesis using q2 v1 v2 cold by (intro exI [of _ v2]) (simp add: head scalar_location_def)
    next
      case (Inr r)
      obtain pl base where r: "r = (pl, base)" by force
      obtain a' where a': "alloc_of pl (v_mm v) = Some a'" "alloc_inv a'" "unat (addr - base) < kChunkSize * chunk_count a'"
        using resolve_at [OF v Inr [unfolded r]] by blast
      have "unat (addr - base) div kChunkSize < length (slots a')"
        using a'(2) chunk_div_less [OF a'(3)] by (simp add: alloc_inv_def)
      then have slot: "slot_at a' (unat (addr - base) div kChunkSize) = Inr (slots a' ! (unat (addr - base) div kChunkSize))" by (simp add: slot_at_def)
      have w: "load_word pl (unat (addr - base)) n v = Inr (chunk_load (slots a' ! (unat (addr - base) div kChunkSize)) (unat (addr - base) mod kChunkSize) n)"
        using a'(1) slot by (simp add: load_word_def)
      show ?thesis
        using q2 v1 v2 cold a'(1) slot w plain [OF f2] m2 Inr r load_word_cong [OF m2, of pl "unat (addr - base)" n]
        by (intro exI [of _ v2]) (auto simp: head scalar_location_def Let_def chunk_load_def split: chunk.splits)
    qed
  qed
qed

lemma store_real_eq:
  assumes "slot_at (fst st) (off div kChunkSize) = Inr (Real c)"
  shows "store_real off n x st = chunk_store off n x st"
  using assms by (cases st) (simp add: store_real_def chunk_store_def materialize_def)

lemma made_store:
  assumes "off div kChunkSize < length (slots (fst st))" "case slots (fst st) ! (off div kChunkSize) of Uniform u \<Rightarrow> x \<noteq> repeated u n | _ \<Rightarrow> True"
  shows "then_do (materialize acquire (off div kChunkSize) st) (\<lambda>_ st'. store_real off n x st') = chunk_store off n x st"
proof -
  obtain a b where st: "st = (a, b)" by force
  obtain q a1 b1 where m: "materialize acquire (off div kChunkSize) (a, b) = (q, (a1, b1))" by (metis prod.exhaust)
  have s: "slot_at a (off div kChunkSize) = Inr (slots a ! (off div kChunkSize))" using assms(1) st by (simp add: slot_at_def)
  have "slot_at a1 (off div kChunkSize) = Inr (Real c)" if "q = Inr c" for c
    using m that assms(1) st
    by (auto simp: materialize_def slot_at_def set_slot_def Let_def split: if_splits chunk.splits prod.splits sum.splits)
  then show ?thesis
    using assms(2) st m s by (cases q) (auto simp: chunk_store_def store_real_def split: chunk.splits)
qed

lemma on_alloc_cong:
  "alloc_of pl (v_mm v) = Some a \<Longrightarrow> f (a, backing_st (v_mm v)) = g (a, backing_st (v_mm v)) \<Longrightarrow> on_alloc pl f v = on_alloc pl g v"
  by (simp add: on_alloc_def)

lemma store_word_hot:
  assumes v: "view_ok Z v" and hot: "hot_location addr (of_nat n) (v_thread v) (v_mm v) \<noteq> Inr None"
  shows "\<exists>base. resolve addr (of_nat n) False False (v_mm v) = Inr (InLive base, base) \<and>
    store_word addr n x v = on_alloc (InLive base) (chunk_store (unat (addr - base)) n x) v"
proof -
  obtain b a c where b: "hot_location addr (of_nat n) (v_thread v) (v_mm v) = Inr (Some (b, unat (addr - b)))"
      "\<And>w k. resolve addr (of_nat n) w k (v_mm v) = Inr (InLive b, b)"
    "alloc_of (InLive b) (v_mm v) = Some a" "slot_at a (unat (addr - b) div kChunkSize) = Inr (Real c)"
    using hot_resolve [OF v refl, of addr "of_nat n"] hot by blast
  have "on_alloc (InLive b) (store_real (unat (addr - b)) n x) v = on_alloc (InLive b) (chunk_store (unat (addr - b)) n x) v"
    by (intro on_alloc_cong [of _ _ a] store_real_eq [of _ _ c]) (use b in simp_all)
  then show ?thesis using b by (intro exI [of _ b]) (simp add: store_word_def)
qed

text \<open>A store that the thread's last lookup does not answer, once the place is found.\<close>

lemma store_word_found:
  assumes cold: "hot_location addr (of_nat n) (v_thread v) (v_mm v) = Inr None" and h: "host_hit addr (of_nat n) v = (None, v1)"
    and r: "in_thread (resolve_scalar addr (of_nat n) False False) v1 = (Inr (pl, base), v2)"
    and a2: "alloc_of pl (v_mm v2) = Some a" and idx: "unat (addr - base) div kChunkSize < length (slots a)" and inv2: "mm_inv Z (v_mm v2)"
  shows "store_word addr n x v = on_alloc pl (chunk_store (unat (addr - base)) n x) v2"
proof -
  define off where "off = unat (addr - base)"
  have slot: "slot_at a (off div kChunkSize) = Inr (slots a ! (off div kChunkSize))" using idx by (simp add: slot_at_def off_def)
  define make where "make = then_do (on_alloc pl (materialize acquire (off div kChunkSize)) v2) (\<lambda>_ v. (Inr (AtChunk pl off), v))"
  have loc: "scalar_location addr n (Some x) v = (case slots a ! (off div kChunkSize) of
        Real c \<Rightarrow> (Inr (AtChunk pl off), v2)
      | Uniform u \<Rightarrow> if x = repeated u n then (Inr AtUnchanged, v2) else make
      | Untouched \<Rightarrow> make)"
    using h r slot a2 by (simp add: scalar_location_def Let_def off_def make_def split: chunk.splits)
  have then3: "then_do (then_do s (\<lambda>_ v. (Inr (AtChunk pl off), v))) k = then_do s (\<lambda>_ v. k (AtChunk pl off) v)" for s :: "(rchunk, view) outcome"
    and k :: "scalar_at \<Rightarrow> view \<Rightarrow> (unit, view) outcome" by (cases s; cases "fst s") auto
  have made: "then_do (on_alloc pl (materialize acquire (off div kChunkSize)) v2) (\<lambda>_ v. on_alloc pl (store_real off n x) v) =
      on_alloc pl (chunk_store off n x) v2"
    if "case slots a ! (off div kChunkSize) of Uniform u \<Rightarrow> x \<noteq> repeated u n | _ \<Rightarrow> True"
    unfolding on_alloc_then [OF a2]
    by (rule on_alloc_cong [OF a2], rule made_store) (use idx that in \<open>simp_all add: off_def\<close>)
  show ?thesis unfolding off_def [symmetric]
  proof (cases "slots a ! (off div kChunkSize)")
    case Untouched
    then show "store_word addr n x v = on_alloc pl (chunk_store off n x) v2"
      using cold made by (simp add: store_word_def loc make_def then3)
  next
    case (Uniform u)
    show "store_word addr n x v = on_alloc pl (chunk_store off n x) v2"
    proof (cases "x = repeated u n")
      case True
      have "on_alloc pl (chunk_store off n x) v2 = on_alloc pl (\<lambda>st. (Inr (), st)) v2"
        by (rule on_alloc_cong [OF a2]) (use Uniform True slot in \<open>simp add: chunk_store_def\<close>)
      then show ?thesis using cold Uniform True [symmetric] on_alloc_id [OF inv2 a2, of "()"] by (simp add: store_word_def loc)
    next
      case False
      then show ?thesis using cold made Uniform by (simp add: store_word_def loc make_def then3)
    qed
  next
    case (Real c)
    have "on_alloc pl (store_real off n x) v2 = on_alloc pl (chunk_store off n x) v2"
      by (rule on_alloc_cong [OF a2], rule store_real_eq [of _ _ c]) (use slot Real in simp)
    then show "store_word addr n x v = on_alloc pl (chunk_store off n x) v2" using cold Real by (simp add: store_word_def loc)
  qed
qed

lemma store_word_eq:
  assumes v: "view_ok Z v" and h: "fst (host_hit addr (of_nat n) v) = None"
  shows "\<exists>v1. quiet Z v v1 \<and> store_word addr n x v = (case resolve addr (of_nat n) False False (v_mm v) of
      Inl e \<Rightarrow> (Inl e, v1)
    | Inr (pl, base) \<Rightarrow> on_alloc pl (chunk_store (unat (addr - base)) n x) v1)"
proof (cases "hot_location addr (of_nat n) (v_thread v) (v_mm v) = Inr None")
  case False
  then show ?thesis using store_word_hot [OF v False, of x] quiet_refl [OF v] by force
next
  case cold: True
  obtain v1 where v1: "host_hit addr (of_nat n) v = (None, v1)" using h by (metis fst_conv surj_pair)
  note q1 = host_hit_ok(1) [OF v v1]
  obtain v2 where v2: "in_thread (resolve_scalar addr (of_nat n) False False) v1 = (resolve addr (of_nat n) False False (v_mm v), v2)" "quiet Z v1 v2"
    using in_thread_scalar [OF quietD(1) [OF q1]] quietD(2) [OF q1] by metis
  note q2 = quiet_trans [OF q1 v2(2)]
  show ?thesis
  proof (cases "resolve addr (of_nat n) False False (v_mm v)")
    case (Inl e)
    then show ?thesis using q2 v1 v2 cold by (intro exI [of _ v2]) (simp add: store_word_def scalar_location_def)
  next
    case (Inr r)
    obtain pl base where r: "r = (pl, base)" by force
    obtain a where a: "alloc_of pl (v_mm v) = Some a" "alloc_inv a" "unat (addr - base) < kChunkSize * chunk_count a"
      using resolve_at [OF v Inr [unfolded r]] by blast
    have "unat (addr - base) div kChunkSize < length (slots a)" using a(2) chunk_div_less [OF a(3)] by (simp add: alloc_inv_def)
    from store_word_found [OF cold v1 v2(1) [unfolded Inr r] _ this view_okD(1) [OF quietD(1) [OF q2]]]
    show ?thesis using q2 Inr r a(1) quietD(2) [OF q2] by (intro exI [of _ v2]) simp
  qed
qed

lemma store_scalar_eq:
  assumes v: "view_ok Z v" and n: "scalar_size n" "n dvd unat addr" and h: "fst (host_hit addr (of_nat n) v) = None"
    and f: "\<not> armed store_armed v"
  shows "\<exists>v1. quiet Z v v1 \<and> store_scalar addr n x v = (case resolve addr (of_nat n) False False (v_mm v) of
      Inl e \<Rightarrow> (Inl e, v1)
    | Inr (pl, base) \<Rightarrow> on_alloc pl (chunk_store (unat (addr - base)) n x) v1)"
proof -
  have "addr AND (of_nat n - 1) = 0" using n by (simp add: mask_dvd)
  then have "store_scalar addr n x v = store_word addr n x v" using n(1) f by (simp add: store_scalar_def to_store_def)
  then show ?thesis using store_word_eq [OF v h] by simp
qed

lemma chunk_store_stored:
  assumes v: "view_ok Z v" and r: "resolve addr (of_nat n) w False (v_mm v) = Inr (pl, base)" and n: "scalar_size n" "n dvd unat addr"
  shows "\<exists>r v'. on_alloc pl (chunk_store (unat (addr - base)) n x) v = (r, v') \<and>
    (r = Inr () \<and> stored Z pl (unat (addr - base)) (bytes_of x n) v v' \<or>
     (\<exists>e. r = Inl e \<and> refused acquire backing_ok e \<and> stored Z pl (unat (addr - base)) [] v v'))"
proof -
  from resolve_at [OF v r] obtain a where a: "alloc_of pl (v_mm v) = Some a" "alloc_inv a"
    "unat (addr - base) + n \<le> unat (al_size a)" using scalar_dvd(2) [OF n(1)] by auto
  have bk: "backing_ok (backing_st (v_mm v))" using mm_invD(1) [OF view_okD(1) [OF v]] .
  obtain q st where s: "chunk_store (unat (addr - base)) n x (a, backing_st (v_mm v)) = (q, st)" by (metis surj_pair)
  note fits = resolve_fits(2) [OF v r scalar_dvd(1) [OF n(1)] n(2)]
  from chunk_store_spec [OF _ _ n(1) fits _ s] a(2,3) bk
  have "q = Inr () \<and> wrote backing_ok (a, backing_st (v_mm v)) st (unat (addr - base)) (bytes_of x n) \<or>
    (\<exists>e. q = Inl e \<and> refused acquire backing_ok e \<and> wrote backing_ok (a, backing_st (v_mm v)) st (unat (addr - base)) [])" by simp
  then show ?thesis
    using on_alloc_stored [where f = "chunk_store (unat (addr - base)) n x", OF v a(1) s] by blast
qed

end
