(* ===== verification/Manager_Run.thy ===== *)
theory Manager_Run
  imports Access
begin

text \<open>
  Every call that changes the manager's tables as one step, with any arguments the interface allows, and
  what it keeps: the invariant, the ranges handed out so far (new ones lie above them), what threads
  remember of earlier lookups (still right, or known to be old) and their caches of host mappings.
\<close>

section \<open>Calls\<close>

datatype (plugins only: size) mm_call =
    Alloc u64 u64 | Free u64 | HeapAlloc u64 u64 | HeapFree u64 | FreeAll
  | Reserve u64 u64 | AddressFree u64 u64
  | CreateHandle u64 u32 bool | RetainHandle u64 | RetainHandleAt u64 | ReleaseHandle u64
  | ExportHandle u64 "int option" "u64 option" "int option"
  | ImportHandle int "int option" "u64 option" int "nat \<Rightarrow> u8"
  | Map u64 u64 u64 u64 | Unmap u64 u64 | SetAccess u64 u64 bool bool
  | Share u64 string bool "u64 option" | Adopt string u64 bool "u64 option" | UnlinkShared u64 | Abandon u64
  | MapHost u64 u64 u64 bool | UnmapHost u64
  | SetPageSize u64 | SetAllocAlignment u64

fun after :: "mm_call \<Rightarrow> mm \<Rightarrow> mm" where
  "after (Alloc sz request) m = snd (alloc sz request m)"
| "after (Free ptr) m = snd (free ptr m)"
| "after (HeapAlloc sz limit) m = snd (heap_alloc sz limit m)"
| "after (HeapFree ptr) m = snd (heap_free ptr m)"
| "after FreeAll m = snd (free_all m)"
| "after (Reserve sz alignment) m = snd (reserve sz alignment m)"
| "after (AddressFree va sz) m = snd (address_free va sz m)"
| "after (CreateHandle sz types c) m = snd (create_handle sz types c m)"
| "after (RetainHandle h) m = snd (retain_handle h m)"
| "after (RetainHandleAt va) m = snd (retain_handle_at va m)"
| "after (ReleaseHandle h) m = snd (release_handle h m)"
| "after (ExportHandle h memfd host dup) m = snd (export_handle h memfd host dup m)"
| "after (ImportHandle fd stat host keep bytes) m = snd (import_handle fd stat host keep bytes m)"
| "after (Map va sz offset h) m = snd (map_mem va sz offset h m)"
| "after (Unmap va sz) m = snd (unmap va sz m)"
| "after (SetAccess va sz rd wr) m = snd (set_access va sz rd wr m)"
| "after (Share ptr path created host) m = snd (share ptr path created host m)"
| "after (Adopt path sz opened host) m = snd (adopt path sz opened host m)"
| "after (UnlinkShared ptr) m = snd (unlink_shared ptr m)"
| "after (Abandon va) m = snd (abandon va m)"
| "after (MapHost addr host len ro) m = m\<lparr>hosts := map_host addr host len ro (hosts m)\<rparr>"
| "after (UnmapHost addr) m = m\<lparr>hosts := unmap_host addr (hosts m)\<rparr>"
| "after (SetPageSize bytes) m = set_page_size bytes m"
| "after (SetAllocAlignment bytes) m = set_alloc_alignment bytes m"

text \<open>
  What the callers keep to: alignments are powers of two, the page size and the alignment are set before
  anything is allocated, a mapping of host memory does not reach the end of the address space, and the
  address space, the handles and the generations are far from used up.
\<close>

definition spacious :: "mm \<Rightarrow> bool" where
  "spacious m \<longleftrightarrow> modest m \<and> unat (hm_counter (hosts m)) + length (shared m) + 2 < 2 ^ 64"

fun allowed :: "mm_call \<Rightarrow> mm \<Rightarrow> bool" where
  "allowed (Alloc sz request) m \<longleftrightarrow> request_ok request \<and> room sz (alloc_alignment request m) m"
| "allowed (HeapAlloc sz limit) m \<longleftrightarrow> room sz (alloc_alignment 0 m) m"
| "allowed (ExportHandle hid memfd host dup) m \<longleftrightarrow> (case (host, om_find (handles m) hid) of
     (Some p, Some h) \<Rightarrow> host_place p (vh_size h) | _ \<Rightarrow> True)"
| "allowed (ImportHandle fd stat host keep bytes) m \<longleftrightarrow> (case (stat, host) of
     (Some n, Some p) \<Rightarrow> n < 2 ^ 64 \<and> host_place p (word_of_int n) | (Some n, None) \<Rightarrow> n < 2 ^ 64 | _ \<Rightarrow> True)"
| "allowed (Adopt path sz opened host) m \<longleftrightarrow> 0 < unat sz \<and> room sz kAllocAlign m"
| "allowed (MapHost addr host len ro) m \<longleftrightarrow> unat addr + unat len < 2 ^ 64 - 1"
| "allowed (SetPageSize bytes) m \<longleftrightarrow> live m = [] \<and> (bytes = 0 \<or> power_of_two bytes \<and> unat bytes \<le> kChunkSize)"
| "allowed (SetAllocAlignment bytes) m \<longleftrightarrow> live m = [] \<and> power_of_two bytes \<and> 16 \<le> unat bytes"
| "allowed _ m \<longleftrightarrow> True"

text \<open>What a call does to the epoch of the table lock.\<close>

fun events :: "mm_call \<Rightarrow> mm \<Rightarrow> epoch_event list" where
  "events (Alloc sz request) m = []"
| "events (HeapAlloc sz limit) m = []"
| "events (Free ptr) m = (if fst (free ptr m) = Inr () then [Freed ptr] else [])"
| "events (HeapFree ptr) m = (if fst (heap_free ptr m) = Inr True then [Freed ptr] else [])"
| "events FreeAll m = Voided # map Freed (map fst (live m)) @ [Voided]"
| "events (ImportHandle fd stat host keep bytes) m =
     (if fd < 0 \<or> stat = None \<or> the stat \<le> 0 then [] else [Voided, Voided])"
| "events (MapHost addr host len ro) m = []"
| "events (UnmapHost addr) m = []"
| "events (SetPageSize bytes) m = []"
| "events (SetAllocAlignment bytes) m = []"
| "events _ m = [Voided, Voided]"

section \<open>What a call does to the tables\<close>

definition sixteens :: "u64 set" where
  "sixteens = {b. 16 dvd unat b}"

definition new_bases :: "mm \<Rightarrow> u64 set" where
  "new_bases m = {b \<in> sixteens. unat (next_va m) \<le> unat b}"

text \<open>What may be new in the tables: bases above every address handed out so far.\<close>

definition grown :: "mm \<Rightarrow> mm \<Rightarrow> bool" where
  "grown m m' \<longleftrightarrow> unat (next_va m) \<le> unat (next_va m') \<and> 16 \<le> unat (alloc_align m') \<and>
     om_keys (live m') \<subseteq> om_keys (live m) \<union> new_bases m \<and>
     om_keys (reserved m') \<subseteq> om_keys (reserved m) \<union> {b. unat (next_va m) \<le> unat b} \<and>
     om_keys (shared m') \<subseteq> om_keys (shared m) \<union> om_keys (live m) \<union> {b. unat (next_va m) \<le> unat b} \<and>
     om_keys (vmaps m') \<subseteq> om_keys (vmaps m) \<union> sixteens"

lemma grownD:
  assumes "grown m m'"
  shows "unat (next_va m) \<le> unat (next_va m')" "16 \<le> unat (alloc_align m')"
    "om_keys (live m') \<subseteq> om_keys (live m) \<union> new_bases m"
    "om_keys (reserved m') \<subseteq> om_keys (reserved m) \<union> {b. unat (next_va m) \<le> unat b}"
    "om_keys (shared m') \<subseteq> om_keys (shared m) \<union> om_keys (live m) \<union> {b. unat (next_va m) \<le> unat b}"
    "om_keys (vmaps m') \<subseteq> om_keys (vmaps m) \<union> sixteens"
  using assms unfolding grown_def by simp_all

definition moved :: "zones \<Rightarrow> zones \<Rightarrow> epoch_event list \<Rightarrow> mm \<Rightarrow> mm \<Rightarrow> bool" where
  "moved Z new evs m m' \<longleftrightarrow> mm_inv (new @ Z) m' \<and> grown m m' \<and>
     table_change evs m m' \<and> (\<forall>c. cache_ok (hosts m) c \<longrightarrow> cache_ok (hosts m') c)"

definition run_ok :: "zones \<Rightarrow> mm \<Rightarrow> bool" where
  "run_ok Z m \<longleftrightarrow> mm_inv Z m \<and> aligned_ok m \<and> 16 \<le> unat (alloc_align m) \<and> length (ring (table_epochs m)) = 64"

lemma run_okD: "run_ok Z m \<Longrightarrow> mm_inv Z m" "run_ok Z m \<Longrightarrow> aligned_ok m" "run_ok Z m \<Longrightarrow> 16 \<le> unat (alloc_align m)"
  "run_ok Z m \<Longrightarrow> length (ring (table_epochs m)) = 64"
  by (simp_all add: run_ok_def)

lemma moved_run_ok: "run_ok Z m \<Longrightarrow> moved Z new evs m m' \<Longrightarrow> run_ok (new @ Z) m'"
proof -
  assume r: "run_ok Z m" and mv: "moved Z new evs m m'"
  then have g: "grown m m'" and "mm_inv (new @ Z) m'" "length (ring (table_epochs m')) = 64"
    by (simp_all add: run_ok_def moved_def table_change_def)
  moreover have "aligned_ok m'"
    using g run_okD(2) [OF r] unfolding grown_def aligned_ok_def new_bases_def sixteens_def by blast
  ultimately show ?thesis by (simp add: run_ok_def grown_def)
qed

lemma moved_same: "run_ok Z m \<Longrightarrow> moved Z [] [] m m"
  using table_change_refl by (auto simp: run_ok_def moved_def grown_def)

text \<open>An operation under the lock voids what threads remember, so only the tables matter.\<close>

lemma grown_void [simp]: "grown m (void_lookups m') = grown m m'" "grown (void_lookups m) m' = grown m m'"
  by (simp_all add: grown_def new_bases_def)

lemma grown_refl: "run_ok Z m \<Longrightarrow> grown m m"
  by (auto simp: run_ok_def grown_def)

lemma exclusive_moved:
  assumes r: "exclusive f m = (r, m')" and f: "\<And>m1. f (void_lookups m) = (r, m1) \<Longrightarrow>
      mm_inv (new @ Z) m1 \<and> grown m m1 \<and> table_epochs m1 = epoch_run (table_epochs (void_lookups m)) evs \<and>
      (\<forall>c. cache_ok (hosts m) c \<longrightarrow> cache_ok (hosts m1) c)"
  shows "moved Z new (Voided # evs @ [Voided]) m m'"
proof -
  obtain m1 where m1: "f (void_lookups m) = (r, m1)" "m' = void_lookups m1" by (rule exclusive_mm_inv [OF r])
  have evs: "table_epochs m1 = epoch_run (table_epochs (void_lookups m)) evs" using f [OF m1(1)] by blast
  have "table_epochs m' = epoch_run (table_epochs m) (Voided # evs @ [Voided])"
    using evs m1(2) by (simp add: void_lookups_def)
  then have "table_change (Voided # evs @ [Voided]) m m'" by (simp add: table_change_def)
  then show ?thesis using f [OF m1(1)] m1(2) unfolding moved_def by auto
qed

lemma exclusive_tables:
  assumes ok: "run_ok Z m" and r: "exclusive f m = (r, m')" and f: "\<And>m1. f (void_lookups m) = (r, m1) \<Longrightarrow>
      mm_inv (new @ Z) m1 \<and> grown m m1 \<and> table_epochs m1 = table_epochs (void_lookups m) \<and> hosts m1 = hosts m"
  shows "moved Z new [Voided, Voided] m m'"
proof (rule exclusive_moved [OF r, where evs = "[]", simplified])
  fix m1 assume "f (void_lookups m) = (r, m1)"
  note x = f [OF this]
  show "mm_inv (new @ Z) m1 \<and> grown m m1 \<and> table_epochs m1 = table_epochs (void_lookups m) \<and>
      (\<forall>c. cache_ok (hosts m) c \<longrightarrow> cache_ok (hosts m1) c)"
    using x run_okD(3) [OF ok] by simp
qed

section \<open>Allocation and free\<close>

lemma keys_erase: "om_keys (om_erase k t) \<subseteq> om_keys t"
  by (auto simp: dom_map_of_conv_image_fst om_erase_def)

lemma spaciousD:
  assumes "spacious m"
  shows "low_half m" "modest m" "unat (next_handle m) + 1 < 2 ^ 64" "hm_counter (hosts m) \<noteq> - 1"
    "unat (hm_counter (hosts m)) + length (shared m) + 2 < 2 ^ 64"
  using assms unat_last64 by (auto simp: spacious_def modest_def)

lemma sixteen_align:
  assumes "settings_ok m" "request_ok request" "16 \<le> unat (alloc_align m)"
  shows "16 dvd unat (alloc_alignment request m)"
proof -
  have p: "power_of_two (alloc_align m)" "16 = (2 :: nat) ^ 4" using assms(1) by (simp_all add: settings_ok_def)
  then have "16 dvd unat (alloc_align m)"
    using assms(3) by (metis power_of_two_def le_imp_power_dvd power_le_imp_le_exp one_less_numeral_iff semiring_norm(76))
  moreover have "unat (alloc_align m) dvd base_align m"
    using assms(1) power_of_two_dvd [of "alloc_align m" "page m"] by (auto simp: settings_ok_def base_align_def max_def)
  ultimately show ?thesis using base_align_dvd(1) [OF assms(1,2)] by (blast intro: dvd_trans)
qed

lemma alloc_moved:
  assumes ok: "run_ok Z m" and c: "request_ok request" "room sz (alloc_alignment request m) m" and r: "alloc sz request m = (r, m')"
  shows "(\<exists>e. r = Inl (Throw e)) \<and> m' = m \<or>
    (\<exists>base. r = Inr base \<and> alloc_result sz request m base m' \<and>
      moved Z [(base, round_up_nat (unat sz) (unat (alloc_alignment request m)))] [] m m')"
proof (cases r)
  case (Inl e)
  then show ?thesis using r by (auto simp: alloc_def Let_def split: if_splits)
next
  case (Inr base)
  note inv = run_okD(1) [OF ok] and set = mm_invD(2) [OF run_okD(1) [OF ok]]
  have res: "alloc_result sz request m base m'" using alloc_Inr [OF inv c(2,1)] r Inr by simp
  have new: "mm_inv ([(base, round_up_nat (unat sz) (unat (alloc_alignment request m)))] @ Z) m'"
    using alloc_mm_inv [OF inv res set c(1)] by simp
  have m': "m' = m\<lparr>next_va := next_va m', high_water := high_water m', used := used m', live := live m', spare_live := None,
             usage_log := used m' # usage_log m\<rparr>" and ex: "\<exists>a. live m' = om_set base a (live m)"
    and b: "unat base = round_up_nat (unat (next_va m)) (unat (alloc_alignment request m))"
    using res unfolding alloc_result_def Let_def by blast+
  from ex obtain a where a: "live m' = om_set base a (live m)" by blast
  have "16 dvd unat base"
    unfolding b round_up_nat_def using sixteen_align [OF set c(1) run_okD(3) [OF ok]] by simp
  moreover have ge: "unat (next_va m) \<le> unat base"
    unfolding b using base_align_dvd(2) [OF set c(1)] by (simp add: round_up_nat_ge)
  ultimately have k: "om_keys (live m') \<subseteq> om_keys (live m) \<union> new_bases m" by (auto simp: a sixteens_def new_bases_def)
  have same: "vmaps m' = vmaps m" "alloc_align m' = alloc_align m" "hosts m' = hosts m" "table_epochs m' = table_epochs m"
    "reserved m' = reserved m" "shared m' = shared m"
    using arg_cong [OF m', of reserved] arg_cong [OF m', of shared] arg_cong [OF m', of vmaps] arg_cong [OF m', of alloc_align] arg_cong [OF m', of hosts] arg_cong [OF m', of table_epochs] by simp_all
  have fresh: "om_find (live m) base = None"
    by (rule fresh_keys(1) [OF inv ge])
  have "table_change [] m m'" using same(4) fresh by (auto simp: table_change_def a)
  moreover have "unat (next_va m) \<le> unat (next_va m')" using res ge unfolding alloc_result_def Let_def by auto
  ultimately show ?thesis using Inr res new k same run_okD(3) [OF ok] unfolding moved_def grown_def by auto
qed

lemma frame_moved:
  assumes ok: "run_ok Z m" and inv: "mm_inv Z m'" and same: "live m' = live m" "vmaps m' = vmaps m" "alloc_align m' = alloc_align m"
    "hosts m' = hosts m" "table_epochs m' = table_epochs m" "next_va m' = next_va m" "reserved m' = reserved m" "shared m' = shared m"
  shows "moved Z [] [] m m'"
proof -
  have "table_change [] m m'" using same by (simp add: table_change_def)
  then show ?thesis using assms run_okD(3) [OF ok] unfolding moved_def grown_def by auto
qed

lemma moved_heap: "moved Z new evs m (m'\<lparr>dev_heap := h\<rparr>) = moved Z new evs m m'"
  by (simp add: moved_def grown_def new_bases_def table_change_def)

lemma moved_from_heap: "moved Z new evs (m\<lparr>dev_heap := h\<rparr>) m' = moved Z new evs m m'"
  by (simp add: moved_def grown_def new_bases_def table_change_def)

lemma run_ok_heap [simp]: "run_ok Z (m\<lparr>dev_heap := h\<rparr>) = run_ok Z m"
  by (simp add: run_ok_def aligned_ok_def)

lemma heap_alloc_moved:
  assumes ok: "run_ok Z m" and c: "room sz (alloc_alignment 0 m) m" and r: "heap_alloc sz limit m = (r, m')"
  shows "\<exists>new. moved Z new [] m m'"
proof -
  obtain x m1 where a: "alloc sz 0 m = (x, m1)" by force
  have "request_ok 0" by (simp add: request_ok_def)
  from alloc_moved [OF ok this c a] show ?thesis
    using r a moved_same [OF ok] by (auto simp: heap_alloc_def Let_def moved_heap split: if_splits) blast
qed

lemma cache_ok_unmap: "cache_ok h c \<Longrightarrow> hm_counter h \<noteq> - 1 \<Longrightarrow> cache_ok (unmap_host addr h) c"
  by (auto simp: unmap_host_def Let_def split: option.splits intro!: cache_ok_fresh [of h])

lemma cache_ok_map: "cache_ok h c \<Longrightarrow> hm_counter h \<noteq> - 1 \<Longrightarrow> cache_ok (map_host addr host len ro h) c"
  by (auto simp: map_host_def intro!: cache_ok_fresh [of h])

lemma free_live_frame [simp]: "alloc_align (free_live ptr a m) = alloc_align m" "page (free_live ptr a m) = page m"
  by (simp_all add: free_live_def notify_usage_def split: prod.splits)

lemma drop_shared_frame [simp]:
  "next_va (drop_shared k r m) = next_va m" "reserved (drop_shared k r m) = reserved m" "shared (drop_shared k r m) = om_erase k (shared m)"
  "live (drop_shared k r m) = live m" "vmaps (drop_shared k r m) = vmaps m" "alloc_align (drop_shared k r m) = alloc_align m"
  "table_epochs (drop_shared k r m) = table_epochs m" "hosts (drop_shared k r m) = unmap_host (sr_va r) (hosts m)"
  by (simp_all add: drop_shared_def)

lemma notify_frame [simp]:
  "live (notify_usage m) = live m" "vmaps (notify_usage m) = vmaps m" "alloc_align (notify_usage m) = alloc_align m"
  "table_epochs (notify_usage m) = table_epochs m" "hosts (notify_usage m) = hosts m" "handles (notify_usage m) = handles m"
  "reserved (notify_usage m) = reserved m" "shared (notify_usage m) = shared m" "next_va (notify_usage m) = next_va m"
  by (simp_all add: notify_usage_def)

lemma free_moved:
  assumes ok: "run_ok Z m" and cnt: "hm_counter (hosts m) \<noteq> - 1" and r: "free ptr m = (r, m')"
  shows "moved Z [] (if r = Inr () then [Freed ptr] else []) m m'"
proof -
  note inv = run_okD(1) [OF ok]
  have inv': "mm_inv Z m'" by (rule free_mm_inv(1) [OF inv r])
  from mm_invD(12) [OF inv] r show ?thesis
  proof (cases rule: free_cases)
    case bad
    then show ?thesis using moved_same [OF ok] by simp
  next
    case (shared x q)
    have "table_change [Freed ptr] m m'" by (simp add: table_change_def shared(4))
    moreover have "cache_ok (hosts m) c \<Longrightarrow> cache_ok (hosts m') c" for c using cache_ok_unmap cnt by (simp add: shared(4))
    ultimately show ?thesis using inv' run_okD(3) [OF ok] unfolding moved_def grown_def by (auto simp: shared(1,4))
  next
    case (live a q)
    have "om_inv (mm.live m)" using live_zones(1) [OF mm_invD(4) [OF inv]] .
    then have e: "om_find (om_erase ptr (mm.live m)) k = (if k = ptr then None else om_find (mm.live m) k)" for k by simp
    have "table_change [Freed ptr] m m'" by (auto simp: table_change_def live(3) e)
    moreover have "om_keys (mm.live m') \<subseteq> om_keys (mm.live m)" by (auto simp: live(3) e dom_def split: if_splits)
    ultimately show ?thesis using inv' run_okD(3) [OF ok] unfolding moved_def grown_def by (auto simp: live(1,3))
  qed
qed

lemma heap_free_moved:
  assumes ok: "run_ok Z m" and cnt: "hm_counter (hosts m) \<noteq> - 1" and r: "heap_free ptr m = (r, m')"
  shows "moved Z [] (if r = Inr True then [Freed ptr] else []) m m'"
proof (cases "om_find (dh_blocks (dev_heap m)) ptr")
  case None
  then show ?thesis using r moved_same [OF ok] by (auto simp: heap_free_def)
next
  case (Some sz)
  define h where "h = (dev_heap m)\<lparr>dh_used := dh_used (dev_heap m) - sz, dh_blocks := om_erase ptr (dh_blocks (dev_heap m))\<rparr>"
  obtain x m1 where f: "free ptr (m\<lparr>dev_heap := h\<rparr>) = (x, m1)" by force
  have "m' = m1" "r = Inr True \<longleftrightarrow> x = Inr ()" using r Some f by (cases x; auto simp: heap_free_def h_def)+
  moreover have "moved Z [] (if x = Inr () then [Freed ptr] else []) (m\<lparr>dev_heap := h\<rparr>) m1" by (rule free_moved [OF _ _ f]) (use ok cnt in simp_all)
  ultimately show ?thesis by (simp add: moved_from_heap)
qed

section \<open>Reset\<close>

lemma drop_mappings_frame [simp]:
  "table_epochs (drop_mappings m) = table_epochs m" "hosts (drop_mappings m) = hosts m" "alloc_align (drop_mappings m) = alloc_align m" "next_va (drop_mappings m) = next_va m"
proof -
  have "table_epochs (fold (\<lambda>e. destroy_handle (snd e)) hs m) = table_epochs m \<and> hosts (fold (\<lambda>e. destroy_handle (snd e)) hs m) = hosts m \<and>
    alloc_align (fold (\<lambda>e. destroy_handle (snd e)) hs m) = alloc_align m \<and> next_va (fold (\<lambda>e. destroy_handle (snd e)) hs m) = next_va m" for hs :: "(u64, vhandle) omap" and m
    by (induction hs arbitrary: m) (auto simp: destroy_handle_def)
  then show "table_epochs (drop_mappings m) = table_epochs m" "hosts (drop_mappings m) = hosts m" "alloc_align (drop_mappings m) = alloc_align m"
    "next_va (drop_mappings m) = next_va m"
    by (simp_all add: drop_mappings_def Let_def)
qed

lemma unmap_counter: "unat (hm_counter h) + 1 < 2 ^ 64 \<Longrightarrow> unat (hm_counter (unmap_host a h)) \<le> unat (hm_counter h) + 1"
  by (auto simp: unmap_host_def fresh_generation_def Let_def unat_add64 split: option.splits)

lemma not_last64: "unat (w :: u64) + 1 < 2 ^ 64 \<Longrightarrow> w \<noteq> - 1"
  using unat_last64 by auto

lemma drop_owned_frame:
  assumes "unat (hm_counter (hosts m)) + length rs + 1 < 2 ^ 64"
  shows "table_epochs (drop_owned rs m) = table_epochs m \<and> next_va (drop_owned rs m) = next_va m \<and> alloc_align (drop_owned rs m) = alloc_align m \<and>
    (\<forall>c. cache_ok (hosts m) c \<longrightarrow> cache_ok (hosts (drop_owned rs m)) c)"
  using assms
proof (induction rs arbitrary: m)
  case (Cons e rs)
  show ?case
  proof (cases "sr_owner (snd e)")
    case True
    let ?m = "drop_shared (fst e) (snd e) (m\<lparr>used := used m - sr_size (snd e)\<rparr>)"
    have "unat (hm_counter (hosts ?m)) + length rs + 1 < 2 ^ 64"
      using unmap_counter [of "hosts m" "sr_va (snd e)"] Cons.prems by simp
    then show ?thesis using Cons.IH [of ?m] True cache_ok_unmap [of "hosts m"] not_last64 [of "hm_counter (hosts m)"] Cons.prems by simp
  next
    case False
    then show ?thesis using Cons.IH [of m] Cons.prems by simp
  qed
qed simp

lemma free_each_frame:
  assumes "mm_inv Z m" "set bs \<subseteq> om_keys (live m)" "distinct bs" "free_each bs m = (r, m')"
  shows "table_epochs m' = epoch_run (table_epochs m) (map Freed bs) \<and> alloc_align m' = alloc_align m \<and> hosts m' = hosts m \<and> next_va m' = next_va m"
  using assms
proof (induction bs arbitrary: m)
  case Nil
  then show ?case by simp
next
  case (Cons b bs)
  then obtain a where a: "om_find (live m) b = Some a" by fastforce
  obtain q where f: "free b m = (Inr (), free_live b a (m\<lparr>used := used m - al_size a, quar := q, table_epochs := note_free b (table_epochs m)\<rparr>))"
    using free_live_ok [OF Cons.prems(1) a] by blast
  let ?m = "free_live b a (m\<lparr>used := used m - al_size a, quar := q, table_epochs := note_free b (table_epochs m)\<rparr>)"
  have inv: "mm_inv Z ?m" using free_mm_inv(1) [OF Cons.prems(1) f] .
  have om: "om_inv (live m)" using live_zones(1) [OF mm_invD(4) [OF Cons.prems(1)]] .
  have sub: "set bs \<subseteq> om_keys (live ?m)" using Cons.prems(2,3) om by (auto simp: dom_def)
  have "table_epochs m' = epoch_run (table_epochs ?m) (map Freed bs) \<and> alloc_align m' = alloc_align ?m \<and> hosts m' = hosts ?m \<and> next_va m' = next_va ?m"
    by (rule Cons.IH [OF inv sub]) (use Cons.prems(3,4) f in simp_all)
  then show ?case by simp
qed

lemma free_all_moved:
  assumes ok: "run_ok Z m" and cnt: "unat (hm_counter (hosts m)) + length (shared m) + 2 < 2 ^ 64" and r: "free_all m = (r, m')"
  shows "moved Z [] (Voided # map Freed (map fst (live m)) @ [Voided]) m m'"
proof -
  define m0 where "m0 = m\<lparr>dev_heap := \<lparr>dh_used = 0, dh_blocks = [], dh_strings = []\<rparr>\<rparr>"
  define body where "body = (\<lambda>m. let m2 = drop_mappings m; m3 = drop_owned (shared m2) m2 in free_each (map fst (live m3)) m3)"
  have ex: "exclusive body m0 = (r, m')" using r by (simp add: free_all_def body_def m0_def)
  have "moved Z [] (Voided # map Freed (map fst (live m)) @ [Voided]) m0 m'"
  proof (rule exclusive_moved [OF ex])
    fix m1 assume b: "body (void_lookups m0) = (r, m1)"
    have inv0: "mm_inv Z (void_lookups m0)" using run_okD(1) [OF ok] by (simp add: m0_def)
    define m2 where "m2 = drop_mappings (void_lookups m0)"
    define m3 where "m3 = drop_owned (shared m2) m2"
    note d = drop_mappings_inv [OF inv0, folded m2_def]
    have sh: "om_inv (shared m2)" using mm_invD(6) [OF d(1)] by (simp add: shared_ok_def)
    have dist: "distinct (map fst (shared m2))" using sh by (simp add: om_inv_def strict_sorted_iff)
    have w: "mm_inv Z m3" "live m3 = live m2" "vmaps m3 = vmaps m2" "reserved m3 = reserved m2"
      "om_keys (shared m3) \<subseteq> om_keys (shared m2)"
      using drop_owned_inv [OF d(1) _ dist] om_inv_find [OF sh] by (auto simp: m3_def split: if_splits)
    have e3: "table_epochs m3 = table_epochs m2" "next_va m3 = next_va m2" "alloc_align m3 = alloc_align m2" "\<And>c. cache_ok (hosts m2) c \<Longrightarrow> cache_ok (hosts m3) c"
      using drop_owned_frame [of m2 "shared m2"] cnt d(6) by (auto simp: m3_def m2_def m0_def)
    have lv: "om_inv (live m3)" using live_zones(1) [OF mm_invD(4) [OF w(1)]] .
    have ks: "set (map fst (live m3)) \<subseteq> om_keys (live m3)" "distinct (map fst (live m3))"
      using lv by (auto simp: om_inv_def strict_sorted_iff dom_map_of_conv_image_fst)
    have fe: "free_each (map fst (live m3)) m3 = (r, m1)" using b by (simp add: body_def m2_def m3_def Let_def)
    from free_each_inv [OF w(1) ks(2,1)] fe have f: "mm_inv Z m1" "vmaps m1 = vmaps m3" "reserved m1 = reserved m3" "shared m1 = shared m3"
      "om_find (live m1) = (\<lambda>k. if k \<in> set (map fst (live m3)) then None else om_find (live m3) k)" by auto
    note g = free_each_frame [OF w(1) ks fe]
    have "om_keys (live m1) \<subseteq> om_keys (live m)" using w(2) d(2) by (auto simp: f(5) m0_def dom_def split: if_splits)
    moreover have "vmaps m1 = []" using f(2) w(3) d(4) by simp
    ultimately have "grown m0 m1"
      unfolding grown_def new_bases_def using f(3,4) w(4,5) d(5,6) g e3 run_okD(3) [OF ok] by (auto simp: m0_def m2_def)
    then show "mm_inv ([] @ Z) m1 \<and> grown m0 m1 \<and> table_epochs m1 = epoch_run (table_epochs (void_lookups m0)) (map Freed (map fst (live m))) \<and>
      (\<forall>c. cache_ok (hosts m0) c \<longrightarrow> cache_ok (hosts m1) c)"
      using f(1) g e3 w(2) d(2) run_okD(3) [OF ok] by (auto simp: m0_def m2_def)
  qed
  then show ?thesis by (simp add: m0_def moved_from_heap)
qed

section \<open>Virtual memory\<close>

text \<open>The operations on reservations, handles and mappings leave allocations and host mappings alone.\<close>

definition tables_kept :: "mm \<Rightarrow> mm \<Rightarrow> bool" where
  "tables_kept m m' \<longleftrightarrow> live m' = live m \<and> shared m' = shared m \<and> alloc_align m' = alloc_align m \<and> table_epochs m' = table_epochs m \<and>
     hosts m' = hosts m \<and> unat (next_va m) \<le> unat (next_va m') \<and>
     om_keys (reserved m') \<subseteq> om_keys (reserved m) \<union> {b. unat (next_va m) \<le> unat b}"

lemma exclusive_kept:
  assumes ok: "run_ok Z m" and r: "exclusive f m = (r, m')"
    and f: "\<And>m1. f (void_lookups m) = (r, m1) \<Longrightarrow> mm_inv (new @ Z) m1 \<and> tables_kept (void_lookups m) m1 \<and>
      om_keys (vmaps m1) \<subseteq> om_keys (vmaps m) \<union> sixteens"
  shows "moved Z new [Voided, Voided] m m'"
  by (rule exclusive_tables [OF ok r]) (use f run_okD(3) [OF ok] in \<open>auto simp: tables_kept_def grown_def\<close>)

lemma tables_kept_refl [simp]: "tables_kept m m"
  by (simp add: tables_kept_def)

lemma vmm_kept:
  "address_free_locked va sz m = (x2, m') \<Longrightarrow> tables_kept m m' \<and> vmaps m' = vmaps m"
  "create_locked sz types c m = (x3, m') \<Longrightarrow> tables_kept m m' \<and> vmaps m' = vmaps m"
  "retain_locked hid m = (x4, m') \<Longrightarrow> tables_kept m m' \<and> vmaps m' = vmaps m"
  "retain_handle_at_locked va m = (x5, m') \<Longrightarrow> tables_kept m m' \<and> vmaps m' = vmaps m"
  "export_locked hid memfd host dup m = (x6, m') \<Longrightarrow> tables_kept m m' \<and> vmaps m' = vmaps m"
  "import_locked sz host keep bytes m = (x7, m') \<Longrightarrow> tables_kept m m' \<and> vmaps m' = vmaps m"
  by (auto simp: address_free_locked_def create_locked_def add_handle_def retain_locked_def
      retain_handle_at_locked_def export_locked_def import_locked_def tables_kept_def Let_def dest: set_mp [OF keys_erase]
      split: if_splits option.splits prod.splits)

lemma collect_frame [simp]:
  "live (collect_handle hid m) = live m" "shared (collect_handle hid m) = shared m" "alloc_align (collect_handle hid m) = alloc_align m"
  "table_epochs (collect_handle hid m) = table_epochs m" "hosts (collect_handle hid m) = hosts m" "next_va (collect_handle hid m) = next_va m"
  "reserved (collect_handle hid m) = reserved m" "vmaps (collect_handle hid m) = vmaps m"
  by (simp_all add: collect_handle_def destroy_handle_def split: option.splits)

lemma release_kept: "release_locked hid m = (x, m') \<Longrightarrow> tables_kept m m' \<and> vmaps m' = vmaps m"
  by (auto simp: release_locked_def tables_kept_def split: if_splits option.splits)

lemma unmap_handle_frame [simp]:
  "live (unmap_handle hid m) = live m" "shared (unmap_handle hid m) = shared m" "alloc_align (unmap_handle hid m) = alloc_align m"
  "table_epochs (unmap_handle hid m) = table_epochs m" "hosts (unmap_handle hid m) = hosts m" "next_va (unmap_handle hid m) = next_va m"
  "reserved (unmap_handle hid m) = reserved m"
  by (simp_all add: unmap_handle_def split: option.splits)

lemma fold_unmap_frame [simp]:
  "live (fold unmap_handle hs m) = live m" "shared (fold unmap_handle hs m) = shared m" "alloc_align (fold unmap_handle hs m) = alloc_align m"
  "table_epochs (fold unmap_handle hs m) = table_epochs m" "hosts (fold unmap_handle hs m) = hosts m"
  "next_va (fold unmap_handle hs m) = next_va m" "reserved (fold unmap_handle hs m) = reserved m"
  by (induction hs arbitrary: m) simp_all

lemma unmap_kept: "unmap_locked va sz m = (x, m') \<Longrightarrow> tables_kept m m'"
  by (auto simp: unmap_locked_def tables_kept_def split: if_splits option.splits sum.splits)

lemma vmm_moved_kept:
  assumes ok: "run_ok Z m" and sp: "spacious m"
  shows "address_free va sz m = (x2, m') \<Longrightarrow> moved Z [] [Voided, Voided] m m'"
    "create_handle sz types c m = (x3, m') \<Longrightarrow> moved Z [] [Voided, Voided] m m'"
    "retain_handle hid m = (x4, m') \<Longrightarrow> moved Z [] [Voided, Voided] m m'"
    "retain_handle_at va m = (x5, m') \<Longrightarrow> moved Z [] [Voided, Voided] m m'"
    "release_handle hid m = (x6, m') \<Longrightarrow> moved Z [] [Voided, Voided] m m'"
proof -
  have inv: "mm_inv Z (void_lookups m)" using run_okD(1) [OF ok] by simp
  have nxt: "unat (next_handle (void_lookups m)) + 1 < 2 ^ 64" using spaciousD(3) [OF sp] by simp
  note go = exclusive_kept [OF ok, where new = "[]"]
  show "address_free va sz m = (x2, m') \<Longrightarrow> moved Z [] [Voided, Voided] m m'" unfolding address_free_def
    by (erule go) (auto dest: vmm_kept(1) address_free_locked_inv(1) [OF inv])
  show "create_handle sz types c m = (x3, m') \<Longrightarrow> moved Z [] [Voided, Voided] m m'" unfolding create_handle_def
    by (erule go) (auto dest: vmm_kept(2) create_locked_inv(1) [OF inv nxt])
  show "retain_handle hid m = (x4, m') \<Longrightarrow> moved Z [] [Voided, Voided] m m'" unfolding retain_handle_def
    by (erule go) (auto dest: vmm_kept(3) retain_locked_inv(1) [OF inv])
  show "retain_handle_at va m = (x5, m') \<Longrightarrow> moved Z [] [Voided, Voided] m m'" unfolding retain_handle_at_def
    by (erule go) (auto dest: vmm_kept(4) retain_handle_at_locked_inv(1) [OF inv])
  show "release_handle hid m = (x6, m') \<Longrightarrow> moved Z [] [Voided, Voided] m m'" unfolding release_handle_def
    by (erule go) (auto dest: release_kept release_locked_inv(1) [OF inv])
qed

lemma reserve_moved:
  assumes ok: "run_ok Z m" and sp: "spacious m" and r: "reserve sz al m = (r, m')"
  shows "moved Z (case r of Inl _ \<Rightarrow> [] | Inr base \<Rightarrow> [(base, unat sz)]) [Voided, Voided] m m'"
  using r unfolding reserve_def
proof (rule exclusive_kept [OF ok])
  fix m1 assume f: "reserve_locked sz al (void_lookups m) = (r, m1)"
  have low: "low_half (void_lookups m)" using spaciousD(1) [OF sp] by (simp add: low_half_def)
  have inv: "mm_inv Z (void_lookups m)" using run_okD(1) [OF ok] by simp
  have v: "vmaps m1 = vmaps m" using f by (auto simp: reserve_locked_def Let_def split: if_splits)
  have "mm_inv ((case r of Inl _ \<Rightarrow> [] | Inr base \<Rightarrow> [(base, unat sz)]) @ Z) m1 \<and> tables_kept (void_lookups m) m1"
  proof (cases r)
    case (Inl e)
    then show ?thesis using reserve_locked_Inl [of sz al "void_lookups m" e m1] f inv by simp
  next
    case (Inr base)
    note res = reserve_locked_Inr [OF inv low f [unfolded Inr]]
    have m1: "m1 = (void_lookups m)\<lparr>next_va := base + sz, high_water := base + sz, reserved := om_emplace base sz (reserved m)\<rparr>"
      using f Inr by (auto simp: reserve_locked_def Let_def split: if_splits)
    have "unat base + unat sz \<le> unat (next_va m1)" using handed_below [OF mm_invD(3) [OF res(1)], of base "unat sz"] by simp
    then have "unat (next_va m) \<le> unat (next_va m1)" using res(3) by simp
    then show ?thesis using res(1,3) Inr by (auto simp: tables_kept_def m1 om_emplace_def split: if_splits option.splits)
  qed
  then show "mm_inv ((case r of Inl _ \<Rightarrow> [] | Inr base \<Rightarrow> [(base, unat sz)]) @ Z) m1 \<and> tables_kept (void_lookups m) m1 \<and>
      om_keys (vmaps m1) \<subseteq> om_keys (vmaps m) \<union> sixteens" using v by simp
qed

lemma export_moved:
  assumes ok: "run_ok Z m" and host: "allowed (ExportHandle hid memfd host dup) m" and r: "export_handle hid memfd host dup m = (r, m')"
  shows "moved Z [] [Voided, Voided] m m'"
  using r unfolding export_handle_def
proof (rule exclusive_kept [OF ok])
  fix m1 assume f: "export_locked hid memfd host dup (void_lookups m) = (r, m1)"
  have inv: "mm_inv Z (void_lookups m)" using run_okD(1) [OF ok] by simp
  have "mm_inv Z m1" by (rule export_locked_inv(1) [OF inv _ f]) (use host in simp)
  then show "mm_inv ([] @ Z) m1 \<and> tables_kept (void_lookups m) m1 \<and> om_keys (vmaps m1) \<subseteq> om_keys (vmaps m) \<union> sixteens"
    using vmm_kept(5) [OF f] by simp
qed

lemma import_moved:
  assumes ok: "run_ok Z m" and sp: "spacious m" and host: "allowed (ImportHandle fd stat host keep bytes) m"
    and r: "import_handle fd stat host keep bytes m = (r, m')"
  shows "moved Z [] (if fd < 0 \<or> stat = None \<or> the stat \<le> 0 then [] else [Voided, Voided]) m m'"
proof (cases "fd < 0 \<or> stat = None \<or> the stat \<le> 0")
  case True
  then show ?thesis using r moved_same [OF ok] by (auto simp: import_handle_def)
next
  case False
  then obtain n where n: "stat = Some n" "0 < n" by auto
  have ex: "exclusive (import_locked (word_of_int n) host keep bytes) m = (r, m')" using r False n by (auto simp: import_handle_def)
  have "moved Z [] [Voided, Voided] m m'"
  proof (rule exclusive_kept [OF ok ex])
    fix m1 assume f: "import_locked (word_of_int n) host keep bytes (void_lookups m) = (r, m1)"
    have inv: "mm_inv Z (void_lookups m)" using run_okD(1) [OF ok] by simp
    have "n < 2 ^ 64" using host n by (auto split: option.splits)
    then have "(word_of_int n :: u64) \<noteq> 0" using n(2) by (simp add: word_of_int_eq_0_iff zdvd_not_zless)
    then have pos: "0 < unat (word_of_int n :: u64)" by (simp add: unsigned_eq_0_iff flip: neq0_conv)
    have "mm_inv Z m1"
      by (rule import_locked_inv(1) [OF inv _ pos _ f]) (use spaciousD(3) [OF sp] host n in auto)
    then show "mm_inv ([] @ Z) m1 \<and> tables_kept (void_lookups m) m1 \<and> om_keys (vmaps m1) \<subseteq> om_keys (vmaps m) \<union> sixteens"
      using vmm_kept(6) [OF f] by simp
  qed
  then show ?thesis using False by auto
qed

lemma granule_sixteen: "va mod kVmmGranularity = 0 \<Longrightarrow> va \<in> sixteens"
proof -
  assume "va mod kVmmGranularity = 0"
  then have "unat va mod 2 ^ 21 = 0" by (metis unat_mod gran_unat unat_0)
  then have "(2 :: nat) ^ 21 dvd unat va" by presburger
  moreover have "(16 :: nat) dvd 2 ^ 21" by simp
  ultimately show ?thesis unfolding sixteens_def using dvd_trans by blast
qed

lemma map_moved:
  assumes ok: "run_ok Z m" and sp: "spacious m" and r: "map_mem va sz offset hid m = (r, m')"
  shows "moved Z [] [Voided, Voided] m m'"
  using r unfolding map_mem_def
proof (rule exclusive_kept [OF ok])
  fix m1 assume f: "map_locked va sz offset hid (void_lookups m) = (r, m1)"
  have inv: "mm_inv Z (void_lookups m)" using run_okD(1) [OF ok] by simp
  have mod: "modest (void_lookups m)" using spaciousD(2) [OF sp] by (simp add: modest_def low_half_def)
  have "tables_kept (void_lookups m) m1 \<and> om_keys (vmaps m1) \<subseteq> om_keys (vmaps m) \<union> sixteens"
    using f granule_sixteen [of va] by (auto simp: map_locked_def tables_kept_def om_emplace_def split: if_splits option.splits)
  then show "mm_inv ([] @ Z) m1 \<and> tables_kept (void_lookups m) m1 \<and> om_keys (vmaps m1) \<subseteq> om_keys (vmaps m) \<union> sixteens"
    using map_locked_inv(1) [OF inv mod f] by simp
qed

lemma unmap_moved:
  assumes ok: "run_ok Z m" and r: "unmap va sz m = (r, m')"
  shows "moved Z [] [Voided, Voided] m m'"
  using r unfolding unmap_def
proof (rule exclusive_kept [OF ok])
  fix m1 assume f: "unmap_locked va sz (void_lookups m) = (r, m1)"
  have inv: "mm_inv Z (void_lookups m)" using run_okD(1) [OF ok] by simp
  note u = unmap_locked_inv [OF inv f]
  have "om_keys (vmaps m1) \<subseteq> om_keys (vmaps m)"
  proof (cases r)
    case (Inl e)
    then show ?thesis using u(2) by simp
  next
    case (Inr x)
    then show ?thesis using u(3) by (auto simp: dom_map_of_conv_image_fst)
  qed
  then show "mm_inv ([] @ Z) m1 \<and> tables_kept (void_lookups m) m1 \<and> om_keys (vmaps m1) \<subseteq> om_keys (vmaps m) \<union> sixteens"
    using u(1) unmap_kept [OF f] by auto
qed

lemma set_access_moved:
  assumes ok: "run_ok Z m" and r: "set_access va sz rd wr m = (r, m')"
  shows "moved Z [] [Voided, Voided] m m'"
  using r unfolding set_access_def
proof (rule exclusive_kept [OF ok])
  fix m1 assume f: "set_access_locked va sz rd wr (void_lookups m) = (r, m1)"
  have inv: "mm_inv Z (void_lookups m)" using run_okD(1) [OF ok] by simp
  note u = set_access_locked_inv [OF inv f]
  from u(3) obtain c where c: "m1 = (void_lookups m)\<lparr>vmaps := repaint va c rd wr (vmaps m)\<rparr>" by auto
  have "om_keys (vmaps m1) = om_keys (vmaps m)" by (auto simp: c om_find_repaint dom_def)
  then show "mm_inv ([] @ Z) m1 \<and> tables_kept (void_lookups m) m1 \<and> om_keys (vmaps m1) \<subseteq> om_keys (vmaps m) \<union> sixteens"
    using u(1) by (simp add: tables_kept_def c)
qed

section \<open>Shared memory and host memory\<close>

lemma mm_inv_hosts: "mm_inv Z m \<Longrightarrow> hosts_ok h \<Longrightarrow> mm_inv Z (m\<lparr>hosts := h\<rparr>)"
  by (simp add: mm_inv_def mm_part_defs)

lemma share_table_inv:
  assumes inv: "mm_inv Z m" and a: "om_find (live m) ptr = Some a" and b: "backing_ok b"
  shows "mm_inv Z (m\<lparr>live := om_erase ptr (live m), backing_st := b, shared := om_set ptr
    \<lparr>sr_va = ptr, sr_size = al_size a, sr_host = p, sr_path = path, sr_owner = True\<rparr> (shared m)\<rparr>)"
    (is "mm_inv Z ?m")
proof -
  note parts = mm_invD [OF inv]
  have om: "om_inv (live m)" "om_inv (shared m)" using parts(4,6) by (simp_all add: live_ok_def shared_ok_def)
  have none: "om_find (shared m) ptr = None" using parts(7) a by (auto simp: apart_ok_def)
  obtain n where n: "(ptr, n) \<in> set Z" "round_up_nat (unat (al_size a)) (base_align m) \<le> n" "0 < unat (al_size a)"
    using parts(4) a unfolding live_ok_def by blast
  have "unat (al_size a) \<le> n" using round_up_nat_ge [OF base_align_pos [OF parts(2)], of "unat (al_size a)"] n(2) by linarith
  then have sh: "shared_ok Z ?m" using parts(6) om n by (auto simp: shared_ok_def om_inv_set)
  have lv: "live_ok Z ?m" using parts(4) om by (auto simp: live_ok_def base_align_def om_inv_erase)
  have ap: "apart_ok ?m" using parts(7) om a by (auto simp: apart_ok_def dom_def split: if_splits)
  have "bytes_used ?m = bytes_used m"
    using sum_om_erase [OF om(1) a, of "\<lambda>e. unat (al_size (snd e))"]
      sum_om_set_new [OF none, of "\<lambda>e. if sr_owner (snd e) then unat (sr_size (snd e)) else 0"]
    by (simp add: bytes_used_def)
  then have us: "used_ok ?m" using parts(10) by (simp add: used_ok_def)
  show ?thesis
    unfolding mm_inv_def using parts sh lv ap us b
    by (simp add: mm_part_defs)
qed

lemma share_moved:
  assumes ok: "run_ok Z m" and sp: "spacious m" and r: "share ptr path created host m = (r, m')"
  shows "moved Z [] [Voided, Voided] m m'"
  using r unfolding share_def
proof (rule exclusive_moved [where evs = "[]", simplified])
  fix m1 assume f: "share_locked ptr path created host (void_lookups m) = (r, m1)"
  have inv: "mm_inv Z (void_lookups m)" using run_okD(1) [OF ok] by simp
  show "mm_inv ([] @ Z) m1 \<and> grown m m1 \<and> table_epochs m1 = table_epochs (void_lookups m) \<and>
      (\<forall>c. cache_ok (hosts m) c \<longrightarrow> cache_ok (hosts m1) c)"
  proof (cases "m1 = void_lookups m")
    case True
    then show ?thesis using inv grown_refl [OF ok] by auto
  next
    case False
    then obtain a p mem where a: "om_find (live m) ptr = Some a"
      and m1: "m1 = (void_lookups m)\<lparr>hmem := mem, live := om_erase ptr (live m),
        backing_st := snd (release_alloc release a (backing_st m)), hosts := map_host ptr p (al_size a) False (hosts m),
        shared := om_set ptr \<lparr>sr_va = ptr, sr_size = al_size a, sr_host = p, sr_path = path, sr_owner = True\<rparr> (shared m)\<rparr>"
      using f by (auto simp: share_locked_def split: option.splits if_splits sum.splits)
    have lo: "live_ok Z m" and hd: "handed_ok Z m" using mm_invD(3,4) [OF run_okD(1) [OF ok]] by simp_all
    obtain n where n: "(ptr, n) \<in> set Z" "round_up_nat (unat (al_size a)) (base_align m) \<le> n"
      using lo a unfolding live_ok_def by blast
    have "unat (al_size a) \<le> n"
      using round_up_nat_ge [OF base_align_pos [OF mm_invD(2) [OF run_okD(1) [OF ok]]], of "unat (al_size a)"] n(2) by linarith
    then have "unat ptr + unat (al_size a) \<le> 2 ^ 63"
      using handed_below [OF hd n(1)] spaciousD(1) [OF sp] by (simp add: low_half_def)
    then have ho: "hosts_ok (map_host ptr p (al_size a) False (hosts m))"
      using hosts_ok_map_host [OF mm_invD(13) [OF run_okD(1) [OF ok]]] by simp
    have ai: "alloc_inv a" using lo a by (simp add: live_ok_def)
    have b: "backing_ok (snd (release_alloc release a (backing_st m)))"
      by (rule bk.release_alloc_inv [OF ai mm_invD(1) [OF run_okD(1) [OF ok]]])
    have "mm_inv Z ((void_lookups m)\<lparr>live := om_erase ptr (live m), backing_st := snd (release_alloc release a (backing_st m)),
        shared := om_set ptr \<lparr>sr_va = ptr, sr_size = al_size a, sr_host = p, sr_path = path, sr_owner = True\<rparr> (shared m)\<rparr>)"
      using share_table_inv [OF inv, of ptr a] a b by simp
    then have "mm_inv Z (((void_lookups m)\<lparr>live := om_erase ptr (live m), backing_st := snd (release_alloc release a (backing_st m)),
        shared := om_set ptr \<lparr>sr_va = ptr, sr_size = al_size a, sr_host = p, sr_path = path, sr_owner = True\<rparr> (shared m)\<rparr>)
        \<lparr>hosts := map_host ptr p (al_size a) False (hosts m), hmem := mem\<rparr>)" using mm_inv_hosts [OF _ ho] by simp
    then have "mm_inv Z m1" unfolding m1 by (cases m) (simp add: void_lookups_def)
    moreover have "om_keys (live m1) \<subseteq> om_keys (live m)"
      using live_zones(1) [OF lo] by (auto simp: m1 dom_def split: if_splits)
    moreover have "cache_ok (hosts m1) c" if "cache_ok (hosts m) c" for c
      using cache_ok_map [OF that spaciousD(4) [OF sp]] by (simp add: m1)
    moreover have "grown m m1"
      using run_okD(3) [OF ok] a keys_erase [of ptr "live m"] by (auto simp: grown_def m1)
    ultimately show ?thesis by (auto simp: m1)
  qed
qed

lemma adopt_table_inv:
  assumes inv: "mm_inv Z m" and sz: "0 < unat sz" and room: "room sz kAllocAlign m"
    and tp: "tp = next_va m + (sz + kAllocAlign - 1) div kAllocAlign * kAllocAlign"
    and r: "sr_va r = next_va m" "sr_size r = sz" "\<not> sr_owner r"
  shows "mm_inv ((next_va m, round_up_nat (unat sz) (unat kAllocAlign)) # Z)
    (m\<lparr>next_va := tp, high_water := tp, shared := om_set (next_va m) r (shared m)\<rparr>)" (is "mm_inv (?z # Z) ?m")
proof -
  note parts = mm_invD [OF inv]
  let ?n = "round_up_nat (unat sz) (unat kAllocAlign)"
  have al: "unat kAllocAlign = 256" by (simp add: kAllocAlign_def)
  have n: "unat ((sz + kAllocAlign - 1) div kAllocAlign * kAllocAlign) = ?n" using room_sums(2) [OF room] al by simp
  have bnd: "unat sz \<le> ?n" "?n < unat sz + 256" using round_up_nat_ge [of 256 "unat sz"] round_up_nat_less [of 256 "unat sz"] al by simp_all
  have t: "unat tp = unat (next_va m) + ?n" unfolding tp
    by (subst unat_add64) (use n bnd room al in \<open>simp_all add: room_def\<close>)
  have hd: "handed_ok (?z # Z) ?m" by (rule new_zone [OF parts(3) _ _ _ refl]) (use t bnd sz in simp_all)
  note fresh = fresh_keys [OF inv order_refl]
  have om: "om_inv (shared m)" using parts(6) by (simp add: shared_ok_def)
  have sh: "shared_ok (?z # Z) ?m"
    using shared_ok_more [OF parts(6), of ?z] om r sz bnd by (auto simp: shared_ok_def om_inv_set)
  have ap: "apart_ok ?m" using parts(7) fresh by (auto simp: apart_ok_def)
  have "bytes_used ?m = bytes_used m"
    using sum_om_set_new [OF fresh(3), of "\<lambda>e. if sr_owner (snd e) then unat (sr_size (snd e)) else 0" r] r(3) by (simp add: bytes_used_def)
  then have us: "used_ok ?m" using parts(10) by (simp add: used_ok_def)
  have lv: "live_ok (?z # Z) ?m" using live_ok_more [OF parts(4), of ?z] by (simp add: live_ok_def base_align_def)
  have rs: "reserved_ok (?z # Z) ?m" using reserved_ok_more [OF parts(5), of ?z] by (simp add: reserved_ok_def)
  have st: "settings_ok ?m" "maps_ok ?m" "handles_ok ?m" "spare_ok ?m" "quar_ok ?m"
    using parts(2,8,9,11,12) by (simp_all add: mm_part_defs)
  show ?thesis unfolding mm_inv_def using parts(1,13) hd sh ap us lv rs st by simp
qed

lemma adopt_moved:
  assumes ok: "run_ok Z m" and sp: "spacious m" and c: "allowed (Adopt path sz opened host) m" and r: "adopt path sz opened host m = (r, m')"
  shows "\<exists>new. moved Z new [Voided, Voided] m m'"
proof (cases "\<exists>m1. adopt_locked path sz opened host (void_lookups m) = (r, m1) \<and> m1 = void_lookups m")
  case True
  have "moved Z [] [Voided, Voided] m m'"
    by (rule exclusive_kept [OF ok r [unfolded adopt_def]]) (use True run_okD(1) [OF ok] in auto)
  then show ?thesis by blast
next
  case False
  let ?z = "(next_va m, round_up_nat (unat sz) (unat kAllocAlign))"
  have "moved Z [?z] [Voided, Voided] m m'"
  proof (rule exclusive_moved [OF r [unfolded adopt_def], where evs = "[]", simplified])
    fix m1 assume f: "adopt_locked path sz opened host (void_lookups m) = (r, m1)"
    define tp where "tp = next_va m + (sz + kAllocAlign - 1) div kAllocAlign * kAllocAlign"
    obtain p where m1: "m1 = (void_lookups m)\<lparr>next_va := tp, high_water := tp, hosts := map_host (next_va m) p sz False (hosts m),
        shared := om_set (next_va m) \<lparr>sr_va = next_va m, sr_size = sz, sr_host = p, sr_path = path, sr_owner = False\<rparr> (shared m)\<rparr>"
      using f False by (auto simp: adopt_locked_def tp_def Let_def split: if_splits option.splits)
    have inv: "mm_inv Z (void_lookups m)" using run_okD(1) [OF ok] by simp
    have rm: "room sz kAllocAlign (void_lookups m)" "0 < unat sz" using c by (simp_all add: room_def)
    have i: "mm_inv (?z # Z) ((void_lookups m)\<lparr>next_va := tp, high_water := tp,
        shared := om_set (next_va m) \<lparr>sr_va = next_va m, sr_size = sz, sr_host = p, sr_path = path, sr_owner = False\<rparr> (shared m)\<rparr>)"
      using adopt_table_inv [OF inv rm(2,1), where tp = tp] by (simp add: tp_def)
    have "hosts_ok (map_host (next_va m) p sz False (hosts m))"
      by (rule hosts_ok_map_host [OF mm_invD(13) [OF run_okD(1) [OF ok]]]) (use rm(1) in \<open>simp add: room_def kAllocAlign_def\<close>)
    then have "mm_inv (?z # Z) m1" using mm_inv_hosts [OF i] unfolding m1 by (cases m) (simp add: void_lookups_def)
    moreover have "cache_ok (hosts m1) k" if "cache_ok (hosts m) k" for k
      using cache_ok_map [OF that spaciousD(4) [OF sp]] by (simp add: m1)
    moreover have "unat (next_va m) + round_up_nat (unat sz) (unat kAllocAlign) \<le> unat tp"
      using handed_below [OF mm_invD(3) [OF i], of "next_va m"] by simp
    then have "grown m m1" using run_okD(3) [OF ok] by (auto simp: grown_def m1)
    ultimately show "mm_inv ([?z] @ Z) m1 \<and> grown m m1 \<and> table_epochs m1 = table_epochs (void_lookups m) \<and>
      (\<forall>c. cache_ok (hosts m) c \<longrightarrow> cache_ok (hosts m1) c)"
      by (auto simp: m1)
  qed
  then show ?thesis by blast
qed

lemma unlink_moved:
  assumes ok: "run_ok Z m" and r: "unlink_shared ptr m = (r, m')"
  shows "moved Z [] [Voided, Voided] m m'"
  by (rule exclusive_kept [OF ok r [unfolded unlink_shared_def]])
    (use run_okD(1) [OF ok] in \<open>auto simp: unlink_shared_locked_def split: option.splits\<close>)

lemma abandon_moved:
  assumes ok: "run_ok Z m" and cnt: "hm_counter (hosts m) \<noteq> - 1" and r: "abandon va m = (r, m')"
  shows "moved Z [] [Voided, Voided] m m'"
proof (rule exclusive_moved [OF r [unfolded abandon_def], where evs = "[]", simplified])
  fix m1 assume f: "abandon_locked va (void_lookups m) = (r, m1)"
  have inv: "mm_inv Z (void_lookups m)" using run_okD(1) [OF ok] by simp
  show "mm_inv ([] @ Z) m1 \<and> grown m m1 \<and> table_epochs m1 = table_epochs (void_lookups m) \<and>
      (\<forall>c. cache_ok (hosts m) c \<longrightarrow> cache_ok (hosts m1) c)"
  proof (cases "m1 = void_lookups m")
    case True
    then show ?thesis using inv grown_refl [OF ok] by auto
  next
    case False
    then obtain x where x: "om_find (shared m) va = Some x" "\<not> sr_owner x" "m1 = drop_shared va x (void_lookups m)"
      using f by (auto simp: abandon_locked_def split: option.splits if_splits)
    have "mm_inv Z m1" using drop_shared_inv [OF inv, of va x] x by simp
    moreover have "grown m m1" using run_okD(3) [OF ok] keys_erase [of va "shared m"] by (auto simp: grown_def x(3))
    ultimately show ?thesis using cache_ok_unmap [OF _ cnt] by (auto simp: x(3))
  qed
qed

lemma hosts_moved:
  assumes ok: "run_ok Z m" and h: "hosts_ok h" "\<And>c. cache_ok (hosts m) c \<Longrightarrow> cache_ok h c"
  shows "moved Z [] [] m (m\<lparr>hosts := h\<rparr>)"
proof -
  have "table_change [] m (m\<lparr>hosts := h\<rparr>)" by (simp add: table_change_def)
  then show ?thesis using mm_inv_hosts [OF run_okD(1) [OF ok] h(1)] h(2) run_okD(3) [OF ok] unfolding moved_def grown_def by auto
qed

lemma settings_moved:
  assumes ok: "run_ok Z m" and e: "live m = []"
  shows "bytes = 0 \<or> power_of_two bytes \<and> unat bytes \<le> kChunkSize \<Longrightarrow> moved Z [] [] m (set_page_size bytes m)"
    "power_of_two bytes \<Longrightarrow> 16 \<le> unat bytes \<Longrightarrow> moved Z [] [] m (set_alloc_alignment bytes m)"
proof -
  have t: "table_change [] m (set_page_size bytes m)" "table_change [] m (set_alloc_alignment bytes m)"
    by (simp_all add: table_change_def set_page_size_def set_alloc_alignment_def)
  note parts = mm_invD [OF run_okD(1) [OF ok]]
  show "moved Z [] [] m (set_page_size bytes m)" if "bytes = 0 \<or> power_of_two bytes \<and> unat bytes \<le> kChunkSize"
  proof -
    have "mm_inv Z (set_page_size bytes m)"
      unfolding mm_inv_def using parts that e by (simp add: mm_part_defs set_page_size_def)
    then show ?thesis using t(1) e run_okD(3) [OF ok] unfolding moved_def grown_def by (auto simp: set_page_size_def)
  qed
  show "moved Z [] [] m (set_alloc_alignment bytes m)" if "power_of_two bytes" "16 \<le> unat bytes"
  proof -
    have "mm_inv Z (set_alloc_alignment bytes m)"
      unfolding mm_inv_def using parts that e by (simp add: mm_part_defs set_alloc_alignment_def)
    then show ?thesis using t(2) e that(2) unfolding moved_def grown_def by (auto simp: set_alloc_alignment_def)
  qed
qed

section \<open>Every call\<close>

lemma call_moved:
  assumes ok: "run_ok Z m" and sp: "spacious m" and c: "allowed c m"
  shows "\<exists>new. moved Z new (events c m) m (after c m)"
proof -
  note cnt = spaciousD(4,5) [OF sp] and p = prod.collapse [symmetric]
  show ?thesis
  proof (cases c)
    case (Alloc sz request)
    then show ?thesis using alloc_moved [OF ok _ _ p, of request sz] c moved_same [OF ok] by auto
  next
    case (MapHost addr host len ro)
    then show ?thesis
      using hosts_moved [OF ok hosts_ok_map_host [OF mm_invD(13) [OF run_okD(1) [OF ok]]] cache_ok_map [OF _ cnt(1)]] c by simp blast
  next
    case (UnmapHost addr)
    then show ?thesis
      using hosts_moved [OF ok hosts_ok_unmap_host [OF mm_invD(13) [OF run_okD(1) [OF ok]]] cache_ok_unmap [OF _ cnt(1)]] by simp blast
  next
    case (SetPageSize bytes)
    then show ?thesis using settings_moved(1) [OF ok] c by auto
  next
    case (SetAllocAlignment bytes)
    then show ?thesis using settings_moved(2) [OF ok] c by auto
  next
    case (HeapAlloc sz limit)
    then show ?thesis using heap_alloc_moved [OF ok _ p] c by simp
  next
    case (Adopt path sz opened host)
    then show ?thesis using adopt_moved [OF ok sp _ p, of path sz opened host] c by (auto simp del: allowed.simps)
  next
    case (ExportHandle h memfd host dup)
    then show ?thesis using export_moved [OF ok _ p, of h memfd host dup] c by (auto simp del: allowed.simps)
  next
    case (ImportHandle fd stat host keep bytes)
    then show ?thesis using import_moved [OF ok sp _ p, of fd stat host keep bytes] c by (auto simp del: allowed.simps)
  next
    case (Free ptr)
    then show ?thesis using free_moved [OF ok cnt(1) p, of ptr] by auto
  next
    case (HeapFree ptr)
    then show ?thesis using heap_free_moved [OF ok cnt(1) p, of ptr] by auto
  next
    case FreeAll
    then show ?thesis using free_all_moved [OF ok cnt(2) p] by auto
  next
    case (Reserve sz al)
    then show ?thesis using reserve_moved [OF ok sp p, of sz al] by auto
  next
    case (AddressFree va sz)
    then show ?thesis using vmm_moved_kept(1) [OF ok sp p, of va sz] by auto
  next
    case (CreateHandle sz types k)
    then show ?thesis using vmm_moved_kept(2) [OF ok sp p, of sz types k] by auto
  next
    case (RetainHandle h)
    then show ?thesis using vmm_moved_kept(3) [OF ok sp p, of h] by auto
  next
    case (RetainHandleAt va)
    then show ?thesis using vmm_moved_kept(4) [OF ok sp p, of va] by auto
  next
    case (ReleaseHandle h)
    then show ?thesis using vmm_moved_kept(5) [OF ok sp p, of h] by auto
  next
    case (Map va sz off h)
    then show ?thesis using map_moved [OF ok sp p, of va sz off h] by auto
  next
    case (Unmap va sz)
    then show ?thesis using unmap_moved [OF ok p, of va sz] by auto
  next
    case (SetAccess va sz rd wr)
    then show ?thesis using set_access_moved [OF ok p, of va sz rd wr] by auto
  next
    case (Share ptr path created host)
    then show ?thesis using share_moved [OF ok sp p, of ptr path created host] by auto
  next
    case (UnlinkShared ptr)
    then show ?thesis using unlink_moved [OF ok p, of ptr] by auto
  next
    case (Abandon va)
    then show ?thesis using abandon_moved [OF ok cnt(1) p, of va] by auto
  qed
qed

lemma new_manager_ok:
  assumes "ordinal < 16" "backing_ok b" "length (ring e) = 64"
  shows "run_ok [] (new_manager cap ordinal b e gen mem)"
proof -
  have b: "unat (device_va_base ordinal) = 0x200000000000 + unat ordinal * 0x10000000000" by (rule unat_device_va_base [OF assms(1)])
  have "quarantine_rep empty_quarantine []" by (rule quar.rep_none)
  then have q: "\<exists>hist. quarantine_rep empty_quarantine hist" by blast
  have "power_of_two kAllocAlign" unfolding power_of_two_def by (intro exI [of _ 8]) (simp add: kAllocAlign_def)
  then have "mm_inv [] (new_manager cap ordinal b e gen mem)"
    using b q assms(2) hosts_ok_empty
    by (simp add: mm_inv_def mm_part_defs new_manager_def kChunkSize_def ranges_ok_def mapped_to_def)
  then show ?thesis using assms(3) by (simp add: run_ok_def new_manager_def aligned_ok_def kAllocAlign_def)
qed

end
