(* ===== verification/View_Run.thy ===== *)
theory View_Run
  imports Scalar Manager_Run
begin

text \<open>
  Runs of a device as one of its threads sees them: the thread's own accesses, calls of the manager by any
  thread, faults armed and cleared. In every state of such a run the thread's view is in order, so the
  lemmas on accesses apply to all of them.

  A call that voids remembered answers draws new epochs from the process's generator; a run goes on while
  none of them falls on an epoch the thread remembers (a chance of one in \<open>2\<^sup>4\<^sup>8\<close> each).
\<close>

section \<open>Runs\<close>

datatype access =
    ReadMem u64 bool u64 | WriteMem u64 "u8 list" | WriteNull u64 u64 | Fill u64 "u8 list" u64
  | LoadScalar u64 nat | StoreScalar u64 nat u64

fun accessed :: "access \<Rightarrow> view \<Rightarrow> view" where
  "accessed (ReadMem src null len) v = snd (read_mem src null len v)"
| "accessed (WriteMem dst s) v = snd (write_mem dst (Some s) (of_nat (length s)) v)"
| "accessed (WriteNull dst len) v = snd (write_mem dst None len v)"
| "accessed (Fill dst pattern len) v = snd (fill dst pattern len v)"
| "accessed (LoadScalar addr sz) v = snd (load_scalar addr sz v)"
| "accessed (StoreScalar addr sz x) v = snd (store_scalar addr sz x v)"

fun access_ok :: "access \<Rightarrow> bool" where
  "access_ok (WriteMem dst s) \<longleftrightarrow> length s < 2 ^ 64"
| "access_ok (Fill dst pattern len) \<longleftrightarrow> pattern \<noteq> []"
| "access_ok _ \<longleftrightarrow> True"

definition new_thread :: "bool \<Rightarrow> bool \<Rightarrow> bool \<Rightarrow> thread" where
  "new_thread cache_on ended host_on = \<lparr>t_cache_on = cache_on, t_ended = ended, t_owner = False, t_mem = empty_lookups,
     t_host_on = host_on, t_hosts = empty_host_cache\<rparr>"

text \<open>The epochs a call draws are not those of an answer the thread remembers.\<close>

definition no_clash :: "epoch_event list \<Rightarrow> view \<Rightarrow> bool" where
  "no_clash evs v \<longleftrightarrow> (\<forall>e \<in> set (ways (t_mem (v_thread v))). unlike (w_epoch e) (drawn (table_epochs (v_mm v)) evs))"

inductive view_step :: "view \<Rightarrow> view \<Rightarrow> bool" where
  call: "view_step v (v\<lparr>v_mm := after c (v_mm v)\<rparr>)"
    if "spacious (v_mm v)" "allowed c (v_mm v)" "no_clash (events c (v_mm v)) v"
      "low_half (after c (v_mm v))" "stamp (table_epochs (after c (v_mm v))) \<noteq> - 1"
| access: "view_step v (accessed a v)" if "access_ok a"
| arm: "view_step v (v\<lparr>v_fault := fault\<rparr>)"

inductive view_run :: "view \<Rightarrow> bool" where
  fresh: "view_run \<lparr>v_thread = new_thread cache_on ended host_on, v_mm = new_manager cap ordinal b e gen mem, v_fault = fault\<rparr>"
    if "ordinal < 16" "backing_ok b" "length (ring e) = 64" "stamp e \<noteq> - 1" "gen \<noteq> - 1"
| step: "view_run v'" if "view_run v" "view_step v v'"

inductive_cases view_step_cases: "view_step v v'"

section \<open>Accesses keep the view in order\<close>

lemma view_ok_fault [simp]: "view_ok Z (v\<lparr>v_fault := f\<rparr>) = view_ok Z v"
  by (simp add: view_ok_def)

lemma view_ok_host [simp]: "view_ok Z (in_host f v) = view_ok Z v"
  by (simp add: view_ok_def in_host_def low_half_def aligned_ok_def epochs_ok_def lookups_ok_def entry_ok_def remembers_def)

lemma view_ok_then:
  assumes "view_ok Z (snd p)" "\<And>x v. p = (Inr x, v) \<Longrightarrow> view_ok Z v \<Longrightarrow> view_ok Z (snd (g x v))"
  shows "view_ok Z (snd (then_do p g))"
proof -
  obtain r v where p: "p = (r, v)" by force
  then show ?thesis using assms by (cases r) auto
qed

lemma ask_ok: "view_ok Z v \<Longrightarrow> view_ok Z (snd (ask f x v))"
  by (simp add: ask_def split: option.splits prod.splits)

lemma stuck_bytes_ok: "view_ok Z v \<Longrightarrow> view_ok Z (snd (stuck_bytes addr bs v))"
  by (simp add: stuck_bytes_def ask_ok)

lemma loaded_ok: "view_ok Z v \<Longrightarrow> view_ok Z (snd (loaded addr sz x v))"
  unfolding loaded_def by (rule view_ok_then) (simp_all add: stuck_bytes_ok ask_ok Let_def)

lemma host_hit_view: "view_ok Z v \<Longrightarrow> view_ok Z (snd (host_hit addr len v))"
  using quietD(1) [OF host_hit_ok(1) [OF _ prod.collapse [symmetric]]] .

lemma bulk_view: "view_ok Z v \<Longrightarrow> view_ok Z (snd (in_thread (resolve_bulk addr len w) v))"
  using in_thread_bulk [of Z v addr len w] by (auto dest: quietD(1))

lemma scalar_view: "view_ok Z v \<Longrightarrow> view_ok Z (snd (in_thread (resolve_scalar addr len w s) v))"
  using in_thread_scalar [of Z v addr len w s] by (auto dest: quietD(1))

lemma read_device_view: "view_ok Z v \<Longrightarrow> view_ok Z (snd (read_device src len v))"
  unfolding read_device_def
  by (rule view_ok_then) (auto simp: bulk_view stuck_bytes_ok ask_ok split: option.splits sum.splits intro!: view_ok_then)

lemma read_mem_view: "view_ok Z v \<Longrightarrow> view_ok Z (snd (read_mem src null len v))"
  using host_hit_view [of Z v src len] read_device_view
  by (auto simp: read_mem_def split: prod.splits option.splits sum.splits)

lemma write_device_view:
  assumes "view_ok Z v" "length s = unat len"
  shows "view_ok Z (snd (write_device dst s len v))"
  using write_device_ok [OF assms, of dst] by (cases "resolve dst len True False (v_mm v)") (auto simp: quiet_def stored_def)

lemma write_mem_view:
  assumes "view_ok Z v" "\<And>s. src = Some s \<Longrightarrow> length s = unat len"
  shows "view_ok Z (snd (write_mem dst src len v))"
  using assms(1) host_hit_view [OF assms(1), of dst len] write_device_view [OF _ assms(2)]
  by (auto simp: write_mem_def split: prod.splits option.splits sum.splits)

lemma fill_view:
  assumes "view_ok Z v" "pattern \<noteq> []"
  shows "view_ok Z (snd (fill dst pattern len v))"
proof (cases "resolve dst len True False (v_mm v)")
  case (Inl e)
  then show ?thesis using assms(1) by (auto simp: fill_def resolve_mut_def split: option.splits sum.splits)
next
  case (Inr q)
  obtain pl base where q: "q = (pl, base)" by force
  have "view_ok Z (snd (on_alloc pl (fill_chunks acquire release pattern (unat (dst - base)) 0 (unat len)) v))"
    using fill_device_ok [OF assms Inr [unfolded q]] by (auto simp: stored_def)
  then show ?thesis using assms(1) Inr q by (auto simp: fill_def resolve_mut_def split: option.splits sum.splits)
qed

lemma materialize_view:
  assumes v: "view_ok Z v" and a: "alloc_of pl (v_mm v) = Some a" "alloc_inv a" "i < chunk_count a"
  shows "view_ok Z (snd (on_alloc pl (materialize acquire i) v))"
    "on_alloc pl (materialize acquire i) v = (Inr c, v') \<Longrightarrow>
      \<exists>a'. alloc_of pl (v_mm v') = Some a' \<and> same_shape a a' \<and> alloc_inv a'"
proof -
  have bk: "backing_ok (backing_st (v_mm v))" using mm_invD(1) [OF view_okD(1) [OF v]] .
  obtain r a1 b1 where m: "materialize acquire i (a, backing_st (v_mm v)) = (r, (a1, b1))" by (metis prod.exhaust)
  have top: "i * kChunkSize \<le> unat (al_size a)"
    using chunk_start_less [of i "unat (al_size a)"] a(2,3) by (auto simp: alloc_inv_def)
  have w: "wrote backing_ok (a, backing_st (v_mm v)) (a1, b1) (i * kChunkSize) []"
  proof (cases r)
    case (Inl e)
    then show ?thesis using bk.materialize_spec [OF a(2) bk a(3) m] a(2) by auto
  next
    case (Inr c)
    then show ?thesis using bk.update_real_spec [OF a(2) bk a(3), of c a1 b1 0 "[]"] m top bk.materialize_spec [OF a(2) bk a(3) m] by (auto simp: set_slot_def)
  qed
  obtain v1 where v1: "on_alloc pl (materialize acquire i) v = (r, v1)" "stored Z pl (i * kChunkSize) [] v v1"
    using on_alloc_stored [where f = "materialize acquire i", OF v a(1) m w] by blast
  then show "view_ok Z (snd (on_alloc pl (materialize acquire i) v))" by (simp add: stored_def)
  have "alloc_of pl (v_mm v1) = Some a1" using v1(1) a(1) m alloc_of_put [of pl "(v_mm v)\<lparr>backing_st := b1\<rparr>" a pl a1] by (auto simp: on_alloc_def)
  then show "\<exists>a'. alloc_of pl (v_mm v') = Some a' \<and> same_shape a a' \<and> alloc_inv a'" if "on_alloc pl (materialize acquire i) v = (Inr c, v')"
    using that v1(1) wroteD [OF w] by simp
qed

lemma load_location_view: "view_ok Z v \<Longrightarrow> view_ok Z (snd (scalar_location addr sz None v))"
  using host_hit_view [of Z v addr "of_nat sz"] scalar_view
  by (auto simp: scalar_location_def Let_def split: prod.splits option.splits sum.splits chunk.splits intro!: view_ok_then)

lemma load_scalar_view:
  assumes v: "view_ok Z v"
  shows "view_ok Z (snd (load_scalar addr sz v))"
proof -
  have cold: "view_ok Z (snd (then_do (scalar_location addr sz None v) (\<lambda>at v. case at of
          AtChunk pl off \<Rightarrow> then_do (load_word pl off sz v, v) (loaded addr sz)
        | AtUniform u \<Rightarrow> loaded addr sz (repeated u sz) v
        | AtUntouched \<Rightarrow> loaded addr sz 0 v
        | AtUnchanged \<Rightarrow> then_do (read_mem addr False (of_nat sz) v) (\<lambda>bs v. (Inr (value_of bs), v))
        | AtHost p \<Rightarrow> (Inr (host_load p sz (hmem (v_mm v))), v))))"
    by (rule view_ok_then [OF load_location_view [OF v]])
      (auto simp: loaded_ok read_mem_view split: scalar_at.splits intro!: view_ok_then)
  have hot: "view_ok Z (snd (then_do (load_word pl off sz v, v) (loaded addr sz)))" for pl off
    by (rule view_ok_then) (use v in \<open>auto simp: loaded_ok\<close>)
  show ?thesis using v cold hot by (auto simp: load_scalar_def split: sum.splits option.splits)
qed

lemma store_word_view:
  assumes v: "view_ok Z v" and n: "scalar_size n" "n dvd unat addr"
  shows "view_ok Z (snd (store_word addr n x v))"
proof (cases "host_hit addr (of_nat n) v")
  case (Pair h v1)
  show ?thesis
  proof (cases h)
    case None
    then obtain w where w: "quiet Z v w" "store_word addr n x v = (case resolve addr (of_nat n) False False (v_mm v) of
        Inl e \<Rightarrow> (Inl e, w) | Inr (pl, base) \<Rightarrow> on_alloc pl (chunk_store (unat (addr - base)) n x) w)"
      using store_word_eq [OF v] Pair by force
    show ?thesis
    proof (cases "resolve addr (of_nat n) False False (v_mm v)")
      case (Inr r)
      obtain pl base where r: "r = (pl, base)" by force
      then have "view_ok Z (snd (on_alloc pl (chunk_store (unat (addr - base)) n x) w))"
        using chunk_store_stored [OF quietD(1) [OF w(1)] _ n, of False pl base x] Inr quietD(2) [OF w(1)] by (auto simp: stored_def)
      then show ?thesis using w(2) Inr r by simp
    qed (use w quietD(1) in auto)
  next
    case (Some m)
    have v1: "view_ok Z v1" using host_hit_view [OF v, of addr "of_nat n"] Pair by simp
    show ?thesis
    proof (cases "hot_location addr (of_nat n) (v_thread v) (v_mm v) = Inr None")
      case True
      then show ?thesis using Pair Some v1 by (simp add: store_word_def scalar_location_def)
    next
      case False
      then obtain b where b: "resolve addr (of_nat n) False False (v_mm v) = Inr (InLive b, b)"
        "store_word addr n x v = on_alloc (InLive b) (chunk_store (unat (addr - b)) n x) v" using store_word_hot [OF v] by blast
      then show ?thesis using chunk_store_stored [OF v b(1) n, of x] by (auto simp: stored_def)
    qed
  qed
qed

lemma store_scalar_view: "view_ok Z v \<Longrightarrow> view_ok Z (snd (store_scalar addr n x v))"
proof -
  assume v: "view_ok Z v"
  have t: "view_ok Z (snd (to_store addr n x v))"
    using v host_hit_view [OF v, of addr 1] ask_ok by (auto simp: to_store_def is_host_mapped_def split: prod.splits bool.splits)
  show ?thesis
  proof (cases "scalar_size n \<and> addr AND (of_nat n - 1) = 0")
    case True
    then have "n dvd unat addr" using mask_dvd by blast
    then show ?thesis using True by (auto simp: store_scalar_def store_word_view intro!: view_ok_then t)
  next
    case False
    then show ?thesis using v by (auto simp: store_scalar_def)
  qed
qed

lemma accessed_view: "view_ok Z v \<Longrightarrow> access_ok a \<Longrightarrow> view_ok Z (accessed a v)"
  by (cases a) (auto simp: read_mem_view fill_view load_scalar_view store_scalar_view unat_of_nat64 intro!: write_mem_view)

section \<open>Calls keep the view in order\<close>

lemma call_view:
  assumes v: "view_ok Z v" and r: "run_ok Z (v_mm v)" and c: "spacious (v_mm v)" "allowed c (v_mm v)" "no_clash (events c (v_mm v)) v"
    "low_half (after c (v_mm v))" "stamp (table_epochs (after c (v_mm v))) \<noteq> - 1"
  shows "\<exists>new. view_ok (new @ Z) (v\<lparr>v_mm := after c (v_mm v)\<rparr>) \<and> run_ok (new @ Z) (after c (v_mm v))"
proof -
  obtain new where mv: "moved Z new (events c (v_mm v)) (v_mm v) (after c (v_mm v))" using call_moved [OF r c(1,2)] by blast
  have r': "run_ok (new @ Z) (after c (v_mm v))" by (rule moved_run_ok [OF r mv])
  have "lookups_ok (after c (v_mm v)) (t_mem (v_thread v))"
    using lookups_ok_change [OF view_okD(5) [OF v]] mv c(3) by (auto simp: moved_def no_clash_def)
  then have "view_ok (new @ Z) (v\<lparr>v_mm := after c (v_mm v)\<rparr>)"
    using run_okD [OF r'] view_okD [OF v] mv c(4,5) by (auto simp: view_ok_def epochs_ok_def moved_def)
  then show ?thesis using r' by blast
qed

lemma view_run_ok:
  assumes "view_ok Z v"
  shows "run_ok Z (v_mm v)"
  using assms by (simp add: run_ok_def view_ok_def epochs_ok_def aligned_ok_def)

lemma fresh_view:
  assumes "ordinal < 16" "backing_ok b" "length (ring e) = 64" "stamp e \<noteq> - 1" "gen \<noteq> - 1"
  shows "view_ok [] \<lparr>v_thread = new_thread cache_on ended host_on, v_mm = new_manager cap ordinal b e gen mem, v_fault = fault\<rparr>"
proof -
  let ?m = "new_manager cap ordinal b e gen mem"
  note run = run_okD [OF new_manager_ok [OF assms(1-3), of cap gen mem]]
  have "unat (next_va ?m) \<le> 2 ^ 63"
    using unat_device_va_base [OF assms(1)] assms(1) by (simp add: new_manager_def word_less_nat_alt)
  moreover have "cache_ok (hosts ?m) empty_host_cache"
    by (simp add: new_manager_def cache_ok_def no_host_maps_def fresh_generation_def empty_host_cache_def)
  ultimately show ?thesis
    using run assms(3,4) empty_lookups_ok [of ?m]
    by (simp add: view_ok_def low_half_def epochs_ok_def new_thread_def) (simp add: new_manager_def)
qed

section \<open>What accesses leave alone\<close>

definition same_tables :: "mm \<Rightarrow> mm \<Rightarrow> bool" where
  "same_tables m m' \<longleftrightarrow> om_keys (live m') = om_keys (live m) \<and> reserved m' = reserved m \<and> shared m' = shared m \<and> next_va m' = next_va m"

lemma same_tables_refl [simp]: "same_tables m m"
  by (simp add: same_tables_def)

lemma same_tables_then:
  assumes "same_tables m (v_mm (snd p))" "\<And>x v. p = (Inr x, v) \<Longrightarrow> same_tables m (v_mm v) \<Longrightarrow> same_tables m (v_mm (snd (g x v)))"
  shows "same_tables m (v_mm (snd (then_do p g)))"
proof -
  obtain r v where p: "p = (r, v)" by force
  then show ?thesis using assms by (cases r) auto
qed

lemma same_tables_thread [simp]: "same_tables m (v_mm (snd (in_thread f v))) = same_tables m (v_mm v)"
  by (simp add: in_thread_def split: prod.splits)

lemma same_tables_host [simp]: "same_tables m (v_mm (in_host f v)) = same_tables m (v_mm v)" "v_mm (snd (host_hit addr len v)) = v_mm v"
  by (simp_all add: same_tables_def in_host_def host_hit_def split: prod.splits)

lemma same_tables_ask [simp]: "v_mm (snd (ask f x v)) = v_mm v" "v_mm (snd (stuck_bytes addr bs v)) = v_mm v"
  by (simp_all add: stuck_bytes_def ask_def split: option.splits prod.splits)

lemma same_tables_loaded [simp]: "same_tables m (v_mm v) \<Longrightarrow> same_tables m (v_mm (snd (loaded addr sz x v)))"
  unfolding loaded_def by (rule same_tables_then) (simp_all add: Let_def)

lemma same_tables_alloc [simp]:
  assumes "same_tables m (v_mm v)"
  shows "same_tables m (v_mm (snd (on_alloc pl f v)))"
proof (cases "alloc_of pl (v_mm v)")
  case (Some a)
  obtain r a' b' where f: "f (a, backing_st (v_mm v)) = (r, (a', b'))" by (metis prod.exhaust)
  have "same_tables (v_mm v) (put_alloc pl a' ((v_mm v)\<lparr>backing_st := b'\<rparr>))"
    using keys_put [of pl "(v_mm v)\<lparr>backing_st := b'\<rparr>" a a'] Some by (simp add: same_tables_def)
  then show ?thesis using Some f assms by (auto simp: on_alloc_def same_tables_def)
qed (simp add: on_alloc_def assms)

lemma same_tables_read: "same_tables m (v_mm v) \<Longrightarrow> same_tables m (v_mm (snd (read_mem src null len v)))"
proof -
  have d: "same_tables m (v_mm v) \<Longrightarrow> same_tables m (v_mm (snd (read_device src len v)))" for v
    unfolding read_device_def
    by (rule same_tables_then) (auto split: option.splits sum.splits intro!: same_tables_then)
  assume v: "same_tables m (v_mm v)"
  obtain h v1 where h: "host_hit src len v = (h, v1)" by force
  have "same_tables m (v_mm v1)" using v same_tables_host(2) [of src len v] h by simp
  then show ?thesis using v h d by (auto simp: read_mem_def split: option.splits sum.splits)
qed

lemma same_tables_write: "same_tables m (v_mm v) \<Longrightarrow> same_tables m (v_mm (snd (write_mem dst src len v)))"
proof -
  have d: "same_tables m (v_mm v) \<Longrightarrow> same_tables m (v_mm (snd (write_device dst s len v)))" for v s
    unfolding write_device_def by (rule same_tables_then) auto
  assume v: "same_tables m (v_mm v)"
  obtain h v1 where h: "host_hit dst len v = (h, v1)" by force
  have "same_tables m (v_mm v1)" using v same_tables_host(2) [of dst len v] h by simp
  then show ?thesis using v h d by (auto simp: write_mem_def split: option.splits sum.splits)
qed

lemma same_tables_fill: "same_tables m (v_mm v) \<Longrightarrow> same_tables m (v_mm (snd (fill dst pattern len v)))"
  by (auto simp: fill_def split: option.splits sum.splits)

lemma same_tables_location: "same_tables m (v_mm v) \<Longrightarrow> same_tables m (v_mm (snd (scalar_location addr sz store v)))"
proof -
  assume v: "same_tables m (v_mm v)"
  obtain h v1 where h: "host_hit addr (of_nat sz) v = (h, v1)" by force
  have "same_tables m (v_mm v1)" using v same_tables_host(2) [of addr "of_nat sz" v] h by simp
  then show ?thesis
    using h by (auto simp: scalar_location_def Let_def split: option.splits sum.splits chunk.splits intro!: same_tables_then)
qed

lemma same_tables_load: "same_tables m (v_mm v) \<Longrightarrow> same_tables m (v_mm (snd (load_scalar addr sz v)))"
  by (auto simp: load_scalar_def split: option.splits sum.splits scalar_at.splits
      intro!: same_tables_then same_tables_location same_tables_read)

lemma same_tables_store: "same_tables m (v_mm v) \<Longrightarrow> same_tables m (v_mm (snd (store_scalar addr sz x v)))"
proof -
  have w: "same_tables m (v_mm v) \<Longrightarrow> same_tables m (v_mm (snd (store_word addr sz x v)))" for x v
    by (auto simp: store_word_def split: option.splits sum.splits scalar_at.splits
        intro!: same_tables_then same_tables_location same_tables_write)
  have "v_mm (snd (to_store addr sz x v)) = v_mm v"
    using same_tables_host(2) [of addr 1 v]
    by (cases "host_hit addr 1 v") (auto simp: to_store_def is_host_mapped_def split: bool.splits)
  moreover assume "same_tables m (v_mm v)"
  ultimately show ?thesis by (auto simp: store_scalar_def w intro!: same_tables_then)
qed

lemma accessed_tables: "same_tables (v_mm v) (v_mm (accessed a v))"
  by (cases a) (simp_all add: same_tables_read same_tables_write same_tables_fill same_tables_load same_tables_store)

section \<open>Every step\<close>

text \<open>A range that left every table stays out of them: bases only come from above.\<close>

definition gone :: "u64 \<Rightarrow> mm \<Rightarrow> bool" where
  "gone b m \<longleftrightarrow> unat b < unat (next_va m) \<and> b \<notin> om_keys (live m) \<and> b \<notin> om_keys (reserved m) \<and> b \<notin> om_keys (shared m)"

lemma gone_grown:
  assumes g: "grown m m'" and b: "gone b m"
  shows "gone b m'"
proof -
  have up: "\<not> unat (next_va m) \<le> unat b" "b \<notin> new_bases m" using b by (simp_all add: gone_def new_bases_def)
  have no: "b \<notin> om_keys (live m) \<union> new_bases m" "b \<notin> om_keys (reserved m) \<union> {b. unat (next_va m) \<le> unat b}"
    "b \<notin> om_keys (shared m) \<union> om_keys (live m) \<union> {b. unat (next_va m) \<le> unat b}"
    using b up by (simp_all add: gone_def del: domIff)
  have "b \<notin> om_keys (live m')" "b \<notin> om_keys (reserved m')" "b \<notin> om_keys (shared m')"
    by (rule contra_subsetD [OF grownD(3) [OF g] no(1)], rule contra_subsetD [OF grownD(4) [OF g] no(2)],
        rule contra_subsetD [OF grownD(5) [OF g] no(3)])
  moreover have "unat b < unat (next_va m')" using g b by (simp add: grown_def gone_def)
  ultimately show ?thesis by (simp add: gone_def)
qed

lemma view_step_ok:
  assumes s: "view_step v v'" and v: "view_ok Z v"
  shows "\<exists>new. view_ok (new @ Z) v'" "gone b (v_mm v) \<Longrightarrow> gone b (v_mm v')" "unat (next_va (v_mm v)) \<le> unat (next_va (v_mm v'))"
proof -
  note r = view_run_ok [OF v]
  from s show "\<exists>new. view_ok (new @ Z) v'"
  proof cases
    case (call c)
    then show ?thesis using call_view [OF v r] by blast
  next
    case (access a)
    then show ?thesis using accessed_view [OF v] by (metis append_Nil)
  next
    case (arm fault)
    then show ?thesis using v by (metis append_Nil view_ok_fault)
  qed
  have m: "grown (v_mm v) (v_mm v') \<or> same_tables (v_mm v) (v_mm v')" using s
  proof cases
    case (call c)
    then show ?thesis using call_moved [OF r call(2,3)] by (auto simp: moved_def)
  next
    case (access a)
    then show ?thesis using accessed_tables by simp
  qed simp
  have "same_tables (v_mm v) (v_mm v') \<Longrightarrow> gone b (v_mm v) \<Longrightarrow> gone b (v_mm v')" by (simp add: same_tables_def gone_def)
  then show "gone b (v_mm v) \<Longrightarrow> gone b (v_mm v')" using m gone_grown by blast
  show "unat (next_va (v_mm v)) \<le> unat (next_va (v_mm v'))" using m by (auto simp: grown_def same_tables_def)
qed

lemma view_steps_ok:
  assumes "view_step\<^sup>*\<^sup>* v v'" "view_ok Z v"
  shows "(\<exists>new. view_ok (new @ Z) v') \<and> (gone b (v_mm v) \<longrightarrow> gone b (v_mm v')) \<and> unat (next_va (v_mm v)) \<le> unat (next_va (v_mm v'))"
  using assms(1)
proof (induction rule: rtranclp_induct)
  case base
  have "view_ok ([] @ Z) v" using assms(2) by simp
  then show ?case by blast
next
  case (step v1 v2)
  then obtain new where new: "view_ok (new @ Z) v1" by blast
  note next_step = view_step_ok [OF step.hyps(2) new]
  obtain new' where "view_ok ((new' @ new) @ Z) v2" using next_step(1) by auto
  moreover have "gone b (v_mm v) \<longrightarrow> gone b (v_mm v2)" using step.IH next_step(2) by blast
  moreover have "unat (next_va (v_mm v)) \<le> unat (next_va (v_mm v2))" using step.IH next_step(3) by simp
  ultimately show ?case by blast
qed

lemma view_run_view: "view_run v \<Longrightarrow> \<exists>Z. view_ok Z v"
proof (induction rule: view_run.induct)
  case (fresh ordinal b e gen cache_on ended host_on cap mem fault)
  then show ?case using fresh_view by blast
next
  case (step v v')
  then show ?case using view_step_ok(1) by blast
qed

end
