(* ===== verification/Device_Tables.thy ===== *)
theory Device_Tables
  imports View_Run
begin

text \<open>
  What the tables of a device promise at every point of a run: regions that never overlap, exact accounting,
  addresses that are handed out once, use after free and double free, the bounds and the diagnoses of an
  address lookup, and the contracts of \<^verbatim>\<open>alloc\<close>, \<^verbatim>\<open>free\<close> and \<^verbatim>\<open>free_all\<close> of
  \<^verbatim>\<open>src/core/memory.cpp\<close>.
\<close>

section \<open>Definitions\<close>

text \<open>A call of the manager by any thread, as a step of a run.\<close>

definition called :: "mm_call \<Rightarrow> view \<Rightarrow> view" where
  "called c v = v\<lparr>v_mm := after c (v_mm v)\<rparr>"

definition permitted :: "mm_call \<Rightarrow> view \<Rightarrow> bool" where
  "permitted c v \<longleftrightarrow> spacious (v_mm v) \<and> allowed c (v_mm v) \<and> no_clash (events c (v_mm v)) v \<and>
     low_half (after c (v_mm v)) \<and> stamp (table_epochs (after c (v_mm v))) \<noteq> - 1"

text \<open>Everything that holds a range of the device's window: base and size.\<close>

definition regions :: "mm \<Rightarrow> (u64 \<times> u64) list" where
  "regions m = live_ranges m @ reserved m @ map (\<lambda>e. (fst e, sr_size (snd e))) (shared m)"

text \<open>An address in the padded range of a live allocation, and one in a mapping.\<close>

definition in_live :: "u64 \<Rightarrow> u64 \<Rightarrow> allocation \<Rightarrow> mm \<Rightarrow> bool" where
  "in_live addr b a m \<longleftrightarrow> om_find (live m) b = Some a \<and> unat b \<le> unat addr \<and> unat addr < unat b + unat (padded_size a m)"

definition in_mapping :: "u64 \<Rightarrow> u64 \<Rightarrow> mapping \<Rightarrow> mm \<Rightarrow> bool" where
  "in_mapping addr va p m \<longleftrightarrow> om_find (vmaps m) va = Some p \<and> unat va \<le> unat addr \<and> unat addr < unat va + unat (mp_size p)"

subsection \<open>A device to try things on\<close>

definition start_view :: view where
  "start_view = \<lparr>v_thread = new_thread True False True,
     v_mm = new_manager 0x100000000 0 (initial_state demo_os) demo_epochs 7 (\<lambda>_. 0), v_fault = None\<rparr>"

definition demo_view :: view where
  "demo_view = called (Alloc 4096 0) start_view"

definition two_view :: view where
  "two_view = called (Alloc 300 0) demo_view"

definition freed_view :: view where
  "freed_view = called (Free 0x200000000000) demo_view"

section \<open>The demonstration device is a run\<close>

lemma called_mm [simp]: "v_mm (called c v) = after c (v_mm v)" "v_thread (called c v) = v_thread v" "v_fault (called c v) = v_fault v"
  by (simp_all add: called_def)

lemma permitted_step: "permitted c v \<Longrightarrow> view_step v (called c v)"
  unfolding called_def by (rule view_step.call) (simp_all add: permitted_def)

lemma set_up_size [simp]: "al_size (set_up sz a) = sz"
  by (simp add: set_up_def Let_def)

lemma start_run: "view_run start_view"
  unfolding start_view_def
  by (rule view_run.fresh) (simp_all add: backing_ok_initial demo_os_ok demo_epochs_def)

lemma demo_mm:
  "v_mm demo_view = (v_mm start_view)\<lparr>next_va := 0x200000001000, high_water := 0x200000001000, used := 4096,
     live := [(0x200000000000, set_up 4096 empty_allocation)], usage_log := [4096]\<rparr>"
  by (simp add: demo_view_def start_view_def new_manager_def alloc_def over_capacity_def Let_def alloc_alignment_def
      notify_usage_def device_va_base_def kDeviceVaBase_def kAllocAlign_def om_emplace_def)

lemmas start_defs = start_view_def new_manager_def device_va_base_def kDeviceVaBase_def kAllocAlign_def
  no_host_maps_def fresh_generation_def new_thread_def demo_epochs_def empty_lookups_def

lemma demo_permitted: "permitted (Alloc 4096 0) start_view"
proof -
  have m: "after (Alloc 4096 0) (v_mm start_view) = v_mm demo_view" by (simp add: demo_view_def)
  have "low_half (v_mm demo_view)" "stamp (table_epochs (v_mm demo_view)) \<noteq> - 1"
    by (simp_all add: demo_mm low_half_def start_defs)
  then show ?thesis unfolding permitted_def m
    by (simp add: start_defs spacious_def modest_def low_half_def request_ok_def room_def alloc_alignment_def no_clash_def unlike_def)
qed

lemma demo_run: "view_run demo_view"
  using view_run.step [OF start_run permitted_step [OF demo_permitted]] by (simp add: demo_view_def)

lemma two_mm:
  "v_mm two_view = (v_mm start_view)\<lparr>next_va := 0x200000001200, high_water := 0x200000001200, used := 4396,
     live := [(0x200000000000, set_up 4096 empty_allocation), (0x200000001000, set_up 300 empty_allocation)], usage_log := [4396, 4096]\<rparr>"
  by (simp add: two_view_def demo_mm start_defs alloc_def over_capacity_def Let_def alloc_alignment_def notify_usage_def om_emplace_def)

lemma two_fields: "v_fault two_view = None" "v_thread two_view = v_thread start_view"
  by (simp_all add: two_view_def demo_view_def start_view_def)

lemma two_permitted: "permitted (Alloc 300 0) demo_view"
proof -
  have m: "after (Alloc 300 0) (v_mm demo_view) = v_mm two_view" by (simp add: two_view_def)
  have t: "v_thread demo_view = v_thread start_view" by (simp add: demo_view_def)
  have "low_half (v_mm two_view)" "stamp (table_epochs (v_mm two_view)) \<noteq> - 1"
    by (simp_all add: two_mm low_half_def start_defs)
  then show ?thesis unfolding permitted_def m
    by (simp add: demo_mm t start_defs spacious_def modest_def low_half_def request_ok_def room_def alloc_alignment_def no_clash_def unlike_def)
qed

lemma two_run: "view_run two_view"
  using view_run.step [OF demo_run permitted_step [OF two_permitted]] by (simp add: two_view_def)

lemma freed_permitted: "permitted (Free 0x200000000000) demo_view"
proof -
  obtain Z where "view_ok Z demo_view" using view_run_view [OF demo_run] by blast
  then have inv: "mm_inv Z (v_mm demo_view)" by (rule view_okD)
  have l: "om_find (live (v_mm demo_view)) 0x200000000000 = Some (set_up 4096 empty_allocation)" by (simp add: demo_mm)
  obtain q where f: "free 0x200000000000 (v_mm demo_view) = (Inr (), free_live 0x200000000000 (set_up 4096 empty_allocation)
      ((v_mm demo_view)\<lparr>used := used (v_mm demo_view) - al_size (set_up 4096 empty_allocation), quar := q, table_epochs := note_free 0x200000000000 (table_epochs (v_mm demo_view))\<rparr>))"
    using free_live_ok [OF inv l] by blast
  have "low_half (after (Free 0x200000000000) (v_mm demo_view))" "stamp (table_epochs (after (Free 0x200000000000) (v_mm demo_view))) \<noteq> - 1"
    using f by (simp_all add: free_live_def notify_usage_def low_half_def demo_mm note_free_def start_defs Let_def kCountMask_def split: prod.splits)
  moreover have "no_clash (events (Free 0x200000000000) (v_mm demo_view)) demo_view"
    using f by (simp add: no_clash_def unlike_def demo_mm start_defs draws_def kCountMask_def)
  ultimately show ?thesis 
    by (simp add: permitted_def demo_mm start_defs spacious_def modest_def low_half_def)
qed

lemma freed_run: "view_run freed_view"
  using view_run.step [OF demo_run permitted_step [OF freed_permitted]] by (simp add: freed_view_def)

section \<open>Regions\<close>

lemma live_zone:
  assumes inv: "mm_inv Z m" and a: "om_find (live m) b = Some a"
  shows "\<exists>k. (b, k) \<in> set Z \<and> unat (al_size a) \<le> k"
proof -
  obtain k where "(b, k) \<in> set Z" "round_up_nat (unat (al_size a)) (base_align m) \<le> k"
    using mm_invD(4) [OF inv] a unfolding live_ok_def by blast
  then show ?thesis using round_up_nat_ge [OF base_align_pos [OF mm_invD(2) [OF inv]]] le_trans by blast
qed

lemma region_zone:
  assumes inv: "mm_inv Z m" and r: "(b, n) \<in> set (regions m)"
  shows "\<exists>k. (b, k) \<in> set Z \<and> unat n \<le> k"
proof -
  note parts = mm_invD [OF inv]
  have om: "om_inv (live m)" "om_inv (reserved m)" "om_inv (shared m)"
    using parts(4,5,6) by (simp_all add: live_ok_def reserved_ok_def shared_ok_def)
  consider (live) a where "(b, a) \<in> set (live m)" "n = al_size a" | (reserved) "(b, n) \<in> set (reserved m)"
    | (shared) x where "(b, x) \<in> set (shared m)" "n = sr_size x" using r by (auto simp: regions_def live_ranges_def)
  then show ?thesis
  proof cases
    case live
    then have "om_find (live m) b = Some a" using om_inv_find [OF om(1), of "(b, a)"] by simp
    then show ?thesis using live_zone [OF inv] live(2) by simp
  next
    case reserved
    then have "om_find (reserved m) b = Some n" using om_inv_find [OF om(2), of "(b, n)"] by simp
    then show ?thesis using parts(5) by (auto simp: reserved_ok_def)
  next
    case shared
    then have "om_find (shared m) b = Some x" using om_inv_find [OF om(3), of "(b, x)"] by simp
    then show ?thesis using parts(6) shared(2) by (auto simp: shared_ok_def)
  qed
qed

lemma region_bases:
  assumes "mm_inv Z m"
  shows "distinct (map fst (regions m))"
proof -
  note parts = mm_invD [OF assms]
  have "distinct (map fst (live m))" "distinct (map fst (reserved m))" "distinct (map fst (shared m))"
    using parts(4,5,6) by (simp_all add: live_ok_def reserved_ok_def shared_ok_def om_inv_distinct)
  moreover have "map fst (regions m) = map fst (live m) @ map fst (reserved m) @ map fst (shared m)"
    by (simp add: regions_def live_ranges_def comp_def)
  moreover have "om_keys (live m) = fst ` set (live m)" "om_keys (reserved m) = fst ` set (reserved m)" "om_keys (shared m) = fst ` set (shared m)"
    by (simp_all add: dom_map_of_conv_image_fst)
  ultimately show ?thesis using parts(7) by (auto simp: apart_ok_def simp del: domIff)
qed

text \<open>
  C2 At every point of a run, the live allocations, the reservations and the shared regions have distinct
  bases, lie in the part of the device's window that was handed out, and no two of them share a byte.
\<close>

theorem regions_apart:
  assumes run: "view_run v" and b: "(b, n) \<in> set (regions (v_mm v))" and c: "(c, k) \<in> set (regions (v_mm v))" "b \<noteq> c"
  shows "distinct (map fst (regions (v_mm v))) \<and> unat (va_base (v_mm v)) \<le> unat b \<and> unat b + unat n \<le> unat (next_va (v_mm v)) \<and>
    (unat b + unat n \<le> unat c \<or> unat c + unat k \<le> unat b)"
proof -
  obtain Z where v: "view_ok Z v" using view_run_view [OF run] by blast
  note inv = view_okD(1) [OF v] and h = mm_invD(3) [OF view_okD(1) [OF v]]
  obtain n' k' where z: "(b, n') \<in> set Z" "unat n \<le> n'" "(c, k') \<in> set Z" "unat k \<le> k'"
    using region_zone [OF inv b] region_zone [OF inv c(1)] by blast
  show ?thesis using region_bases [OF inv] handed_below [OF h z(1)] handed_apart [OF h z(1,3) c(2)] z(2,4) by auto
qed

theorem regions_apart_witness:
  "view_run two_view \<and> regions (v_mm two_view) = [(0x200000000000, 4096), (0x200000001000, 300)] \<and>
    unat (0x200000000000 :: u64) + unat (4096 :: u64) \<le> unat (0x200000001000 :: u64)"
proof -
  have r: "regions (v_mm two_view) = [(0x200000000000, 4096), (0x200000001000, 300)]"
    by (simp add: regions_def live_ranges_def two_mm start_defs)
  show ?thesis
    using regions_apart [OF two_run, of "0x200000000000" 4096 "0x200000001000" 300] two_run r by simp
qed

text \<open>
  C8 At every point of a run, the bytes accounted as used are exactly the sizes of the live allocations, of
  the physical handles and of the shared regions the device owns, and never more than its capacity.
\<close>

theorem used_bytes_exact:
  assumes "view_run v"
  shows "unat (used (v_mm v)) = bytes_used (v_mm v) \<and> unat (used (v_mm v)) \<le> unat (capacity (v_mm v))"
proof -
  obtain Z where v: "view_ok Z v" using view_run_view [OF assms] by blast
  show ?thesis using mm_invD(10) [OF view_okD(1) [OF v]] by (simp add: used_ok_def)
qed

theorem used_bytes_exact_witness: "view_run two_view \<and> bytes_used (v_mm two_view) = 4396"
  using used_bytes_exact [OF two_run] two_run by (simp add: two_mm)

section \<open>Addresses are handed out once\<close>

lemma run_steps:
  assumes "view_run v" "view_step\<^sup>*\<^sup>* v v'"
  shows "view_run v'"
  using assms(2,1) by (induction rule: rtranclp_induct) (blast intro: view_run.step)+

lemma permitted_ok:
  assumes "view_ok Z v" "permitted c v"
  shows "\<exists>new. view_ok (new @ Z) (called c v)"
  using view_step_ok(1) [OF permitted_step [OF assms(2)] assms(1)] .

text \<open>
  C9 An address range that an allocation was given is never given out again, whatever is freed in between:
  an allocation made later in the run lies above it.
\<close>

theorem addresses_never_reused:
  assumes run: "view_run v" and c: "permitted (Alloc sz request) v" "alloc sz request (v_mm v) = (Inr base, m)"
    and later: "view_step\<^sup>*\<^sup>* (called (Alloc sz request) v) v2" and again: "allowed (Alloc sz2 request2) (v_mm v2)"
      "alloc sz2 request2 (v_mm v2) = (Inr base2, m2)"
  shows "unat base + unat sz \<le> unat base2"
proof -
  obtain Z where v: "view_ok Z v" using view_run_view [OF run] by blast
  have m: "v_mm (called (Alloc sz request) v) = m" using c(2) by simp
  have r1: "alloc_result sz request (v_mm v) base m"
    by (rule alloc_Inr [OF view_okD(1) [OF v] _ _ c(2)]) (use c(1) in \<open>simp_all add: permitted_def\<close>)
  obtain Z1 where v1: "view_ok Z1 (called (Alloc sz request) v)" using permitted_ok [OF v c(1)] by blast
  obtain Z2 where v2: "view_ok Z2 v2" and up: "unat (next_va m) \<le> unat (next_va (v_mm v2))"
    using view_steps_ok [OF later v1] m by auto
  note inv2 = view_okD(1) [OF v2]
  have r2: "alloc_result sz2 request2 (v_mm v2) base2 m2" by (rule alloc_Inr [OF inv2 _ _ again(2)]) (use again(1) in simp_all)
  have "0 < unat (alloc_alignment request2 (v_mm v2))" by (rule base_align_dvd [OF mm_invD(2) [OF inv2]]) (use again(1) in simp)
  then have "unat (next_va (v_mm v2)) \<le> unat base2" using r2 round_up_nat_ge by (simp add: alloc_result_def Let_def)
  moreover have "unat base + unat sz \<le> unat (next_va m)" using r1 by (simp add: alloc_result_def Let_def)
  ultimately show ?thesis using up by linarith
qed

theorem addresses_never_reused_witness:
  "view_run start_view \<and> permitted (Alloc 4096 0) start_view \<and> allowed (Alloc 300 0) (v_mm demo_view) \<and>
    fst (alloc 300 0 (v_mm demo_view)) = Inr 0x200000001000 \<and> unat (0x200000000000 :: u64) + unat (4096 :: u64) \<le> unat (0x200000001000 :: u64)"
proof -
  have a: "alloc 4096 0 (v_mm start_view) = (Inr 0x200000000000, v_mm demo_view)" "alloc 300 0 (v_mm demo_view) = (Inr 0x200000001000, v_mm two_view)"
    by (simp_all add: two_mm demo_mm start_defs alloc_def over_capacity_def Let_def alloc_alignment_def notify_usage_def om_emplace_def)
  have "allowed (Alloc 300 0) (v_mm demo_view)" using two_permitted by (simp add: permitted_def)
  then show ?thesis
    using addresses_never_reused [OF start_run demo_permitted a(1), of demo_view 300 0 "0x200000001000"] start_run demo_permitted a(2)
    by (simp add: demo_view_def)
qed

section \<open>What was freed\<close>

lemma free_live_gone:
  assumes v: "view_ok Z v" and a: "om_find (live (v_mm v)) ptr = Some a"
  shows "gone ptr (after (Free ptr) (v_mm v))" "om_find (freed (quar (after (Free ptr) (v_mm v)))) ptr \<noteq> None"
proof -
  let ?m = "v_mm v"
  note inv = view_okD(1) [OF v] and parts = mm_invD [OF view_okD(1) [OF v]]
  have sh: "om_find (shared ?m) ptr = None" "om_find (reserved ?m) ptr = None" using parts(7) a by (auto simp: apart_ok_def)
  obtain hist where h: "quarantine_rep (quar ?m) hist" using parts(12) by (auto simp: quar_ok_def)
  obtain q where q: "remember_freed ptr (al_size a) (quar ?m) = Inr q" "quarantine_rep q ((ptr, al_size a) # hist)"
    using quar.rep_remember [OF h] by blast
  have f: "after (Free ptr) ?m = free_live ptr a (?m\<lparr>used := used ?m - al_size a, quar := q, table_epochs := note_free ptr (table_epochs ?m)\<rparr>)"
    using sh a q(1) by (simp add: free_def free_ordinary_def note_freed_def)
  obtain k where k: "(ptr, k) \<in> set Z" "unat (al_size a) \<le> k" using live_zone [OF inv a] by blast
  have "unat ptr < unat (next_va ?m)" using handed_below [OF parts(3) k(1)] by linarith
  moreover have "om_inv (live ?m)" using parts(4) by (simp add: live_ok_def)
  ultimately show "gone ptr (after (Free ptr) ?m)"
    unfolding f using sh by (auto simp: gone_def free_live_def notify_usage_def split: prod.splits)
  have "quarantine_recall q ptr = Some (al_size a)" using quar.rep_recall [OF q(2)] by (simp add: kQuarantineEntries_def)
  then show "om_find (freed (quar (after (Free ptr) ?m))) ptr \<noteq> None"
    unfolding f by (auto simp: quarantine_recall_def free_live_def notify_usage_def split: prod.splits)
qed

lemma free_gone:
  assumes v: "view_ok Z v" and g: "gone ptr (v_mm v)" and z: "(ptr, n) \<in> set Z" "0 < n"
  shows "free ptr (v_mm v) = (Inl (Throw (if om_find (freed (quar (v_mm v))) ptr \<noteq> None then DoubleFree else InvalidPointer)), v_mm v)"
proof -
  let ?m = "v_mm v"
  note ok = view_okD [OF v]
  have no: "om_find (live ?m) ptr = None" "om_find (shared ?m) ptr = None" using g by (auto simp: gone_def)
  have "ptr \<ge> b + al_size a" if f: "om_floor (live ?m) ptr = Some (b, a)" for b a
  proof -
    have a: "om_find (live ?m) b = Some a" using f mm_invD(4) [OF ok(1)] by (auto simp: live_ok_def dest: om_floor_SomeD)
    have "unat b + unat (padded_size a ?m) \<le> unat ptr"
      by (rule live_off_zone [OF ok(1,2) z(1) order_refl _ no(1) f]) (use z(2) in simp)
    moreover have "unat (al_size a) \<le> unat (padded_size a ?m)" by (rule extent_padded [OF ok(1,2) a, of False]) linarith
    ultimately have "unat b + unat (al_size a) \<le> unat ptr" by linarith
    then show ?thesis using unat_u64_lt [of ptr] by (simp add: u64_simps unat_add64)
  qed
  then show ?thesis using no by (auto simp: free_def free_ordinary_def bad_free_def not_less split: option.splits)
qed



section \<open>Bounds and errors of an address\<close>



lemma resolve_elsewhere:
  assumes inv: "mm_inv Z m" "low_half m" and no: "\<nexists>b a. in_live addr b a m" "\<nexists>va p. in_mapping addr va p m"
  shows "resolve addr len w s m = Inl (Throw (if in_reservation addr m then InvalidPointer else stray_access addr m))"
proof -
  have "unat addr < unat va \<or> unat va + unat (mp_size p) \<le> unat addr" if "om_find (vmaps m) va = Some p" for va p
    using no(2) that by (meson in_mapping_def not_less)
  note maps = not_in_mapping [OF inv(1) this]
  have "resolve addr len w s m = resolve_rest addr len w m"
  proof (rule resolve_rest_eq [OF inv])
    fix c a assume f: "om_floor (live m) addr = Some (c, a)"
    have "om_find (live m) c = Some a" "c \<le> addr" using om_floor_SomeD [OF live_zones(1) [OF mm_invD(4) [OF inv(1)]] f] by auto
    then show "unat c + unat (padded_size a m) \<le> unat addr" using no(1) by (meson in_live_def not_less word_le_nat_alt)
  qed
  then show ?thesis using maps by (simp add: resolve_rest_def)
qed



section \<open>What an allocation gives\<close>

text \<open>
  C22 An allocation that fails is a size of zero or does not fit the capacity, and changes nothing. One that
  succeeds is aligned as asked, counts its bytes, reads as zeros, and leaves every other allocation as it was.
\<close>

theorem alloc_contract:
  assumes run: "view_run v" and ok: "allowed (Alloc sz request) (v_mm v)" and al: "alloc sz request (v_mm v) = (r, m)"
  shows "case r of
      Inl e \<Rightarrow> m = v_mm v \<and> (e = Throw InvalidValue \<and> sz = 0 \<or> e = Throw OutOfMemory \<and> unat (capacity (v_mm v)) < unat (used (v_mm v)) + unat sz)
    | Inr base \<Rightarrow> unat (alloc_alignment request (v_mm v)) dvd unat base \<and> unat (next_va (v_mm v)) \<le> unat base \<and>
        unat (used m) = unat (used (v_mm v)) + unat sz \<and> unat (used m) \<le> unat (capacity (v_mm v)) \<and>
        (\<exists>a. om_find (live m) base = Some a \<and> al_size a = sz \<and> (\<forall>i < unat sz. alloc_byte a i = 0)) \<and>
        (\<forall>b. b \<noteq> base \<longrightarrow> om_find (live m) b = om_find (live (v_mm v)) b)"
proof -
  obtain Z where v: "view_ok Z v" using view_run_view [OF run] by blast
  note inv = view_okD(1) [OF v]
  have cap: "unat (capacity (v_mm v)) < 2 ^ 64" by (rule unat_u64_lt)
  show ?thesis
  proof (cases r)
    case (Inl e)
    then show ?thesis using al cap by (auto simp: alloc_def Let_def over_capacity_iff split: if_splits)
  next
    case (Inr base)
    have ar: "alloc_result sz request (v_mm v) base m" by (rule alloc_Inr [OF inv]) (use ok al Inr in simp_all)
    have pos: "0 < unat (alloc_alignment request (v_mm v))" by (rule base_align_dvd [OF mm_invD(2) [OF inv]]) (use ok in simp)
    have om: "om_inv (live (v_mm v))" using mm_invD(4) [OF inv] by (simp add: live_ok_def)
    obtain a where a: "live m = om_set base a (live (v_mm v))" "al_size a = sz" "\<forall>i < unat sz. alloc_byte a i = 0"
      using ar by (auto simp: alloc_result_def Let_def)
    show ?thesis
      using Inr ar a om round_up_nat_ge [OF pos] by (auto simp: alloc_result_def Let_def round_up_nat_dvd)
  qed
qed

theorem alloc_contract_witness:
  "view_run demo_view \<and> allowed (Alloc 300 0) (v_mm demo_view) \<and> fst (alloc 300 0 (v_mm demo_view)) = Inr 0x200000001000 \<and>
    (\<exists>a. om_find (live (v_mm two_view)) 0x200000001000 = Some a \<and> al_size a = 300 \<and> (\<forall>i < 300. alloc_byte a i = 0))"
proof -
  have al: "alloc 300 0 (v_mm demo_view) = (Inr 0x200000001000, v_mm two_view)"
    by (simp add: two_mm demo_mm start_defs alloc_def over_capacity_def Let_def alloc_alignment_def notify_usage_def om_emplace_def)
  have ok: "allowed (Alloc 300 0) (v_mm demo_view)" using two_permitted by (simp add: permitted_def)
  show ?thesis using alloc_contract [OF demo_run ok al] demo_run ok al by simp
qed

text \<open>
  C23 Freeing everything always succeeds: no allocation, handle, mapping or reservation is left, no shared
  region the device owns, and not a byte is accounted as used.
\<close>

theorem free_all_frees_all:
  assumes "view_run v"
  shows "\<exists>m. free_all (v_mm v) = (Inr (), m) \<and> live m = [] \<and> handles m = [] \<and> vmaps m = [] \<and> reserved m = [] \<and>
    (\<forall>k x. om_find (shared m) k = Some x \<longrightarrow> \<not> sr_owner x) \<and> used m = 0"
proof -
  obtain Z where v: "view_ok Z v" using view_run_view [OF assms] by blast
  show ?thesis using free_all_ok [OF view_okD(1) [OF v]] by blast
qed

theorem free_all_frees_all_witness:
  "view_run two_view \<and> live (v_mm two_view) \<noteq> [] \<and> live (snd (free_all (v_mm two_view))) = [] \<and> used (snd (free_all (v_mm two_view))) = 0"
  using free_all_frees_all [OF two_run] two_run by (auto simp: two_mm)

end
