(* ===== verification/Batch.thy ===== *)
theory Batch
  imports Scalar
begin

text \<open>
  Many accesses with one lookup (\<^verbatim>\<open>load_batch\<close> and its kin, \<^verbatim>\<open>load_run\<close>,
  \<^verbatim>\<open>store_run\<close>, \<^verbatim>\<open>copy_to\<close>, \<^verbatim>\<open>load_fields\<close>, \<^verbatim>\<open>load_texels\<close>, the quad
  runs and \<^verbatim>\<open>rmw_batch_fn\<close> of \<^verbatim>\<open>src/core/memory.cpp\<close>). An array argument is a list and
  its length the count; an array that is filled in is the list of what was put there. Where a store
  can throw half way the number of the access that threw is part of the result (\<^verbatim>\<open>failed_at\<close>).

  The lemmas show that a batch that is not declined does what the accesses one by one do.
\<close>

unbundle bit_operations_syntax

section \<open>Definitions\<close>

fun each :: "('a \<Rightarrow> 'b result) \<Rightarrow> 'a list \<Rightarrow> 'b list result" where
  "each f [] = Inr []"
| "each f (x # xs) = (case f x of
     Inl e \<Rightarrow> Inl e
   | Inr y \<Rightarrow> (case each f xs of Inl e \<Rightarrow> Inl e | Inr ys \<Rightarrow> Inr (y # ys)))"

subsection \<open>What every access of a batch has to pass\<close>

definition batch_faults_clear :: "bool \<Rightarrow> view \<Rightarrow> bool" where
  "batch_faults_clear store v = (if store then \<not> armed store_armed v else \<not> (any_stuck v \<or> armed load_armed v))"

definition all_bits :: "u64 list \<Rightarrow> u64" where
  "all_bits addrs = fold (\<lambda>x b. b OR x) addrs 0"

definition batch_addresses_ok :: "u64 list \<Rightarrow> nat \<Rightarrow> u8 option \<Rightarrow> view \<Rightarrow> (u64 option \<times> u8 option, view) outcome" where
  "batch_addresses_ok addrs sz hint v = then_do (in_thread (find_ordinary (hd addrs) (of_nat sz) hint) v) (\<lambda>(r, hint) v.
     case r of
       None \<Rightarrow> (Inr (None, hint), v)
     | Some base \<Rightarrow> (case om_find (live (v_mm v)) base of
         None \<Rightarrow> (Inl Stray, v)
       | Some a \<Rightarrow>
           let limit = al_size a - of_nat sz + 1 in
           if all_bits addrs AND (of_nat sz - 1) \<noteq> 0 \<or> list_ex (\<lambda>x. x - base \<ge> limit) addrs then (Inr (None, hint), v)
           else if \<not> host_map_free_span (hosts (v_mm v)) base (al_size a) \<and> list_ex (may_contain (hosts (v_mm v))) addrs
           then (Inr (None, hint), v)
           else (Inr (Some base, hint), v)))"

definition batch_ok :: "u64 list \<Rightarrow> nat \<Rightarrow> bool \<Rightarrow> u8 option \<Rightarrow> view \<Rightarrow> (u64 option \<times> u8 option, view) outcome" where
  "batch_ok addrs sz store hint v =
     (if addrs = [] \<or> \<not> scalar_size sz \<or> \<not> batch_faults_clear store v then (Inr (None, hint), v)
      else batch_addresses_ok addrs sz hint v)"

definition batch_window :: "u64 list \<Rightarrow> nat \<Rightarrow> view \<Rightarrow> (u64 option, view) outcome" where
  "batch_window addrs sz v =
     (if addrs = [] \<or> \<not> scalar_size sz \<or> \<not> batch_faults_clear False v \<or> \<not> batch_faults_clear True v then (Inr None, v)
      else then_do (batch_addresses_ok addrs sz None v) (\<lambda>(r, _) v. (Inr r, v)))"

subsection \<open>Loads\<close>

definition load_batch_in :: "u64 \<Rightarrow> u64 list \<Rightarrow> nat \<Rightarrow> view \<Rightarrow> u64 list result" where
  "load_batch_in base addrs sz v = each (\<lambda>addr. load_word (InLive base) (unat (addr - base)) sz v) addrs"

text \<open>One pass: a lane past the end reads the first byte instead, and whether any was is known at the end.\<close>

definition gather_lane :: "allocation \<Rightarrow> u64 \<Rightarrow> u64 \<Rightarrow> nat \<Rightarrow> u64 \<Rightarrow> u64 result" where
  "gather_lane a base limit sz addr =
     (let off = (if addr - base \<ge> limit then 0 else addr - base) in
      case slot_at a (unat off div kChunkSize) of
        Inl e \<Rightarrow> Inl e
      | Inr (Real c) \<Rightarrow> Inr (relaxed_load (rc_bytes c) (unat (off AND NOT (of_nat sz - 1)) mod kChunkSize) sz)
      | Inr (Uniform u) \<Rightarrow> Inr (repeated u sz)
      | Inr Untouched \<Rightarrow> Inr 0)"

definition gather_loads :: "allocation \<Rightarrow> u64 \<Rightarrow> u64 \<Rightarrow> nat \<Rightarrow> u64 list \<Rightarrow> u64 list option result" where
  "gather_loads a base limit sz addrs = (case each (gather_lane a base limit sz) addrs of
     Inl e \<Rightarrow> Inl e
   | Inr out \<Rightarrow> Inr (if all_bits addrs AND (of_nat sz - 1) \<noteq> 0 \<or> list_ex (\<lambda>x. x - base \<ge> limit) addrs then None else Some out))"

text \<open>The tests and then the loads.\<close>

definition load_two_steps :: "u64 list \<Rightarrow> nat \<Rightarrow> u8 option \<Rightarrow> view \<Rightarrow> (u64 list option \<times> u8 option, view) outcome" where
  "load_two_steps addrs sz hint v = then_do (batch_addresses_ok addrs sz hint v) (\<lambda>(r, hint) v. case r of
     None \<Rightarrow> (Inr (None, hint), v)
   | Some base \<Rightarrow> (case load_batch_in base addrs sz v of
       Inl e \<Rightarrow> (Inl e, v)
     | Inr out \<Rightarrow> (Inr (Some out, hint), v)))"

definition load_batch :: "u64 list \<Rightarrow> nat \<Rightarrow> u8 option \<Rightarrow> view \<Rightarrow> (u64 list option \<times> u8 option, view) outcome" where
  "load_batch addrs sz hint v =
     (if addrs = [] \<or> \<not> scalar_size sz \<or> \<not> batch_faults_clear False v then (Inr (None, hint), v)
      else if length addrs \<le> 64
      then then_do (in_thread (find_ordinary (hd addrs) (of_nat sz) hint) v) (\<lambda>(r, hint) v. case r of
          None \<Rightarrow> load_two_steps addrs sz hint v
        | Some base \<Rightarrow> (case om_find (live (v_mm v)) base of
            None \<Rightarrow> (Inl Stray, v)
          | Some a \<Rightarrow>
              if host_map_free_span (hosts (v_mm v)) base (al_size a)
              then (case gather_loads a base (al_size a - of_nat sz + 1) sz addrs of
                  Inl e \<Rightarrow> (Inl e, v)
                | Inr out \<Rightarrow> (Inr (out, hint), v))
              else load_two_steps addrs sz hint v))
      else load_two_steps addrs sz hint v)"

definition lane16 :: "allocation \<Rightarrow> u64 \<Rightarrow> u64 \<Rightarrow> u64 \<Rightarrow> (u64 \<times> u64) result" where
  "lane16 a base limit addr =
     (let off = (if addr - base \<ge> limit then 0 else addr - base);
          in_chunk = unat off mod kChunkSize;
          in_chunk = (if in_chunk > kChunkSize - 16 then 0 else in_chunk) in
      case slot_at a (unat off div kChunkSize) of
        Inl e \<Rightarrow> Inl e
      | Inr (Real c) \<Rightarrow> (let p = in_chunk - in_chunk mod 8 in Inr (relaxed_load (rc_bytes c) p 8, relaxed_load (rc_bytes c) (p + 8) 8))
      | Inr (Uniform u) \<Rightarrow> Inr (repeated u 8, repeated u 8)
      | Inr Untouched \<Rightarrow> Inr (0, 0))"

definition bad16 :: "u64 \<Rightarrow> u64 \<Rightarrow> u64 \<Rightarrow> bool" where
  "bad16 base limit addr \<longleftrightarrow> addr - base \<ge> limit \<or> unat (if addr - base \<ge> limit then 0 else addr - base) mod kChunkSize > kChunkSize - 16"

definition load_batch16 :: "u64 list \<Rightarrow> u8 option \<Rightarrow> view \<Rightarrow> ((u64 \<times> u64) list option \<times> u8 option, view) outcome" where
  "load_batch16 addrs hint v =
     (if addrs = [] \<or> length addrs > 64 \<or> \<not> batch_faults_clear False v then (Inr (None, hint), v)
      else then_do (in_thread (find_ordinary (hd addrs) 16 hint) v) (\<lambda>(r, hint) v. case r of
        None \<Rightarrow> (Inr (None, hint), v)
      | Some base \<Rightarrow> (case om_find (live (v_mm v)) base of
          None \<Rightarrow> (Inl Stray, v)
        | Some a \<Rightarrow>
            if \<not> host_map_free_span (hosts (v_mm v)) base (al_size a) then (Inr (None, hint), v)
            else let limit = al_size a - 16 + 1 in (case each (lane16 a base limit) addrs of
              Inl e \<Rightarrow> (Inl e, v)
            | Inr out \<Rightarrow> (Inr (if all_bits addrs AND 7 \<noteq> 0 \<or> list_ex (bad16 base limit) addrs then None else Some out, hint), v)))))"

definition load_broadcast :: "u64 \<Rightarrow> nat \<Rightarrow> nat \<Rightarrow> u8 option \<Rightarrow> view \<Rightarrow> (u64 list option \<times> u8 option, view) outcome" where
  "load_broadcast addr n sz hint v =
     (if n = 0 \<or> n > 32 \<or> \<not> scalar_size sz \<or> addr AND (of_nat sz - 1) \<noteq> 0 \<or> \<not> batch_faults_clear False v then (Inr (None, hint), v)
      else then_do (in_thread (find_ordinary addr (of_nat sz) hint) v) (\<lambda>(r, hint) v. case r of
        None \<Rightarrow> (Inr (None, hint), v)
      | Some base \<Rightarrow> (case om_find (live (v_mm v)) base of
          None \<Rightarrow> (Inl Stray, v)
        | Some a \<Rightarrow>
            if \<not> host_map_free_span (hosts (v_mm v)) base (al_size a) then (Inr (None, hint), v)
            else (case load_word (InLive base) (unat (addr - base)) sz v of
              Inl e \<Rightarrow> (Inl e, v)
            | Inr w \<Rightarrow> (Inr (Some (replicate n w), hint), v)))))"

subsection \<open>Stores\<close>

datatype batch_end = Declined | Made | Threw exn nat

fun store_batch_in :: "nat \<Rightarrow> nat \<Rightarrow> (nat \<times> u64) list \<Rightarrow> allocation \<times> bstate \<Rightarrow> batch_end \<times> (allocation \<times> bstate)" where
  "store_batch_in sz i [] st = (Made, st)"
| "store_batch_in sz i ((off, x) # ls) st = (case chunk_store off sz x st of
     (Inl e, st') \<Rightarrow> (Threw e i, st')
   | (Inr _, st') \<Rightarrow> store_batch_in sz (i + 1) ls st')"

text \<open>Lanes as offsets into the allocation, with their values.\<close>

definition lanes :: "u64 \<Rightarrow> u64 list \<Rightarrow> u64 list \<Rightarrow> (nat \<times> u64) list" where
  "lanes base addrs vals = zip (map (\<lambda>addr. unat (addr - base)) addrs) vals"

definition no_throw :: "('s \<Rightarrow> 'a \<times> 's) \<Rightarrow> 's \<Rightarrow> ('a, 's) outcome" where
  "no_throw f s = (case f s of (r, s') \<Rightarrow> (Inr r, s'))"

definition store_batch :: "u64 list \<Rightarrow> nat \<Rightarrow> u64 list \<Rightarrow> u8 option \<Rightarrow> view \<Rightarrow> (batch_end \<times> u8 option, view) outcome" where
  "store_batch addrs sz vals hint v = then_do (batch_ok addrs sz True hint v) (\<lambda>(r, hint) v. case r of
     None \<Rightarrow> (Inr (Declined, hint), v)
   | Some base \<Rightarrow> then_do (on_alloc (InLive base) (no_throw (store_batch_in sz 0 (lanes base addrs vals))) v) (\<lambda>r v. (Inr (r, hint), v)))"

definition batch_load :: "u64 \<Rightarrow> u64 list \<Rightarrow> nat \<Rightarrow> view \<Rightarrow> u64 list result" where
  "batch_load window addrs sz v = load_batch_in window addrs sz v"

definition batch_store :: "u64 \<Rightarrow> u64 list \<Rightarrow> nat \<Rightarrow> u64 list \<Rightarrow> view \<Rightarrow> (batch_end, view) outcome" where
  "batch_store window addrs sz vals v = on_alloc (InLive window) (no_throw (store_batch_in sz 0 (lanes window addrs vals))) v"

subsubsection \<open>Stores at a stride\<close>

definition kHalf :: nat where
  "kHalf = kChunkSize div 2"

text \<open>The lanes of one real chunk: at least one, and on while they stay in it.\<close>

function strided_real :: "nat \<Rightarrow> u64 \<Rightarrow> u64 list \<Rightarrow> nat \<Rightarrow> u64 \<Rightarrow> rchunk \<Rightarrow> nat \<times> rchunk" where
  "strided_real sz stride vals l io c =
     (let c' = store_at c (unat io) sz (vals ! l); io' = io + stride in
      if l + 1 < length vals \<and> unat io' < kChunkSize then strided_real sz stride vals (l + 1) io' c' else (l + 1, c'))"
  by pat_completeness auto
termination
  by (relation "measure (\<lambda>(sz, stride, vals, l, io, c). length vals - l)") auto

declare strided_real.simps [simp del]

lemma strided_real_advances: "l < fst (strided_real sz stride vals l io c)"
proof (induction sz stride vals l io c rule: strided_real.induct)
  case (1 sz stride vals l io c)
  have "Suc l < fst (strided_real sz stride vals (Suc l) (io + stride) (store_at c (unat io) sz (vals ! l)))"
    if "Suc l < length vals" "unat (io + stride) < kChunkSize" using 1 that by simp
  then show ?case by (subst strided_real.simps) (auto simp: Let_def intro: Suc_lessD)
qed

function strided_loop :: "nat \<Rightarrow> u64 \<Rightarrow> u64 list \<Rightarrow> u64 \<Rightarrow> nat \<Rightarrow> allocation \<times> bstate \<Rightarrow> batch_end \<times> (allocation \<times> bstate)" where
  "strided_loop sz stride vals off0 l st =
     (if \<not> l < length vals then (Made, st)
      else let off = unat (off0 + stride * of_nat l); idx = off div kChunkSize; io = off mod kChunkSize in
        case slot_at (fst st) idx of
          Inl e \<Rightarrow> (Threw e l, st)
        | Inr (Real c) \<Rightarrow> (let (l', c') = strided_real sz stride vals l (of_nat io) c
            in strided_loop sz stride vals off0 l' (set_slot idx (Real c') (fst st), snd st))
        | Inr chunk \<Rightarrow> (case chunk_store off sz (vals ! l) st of
            (Inl e, st') \<Rightarrow> (Threw e l, st')
          | (Inr _, st') \<Rightarrow> strided_loop sz stride vals off0 (l + 1) st'))"
  by pat_completeness auto
termination
  by (relation "measure (\<lambda>(sz, stride, vals, off0, l, st). length vals - l)")
    (auto, metis diff_less_mono2 fst_conv strided_real_advances)

declare strided_loop.simps [simp del]

definition store_strided :: "u64 \<Rightarrow> u64 \<Rightarrow> nat \<Rightarrow> u64 list \<Rightarrow> u8 option \<Rightarrow> view \<Rightarrow> (batch_end \<times> u8 option, view) outcome" where
  "store_strided a0 stride sz vals hint v =
     (if length vals < 2 \<or> length vals > 32 \<or> \<not> scalar_size sz \<or> sint stride > int kHalf \<or> sint stride < - int kHalf
        \<or> (a0 OR stride) AND (of_nat sz - 1) \<noteq> 0 \<or> \<not> batch_faults_clear True v then (Inr (Declined, hint), v)
      else then_do (in_thread (find_ordinary a0 (of_nat sz) hint) v) (\<lambda>(r, hint) v. case r of
        None \<Rightarrow> (Inr (Declined, hint), v)
      | Some base \<Rightarrow> (case om_find (live (v_mm v)) base of
          None \<Rightarrow> (Inl Stray, v)
        | Some a \<Rightarrow>
            if \<not> host_map_free_span (hosts (v_mm v)) base (al_size a)
              \<or> (a0 - base) + stride * of_nat (length vals - 1) \<ge> al_size a - of_nat sz + 1 then (Inr (Declined, hint), v)
            else then_do (on_alloc (InLive base) (no_throw (strided_loop sz stride vals (a0 - base) 0)) v) (\<lambda>r v. (Inr (r, hint), v)))))"

subsection \<open>Host memory\<close>

definition host_batch_hit :: "u64 list \<Rightarrow> nat \<Rightarrow> bool \<Rightarrow> view \<Rightarrow> host_map option \<times> view" where
  "host_batch_hit addrs sz store v =
     (if addrs = [] \<or> \<not> scalar_size sz then (None, v)
      else case host_hit (hd addrs) (of_nat sz) v of
        (None, v) \<Rightarrow> (None, v)
      | (Some h, v) \<Rightarrow>
          if store \<and> hm_read_only h then (None, v)
          else if all_bits addrs AND (of_nat sz - 1) \<noteq> 0 \<or> list_ex (\<lambda>x. x - hm_base h \<ge> hm_len h - of_nat sz + 1) addrs then (None, v)
          else (Some h, v))"

definition host_load_batch :: "u64 list \<Rightarrow> nat \<Rightarrow> view \<Rightarrow> u64 list option \<times> view" where
  "host_load_batch addrs sz v = (case host_batch_hit addrs sz False v of
     (None, v) \<Rightarrow> (None, v)
   | (Some h, v) \<Rightarrow> (Some (map (\<lambda>addr. host_load (host_at h addr) sz (hmem (v_mm v))) addrs), v))"

definition host_store_batch :: "u64 list \<Rightarrow> nat \<Rightarrow> u64 list \<Rightarrow> view \<Rightarrow> bool \<times> view" where
  "host_store_batch addrs sz vals v = (case host_batch_hit addrs sz True v of
     (None, v) \<Rightarrow> (False, v)
   | (Some h, v) \<Rightarrow> (True, in_host (fold (\<lambda>(addr, x). host_store (host_at h addr) sz x) (zip addrs vals)) v))"

section \<open>Lanes that nothing can go wrong with\<close>

text \<open>Aligned, in reach of no host mapping, and inside the one ordinary allocation.\<close>

definition lane_ok :: "nat \<Rightarrow> u64 \<Rightarrow> mm \<Rightarrow> u64 \<Rightarrow> bool" where
  "lane_ok n base m x \<longleftrightarrow> (\<forall>w k. resolve x (of_nat n) w k m = Inr (InLive base, base)) \<and> n dvd unat x \<and> \<not> may_contain (hosts m) x"

lemma each_map: "(\<And>x. x \<in> set xs \<Longrightarrow> f x = Inr (g x)) \<Longrightarrow> each f xs = Inr (map g xs)"
  by (induction xs) auto

lemma all_bits_mask: "all_bits xs AND b = 0 \<longleftrightarrow> (\<forall>x \<in> set xs. x AND b = 0)"
proof -
  have "fold (\<lambda>x c. c OR x) xs c AND b = 0 \<longleftrightarrow> c AND b = 0 \<and> (\<forall>x \<in> set xs. x AND b = 0)" for c
    by (induction xs arbitrary: c) (auto simp: bit.conj_disj_distrib2 or_eq_0_iff)
  from this [of 0] show ?thesis by (simp add: all_bits_def)
qed

lemma all_bits_dvd: "scalar_size n \<Longrightarrow> all_bits xs AND (of_nat n - 1) = 0 \<longleftrightarrow> (\<forall>x \<in> set xs. n dvd unat x)"
  by (simp add: all_bits_mask mask_dvd)

lemma limit_test:
  assumes inv: "mm_inv Z m" and a: "om_find (live m) base = Some a" and n: "0 < n" "n < 2 ^ 64" "n \<le> unat (al_size a)"
  shows "\<not> al_size a - of_nat n + 1 \<le> x - base \<longleftrightarrow> table_find x (of_nat n) m = Some base"
proof -
  note sp = live_span(1) [OF inv a]
  have un: "unat (of_nat n :: u64) = n" using n(2) by (simp add: unat_of_nat64)
  have "unat (al_size a - of_nat n) = unat (al_size a) - n" using n(3) un by (subst unat_sub64) simp_all
  then have l: "unat (al_size a - of_nat n + 1) = unat (al_size a) - n + 1"
    using n sp by (subst unat_add64) simp_all
  have "\<not> al_size a - of_nat n + 1 \<le> x - base \<longleftrightarrow> x - base < al_size a - of_nat n + 1" by auto
  also have "\<dots> \<longleftrightarrow> unat base \<le> unat x \<and> unat x < unat base + (unat (al_size a) - n + 1)"
    by (subst offset_test64) (use l sp n in simp_all)
  also have "\<dots> \<longleftrightarrow> table_find x (of_nat n) m = Some base"
    unfolding table_find_Some [OF inv] using a n un by auto
  finally show ?thesis .
qed

lemma free_span_no_host:
  assumes inv: "mm_inv Z m" and a: "om_find (live m) base = Some a" and h: "host_map_free_span (hosts m) base (al_size a)"
    and t: "table_find x len m = Some base"
  shows "\<not> may_contain (hosts m) x"
proof -
  note sp = live_span(1) [OF inv a]
  have x: "unat base \<le> unat x" "unat x < unat base + unat (al_size a)" using t a unfolding table_find_Some [OF inv] by auto
  have "unat (al_size a - 1) = unat (al_size a) - 1" using x by (subst unat_sub64) (simp_all add: u64_simps)
  then have "unat (base + (al_size a - 1)) = unat base + (unat (al_size a) - 1)" using sp x by (subst unat_add64) simp_all
  then have "is_device_va x" using h x by (auto simp: host_map_free_span_def is_device_va_iff add_diff_eq)
  then show ?thesis using h by (simp add: may_contain_def host_map_free_span_def)
qed

lemma in_thread_find:
  assumes v: "view_ok Z v" and f: "in_thread (find_ordinary addr len hint) v = (r, v')"
  shows "quiet Z v v' \<and> (\<exists>hint'. r = Inr (if t_cache_on (v_thread v) then table_find addr len (v_mm v) else None, hint'))"
proof -
  note ok = view_okD [OF v]
  obtain mem hint' where m: "find_ordinary addr len hint (v_thread v) (v_mm v) =
      (Inr (if t_cache_on (v_thread v) then table_find addr len (v_mm v) else None, hint'), (v_thread v)\<lparr>t_mem := mem\<rparr>)"
    "lookups_ok (v_mm v) mem" using find_ordinary_ok [OF ok(1,4,5,7)] by blast
  then show ?thesis using f ok by (auto simp: in_thread_def quiet_def view_ok_def)
qed

lemma in_thread_found:
  assumes v: "view_ok Z v" and f: "in_thread (find_ordinary addr len hint) v = (r, v')"
  obtains hint' where "quiet Z v v'" "r = Inr (None, hint')"
  | hint' base a where "quiet Z v v'" "r = Inr (Some base, hint')" "table_find addr len (v_mm v) = Some base"
      "om_find (live (v_mm v)) base = Some a" "unat len \<le> unat (al_size a)"
proof (cases "t_cache_on (v_thread v) \<and> table_find addr len (v_mm v) \<noteq> None")
  case True
  then obtain base where b: "table_find addr len (v_mm v) = Some base" by auto
  then obtain a where "om_find (live (v_mm v)) base = Some a" "unat len \<le> unat (al_size a)"
    unfolding table_find_Some [OF view_okD(1) [OF v]] by auto
  then show ?thesis using in_thread_find [OF assms] True b that(2) by auto
next
  case False
  then show ?thesis using in_thread_find [OF assms] that(1) by (auto split: if_splits)
qed

lemma table_lane:
  assumes v: "view_ok Z v" and t: "table_find x (of_nat n) (v_mm v) = Some base" and n: "n dvd unat x" and h: "\<not> may_contain (hosts (v_mm v)) x"
  shows "lane_ok n base (v_mm v) x"
  using resolve_table_find [OF view_okD(1,2) [OF v] t] n h by (simp add: lane_ok_def)

lemma batch_addresses_ok_spec:
  assumes v: "view_ok Z v" and n: "scalar_size n" and b: "batch_addresses_ok addrs n hint v = (r, v')"
  shows "quiet Z v v' \<and> (\<exists>hint'. r = Inr (None, hint') \<or> (\<exists>base. r = Inr (Some base, hint') \<and> (\<forall>x \<in> set addrs. lane_ok n base (v_mm v) x)))"
proof -
  obtain q v1 where f: "in_thread (find_ordinary (hd addrs) (of_nat n) hint) v = (q, v1)" by force
  from v f show ?thesis
  proof (cases rule: in_thread_found)
    case (1 hint')
    then show ?thesis using b f by (auto simp: batch_addresses_ok_def)
  next
    case (2 hint' base a)
    note m1 = quietD(2) [OF 2(1)] and inv = view_okD(1) [OF v]
    have nn: "0 < n" "n < 2 ^ 64" "n \<le> unat (al_size a)" using scalar_dvd [OF n] 2(5) n by (auto simp: scalar_size_def)
    define bad where "bad \<longleftrightarrow> all_bits addrs AND (of_nat n - 1) \<noteq> 0 \<or> list_ex (\<lambda>x. x - base \<ge> al_size a - of_nat n + 1) addrs"
    define near where "near \<longleftrightarrow> \<not> host_map_free_span (hosts (v_mm v1)) base (al_size a) \<and> list_ex (may_contain (hosts (v_mm v1))) addrs"
    have "bad \<longleftrightarrow> \<not> (\<forall>x \<in> set addrs. n dvd unat x \<and> table_find x (of_nat n) (v_mm v) = Some base)"
      using limit_test [OF inv 2(4) nn] by (auto simp: bad_def all_bits_dvd [OF n] list_ex_iff)
    moreover have "(r, v') = (if bad then (Inr (None, hint'), v1) else if near then (Inr (None, hint'), v1) else (Inr (Some base, hint'), v1))"
      using b f 2 m1 unfolding bad_def near_def by (simp add: batch_addresses_ok_def Let_def)
    moreover have "lane_ok n base (v_mm v) x" if "x \<in> set addrs" "n dvd unat x" "table_find x (of_nat n) (v_mm v) = Some base" "\<not> near" for x
      using that free_span_no_host [OF inv 2(4), of x "of_nat n"] by (intro table_lane [OF v]) (auto simp: near_def list_ex_iff m1)
    ultimately show ?thesis using 2(1) by (auto split: if_splits)
  qed
qed

section \<open>Loads one by one\<close>

fun load_each :: "u64 list \<Rightarrow> nat \<Rightarrow> view \<Rightarrow> (u64 list, view) outcome" where
  "load_each [] n v = (Inr [], v)"
| "load_each (x # xs) n v = then_do (load_scalar x n v) (\<lambda>y v. then_do (load_each xs n v) (\<lambda>ys v. (Inr (y # ys), v)))"

definition lane_word :: "nat \<Rightarrow> u64 \<Rightarrow> mm \<Rightarrow> u64 \<Rightarrow> u64" where
  "lane_word n base m x = value_of (bytes_at m (InLive base) (unat (x - base)) n)"

lemma lane_at:
  assumes v: "view_ok Z v" and n: "scalar_size n" and l: "lane_ok n base (v_mm v) x"
  shows "\<exists>a. alloc_of (InLive base) (v_mm v) = Some a \<and> alloc_inv a \<and> unat (x - base) div kChunkSize < length (slots a) \<and>
    unat (x - base) + n \<le> unat (al_size a) \<and> unat (x - base) mod kChunkSize + n \<le> kChunkSize \<and> n dvd unat (x - base)"
proof -
  have r: "resolve x (of_nat n) False False (v_mm v) = Inr (InLive base, base)" using l by (simp add: lane_ok_def)
  obtain a where a: "alloc_of (InLive base) (v_mm v) = Some a" "alloc_inv a" "unat (x - base) < kChunkSize * chunk_count a"
    "unat (x - base) + n \<le> unat (al_size a)" using resolve_at [OF v r] scalar_dvd(2) [OF n] by auto
  have "unat (x - base) div kChunkSize < length (slots a)" using a(2) chunk_div_less [OF a(3)] by (simp add: alloc_inv_def)
  then show ?thesis using a resolve_fits [OF v r scalar_dvd(1) [OF n]] l by (auto simp: lane_ok_def)
qed

lemma lane_load_word:
  assumes "view_ok Z v" "scalar_size n" "lane_ok n base (v_mm v) x"
  shows "load_word (InLive base) (unat (x - base)) n v = Inr (lane_word n base (v_mm v) x)"
  using lane_at [OF assms] load_word_val [OF _ _ assms(2)] unfolding lane_word_def by blast

lemma lane_no_host: "lane_ok n base (v_mm v) x \<Longrightarrow> fst (host_hit x len v) = None"
  by (simp add: lane_ok_def host_hit_none)

lemma lane_load_scalar:
  assumes v: "view_ok Z v" and n: "scalar_size n" and l: "lane_ok n base (v_mm v) x" and f: "batch_faults_clear False v"
  shows "\<exists>v'. quiet Z v v' \<and> load_scalar x n v = (Inr (lane_word n base (v_mm v) x), v')"
proof -
  have "n dvd unat x" "\<not> any_stuck v" "\<not> armed load_armed v" using l f by (auto simp: lane_ok_def batch_faults_clear_def)
  from load_scalar_eq [OF v n this(1) lane_no_host [OF l] this(2,3)] lane_load_word [OF v n l] l
  show ?thesis by (simp add: lane_ok_def)
qed

lemma clear_cong: "v_fault v' = v_fault v \<Longrightarrow> batch_faults_clear s v' = batch_faults_clear s v"
  by (simp add: batch_faults_clear_def any_stuck_def armed_def)

lemma load_each_lanes:
  assumes "view_ok Z v" "scalar_size n" "batch_faults_clear False v" "\<forall>x \<in> set xs. lane_ok n base (v_mm v) x"
  shows "\<exists>v'. quiet Z v v' \<and> load_each xs n v = (Inr (map (lane_word n base (v_mm v)) xs), v')"
  using assms(1,3,4)
proof (induction xs arbitrary: v)
  case (Cons x xs)
  obtain v1 where v1: "quiet Z v v1" "load_scalar x n v = (Inr (lane_word n base (v_mm v) x), v1)"
    using lane_load_scalar [OF Cons.prems(1) assms(2) _ Cons.prems(2), of base x] Cons.prems(3) by auto
  note q = quietD [OF v1(1)]
  obtain v2 where "quiet Z v1 v2" "load_each xs n v1 = (Inr (map (lane_word n base (v_mm v)) xs), v2)"
    using Cons.IH [OF q(1)] Cons.prems q clear_cong [OF q(3)] by auto
  then show ?case using v1 quiet_trans by auto
qed (auto intro: quiet_refl)

lemma relaxed_load_val: "relaxed_load f p n = value_of (map f [p ..< p + n])"
  by (simp add: relaxed_load_def value_of_def)

lemma mask_off: "scalar_size n \<Longrightarrow> n dvd unat (x :: u64) \<Longrightarrow> x AND NOT (of_nat n - 1) = x"
proof -
  assume "scalar_size n" "n dvd unat x"
  then have "x AND (of_nat n - 1) = 0" by (simp add: mask_dvd)
  moreover have "x = (x AND (of_nat n - 1)) OR (x AND NOT (of_nat n - 1))" by (simp flip: bit.conj_disj_distrib)
  ultimately show ?thesis by simp
qed

lemma gather_lane_eq:
  assumes v: "view_ok Z v" and n: "scalar_size n" and l: "lane_ok n base (v_mm v) x" and a: "om_find (live (v_mm v)) base = Some a"
    and x: "\<not> limit \<le> x - base"
  shows "gather_lane a base limit n x = Inr (lane_word n base (v_mm v) x)"
proof -
  define off where "off = unat (x - base)"
  obtain a' where a': "alloc_of (InLive base) (v_mm v) = Some a'" "off div kChunkSize < length (slots a')"
    "off mod kChunkSize + n \<le> kChunkSize" "n dvd unat (x - base)"
    using lane_at [OF v n l] unfolding off_def by blast
  have [simp]: "a' = a" using a' a by (simp add: alloc_of_def)
  have eq: "gather_lane a base limit n x = Inr (chunk_load (slots a ! (off div kChunkSize)) (off mod kChunkSize) n)"
    using x a'(2) mask_off [OF n a'(4)] n
    by (simp add: gather_lane_def Let_def slot_at_def chunk_load_def relaxed_load_val load_at_val flip: off_def split: chunk.splits)
  have "load_word (InLive base) off n v = Inr (chunk_load (slots a ! (off div kChunkSize)) (off mod kChunkSize) n)"
    using a' by (simp add: load_word_def slot_at_def)
  then show ?thesis using lane_load_word [OF v n l] eq by (simp add: off_def)
qed

lemma load_batch_in_lanes:
  assumes "view_ok Z v" "scalar_size n" "\<forall>x \<in> set addrs. lane_ok n base (v_mm v) x"
  shows "load_batch_in base addrs n v = Inr (map (lane_word n base (v_mm v)) addrs)"
  unfolding load_batch_in_def by (rule each_map) (use lane_load_word [OF assms(1,2)] assms(3) in auto)

text \<open>A batch of loads: declined, or the words of lanes that are all right.\<close>

definition batch_words :: "u64 list \<Rightarrow> nat \<Rightarrow> mm \<Rightarrow> u64 list option \<Rightarrow> bool" where
  "batch_words addrs n m r \<longleftrightarrow> r = None \<or> (\<exists>base. r = Some (map (lane_word n base m) addrs) \<and> (\<forall>x \<in> set addrs. lane_ok n base m x))"

lemma load_two_steps_spec:
  assumes q: "quiet Z v w" and n: "scalar_size n" and t: "load_two_steps addrs n h w = (r, w')"
  shows "quiet Z v w' \<and> (\<exists>out hint'. r = Inr (out, hint') \<and> batch_words addrs n (v_mm v) out)"
proof -
  obtain x w1 where ba: "batch_addresses_ok addrs n h w = (x, w1)" by force
  note spec = batch_addresses_ok_spec [OF quietD(1) [OF q] n ba]
  have q1: "quiet Z v w1" using spec quiet_trans [OF q] by blast
  note m = quietD(2) [OF q] quietD(2) [OF q1]
  from spec consider hint' where "x = Inr (None, hint')"
    | hint' base where "x = Inr (Some base, hint')" "\<forall>x \<in> set addrs. lane_ok n base (v_mm w) x" by blast
  then show ?thesis
  proof cases
    case 1
    then show ?thesis using t ba q1 by (auto simp: load_two_steps_def batch_words_def)
  next
    case 2
    have "load_batch_in base addrs n w1 = Inr (map (lane_word n base (v_mm w1)) addrs)"
      by (rule load_batch_in_lanes [OF quietD(1) [OF q1] n]) (use 2(2) m in simp)
    then have "w' = w1" "r = Inr (Some (map (lane_word n base (v_mm v)) addrs), hint')"
      using t ba 2(1) m by (simp_all add: load_two_steps_def)
    then show ?thesis using q1 2(2) m by (auto simp: batch_words_def)
  qed
qed

lemma gather_lane_returns:
  assumes inv: "mm_inv Z m" and a: "om_find (live m) base = Some a" and n: "0 < n" "n < 2 ^ 64" "n \<le> unat (al_size a)"
  shows "\<exists>c. gather_lane a base (al_size a - of_nat n + 1) n x = Inr c"
proof -
  define off where "off = (if al_size a - of_nat n + 1 \<le> x - base then 0 else x - base)"
  have "unat off < unat (al_size a)"
  proof (cases "al_size a - of_nat n + 1 \<le> x - base")
    case True then show ?thesis using n by (simp add: off_def)
  next
    case False
    then have "table_find x (of_nat n) m = Some base" using limit_test [OF inv a n] by blast
    then have "unat base \<le> unat x" "unat x < unat base + unat (al_size a)" using a unfolding table_find_Some [OF inv] by auto
    then show ?thesis using False by (simp add: off_def unat_sub64)
  qed
  moreover have "alloc_inv a" using mm_invD(4) [OF inv] a by (auto simp: live_ok_def)
  ultimately have "unat off div kChunkSize < length (slots a)" using alloc_inv_index by blast
  then show ?thesis by (auto simp: gather_lane_def Let_def slot_at_def simp flip: off_def split: chunk.splits)
qed

lemma each_returns: "(\<And>x. \<exists>c. f x = Inr c) \<Longrightarrow> \<exists>cs. each f xs = Inr cs"
  by (induction xs) (auto split: sum.splits, metis sum.sel(2) sum.disc(1) sum.disc(2))

lemma gather_loads_spec:
  assumes v: "view_ok Z v" and n: "scalar_size n" and a: "om_find (live (v_mm v)) base = Some a" "n \<le> unat (al_size a)"
    and span: "host_map_free_span (hosts (v_mm v)) base (al_size a)"
  shows "\<exists>out. gather_loads a base (al_size a - of_nat n + 1) n addrs = Inr out \<and> batch_words addrs n (v_mm v) out"
proof -
  note inv = view_okD(1) [OF v]
  have nn: "0 < n" "n < 2 ^ 64" using n by (auto simp: scalar_size_def)
  note lim = limit_test [OF inv a(1) nn a(2)]
  obtain ws where ws: "each (gather_lane a base (al_size a - of_nat n + 1) n) addrs = Inr ws"
    using each_returns [of "gather_lane a base (al_size a - of_nat n + 1) n" addrs] gather_lane_returns [OF inv a(1) nn a(2)] by blast
  have g: "gather_loads a base (al_size a - of_nat n + 1) n addrs =
    Inr (if \<forall>x \<in> set addrs. n dvd unat x \<and> table_find x (of_nat n) (v_mm v) = Some base then Some ws else None)"
    using ws by (auto simp: gather_loads_def all_bits_dvd [OF n] list_ex_iff lim [symmetric])
  have "batch_words addrs n (v_mm v) (Some ws)" if "\<forall>x \<in> set addrs. n dvd unat x \<and> table_find x (of_nat n) (v_mm v) = Some base"
  proof -
    have ok: "lane_ok n base (v_mm v) x" if "x \<in> set addrs" for x
      using that \<open>\<forall>x \<in> set addrs. n dvd unat x \<and> table_find x (of_nat n) (v_mm v) = Some base\<close> free_span_no_host [OF inv a(1) span]
      by (intro table_lane [OF v]) auto
    have "each (gather_lane a base (al_size a - of_nat n + 1) n) addrs = Inr (map (lane_word n base (v_mm v)) addrs)"
      by (rule each_map, rule gather_lane_eq [OF v n ok a(1)]) (use lim that in auto)
    then have "ws = map (lane_word n base (v_mm v)) addrs" using ws by simp
    then show ?thesis using ok unfolding batch_words_def by blast
  qed
  then show ?thesis using g by (auto simp: batch_words_def)
qed

lemma load_batch_spec:
  assumes v: "view_ok Z v" and b: "load_batch addrs n hint v = (r, v')"
  shows "quiet Z v v' \<and> (\<exists>out hint'. r = Inr (out, hint') \<and> batch_words addrs n (v_mm v) out \<and>
    (out \<noteq> None \<longrightarrow> scalar_size n \<and> batch_faults_clear False v))"
proof (cases "addrs = [] \<or> \<not> scalar_size n \<or> \<not> batch_faults_clear False v")
  case True
  then show ?thesis using b quiet_refl [OF v] by (auto simp: load_batch_def batch_words_def)
next
  case False
  then have n: "scalar_size n" "batch_faults_clear False v" by auto
  note head = load_batch_def [of addrs n hint v, unfolded if_not_P [OF False]]
  note two = load_two_steps_spec [OF _ n(1)]
  show ?thesis
  proof (cases "length addrs \<le> 64")
    case False
    then show ?thesis using two [OF quiet_refl [OF v]] b head n by auto
  next
    case True
    obtain q v1 where f: "in_thread (find_ordinary (hd addrs) (of_nat n) hint) v = (q, v1)" by force
    from v f show ?thesis
    proof (cases rule: in_thread_found)
      case (1 hint')
      then show ?thesis using two [OF 1(1)] b head True f n by auto
    next
      case (2 hint' base a)
      note m1 = quietD(2) [OF 2(1)]
      show ?thesis
      proof (cases "host_map_free_span (hosts (v_mm v)) base (al_size a)")
        case False
        then show ?thesis using two [OF 2(1)] b head True f n 2 m1 by auto
      next
        case span: True
        have "n \<le> unat (al_size a)" using 2(5) scalar_dvd(2) [OF n(1)] by simp
        from gather_loads_spec [OF v n(1) 2(4) this span, of addrs] show ?thesis using b head True f 2 m1 span n by auto
      qed
    qed
  qed
qed

lemma load_batch_one_by_one:
  assumes v: "view_ok Z v" and b: "load_batch addrs n hint v = (Inr (Some out, hint'), v')"
  shows "\<exists>v''. load_each addrs n v = (Inr out, v'') \<and> quiet Z v v' \<and> quiet Z v v''"
  using load_batch_spec [OF assms] load_each_lanes [OF v] by (fastforce simp: batch_words_def)

section \<open>Stores one by one\<close>

fun store_each :: "nat \<Rightarrow> nat \<Rightarrow> (u64 \<times> u64) list \<Rightarrow> view \<Rightarrow> batch_end \<times> view" where
  "store_each n i [] v = (Made, v)"
| "store_each n i ((x, y) # ls) v = (case store_scalar x n y v of
     (Inl e, v) \<Rightarrow> (Threw e i, v)
   | (Inr _, v) \<Rightarrow> store_each n (i + 1) ls v)"

lemma on_alloc_quiet:
  assumes "v_mm v1 = v_mm v" "on_alloc pl f v = (r, w)"
  shows "\<exists>w1. on_alloc pl f v1 = (r, w1) \<and> v_mm w1 = v_mm w"
  using assms by (auto simp: on_alloc_def Let_def split: option.splits prod.splits)

lemma on_alloc_lanes_Cons:
  assumes "alloc_of pl (v_mm v) = Some a"
  shows "on_alloc pl (no_throw (store_batch_in n i ((off, y) # ls))) v = (case on_alloc pl (chunk_store off n y) v of
      (Inl e, w) \<Rightarrow> (Inr (Threw e i), w)
    | (Inr _, w) \<Rightarrow> on_alloc pl (no_throw (store_batch_in n (i + 1) ls)) w)"
proof -
  obtain r a1 b1 where f: "chunk_store off n y (a, backing_st (v_mm v)) = (r, (a1, b1))" by (metis prod.exhaust)
  let ?m = "put_alloc pl a1 ((v_mm v)\<lparr>backing_st := b1\<rparr>)"
  have a1: "alloc_of pl ?m = Some a1" using alloc_of_put [of pl "(v_mm v)\<lparr>backing_st := b1\<rparr>" a pl a1] assms by simp
  have t: "put_alloc pl a2 (?m\<lparr>backing_st := b2\<rparr>) = put_alloc pl a2 ((v_mm v)\<lparr>backing_st := b2\<rparr>)" for a2 b2
    unfolding put_alloc_twice by simp
  show ?thesis using assms f a1 t by (cases r) (simp_all add: on_alloc_def no_throw_def split: prod.splits)
qed

lemma lane_store:
  assumes v: "view_ok Z v" and n: "scalar_size n" and l: "lane_ok n base (v_mm v) x" and f: "batch_faults_clear True v"
    and s: "on_alloc (InLive base) (chunk_store (unat (x - base)) n y) v = (r, w)"
  shows "\<exists>w1. store_scalar x n y v = (r, w1) \<and> v_mm w1 = v_mm w \<and> view_ok Z w1 \<and> view_ok Z w \<and> v_fault w1 = v_fault v \<and> v_fault w = v_fault v \<and>
    (\<forall>z. lane_ok n base (v_mm v) z \<longrightarrow> lane_ok n base (v_mm w) z)"
proof -
  have res: "resolve x (of_nat n) k False (v_mm v) = Inr (InLive base, base)" for k using l by (simp add: lane_ok_def)
  have x: "n dvd unat x" and f': "\<not> armed store_armed v" using l f by (auto simp: lane_ok_def batch_faults_clear_def)
  obtain v1 where v1: "quiet Z v v1" "store_scalar x n y v = on_alloc (InLive base) (chunk_store (unat (x - base)) n y) v1"
    using store_scalar_eq [OF v n x lane_no_host [OF l] f', of y] res by auto
  have one: "view_ok Z w' \<and> v_fault w' = v_fault u \<and> (\<forall>z. lane_ok n base (v_mm u) z \<longrightarrow> lane_ok n base (v_mm w') z)"
    if u: "view_ok Z u" "v_mm u = v_mm v" "on_alloc (InLive base) (chunk_store (unat (x - base)) n y) u = (r', w')" for u w' r'
    using chunk_store_stored [OF u(1), of x n False "InLive base" base y] res u n x by (auto simp: stored_def lane_ok_def)
  obtain w1 where "on_alloc (InLive base) (chunk_store (unat (x - base)) n y) v1 = (r, w1)" "v_mm w1 = v_mm w"
    using on_alloc_quiet [OF quietD(2) [OF v1(1)] s] by blast
  then show ?thesis using one [OF v refl s] one [of v1 r w1] v1 quietD [OF v1(1)] by auto
qed

lemma store_each_lanes:
  assumes "view_ok Z v" "view_ok Z v1" "v_mm v1 = v_mm v" "v_fault v1 = v_fault v" "scalar_size n" "batch_faults_clear True v"
    and "\<forall>x \<in> fst ` set ls. lane_ok n base (v_mm v) x" "ls \<noteq> [] \<or> alloc_of (InLive base) (v_mm v) \<noteq> None"
  shows "\<exists>r w w1. on_alloc (InLive base) (no_throw (store_batch_in n i (map (\<lambda>(x, y). (unat (x - base), y)) ls))) v = (Inr r, w) \<and> r \<noteq> Declined \<and>
    store_each n i ls v1 = (r, w1) \<and> v_mm w1 = v_mm w \<and> view_ok Z w \<and> view_ok Z w1 \<and> v_fault w = v_fault v \<and> v_fault w1 = v_fault v"
  using assms
proof (induction ls arbitrary: v v1 i)
  case Nil
  then obtain a where a: "alloc_of (InLive base) (v_mm v) = Some a" by auto
  have "on_alloc (InLive base) (no_throw (store_batch_in n i [])) v = on_alloc (InLive base) (\<lambda>st. (Inr Made, st)) v"
    by (rule on_alloc_cong [OF a]) (simp add: no_throw_def)
  then show ?case using Nil on_alloc_id [OF view_okD(1) [OF Nil(1)] a, of Made] by (simp del: store_batch_in.simps)
next
  case (Cons p ls)
  obtain x y where p: "p = (x, y)" by force
  have l: "lane_ok n base (v_mm v) x" using Cons.prems(7) p by simp
  obtain a where a: "alloc_of (InLive base) (v_mm v) = Some a" using lane_at [OF Cons.prems(1,5) l] by blast
  obtain r w where s: "on_alloc (InLive base) (chunk_store (unat (x - base)) n y) v = (r, w)" by force
  obtain wq where s1: "on_alloc (InLive base) (chunk_store (unat (x - base)) n y) v1 = (r, wq)" "v_mm wq = v_mm w"
    using on_alloc_quiet [OF Cons.prems(3) s] by blast
  note st = lane_store [OF Cons.prems(1,5) l Cons.prems(6) s]
  have l1: "lane_ok n base (v_mm v1) x" "batch_faults_clear True v1" using l Cons.prems(3,6) clear_cong [OF Cons.prems(4), of True] by auto
  obtain w1 where w1: "store_scalar x n y v1 = (r, w1)" "v_mm w1 = v_mm w" "view_ok Z w1" "v_fault w1 = v_fault v"
    using lane_store [OF Cons.prems(2,5) l1 s1(1)] s1(2) Cons.prems(4) by auto
  have w: "view_ok Z w" "v_fault w = v_fault v" "\<forall>z. lane_ok n base (v_mm v) z \<longrightarrow> lane_ok n base (v_mm w) z" using st by auto
  have a2: "alloc_of (InLive base) (v_mm w) \<noteq> None" using lane_at [OF w(1) Cons.prems(5)] w(3) l by blast
  note step = on_alloc_lanes_Cons [OF a, of n i "unat (x - base)" y "map (\<lambda>(x, y). (unat (x - base), y)) ls", unfolded s]
  show ?case
  proof (cases r)
    case (Inl e)
    then show ?thesis using step p w w1 by (auto simp del: store_batch_in.simps)
  next
    case (Inr u)
    have "\<exists>r' w' w1'. on_alloc (InLive base) (no_throw (store_batch_in n (i + 1) (map (\<lambda>(x, y). (unat (x - base), y)) ls))) w = (Inr r', w') \<and> r' \<noteq> Declined \<and>
      store_each n (i + 1) ls w1 = (r', w1') \<and> v_mm w1' = v_mm w' \<and> view_ok Z w' \<and> view_ok Z w1' \<and> v_fault w' = v_fault w \<and> v_fault w1' = v_fault w"
      using Cons.prems(5-7) w w1 a2 clear_cong [OF w(2)] by (intro Cons.IH) auto
    then show ?thesis using step p w(2) w1(1) Inr by (auto simp del: store_batch_in.simps)
  qed
qed

lemma store_batch_one_by_one:
  assumes v: "view_ok Z v" and b: "store_batch addrs n vals hint v = (r, w)" and len: "length vals = length addrs"
  shows "\<exists>e hint'. r = Inr (e, hint') \<and> view_ok Z w \<and> v_fault w = v_fault v \<and> (e = Declined \<longrightarrow> v_mm w = v_mm v) \<and>
    (e \<noteq> Declined \<longrightarrow> (\<exists>w1. store_each n 0 (zip addrs vals) v = (e, w1) \<and> v_mm w1 = v_mm w \<and> view_ok Z w1))"
proof -
  obtain q v1 where ok: "batch_ok addrs n True hint v = (q, v1)" by force
  show ?thesis
  proof (cases "addrs = [] \<or> \<not> scalar_size n \<or> \<not> batch_faults_clear True v")
    case True
    then show ?thesis using b v by (auto simp: store_batch_def batch_ok_def)
  next
    case False
    then have n: "scalar_size n" "batch_faults_clear True v" "addrs \<noteq> []" by auto
    have ba: "batch_addresses_ok addrs n hint v = (q, v1)" using ok False by (simp add: batch_ok_def)
    note spec = batch_addresses_ok_spec [OF v n(1) ba]
    have q1: "quiet Z v v1" using spec by blast
    from spec consider hint' where "q = Inr (None, hint')"
      | hint' base where "q = Inr (Some base, hint')" "\<forall>x \<in> set addrs. lane_ok n base (v_mm v) x" by blast
    then show ?thesis
    proof cases
      case 1
      then show ?thesis using b ok q1 quietD [OF q1] by (auto simp: store_batch_def)
    next
      case 2
      have "\<forall>x \<in> fst ` set (zip addrs vals). lane_ok n base (v_mm v1) x" using 2(2) quietD(2) [OF q1] by (auto dest: set_zip_leftD)
      moreover have "zip addrs vals \<noteq> []" using n(3) len by (cases addrs; cases vals) auto
      moreover have "lanes base addrs vals = map (\<lambda>(x, y). (unat (x - base), y)) (zip addrs vals)"
        unfolding lanes_def by (simp add: zip_map1)
      ultimately obtain e w' w1 where "on_alloc (InLive base) (no_throw (store_batch_in n 0 (lanes base addrs vals))) v1 = (Inr e, w')"
        "e \<noteq> Declined" "store_each n 0 (zip addrs vals) v = (e, w1)" "v_mm w1 = v_mm w'" "view_ok Z w'" "view_ok Z w1" "v_fault w' = v_fault v1"
        using store_each_lanes [OF quietD(1) [OF q1] v _ _ n(1), of "zip addrs vals" base 0] quietD [OF q1] clear_cong [OF quietD(3) [OF q1]] n(2) by auto
      then show ?thesis using b ok 2(1) quietD [OF q1] by (auto simp: store_batch_def)
    qed
  qed
qed

end
