(* ===== verification/Runs.thy ===== *)
theory Runs
  imports Batch
begin

text \<open>
  Runs of consecutive bytes, records and read-modify-writes with one lookup (\<^verbatim>\<open>load_run\<close>,
  \<^verbatim>\<open>store_run\<close>, \<^verbatim>\<open>copy_to\<close>, \<^verbatim>\<open>load_quad_run\<close>, \<^verbatim>\<open>store_quad_run\<close>,
  \<^verbatim>\<open>load_fields\<close>, \<^verbatim>\<open>load_texels\<close>, \<^verbatim>\<open>atomic_word_ptrs\<close> and
  \<^verbatim>\<open>rmw_batch_fn\<close> of \<^verbatim>\<open>src/core/memory.cpp\<close>). \<^verbatim>\<open>copy_to\<close> is between two ranges of
  one manager.
\<close>

unbundle bit_operations_syntax

section \<open>Definitions\<close>

subsection \<open>Runs of bytes\<close>

text \<open>
  The bytes of a run, as words: an element at a time up to a multiple of 8 of the host address, whole
  words, and elements again. (No element has no bytes: \<^verbatim>\<open>run_allocation\<close> sees to that.)
\<close>

function run_units :: "(rchunk \<Rightarrow> nat \<Rightarrow> bool) \<Rightarrow> rchunk \<Rightarrow> nat \<Rightarrow> nat \<Rightarrow> nat \<Rightarrow> nat \<Rightarrow> nat \<times> u8 list" where
  "run_units go_on c off i n unit =
     (if i < n \<and> go_on c (off + i) \<and> 0 < unit
      then (case run_units go_on c off (i + unit) n unit of
          (j, d) \<Rightarrow> (j, bytes_of (load_at c (off + i) unit) unit @ d))
      else (i, []))"
  by pat_completeness auto
termination
  by (relation "measure (\<lambda>(go_on, c, off, i, n, unit). n - i)") auto

declare run_units.simps [simp del]

function run_words :: "rchunk \<Rightarrow> nat \<Rightarrow> nat \<Rightarrow> nat \<Rightarrow> nat \<times> u8 list" where
  "run_words c off i n =
     (if i + 8 \<le> n
      then (case run_words c off (i + 8) n of (j, d) \<Rightarrow> (j, bytes_of (relaxed_load (rc_bytes c) (off + i) 8) 8 @ d))
      else (i, []))"
  by pat_completeness auto
termination
  by (relation "measure (\<lambda>(c, off, i, n). n - i)") auto

declare run_words.simps [simp del]

definition unaligned8 :: "rchunk \<Rightarrow> nat \<Rightarrow> bool" where
  "unaligned8 c off \<longleftrightarrow> (rc_ptr c + of_nat off) mod 8 \<noteq> 0"

definition run_out :: "rchunk \<Rightarrow> nat \<Rightarrow> nat \<Rightarrow> nat \<Rightarrow> u8 list" where
  "run_out c off n unit = (case run_units unaligned8 c off 0 n unit of (i, d1) \<Rightarrow>
     (case run_words c off i n of (j, d2) \<Rightarrow>
       (case run_units (\<lambda>_ _. True) c off j n unit of (k, d3) \<Rightarrow> d1 @ d2 @ d3)))"

definition run_one :: "u8 list \<Rightarrow> nat \<Rightarrow> nat \<Rightarrow> nat \<Rightarrow> rchunk \<Rightarrow> rchunk" where
  "run_one s off i sz c = store_at c (off + i) sz (value_of (take sz (drop i s)))"

function run_in_units :: "(rchunk \<Rightarrow> nat \<Rightarrow> bool) \<Rightarrow> u8 list \<Rightarrow> nat \<Rightarrow> nat \<Rightarrow> nat \<Rightarrow> nat \<Rightarrow> rchunk \<Rightarrow> nat \<times> rchunk" where
  "run_in_units go_on s off i n unit c =
     (if i < n \<and> go_on c (off + i) \<and> 0 < unit then run_in_units go_on s off (i + unit) n unit (run_one s off i unit c)
      else (i, c))"
  by pat_completeness auto
termination
  by (relation "measure (\<lambda>(go_on, s, off, i, n, unit, c). n - i)") auto

declare run_in_units.simps [simp del]

function run_in_words :: "u8 list \<Rightarrow> nat \<Rightarrow> nat \<Rightarrow> nat \<Rightarrow> rchunk \<Rightarrow> nat \<times> rchunk" where
  "run_in_words s off i n c = (if i + 8 \<le> n then run_in_words s off (i + 8) n (run_one s off i 8 c) else (i, c))"
  by pat_completeness auto
termination
  by (relation "measure (\<lambda>(s, off, i, n, c). n - i)") auto

declare run_in_words.simps [simp del]

definition run_in :: "u8 list \<Rightarrow> nat \<Rightarrow> nat \<Rightarrow> rchunk \<Rightarrow> rchunk" where
  "run_in s off unit c = (let n = length s in
     case run_in_units unaligned8 s off 0 n unit c of (i, c) \<Rightarrow>
       (case run_in_words s off i n c of (j, c) \<Rightarrow> snd (run_in_units (\<lambda>_ _. True) s off j n unit c)))"

definition run_allocation :: "u64 \<Rightarrow> u64 \<Rightarrow> nat \<Rightarrow> u8 option \<Rightarrow> view \<Rightarrow> (u64 option \<times> u8 option, view) outcome" where
  "run_allocation addr len unit hint v =
     (if \<not> scalar_size unit \<or> access_faults_armed v \<or> (addr OR len) AND (of_nat unit - 1) \<noteq> 0 \<or> may_contain (hosts (v_mm v)) addr
      then (Inr (None, hint), v)
      else then_do (in_thread (find_ordinary addr len hint) v) (\<lambda>(r, hint) v. case r of
        Some base \<Rightarrow> (Inr (Some base, hint), v)
      | None \<Rightarrow> (case om_floor (live (v_mm v)) addr of
          None \<Rightarrow> (Inr (None, hint), v)
        | Some (base, a) \<Rightarrow>
            if addr - base \<ge> al_size a \<or> len > al_size a - (addr - base) \<or> card_valid a \<noteq> 0 then (Inr (None, hint), v)
            else (Inr (Some base, hint), v))))"

function run_load :: "allocation \<Rightarrow> nat \<Rightarrow> nat \<Rightarrow> nat \<Rightarrow> u8 list result" where
  "run_load a off len unit =
     (if len = 0 then Inr []
      else let n = min len (kChunkSize - off mod kChunkSize) in
        case slot_at a (off div kChunkSize) of
          Inl e \<Rightarrow> Inl e
        | Inr chunk \<Rightarrow> (case run_load a (off + n) (len - n) unit of
            Inl e \<Rightarrow> Inl e
          | Inr ds \<Rightarrow> Inr ((case chunk of
                Untouched \<Rightarrow> replicate n 0
              | Uniform u \<Rightarrow> replicate n u
              | Real c \<Rightarrow> run_out c (off mod kChunkSize) n unit) @ ds)))"
  by pat_completeness auto
termination
  by (relation "measure (\<lambda>(a, off, len, unit). len)") auto

declare run_load.simps [simp del]

definition load_run :: "u64 \<Rightarrow> u64 \<Rightarrow> nat \<Rightarrow> u8 option \<Rightarrow> view \<Rightarrow> (u8 list option \<times> u8 option, view) outcome" where
  "load_run addr len unit hint v =
     (if len = 0 then (Inr (Some [], hint), v)
      else then_do (run_allocation addr len unit hint v) (\<lambda>(r, hint) v. case r of
        None \<Rightarrow> (Inr (None, hint), v)
      | Some base \<Rightarrow> (case om_find (live (v_mm v)) base of
          None \<Rightarrow> (Inl Stray, v)
        | Some a \<Rightarrow> (case run_load a (unat (addr - base)) (unat len) unit of
            Inl e \<Rightarrow> (Inl e, v)
          | Inr d \<Rightarrow> (Inr (Some d, hint), v)))))"

function run_store :: "nat \<Rightarrow> nat \<Rightarrow> u8 list \<Rightarrow> allocation \<times> bstate \<Rightarrow> (unit, allocation \<times> bstate) outcome" where
  "run_store unit off s st =
     (if s = [] then (Inr (), st)
      else let n = min (length s) (kChunkSize - off mod kChunkSize); idx = off div kChunkSize in
        case slot_at (fst st) idx of
          Inl e \<Rightarrow> (Inl e, st)
        | Inr chunk \<Rightarrow>
            if (case chunk of Uniform u \<Rightarrow> all_bytes s n u | _ \<Rightarrow> False) then run_store unit (off + n) (drop n s) st
            else then_do (materialize acquire idx st) (\<lambda>c st'.
              run_store unit (off + n) (drop n s)
                (set_slot idx (Real (run_in (take n s) (off mod kChunkSize) unit c)) (fst st'), snd st')))"
  by pat_completeness auto
termination
  by (relation "measure (\<lambda>(unit, off, s, st). length s)") auto

declare run_store.simps [simp del]

definition store_run :: "u64 \<Rightarrow> u8 list \<Rightarrow> nat \<Rightarrow> u8 option \<Rightarrow> view \<Rightarrow> (bool \<times> u8 option, view) outcome" where
  "store_run addr s unit hint v =
     (if s = [] then (Inr (True, hint), v)
      else then_do (run_allocation addr (of_nat (length s)) unit hint v) (\<lambda>(r, hint) v. case r of
        None \<Rightarrow> (Inr (False, hint), v)
      | Some base \<Rightarrow> then_do (on_alloc (InLive base) (run_store unit (unat (addr - base)) s) v) (\<lambda>_ v. (Inr (True, hint), v))))"

subsection \<open>Copies\<close>

function copy_loop :: "u64 \<Rightarrow> u64 \<Rightarrow> nat \<Rightarrow> nat \<Rightarrow> nat \<Rightarrow> view \<Rightarrow> (unit, view) outcome" where
  "copy_loop sbase dbase soff doff len v =
     (if len = 0 then (Inr (), v)
      else let n = min len (min (kChunkSize - soff mod kChunkSize) (kChunkSize - doff mod kChunkSize)) in
        case om_find (live (v_mm v)) sbase of
          None \<Rightarrow> (Inl Stray, v)
        | Some sa \<Rightarrow> (case slot_at sa (soff div kChunkSize) of
            Inl e \<Rightarrow> (Inl e, v)
          | Inr sc \<Rightarrow> then_do
              (on_alloc (InLive dbase) (write_piece acquire (doff div kChunkSize) (doff mod kChunkSize)
                 (chunk_bytes sc (soff mod kChunkSize) n)) v)
              (\<lambda>_ v. copy_loop sbase dbase (soff + n) (doff + n) (len - n) v)))"
  by pat_completeness auto
termination
  by (relation "measure (\<lambda>(sbase, dbase, soff, doff, len, v). len)") auto

declare copy_loop.simps [simp del]

definition host_in_reach :: "u64 \<Rightarrow> u64 \<Rightarrow> view \<Rightarrow> bool" where
  "host_in_reach addr len v \<longleftrightarrow> may_contain (hosts (v_mm v)) addr \<or> may_contain (hosts (v_mm v)) (addr + len - 1)"

definition copy_to :: "u64 \<Rightarrow> u64 \<Rightarrow> u64 \<Rightarrow> view \<Rightarrow> (bool, view) outcome" where
  "copy_to dst src len v =
     (if len = 0 then (Inr True, v)
      else if armed copy_armed v \<or> host_in_reach src len v \<or> host_in_reach dst len v then (Inr False, v)
      else then_do (run_allocation src len 1 None v) (\<lambda>(sr, _) v. then_do (run_allocation dst len 1 None v) (\<lambda>(dr, _) v.
        case (sr, dr) of
          (Some sbase, Some dbase) \<Rightarrow> (case (om_find (live (v_mm v)) sbase, om_find (live (v_mm v)) dbase) of
              (Some sa, Some da) \<Rightarrow>
                if external sa \<or> external da then (Inr False, v)
                else if sbase = dbase \<and> src < dst + len \<and> dst < src + len then (Inr False, v)
                else then_do (copy_loop sbase dbase (unat (src - sbase)) (unat (dst - dbase)) (unat len) v) (\<lambda>_ v. (Inr True, v))
            | _ \<Rightarrow> (Inl Stray, v))
        | _ \<Rightarrow> (Inr False, v))))"

subsection \<open>Runs of sixteen bytes\<close>

definition quad_at :: "u64 \<Rightarrow> u64 \<Rightarrow> nat \<Rightarrow> nat" where
  "quad_at addr base i = unat (addr + 16 * of_nat i - base)"

definition load_quad_run :: "bool \<Rightarrow> u64 \<Rightarrow> nat \<Rightarrow> view \<Rightarrow> ((u64 \<times> u64) list option, view) outcome" where
  "load_quad_run one addr n v =
     (if n = 0 \<or> addr mod 16 \<noteq> 0 \<or> may_contain (hosts (v_mm v)) (addr + 16 * (of_nat n - 1)) then (Inr None, v)
      else then_do (run_allocation addr (16 * of_nat n) 8 None v) (\<lambda>(r, _) v. case r of
        None \<Rightarrow> (Inr None, v)
      | Some base \<Rightarrow>
          if may_contain (hosts (v_mm v)) addr then (Inr None, v)
          else (case om_find (live (v_mm v)) base of
              None \<Rightarrow> (Inl Stray, v)
            | Some a \<Rightarrow> (case each (\<lambda>i. case slot_at a (quad_at addr base i div kChunkSize) of
                  Inl e \<Rightarrow> Inl e
                | Inr chunk \<Rightarrow> Inr (quad_load one chunk (quad_at addr base i mod kChunkSize))) [0 ..< n] of
                Inl e \<Rightarrow> (Inl e, v)
              | Inr out \<Rightarrow> (Inr (Some out), v)))))"

fun quad_stores :: "bool \<Rightarrow> u64 \<Rightarrow> u64 \<Rightarrow> nat \<Rightarrow> (u64 \<times> u64) list \<Rightarrow> allocation \<times> bstate \<Rightarrow> (unit, allocation \<times> bstate) outcome" where
  "quad_stores one addr base i [] st = (Inr (), st)"
| "quad_stores one addr base i (q # qs) st = then_do (quad_store one (quad_at addr base i) q st)
     (\<lambda>_ st'. quad_stores one addr base (i + 1) qs st')"

definition store_quad_run :: "bool \<Rightarrow> u64 \<Rightarrow> (u64 \<times> u64) list \<Rightarrow> view \<Rightarrow> (bool, view) outcome" where
  "store_quad_run one addr qs v =
     (if qs = [] \<or> addr mod 16 \<noteq> 0 \<or> may_contain (hosts (v_mm v)) (addr + 16 * (of_nat (length qs) - 1)) then (Inr False, v)
      else then_do (run_allocation addr (16 * of_nat (length qs)) 8 None v) (\<lambda>(r, _) v. case r of
        None \<Rightarrow> (Inr False, v)
      | Some base \<Rightarrow>
          if may_contain (hosts (v_mm v)) addr then (Inr False, v)
          else then_do (on_alloc (InLive base) (quad_stores one addr base 0 qs) v) (\<lambda>_ v. (Inr True, v))))"

subsection \<open>Records\<close>

text \<open>The first loop of \<^verbatim>\<open>load_fields\<close>: the size of the record, or that a field cannot be read here.\<close>

fun fields_total :: "host_maps \<Rightarrow> u64 \<Rightarrow> u64 \<Rightarrow> nat list \<Rightarrow> u64 option" where
  "fields_total h addr tot [] = Some tot"
| "fields_total h addr tot (sz # szs) =
     (if sz = 0 then fields_total h addr tot szs
      else if \<not> scalar_size sz \<or> (addr + tot) AND (of_nat sz - 1) \<noteq> 0 \<or> may_contain h (addr + tot) then None
      else fields_total h addr (tot + of_nat sz) szs)"

fun fields_load :: "u64 \<Rightarrow> nat \<Rightarrow> nat list \<Rightarrow> view \<Rightarrow> u64 list result" where
  "fields_load base off [] v = Inr []"
| "fields_load base off (sz # szs) v =
     (if sz = 0 then (case fields_load base off szs v of Inl e \<Rightarrow> Inl e | Inr ys \<Rightarrow> Inr (0 # ys))
      else (case load_word (InLive base) off sz v of
          Inl e \<Rightarrow> Inl e
        | Inr y \<Rightarrow> (case fields_load base (off + sz) szs v of Inl e \<Rightarrow> Inl e | Inr ys \<Rightarrow> Inr (y # ys))))"

definition load_fields :: "u64 \<Rightarrow> nat list \<Rightarrow> view \<Rightarrow> (u64 list option, view) outcome" where
  "load_fields addr szs v = (case fields_total (hosts (v_mm v)) addr 0 szs of
     None \<Rightarrow> (Inr None, v)
   | Some tot \<Rightarrow>
       if tot = 0 then (Inr (Some (replicate (length szs) 0)), v)
       else if access_faults_armed v then (Inr None, v)
       else then_do (in_thread (find_ordinary addr tot None) v) (\<lambda>(r, _) v. case r of
         None \<Rightarrow> (Inr None, v)
       | Some base \<Rightarrow> (case fields_load base (unat (addr - base)) szs v of
           Inl e \<Rightarrow> (Inl e, v)
         | Inr out \<Rightarrow> (Inr (Some out), v))))"

definition load_texels :: "u64 list \<Rightarrow> nat \<Rightarrow> nat \<Rightarrow> view \<Rightarrow> (u64 list option, view) outcome" where
  "load_texels addrs sz channels v =
     (let tot = of_nat sz * of_nat channels; lo = fold min addrs (hd addrs); hi = fold max addrs (hd addrs) in
      if all_bits addrs AND (of_nat sz - 1) \<noteq> 0 \<or> may_overlap (hosts (v_mm v)) lo (hi + tot - 1) \<or> access_faults_armed v then (Inr None, v)
      else then_do (in_thread (find_ordinary lo (hi - lo + tot) None) v) (\<lambda>(r, _) v. case r of
        None \<Rightarrow> (Inr None, v)
      | Some base \<Rightarrow> (case each (\<lambda>(addr, c). load_word (InLive base) (unat (addr - base + of_nat c * of_nat sz)) sz v)
            (List.product addrs [0 ..< channels]) of
          Inl e \<Rightarrow> (Inl e, v)
        | Inr out \<Rightarrow> (Inr (Some out), v))))"

subsection \<open>Many read-modify-writes\<close>

definition atomic_word_ptrs :: "u64 list \<Rightarrow> nat \<Rightarrow> view \<Rightarrow> (nat option list option, view) outcome" where
  "atomic_word_ptrs addrs sz v =
     (if addrs = [] \<or> sz \<noteq> 4 \<and> sz \<noteq> 8 \<or> access_faults_armed v then (Inr None, v)
      else then_do (batch_ok addrs sz True None v) (\<lambda>(r, _) v. case r of
        None \<Rightarrow> (Inr None, v)
      | Some base \<Rightarrow> (case om_find (live (v_mm v)) base of
          None \<Rightarrow> (Inl Stray, v)
        | Some a \<Rightarrow> (case each (\<lambda>addr. case slot_at a (unat (addr - base) div kChunkSize) of
              Inl e \<Rightarrow> Inl e
            | Inr (Real c) \<Rightarrow> Inr (Some (unat (addr - base)))
            | Inr _ \<Rightarrow> Inr None) addrs of
            Inl e \<Rightarrow> (Inl e, v)
          | Inr out \<Rightarrow> (Inr (Some out), v)))))"

definition lane_slot :: "u64 \<Rightarrow> u64 \<Rightarrow> view \<Rightarrow> rmw_slot result" where
  "lane_slot base addr v = (let off = unat (addr - base) in case alloc_of (InLive base) (v_mm v) of
     None \<Rightarrow> Inl Stray
   | Some a \<Rightarrow> (case slot_at a (off div kChunkSize) of
       Inl e \<Rightarrow> Inl e
     | Inr chunk \<Rightarrow> Inr \<lparr>rs_base = base, rs_off = off, rs_chunk = chunk\<rparr>))"

text \<open>One lane, plain or lock-free: what it loaded.\<close>

definition rmw_lane :: "u64 \<Rightarrow> nat \<Rightarrow> (u64 \<Rightarrow> u64 result) \<Rightarrow> bool \<Rightarrow> bool \<Rightarrow> (u64 \<times> bool) list \<Rightarrow> u64 \<Rightarrow> view \<Rightarrow> (u64, view) outcome" where
  "rmw_lane base sz compute lock_free always_store others addr v = (case lane_slot base addr v of
     Inl e \<Rightarrow> (Inl e, v)
   | Inr s \<Rightarrow>
       if lock_free then atomic_rmw_slot s sz compute always_store others v
       else (let old = rmw_load s sz in case compute old of
           Inl e \<Rightarrow> (Inl e, v)
         | Inr new \<Rightarrow>
             if new \<noteq> old \<or> always_store then then_do (rmw_store s sz new v) (\<lambda>_ v. (Inr old, v))
             else (Inr old, v)))"

text \<open>The lanes in order, with what other threads do during each: what was loaded, up to a lane that throws.\<close>

fun rmw_lanes :: "u64 \<Rightarrow> nat \<Rightarrow> (nat \<Rightarrow> u64 \<Rightarrow> u64 result) \<Rightarrow> bool \<Rightarrow> bool \<Rightarrow> nat \<Rightarrow> (u64 \<times> (u64 \<times> bool) list) list \<Rightarrow> view
    \<Rightarrow> (batch_end \<times> u64 list) \<times> view" where
  "rmw_lanes base sz compute lock_free always_store i [] v = ((Made, []), v)"
| "rmw_lanes base sz compute lock_free always_store i ((addr, others) # ls) v =
     (case rmw_lane base sz (compute i) lock_free always_store others addr v of
        (Inl e, v) \<Rightarrow> ((Threw e i, []), v)
      | (Inr old, v) \<Rightarrow> (case rmw_lanes base sz compute lock_free always_store (i + 1) ls v of
          ((r, olds), v) \<Rightarrow> ((r, old # olds), v)))"

definition rmw_batch_fn :: "(u64 \<times> (u64 \<times> bool) list) list \<Rightarrow> nat \<Rightarrow> (nat \<Rightarrow> u64 \<Rightarrow> u64 result) \<Rightarrow> bool \<Rightarrow> bool \<Rightarrow> view
    \<Rightarrow> (batch_end \<times> u64 list, view) outcome" where
  "rmw_batch_fn ls sz compute lock_free always_store v =
     (if ls = [] then (Inr (Made, []), v)
      else if lock_free \<and> sz \<noteq> 4 \<and> sz \<noteq> 8 \<or> access_faults_armed v then (Inr (Declined, []), v)
      else then_do (batch_ok (map fst ls) sz True None v) (\<lambda>(r, _) v. case r of
        None \<Rightarrow> (Inr (Declined, []), v)
      | Some base \<Rightarrow> no_throw (rmw_lanes base sz compute lock_free always_store 0 ls) v))"

section \<open>A run is its bytes\<close>

lemma load_at_bytes: "scalar_size n \<Longrightarrow> bytes_of (load_at c p n) n = map (rc_bytes c) [p ..< p + n]"
  using bytes_of_value_of [of "map (rc_bytes c) [p ..< p + n]"] by (auto simp: load_at_val scalar_size_def)

lemma relaxed_bytes: "bytes_of (relaxed_load (rc_bytes c) p 8) 8 = map (rc_bytes c) [p ..< p + 8]"
  using bytes_of_value_of [of "map (rc_bytes c) [p ..< p + 8]"] by (simp add: relaxed_load_val)

lemma map_upt_append: "i \<le> j \<Longrightarrow> j \<le> k \<Longrightarrow> map f [i ..< j] @ map f [j ..< k] = map f [i ..< k]"
  by (metis le_Suc_ex map_append upt_add_eq_append)

lemma run_units_val:
  assumes u: "scalar_size unit" and "i \<le> n" "unit dvd n - i" "run_units go_on c off i n unit = (j, d)"
  shows "i \<le> j \<and> j \<le> n \<and> unit dvd n - j \<and> d = map (rc_bytes c) [off + i ..< off + j] \<and> (j = n \<or> \<not> go_on c (off + j))"
  using assms(2-4)
proof (induction "n - i" arbitrary: i d rule: less_induct)
  case less
  show ?case
  proof (cases "i < n \<and> go_on c (off + i)")
    case False
    then show ?thesis using less.prems run_units.simps [of go_on c off i n unit] by auto
  next
    case True
    have pos: "0 < unit" using u by (rule scalar_dvd(3))
    have le: "i + unit \<le> n" using dvd_imp_le [OF less.prems(2)] True by linarith
    have "unit dvd n - (i + unit)" using less.prems(2) by (metis dvd_diff_nat diff_diff_left dvd_refl)
    obtain d' where d': "run_units go_on c off (i + unit) n unit = (j, d')" "d = bytes_of (load_at c (off + i) unit) unit @ d'"
      using less.prems(3) True pos run_units.simps [of go_on c off i n unit] by (auto split: prod.splits)
    have "i + unit \<le> j \<and> j \<le> n \<and> unit dvd n - j \<and> d' = map (rc_bytes c) [off + (i + unit) ..< off + j] \<and> (j = n \<or> \<not> go_on c (off + j))"
      by (rule less.hyps [OF _ le \<open>unit dvd n - (i + unit)\<close> d'(1)]) (use True pos le in linarith)
    then show ?thesis using d'(2) load_at_bytes [OF u, of c "off + i"] map_upt_append [of "off + i" "off + (i + unit)" "off + j" "rc_bytes c"]
      by (auto simp: add.assoc)
  qed
qed

lemma run_words_val:
  assumes "i \<le> n" "run_words c off i n = (j, d)"
  shows "i \<le> j \<and> j \<le> n \<and> n - j < 8 \<and> 8 dvd j - i \<and> d = map (rc_bytes c) [off + i ..< off + j]"
  using assms
proof (induction "n - i" arbitrary: i d rule: less_induct)
  case less
  show ?case
  proof (cases "i + 8 \<le> n")
    case False
    then show ?thesis using less.prems run_words.simps [of c off i n] by auto
  next
    case True
    obtain d' where d': "run_words c off (i + 8) n = (j, d')" "d = bytes_of (relaxed_load (rc_bytes c) (off + i) 8) 8 @ d'"
      using less.prems(2) True run_words.simps [of c off i n] by (auto split: prod.splits)
    have *: "i + 8 \<le> j \<and> j \<le> n \<and> n - j < 8 \<and> 8 dvd j - (i + 8) \<and> d' = map (rc_bytes c) [off + (i + 8) ..< off + j]"
      by (rule less.hyps [OF _ True d'(1)]) (use True in linarith)
    then have "8 dvd (j - (i + 8)) + 8" "j - i = (j - (i + 8)) + 8" by (intro dvd_add, simp_all)
    then have "8 dvd j - i" by (simp only:)
    then show ?thesis using * d'(2) relaxed_bytes [of c "off + i"] map_upt_append [of "off + i" "off + (i + 8)" "off + j" "rc_bytes c"]
      by (auto simp: add.assoc)
  qed
qed

lemma run_out_val:
  assumes u: "scalar_size unit" and n: "unit dvd n"
  shows "run_out c off n unit = map (rc_bytes c) [off ..< off + n]"
proof -
  obtain i d1 where a: "run_units unaligned8 c off 0 n unit = (i, d1)" by force
  obtain j d2 where b: "run_words c off i n = (j, d2)" by force
  obtain k d3 where c: "run_units (\<lambda>_ _. True) c off j n unit = (k, d3)" by force
  have 1: "i \<le> n" "unit dvd n - i" "d1 = map (rc_bytes c) [off ..< off + i]" using run_units_val [OF u _ _ a] n by auto
  have 2: "i \<le> j" "j \<le> n" "8 dvd j - i" "d2 = map (rc_bytes c) [off + i ..< off + j]" using run_words_val [OF 1(1) b] by auto
  have "unit dvd 8" using u by (auto simp: scalar_size_def)
  then have "unit dvd (n - i) - (j - i)" using 1(2) 2(3) by (meson dvd_diff_nat dvd_trans)
  then have "unit dvd n - j" using 2 by simp
  then have 3: "k = n" "d3 = map (rc_bytes c) [off + j ..< off + n]" using run_units_val [OF u 2(2) _ c] by auto
  show ?thesis
    using a b c 1 2 3 map_upt_append [of "off + i" "off + j" "off + n" "rc_bytes c"] map_upt_append [of off "off + i" "off + n" "rc_bytes c"]
    by (simp add: run_out_def)
qed

lemma piece_dvd:
  assumes "scalar_size unit" "unit dvd off" "unit dvd len"
  shows "unit dvd min len (kChunkSize - off mod kChunkSize)"
proof -
  have "unit dvd kChunkSize" using assms(1) by (auto simp: scalar_size_def kChunkSize_def)
  then show ?thesis using assms by (simp add: min_def dvd_diff_nat dvd_mod)
qed

lemma run_load_eq:
  assumes u: "scalar_size unit"
  shows "unit dvd off \<Longrightarrow> unit dvd len \<Longrightarrow> run_load a off len unit = read_chunks a off len"
proof (induction a off len rule: read_chunks.induct)
  case (1 a off len)
  show ?case
  proof (cases "len = 0")
    case True
    then show ?thesis by (simp add: run_load.simps read_chunks.simps)
  next
    case False
    define n where "n = min len (kChunkSize - off mod kChunkSize)"
    have n: "unit dvd n" "n \<le> len" unfolding n_def using piece_dvd [OF u 1(2,3)] by simp_all
    note step = run_load.simps [of a off len unit, unfolded Let_def, folded n_def] read_chunks.simps [of a off len, unfolded Let_def, folded n_def]
    show ?thesis
    proof (cases "slot_at a (off div kChunkSize)")
      case (Inl e)
      then show ?thesis using False by (simp add: step)
    next
      case (Inr chunk)
      have rec: "run_load a (off + n) (len - n) unit = read_chunks a (off + n) (len - n)"
        by (rule 1(1) [OF False refl refl n_def Inr]) (use n 1(2,3) in \<open>simp_all add: dvd_diff_nat\<close>)
      have "(case chunk of Untouched \<Rightarrow> replicate n 0 | Uniform u \<Rightarrow> replicate n u | Real c \<Rightarrow> run_out c (off mod kChunkSize) n unit) =
          chunk_bytes chunk (off mod kChunkSize) n"
        using run_out_val [OF u n(1)] by (cases chunk) simp_all
      then show ?thesis using False Inr rec by (cases "read_chunks a (off + n) (len - n)") (simp_all add: step)
    qed
  qed
qed

lemma run_one_copy:
  assumes "scalar_size n" "i + n \<le> length s"
  shows "run_one s off i n c = c\<lparr>rc_bytes := copy_in (rc_bytes c) (off + i) (take n (drop i s))\<rparr>"
proof -
  have "bytes_of (value_of (take n (drop i s))) n = take n (drop i s)"
    using bytes_of_value_of [of "take n (drop i s)"] assms by (auto simp: scalar_size_def)
  then show ?thesis using store_at_copy [OF assms(1)] by (simp add: run_one_def)
qed

lemma run_step:
  assumes "i + n \<le> j" "j \<le> length s" "c' = c\<lparr>rc_bytes := copy_in (rc_bytes c) (off + i) (take n (drop i s))\<rparr>"
  shows "c'\<lparr>rc_bytes := copy_in (rc_bytes c') (off + (i + n)) (take (j - (i + n)) (drop (i + n) s))\<rparr> =
    c\<lparr>rc_bytes := copy_in (rc_bytes c) (off + i) (take (j - i) (drop i s))\<rparr>"
proof -
  have "take n (drop i s) @ take (j - (i + n)) (drop (i + n) s) = take (j - i) (drop i s)"
    using assms(1) by (metis add.commute diff_diff_left drop_drop le_add_diff_inverse le_diff_conv2 add_leD1 take_add)
  moreover have "length (take n (drop i s)) = n" using assms(1,2) by simp
  ultimately show ?thesis using copy_in_append [of "rc_bytes c" "off + i" "take n (drop i s)" "take (j - (i + n)) (drop (i + n) s)"]
    by (simp add: assms(3) add.assoc)
qed

lemma run_in_units_val:
  assumes u: "scalar_size unit" and "i \<le> n" "unit dvd n - i" "n = length s" "run_in_units go_on s off i n unit c = (j, c')"
  shows "i \<le> j \<and> j \<le> n \<and> unit dvd n - j \<and> c' = c\<lparr>rc_bytes := copy_in (rc_bytes c) (off + i) (take (j - i) (drop i s))\<rparr> \<and>
    (j = n \<or> \<not> go_on c' (off + j))"
  using assms(2-5)
proof (induction "n - i" arbitrary: i c rule: less_induct)
  case less
  note step = run_in_units.simps [of go_on s off i n unit c]
  show ?case
  proof (cases "i < n \<and> go_on c (off + i)")
    case False
    then show ?thesis using less.prems step by auto
  next
    case True
    have pos: "0 < unit" using u by (rule scalar_dvd(3))
    have le: "i + unit \<le> n" using dvd_imp_le [OF less.prems(2)] True by linarith
    have dv: "unit dvd n - (i + unit)" using less.prems(2) by (metis dvd_diff_nat diff_diff_left dvd_refl)
    define c1 where "c1 = run_one s off i unit c"
    have c1: "c1 = c\<lparr>rc_bytes := copy_in (rc_bytes c) (off + i) (take unit (drop i s))\<rparr>"
      unfolding c1_def by (rule run_one_copy [OF u]) (use le less.prems(3) in simp)
    have r: "run_in_units go_on s off (i + unit) n unit c1 = (j, c')" using less.prems(4) True pos step by (simp add: c1_def)
    have *: "i + unit \<le> j \<and> j \<le> n \<and> unit dvd n - j \<and> c' = c1\<lparr>rc_bytes := copy_in (rc_bytes c1) (off + (i + unit)) (take (j - (i + unit)) (drop (i + unit) s))\<rparr> \<and>
        (j = n \<or> \<not> go_on c' (off + j))"
      by (rule less.hyps [OF _ le dv less.prems(3) r]) (use True pos le in linarith)
    then show ?thesis using run_step [of i unit j s c1 c off] c1 less.prems(3) by auto
  qed
qed

lemma run_in_words_val:
  assumes "i \<le> n" "n = length s" "run_in_words s off i n c = (j, c')"
  shows "i \<le> j \<and> j \<le> n \<and> n - j < 8 \<and> 8 dvd j - i \<and> c' = c\<lparr>rc_bytes := copy_in (rc_bytes c) (off + i) (take (j - i) (drop i s))\<rparr>"
  using assms
proof (induction "n - i" arbitrary: i c rule: less_induct)
  case less
  note step = run_in_words.simps [of s off i n c]
  show ?case
  proof (cases "i + 8 \<le> n")
    case False
    then show ?thesis using less.prems step by auto
  next
    case True
    define c1 where "c1 = run_one s off i 8 c"
    have c1: "c1 = c\<lparr>rc_bytes := copy_in (rc_bytes c) (off + i) (take 8 (drop i s))\<rparr>"
      unfolding c1_def by (rule run_one_copy) (use True less.prems(2) in \<open>simp_all add: scalar_size_def\<close>)
    have r: "run_in_words s off (i + 8) n c1 = (j, c')" using less.prems(3) True step by (simp add: c1_def)
    have *: "i + 8 \<le> j \<and> j \<le> n \<and> n - j < 8 \<and> 8 dvd j - (i + 8) \<and> c' = c1\<lparr>rc_bytes := copy_in (rc_bytes c1) (off + (i + 8)) (take (j - (i + 8)) (drop (i + 8) s))\<rparr>"
      by (rule less.hyps [OF _ True less.prems(2) r]) (use True in linarith)
    then have "8 dvd (j - (i + 8)) + 8" "j - i = (j - (i + 8)) + 8" by (intro dvd_add, simp_all)
    then have "8 dvd j - i" by (simp only:)
    then show ?thesis using * run_step [of i 8 j s c1 c off] c1 less.prems(2) by auto
  qed
qed

lemma run_in_val:
  assumes u: "scalar_size unit" and n: "unit dvd length s"
  shows "run_in s off unit c = c\<lparr>rc_bytes := copy_in (rc_bytes c) off s\<rparr>"
proof -
  let ?n = "length s"
  obtain i c1 where a: "run_in_units unaligned8 s off 0 ?n unit c = (i, c1)" by force
  obtain j c2 where b: "run_in_words s off i ?n c1 = (j, c2)" by force
  obtain k c3 where d: "run_in_units (\<lambda>_ _. True) s off j ?n unit c2 = (k, c3)" by force
  have 1: "i \<le> ?n" "unit dvd ?n - i" "c1 = c\<lparr>rc_bytes := copy_in (rc_bytes c) (off + 0) (take i (drop 0 s))\<rparr>"
    using run_in_units_val [OF u _ _ refl a] n by auto
  have 2: "i \<le> j" "j \<le> ?n" "8 dvd j - i" "c2 = c1\<lparr>rc_bytes := copy_in (rc_bytes c1) (off + i) (take (j - i) (drop i s))\<rparr>"
    using run_in_words_val [OF 1(1) refl b] by auto
  have "unit dvd 8" using u by (auto simp: scalar_size_def)
  then have "unit dvd (?n - i) - (j - i)" using 1(2) 2(3) by (meson dvd_diff_nat dvd_trans)
  then have "unit dvd ?n - j" using 2 by simp
  then have 3: "k = ?n" "c3 = c2\<lparr>rc_bytes := copy_in (rc_bytes c2) (off + j) (take (?n - j) (drop j s))\<rparr>"
    using run_in_units_val [OF u 2(2) _ refl d] by auto
  have "c2 = c\<lparr>rc_bytes := copy_in (rc_bytes c) (off + 0) (take j (drop 0 s))\<rparr>"
    using run_step [of 0 i j s c1 c off] 1(3) 2 by simp
  from run_step [of 0 j ?n s c2 c off] this 2 3 show ?thesis using a b d by (simp add: run_in_def Let_def)
qed

lemma run_store_eq:
  assumes u: "scalar_size unit"
  shows "unit dvd off \<Longrightarrow> unit dvd length s \<Longrightarrow> run_store unit off s st = write_chunks acquire off s st"
proof (induction "length s" arbitrary: off s st rule: less_induct)
  case less
  show ?case
  proof (cases "s = []")
    case True
    then show ?thesis by (simp add: run_store.simps write_chunks.simps)
  next
    case False
    define n where "n = min (length s) (kChunkSize - off mod kChunkSize)"
    have n: "unit dvd n" "n \<le> length s" "0 < n" unfolding n_def using piece_dvd [OF u less.prems] False by simp_all
    note step = run_store.simps [of unit off s st, unfolded Let_def, folded n_def] write_chunks.simps [of acquire off s st, unfolded Let_def, folded n_def]
    have rec: "run_store unit (off + n) (drop n s) st' = write_chunks acquire (off + n) (drop n s) st'" for st'
      by (rule less.hyps) (use n less.prems in \<open>simp_all add: dvd_diff_nat\<close>)
    have one: "run_in (take n s) (off mod kChunkSize) unit c = c\<lparr>rc_bytes := copy_in (rc_bytes c) (off mod kChunkSize) (take n s)\<rparr>" for c
      by (rule run_in_val [OF u]) (use n in \<open>simp add: min_absorb2\<close>)
    have all: "all_bytes s n u = all_bytes (take n s) (length (take n s)) u" for u using n(2) by (simp add: all_bytes_def)
    show ?thesis
    proof (cases "slot_at (fst st) (off div kChunkSize)")
      case (Inl e)
      then show ?thesis using False by (simp add: step write_piece_def)
    next
      case (Inr chunk)
      obtain q st' where m: "materialize acquire (off div kChunkSize) st = (q, st')" by (metis surj_pair)
      show ?thesis using False Inr m rec one all by (cases q) (auto simp: step write_piece_def split: chunk.splits)
    qed
  qed
qed

section \<open>Runs in an allocation\<close>

lemma run_allocation_spec:
  assumes v: "view_ok Z v" and r: "run_allocation addr len unit hint v = (r, v')"
  shows "quiet Z v v' \<and> (\<exists>hint'. r = Inr (None, hint') \<or> (\<exists>base a. r = Inr (Some base, hint') \<and> table_find addr len (v_mm v) = Some base \<and>
    om_find (live (v_mm v)) base = Some a \<and> scalar_size unit \<and> unit dvd unat addr \<and> unit dvd unat len \<and> \<not> access_faults_armed v \<and>
    \<not> may_contain (hosts (v_mm v)) addr))"
proof -
  define pre where "pre \<longleftrightarrow> \<not> scalar_size unit \<or> access_faults_armed v \<or> (addr OR len) AND (of_nat unit - 1) \<noteq> 0 \<or> may_contain (hosts (v_mm v)) addr"
  show ?thesis
  proof (cases pre)
    case True
    then show ?thesis using r quiet_refl [OF v] unfolding run_allocation_def pre_def by auto
  next
    case False
    then have u: "scalar_size unit" "(addr OR len) AND (of_nat unit - 1) = 0" "\<not> access_faults_armed v" "\<not> may_contain (hosts (v_mm v)) addr"
      by (simp_all add: pre_def)
    have "addr AND (of_nat unit - 1) = 0" "len AND (of_nat unit - 1) = 0" using u(2) by (simp_all add: bit.conj_disj_distrib2 or_eq_0_iff)
    then have dv: "unit dvd unat addr" "unit dvd unat len" by (simp_all only: mask_dvd [OF u(1)])
    obtain q v1 where f: "in_thread (find_ordinary addr len hint) v = (q, v1)" by force
    note head = run_allocation_def [of addr len unit hint v, folded pre_def, unfolded if_not_P [OF False] f]
    from v f show ?thesis
    proof (cases rule: in_thread_found)
      case (2 hint' base a)
      then show ?thesis using head r u dv by auto
    next
      case (1 hint')
      note m1 = quietD(2) [OF 1(1)]
      show ?thesis
      proof (cases "table_find addr len (v_mm v)")
        case None
        then show ?thesis using head r 1 m1 by (auto simp: table_find_def split: option.splits if_splits)
      next
        case (Some base)
        then obtain a where a: "om_floor (live (v_mm v)) addr = Some (base, a)" "addr - base < al_size a" "len \<le> al_size a - (addr - base)" "card_valid a = 0"
          by (auto simp: table_find_def split: option.splits if_splits)
        have "om_find (live (v_mm v)) base = Some a"
          using om_floor_SomeD [OF live_zones(1) [OF mm_invD(4) [OF view_okD(1) [OF v]]] a(1)] by simp
        then show ?thesis using head r 1 m1 Some a u dv by (auto split: if_splits)
      qed
    qed
  qed
qed

lemma live_at:
  assumes v: "view_ok Z v" and t: "table_find addr len (v_mm v) = Some base" "om_find (live (v_mm v)) base = Some a"
  shows "resolve addr len w k (v_mm v) = Inr (InLive base, base)" "alloc_of (InLive base) (v_mm v) = Some a" "alloc_inv a"
    "unat (addr - base) = unat addr - unat base" "unat base \<le> unat addr"
    "unat (addr - base) + unat len \<le> unat (al_size a)" "unat (addr - base) + unat len \<le> kChunkSize * length (slots a)"
    "n dvd 16 \<Longrightarrow> n dvd unat addr \<Longrightarrow> n dvd unat (addr - base)"
proof -
  have r: "resolve addr len w k (v_mm v) = Inr (InLive base, base)" for w k by (rule resolve_table_find [OF view_okD(1,2) [OF v] t(1)])
  then show "resolve addr len w k (v_mm v) = Inr (InLive base, base)" .
  show a: "alloc_of (InLive base) (v_mm v) = Some a" using t(2) by (simp add: alloc_of_def)
  show "alloc_inv a" "unat (addr - base) = unat addr - unat base" "unat (addr - base) + unat len \<le> unat (al_size a)"
    "unat (addr - base) + unat len \<le> kChunkSize * length (slots a)"
    using resolve_at [OF v r [of False False]] a by auto
  show "unat base \<le> unat addr" using t(1) unfolding table_find_Some [OF view_okD(1) [OF v]] by blast
  show "n dvd unat (addr - base)" if "n dvd 16" "n dvd unat addr" using resolve_fits(1) [OF v r [of False False] that] .
qed

lemma load_run_peek:
  assumes v: "view_ok Z v" and r: "load_run addr len unit hint v = (Inr (Some d, hint'), v')" and len: "len \<noteq> 0"
  shows "peek addr len (v_mm v) = Inr d \<and> quiet Z v v' \<and> \<not> may_contain (hosts (v_mm v)) addr \<and> \<not> access_faults_armed v"
proof -
  obtain q v1 where ra: "run_allocation addr len unit hint v = (q, v1)" by force
  note spec = run_allocation_spec [OF v ra]
  have q1: "quiet Z v v1" using spec by blast
  obtain h base a where b: "q = Inr (Some base, h)" "table_find addr len (v_mm v) = Some base" "om_find (live (v_mm v)) base = Some a" "scalar_size unit"
    "unit dvd unat addr" "unit dvd unat len" "\<not> access_faults_armed v" "\<not> may_contain (hosts (v_mm v)) addr"
    using spec r ra len by (auto simp: load_run_def)
  note at = live_at [OF v b(2,3)]
  have "run_load a (unat (addr - base)) (unat len) unit = read_chunks a (unat (addr - base)) (unat len)"
    by (rule run_load_eq [OF b(4) at(8) [OF scalar_dvd(1) [OF b(4)] b(5)] b(6)])
  moreover have "read_chunks a (unat (addr - base)) (unat len) = Inr (bytes_at (v_mm v) (InLive base) (unat (addr - base)) (unat len))"
    using read_chunks_spec [OF at(7)] at(2) by (simp add: bytes_at_def)
  ultimately show ?thesis using r ra b quietD [OF q1] q1 len at(1) by (auto simp: load_run_def peek_def)
qed

lemma store_run_stored:
  assumes v: "view_ok Z v" and r: "store_run addr s unit hint v = (r, v')" and s: "s \<noteq> []" "length s < 2 ^ 64"
  shows "(\<exists>hint'. r = Inr (False, hint') \<and> quiet Z v v') \<or>
    (\<exists>base k. resolve addr (of_nat (length s)) True False (v_mm v) = Inr (InLive base, base) \<and> k \<le> length s \<and>
      stored Z (InLive base) (unat (addr - base)) (take k s) v v' \<and>
      ((\<exists>hint'. r = Inr (True, hint')) \<and> k = length s \<or> (\<exists>e. r = Inl e \<and> refused acquire backing_ok e)))"
proof -
  let ?len = "of_nat (length s) :: u64"
  have ul: "unat ?len = length s" using s(2) by (simp add: unat_of_nat64)
  obtain q v1 where ra: "run_allocation addr ?len unit hint v = (q, v1)" by force
  note spec = run_allocation_spec [OF v ra]
  have q1: "quiet Z v v1" using spec by blast
  from spec consider h where "q = Inr (None, h)" | h base a where "q = Inr (Some base, h)" "table_find addr ?len (v_mm v) = Some base"
    "om_find (live (v_mm v)) base = Some a" "scalar_size unit" "unit dvd unat addr" "unit dvd unat ?len" by blast
  then show ?thesis
  proof cases
    case 1
    then show ?thesis using r ra s(1) q1 by (auto simp: store_run_def)
  next
    case b: 2
    define off where "off = unat (addr - base)"
    note at = live_at [OF v b(2,3), folded off_def]
    have a1: "alloc_of (InLive base) (v_mm v1) = Some a" using at(2) quietD(2) [OF q1] by simp
    have bk: "backing_ok (backing_st (v_mm v1))" using mm_invD(1) [OF view_okD(1) [OF quietD(1) [OF q1]]] .
    obtain x st where w: "write_chunks acquire off s (a, backing_st (v_mm v1)) = (x, st)" by (metis surj_pair)
    obtain k where k: "k \<le> length s" "wrote backing_ok (a, backing_st (v_mm v1)) st off (take k s)"
      "x = Inr () \<and> k = length s \<or> (\<exists>e. x = Inl e \<and> refused acquire backing_ok e)"
      using bk.write_chunks_spec [OF _ _ _ w] at(3,6) bk ul by auto
    from on_alloc_stored [where f = "write_chunks acquire off s", OF quietD(1) [OF q1] a1 w k(2)] obtain w' where
      w': "on_alloc (InLive base) (write_chunks acquire off s) v1 = (x, w')" "stored Z (InLive base) off (take k s) v1 w'" by blast
    have "on_alloc (InLive base) (run_store unit off s) v1 = on_alloc (InLive base) (write_chunks acquire off s) v1"
      by (rule on_alloc_cong [OF a1], rule run_store_eq [OF b(4) at(8) [OF scalar_dvd(1) [OF b(4)] b(5)]]) (use b(6) ul in simp)
    then have eq: "(r, v') = then_do (x, w') (\<lambda>_ v. (Inr (True, h), v))" using r ra b(1) s(1) w'(1) by (simp add: store_run_def off_def)
    have st: "stored Z (InLive base) off (take k s) v w'" by (rule quiet_stored [OF q1 w'(2)])
    show ?thesis using eq st k at(1) unfolding off_def by (cases x) auto
  qed
qed

section \<open>Copies\<close>

lemma stored_append:
  assumes "stored Z pl off s v v1" "stored Z pl (off + length s) t v1 v2"
  shows "stored Z pl off (s @ t) v v2"
  unfolding stored_def
proof (intro conjI allI impI)
  fix q a assume "alloc_of q (v_mm v) = Some a"
  then obtain a1 where a1: "alloc_of q (v_mm v1) = Some a1" "same_shape a a1"
    "alloc_byte a1 = (if q = pl then copy_in (alloc_byte a) off s else alloc_byte a)" using assms(1) unfolding stored_def by blast
  then obtain a2 where "alloc_of q (v_mm v2) = Some a2" "same_shape a1 a2"
    "alloc_byte a2 = (if q = pl then copy_in (alloc_byte a1) (off + length s) t else alloc_byte a1)" using assms(2) unfolding stored_def by blast
  then show "\<exists>a'. alloc_of q (v_mm v2) = Some a' \<and> same_shape a a' \<and> alloc_byte a' = (if q = pl then copy_in (alloc_byte a) off (s @ t) else alloc_byte a)"
    using a1 same_shape_trans copy_in_append by auto
qed (use assms in \<open>simp_all add: stored_def\<close>)

lemma stored_bytes:
  assumes "stored Z pl off s v v'" "alloc_of q (v_mm v) = Some a"
  shows "bytes_at (v_mm v') q i n = map (if q = pl then copy_in (alloc_byte a) off s else alloc_byte a) [i ..< i + n]"
  using assms unfolding stored_def bytes_at_def by fastforce

lemma stored_elsewhere:
  assumes st: "stored Z pl off s v v'" and a: "alloc_of q (v_mm v) = Some a" and d: "q \<noteq> pl \<or> i + n \<le> off \<or> off + length s \<le> i"
  shows "bytes_at (v_mm v') q i n = bytes_at (v_mm v) q i n"
  unfolding stored_bytes [OF st a] using d a by (auto simp: bytes_at_def copy_in_other)

lemma stored_there:
  assumes st: "stored Z pl off s v v'" and a: "alloc_of pl (v_mm v) = Some a"
  shows "bytes_at (v_mm v') pl off (length s) = s"
  unfolding stored_bytes [OF st a] by simp

lemma bytes_at_split: "bytes_at m pl i (n + k) = bytes_at m pl i n @ bytes_at m pl (i + n) k"
  by (cases "alloc_of pl m") (simp_all add: bytes_at_def map_upt_append add.assoc)

lemma copy_loop_stored:
  assumes "view_ok Z v" "om_find (live (v_mm v)) sbase = Some sa" "om_find (live (v_mm v)) dbase = Some da"
    and "soff + len \<le> unat (al_size sa)" "doff + len \<le> unat (al_size da)" "sbase = dbase \<Longrightarrow> soff + len \<le> doff \<or> doff + len \<le> soff"
  shows "\<exists>r w k. copy_loop sbase dbase soff doff len v = (r, w) \<and> k \<le> len \<and>
    stored Z (InLive dbase) doff (take k (bytes_at (v_mm v) (InLive sbase) soff len)) v w \<and>
    (r = Inr () \<and> k = len \<or> (\<exists>e. r = Inl e \<and> refused acquire backing_ok e))"
  using assms
proof (induction len arbitrary: soff doff v sa da rule: less_induct)
  case (less len)
  show ?case
  proof (cases "len = 0")
    case True
    then show ?thesis using stored_Nil [OF quiet_refl [OF less.prems(1)]] by (simp add: copy_loop.simps)
  next
    case False
    define n where "n = min len (min (kChunkSize - soff mod kChunkSize) (kChunkSize - doff mod kChunkSize))"
    have "soff mod kChunkSize < kChunkSize" "doff mod kChunkSize < kChunkSize" by simp_all
    then have n: "0 < n" "n \<le> len" "soff mod kChunkSize + n \<le> kChunkSize" "doff mod kChunkSize + n \<le> kChunkSize"
      using False unfolding n_def by linarith+
    note inv = view_okD(1) [OF less.prems(1)]
    have ai: "alloc_inv sa" "alloc_inv da" using mm_invD(4) [OF inv] less.prems(2,3) by (auto simp: live_ok_def)
    have al: "alloc_of (InLive sbase) (v_mm v) = Some sa" "alloc_of (InLive dbase) (v_mm v) = Some da" using less.prems(2,3) by (simp_all add: alloc_of_def)
    have idx: "soff div kChunkSize < length (slots sa)" by (rule alloc_inv_index(2) [OF ai(1)]) (use less.prems(4) n in linarith)
    define s where "s = chunk_bytes (slots sa ! (soff div kChunkSize)) (soff mod kChunkSize) n"
    have s: "s = bytes_at (v_mm v) (InLive sbase) soff n" "length s = n" "s \<noteq> []"
      using alloc_byte_piece [OF n(3), of sa] al(1) n(1) by (auto simp: s_def bytes_at_def chunk_bytes_eq)
    obtain x st where p: "write_piece acquire (doff div kChunkSize) (doff mod kChunkSize) s (da, backing_st (v_mm v)) = (x, st)" by (metis surj_pair)
    have "x = Inr () \<and> wrote backing_ok (da, backing_st (v_mm v)) st doff s \<or>
        (\<exists>e. x = Inl e \<and> refused acquire backing_ok e \<and> wrote backing_ok (da, backing_st (v_mm v)) st doff [])"
      using bk.write_piece_spec [OF ai(2) mm_invD(1) [OF inv] _ s(3) _ p] n(4) s(2) less.prems(5) n(2) by simp
    then obtain w where w: "on_alloc (InLive dbase) (write_piece acquire (doff div kChunkSize) (doff mod kChunkSize) s) v = (x, w)"
      "x = Inr () \<and> stored Z (InLive dbase) doff s v w \<or> (\<exists>e. x = Inl e \<and> refused acquire backing_ok e \<and> stored Z (InLive dbase) doff [] v w)"
      using on_alloc_stored [where f = "write_piece acquire (doff div kChunkSize) (doff mod kChunkSize) s", OF less.prems(1) al(2) p] by blast
    have eq: "copy_loop sbase dbase soff doff len v = then_do (x, w) (\<lambda>_ v. copy_loop sbase dbase (soff + n) (doff + n) (len - n) v)"
      unfolding copy_loop.simps [of sbase dbase soff doff len v] Let_def n_def [symmetric]
      using False less.prems(2) idx w(1) by (simp add: slot_at_def s_def)
    show ?thesis
    proof (cases x)
      case (Inl e)
      then have "stored Z (InLive dbase) doff (take 0 (bytes_at (v_mm v) (InLive sbase) soff len)) v w" using w(2) by simp
      then show ?thesis using eq Inl w(2) by fastforce
    next
      case (Inr u)
      then have st: "stored Z (InLive dbase) doff s v w" using w(2) by simp
      have ok: "view_ok Z w" using st by (simp add: stored_def)
      obtain sa' where sa': "alloc_of (InLive sbase) (v_mm w) = Some sa'" "same_shape sa sa'" using st al(1) unfolding stored_def by blast
      obtain da' where da': "alloc_of (InLive dbase) (v_mm w) = Some da'" "same_shape da da'" using st al(2) unfolding stored_def by blast
      have "InLive sbase \<noteq> InLive dbase \<or> soff + n + (len - n) \<le> doff \<or> doff + length s \<le> soff + n"
        using less.prems(6) s(2) n(2) by auto
      then have tl: "bytes_at (v_mm w) (InLive sbase) (soff + n) (len - n) = bytes_at (v_mm v) (InLive sbase) (soff + n) (len - n)"
        using stored_elsewhere [OF st al(1)] by blast
      have d2: "soff + n + (len - n) \<le> doff + n \<or> doff + n + (len - n) \<le> soff + n" if "sbase = dbase"
        using less.prems(6) [OF that] n(2) by auto
      have "\<exists>r w' k. copy_loop sbase dbase (soff + n) (doff + n) (len - n) w = (r, w') \<and> k \<le> len - n \<and>
          stored Z (InLive dbase) (doff + n) (take k (bytes_at (v_mm w) (InLive sbase) (soff + n) (len - n))) w w' \<and>
          (r = Inr () \<and> k = len - n \<or> (\<exists>e. r = Inl e \<and> refused acquire backing_ok e))"
        by (rule less.IH [OF _ ok, where sa = sa' and da = da']) (use n sa' da' less.prems(4,5) d2 in \<open>auto simp: alloc_of_def same_shape_def\<close>)
      then obtain r w' k where k: "copy_loop sbase dbase (soff + n) (doff + n) (len - n) w = (r, w')" "k \<le> len - n"
          "stored Z (InLive dbase) (doff + length s) (take k (bytes_at (v_mm v) (InLive sbase) (soff + n) (len - n))) w w'"
          "r = Inr () \<and> k = len - n \<or> (\<exists>e. r = Inl e \<and> refused acquire backing_ok e)"
        using tl s(2) by auto
      have "s @ take k (bytes_at (v_mm v) (InLive sbase) (soff + n) (len - n)) = take (n + k) (bytes_at (v_mm v) (InLive sbase) soff len)"
        using bytes_at_split [of "v_mm v" "InLive sbase" soff n "len - n"] n(2) s(1,2) by simp
      then have "stored Z (InLive dbase) doff (take (n + k) (bytes_at (v_mm v) (InLive sbase) soff len)) v w'"
        using stored_append [OF st k(3)] by simp
      then show ?thesis using eq Inr k(1,2,4) n(2) by (intro exI [of _ r] exI [of _ w'] exI [of _ "n + k"]) auto
    qed
  qed
qed

end
