(* ===== verification/Strided.thy ===== *)
theory Strided
  imports Batch
begin

text \<open>
  Stores at a stride: \<^verbatim>\<open>store_strided\<close> of \<^verbatim>\<open>src/core/memory.cpp\<close> walks the chunks it
  meets, and is shown to do what the stores of its lanes do one by one.
\<close>

section \<open>Offsets\<close>

definition strided_off :: "u64 \<Rightarrow> u64 \<Rightarrow> nat \<Rightarrow> nat" where
  "strided_off off0 stride i = unat (off0 + stride * of_nat i)"

definition strided_ok :: "u64 \<Rightarrow> u64 \<Rightarrow> nat \<Rightarrow> bool" where
  "strided_ok off0 stride n \<longleftrightarrow> \<bar>sint stride\<bar> \<le> int kHalf \<and> (\<forall>i < n. strided_off off0 stride i < 2 ^ 63 \<and>
     int (strided_off off0 stride i) = uint off0 + sint stride * int i)"

lemma uint_of_int64: "0 \<le> k \<Longrightarrow> k < 2 ^ 64 \<Longrightarrow> uint (of_int k :: u64) = k"
  by (simp add: unsigned_of_int take_bit_int_eq_self)

lemma mod_neg64: "- (2 ^ 64) \<le> k \<Longrightarrow> k < 0 \<Longrightarrow> k mod 2 ^ 64 = k + (2 ^ 64 :: int)"
proof -
  assume k: "- (2 ^ 64) \<le> k" "k < 0"
  have "(k + 2 ^ 64) mod 2 ^ 64 = k + 2 ^ 64" by (rule mod_pos_pos_trivial) (use k in simp_all)
  then show ?thesis by simp
qed

lemma uint_of_int_mod: "uint (of_int k :: u64) = k mod 2 ^ 64"
  by (simp add: unsigned_of_int take_bit_eq_mod)

lemma uint_less_int: "unat (x :: u64) < n \<longleftrightarrow> uint x < int n"
  by (metis of_nat_less_iff uint_nat)

lemma word_of_sum: "off0 + stride * of_nat i = (of_int (uint off0 + sint stride * int i) :: u64)"
  by simp

text \<open>The ends are in, so the lanes between are: the stride is small, and nothing wraps.\<close>

lemma strided_between:
  assumes s: "\<bar>sint (stride :: u64)\<bar> \<le> int kHalf" and n: "0 < n" "n \<le> 32" and l: "unat off0 < L" "L \<le> 2 ^ 63"
    and e: "unat (off0 + stride * of_nat (n - 1)) < L"
  shows "strided_ok off0 stride n" "\<And>i. i < n \<Longrightarrow> strided_off off0 stride i < L"
proof -
  define lst where "lst = uint off0 + sint stride * int (n - 1)"
  have small: "\<bar>sint stride * int i\<bar> \<le> 2 ^ 21" if "i < 32" for i
  proof -
    have "\<bar>sint stride * int i\<bar> = \<bar>sint stride\<bar> * int i" by (simp add: abs_mult)
    also have "\<dots> \<le> int kHalf * 32" using s that by (intro mult_mono) auto
    finally show ?thesis by (simp add: kHalf_def kChunkSize_def)
  qed
  have up: "uint off0 < int L" "int L \<le> 2 ^ 63" using l by (simp_all add: uint_less_int)
  have "\<bar>lst - uint off0\<bar> \<le> 2 ^ 21" using small [of "n - 1"] n unfolding lst_def by simp
  moreover have "0 \<le> uint off0" by simp
  ultimately have lst: "- (2 ^ 21) \<le> lst" "lst < 2 ^ 63 + 2 ^ 21" using up by linarith+
  have w: "uint (off0 + stride * of_nat (n - 1)) = lst mod 2 ^ 64"
    by (simp only: word_of_sum lst_def uint_of_int_mod)
  have "0 \<le> lst"
  proof (rule ccontr)
    assume "\<not> 0 \<le> lst"
    then have "lst mod 2 ^ 64 = lst + 2 ^ 64" using lst by (intro mod_neg64) simp_all
    moreover have "int L < lst + 2 ^ 64" using lst up by simp
    ultimately show False using e w by (simp add: uint_less_int)
  qed
  then have "uint (off0 + stride * of_nat (n - 1)) = lst" using w lst by simp
  then have lL: "lst < int L" using e by (simp add: uint_less_int)
  have mid: "0 \<le> uint off0 + sint stride * int i \<and> uint off0 + sint stride * int i < int L" if i: "i < n" for i
  proof (cases "0 \<le> sint stride")
    case True
    have "sint stride * int i \<le> sint stride * int (n - 1)" using True i by (intro mult_left_mono) auto
    then show ?thesis using True lL by (simp add: lst_def)
  next
    case False
    have "sint stride * int (n - 1) \<le> sint stride * int i" using False i by (intro mult_left_mono_neg) auto
    moreover have "sint stride * int i \<le> 0" using False by (simp add: mult_nonpos_nonneg)
    ultimately show ?thesis using up(1) \<open>0 \<le> lst\<close> by (simp add: lst_def)
  qed
  have off: "int (strided_off off0 stride i) = uint off0 + sint stride * int i" if "i < n" for i
  proof -
    have "uint (off0 + stride * of_nat i) = uint off0 + sint stride * int i"
      unfolding word_of_sum by (rule uint_of_int64) (use mid [OF that] up in auto)
    then show ?thesis by (simp add: strided_off_def)
  qed
  then show lt: "strided_off off0 stride i < L" if "i < n" for i using mid [OF that] off [OF that] by linarith
  show "strided_ok off0 stride n"
    unfolding strided_ok_def by (intro conjI allI impI s off less_le_trans [OF lt l(2)])
qed

lemma strided_okD: "strided_ok off0 stride n \<Longrightarrow> i < n \<Longrightarrow> int (strided_off off0 stride i) = uint off0 + sint stride * int i"
  unfolding strided_ok_def by blast

text \<open>The next lane is in the same chunk when its place there, counted on from this one, is.\<close>

lemma strided_same_chunk:
  assumes ok: "strided_ok off0 stride n" and l: "Suc l < n"
    and io: "unat (of_nat (strided_off off0 stride l mod kChunkSize) + stride) < kChunkSize"
  shows "strided_off off0 stride (Suc l) div kChunkSize = strided_off off0 stride l div kChunkSize"
    "of_nat (strided_off off0 stride (Suc l) mod kChunkSize) = of_nat (strided_off off0 stride l mod kChunkSize) + stride"
proof -
  define o1 where "o1 = strided_off off0 stride l"
  define o2 where "o2 = strided_off off0 stride (Suc l)"
  define s where "s = sint stride"
  define k where "k = int (o1 mod kChunkSize) + s"
  have "int o1 = uint off0 + s * int l" "int o2 = uint off0 + s * int (Suc l)"
    using strided_okD [OF ok, of l] strided_okD [OF ok l] l unfolding o1_def o2_def s_def by simp_all
  then have o2: "int o2 = int o1 + s" by (simp add: algebra_simps)
  have "\<bar>s\<bar> \<le> int kHalf" using ok unfolding strided_ok_def s_def by blast
  then have sb: "\<bar>s\<bar> \<le> 2 ^ 15" by (simp add: kHalf_def kChunkSize_def)
  have m: "o1 mod kChunkSize < 2 ^ 16" using mod_less_divisor [of kChunkSize o1] by (simp add: kChunkSize_def)
  then have kb: "- (2 ^ 15) \<le> k" "k < 2 ^ 17" using sb by (auto simp: k_def)
  have w: "of_nat (o1 mod kChunkSize) + stride = (of_int k :: u64)" by (simp add: k_def s_def)
  note u = uint_of_int_mod [of k]
  have k0: "0 \<le> k"
  proof (rule ccontr)
    assume "\<not> 0 \<le> k"
    then have "k mod 2 ^ 64 = k + 2 ^ 64" using kb by (intro mod_neg64) simp_all
    then show False using io w u kb by (simp add: o1_def [symmetric] uint_less_int kChunkSize_def)
  qed
  then have uk: "uint (of_int k :: u64) = k" using u kb by simp
  then have kK: "k < int kChunkSize" using io w by (simp add: o1_def [symmetric] uint_less_int)
  have "int o2 = int (o1 div kChunkSize) * int kChunkSize + k"
    using o2 div_mult_mod_eq [of o1 kChunkSize] unfolding k_def by (metis (no_types) add.assoc of_nat_add of_nat_mult)
  then have "o2 = o1 div kChunkSize * kChunkSize + nat k" using k0 by (metis int_nat_eq nat_int of_nat_add of_nat_mult nat_0_le)
  moreover have "nat k < kChunkSize" using kK k0 by (simp add: nat_less_iff)
  ultimately have "o2 div kChunkSize = o1 div kChunkSize" "o2 mod kChunkSize = nat k" by simp_all
  then show "strided_off off0 stride (Suc l) div kChunkSize = strided_off off0 stride l div kChunkSize"
    "of_nat (strided_off off0 stride (Suc l) mod kChunkSize) = of_nat (strided_off off0 stride l mod kChunkSize) + stride"
    using w k0 by (simp_all add: o1_def [symmetric] o2_def [symmetric])
qed

section \<open>The loop\<close>

definition strided_lanes :: "u64 \<Rightarrow> u64 \<Rightarrow> u64 list \<Rightarrow> nat \<Rightarrow> (nat \<times> u64) list" where
  "strided_lanes off0 stride vals l = map (\<lambda>i. (strided_off off0 stride i, vals ! i)) [l ..< length vals]"

lemma strided_lanes_Cons:
  "l < length vals \<Longrightarrow> strided_lanes off0 stride vals l = (strided_off off0 stride l, vals ! l) # strided_lanes off0 stride vals (Suc l)"
  by (simp add: strided_lanes_def upt_conv_Cons)

lemma chunk_store_real:
  assumes "off div kChunkSize < length (slots a)" "slots a ! (off div kChunkSize) = Real c"
  shows "chunk_store off n y (a, b) = (Inr (), (set_slot (off div kChunkSize) (Real (store_at c (off mod kChunkSize) n y)) a, b))"
  using assms by (simp add: chunk_store_def slot_at_def materialize_def)

lemma set_slot_twice [simp]: "set_slot i c (set_slot i d a) = set_slot i c a"
  by (simp add: set_slot_def)

lemma slots_set_slot: "i < length (slots a) \<Longrightarrow> slots (set_slot i c a) ! i = c" "length (slots (set_slot i c a)) = length (slots a)"
  by (simp_all add: set_slot_def)

lemma unat_chunk_off: "unat (of_nat (off mod kChunkSize) :: u64) = off mod kChunkSize"
proof -
  have "off mod kChunkSize < kChunkSize" by simp
  then have "off mod kChunkSize < 2 ^ 64" by (simp add: kChunkSize_def)
  then show ?thesis by (rule unat_of_nat64)
qed

lemma chunk_store_length: "chunk_store off n y (a, b) = (q, (a1, b1)) \<Longrightarrow> length (slots a1) = length (slots a)"
  by (auto simp: chunk_store_def materialize_def set_slot_def Let_def split: sum.splits prod.splits if_splits chunk.splits)

lemma strided_real_lanes:
  assumes ok: "strided_ok off0 stride (length vals)" and l: "l < length vals"
    and i: "strided_off off0 stride l div kChunkSize = i" "i < length (slots a)" "slots a ! i = Real c"
    and r: "strided_real n stride vals l (of_nat (strided_off off0 stride l mod kChunkSize)) c = (l', c')"
  shows "store_batch_in n l (strided_lanes off0 stride vals l) (a, b) =
    store_batch_in n l' (strided_lanes off0 stride vals l') (set_slot i (Real c') a, b) \<and> l' \<le> length vals"
  using l i r
proof (induction "length vals - l" arbitrary: l a c)
  case 0
  then show ?case by simp
next
  case (Suc k)
  define io where "io = (of_nat (strided_off off0 stride l mod kChunkSize) :: u64)"
  define c1 where "c1 = store_at c (strided_off off0 stride l mod kChunkSize) n (vals ! l)"
  have un: "unat io = strided_off off0 stride l mod kChunkSize" unfolding io_def by (rule unat_chunk_off)
  have first: "store_batch_in n l (strided_lanes off0 stride vals l) (a, b) =
      store_batch_in n (Suc l) (strided_lanes off0 stride vals (Suc l)) (set_slot i (Real c1) a, b)"
    using Suc.prems(1-4) chunk_store_real [of "strided_off off0 stride l" a c n "vals ! l" b]
    by (simp add: strided_lanes_Cons c1_def)
  have sr: "strided_real n stride vals l io c =
      (if l + 1 < length vals \<and> unat (io + stride) < kChunkSize then strided_real n stride vals (l + 1) (io + stride) c1 else (l + 1, c1))"
    unfolding strided_real.simps [of n stride vals l io c] Let_def un c1_def by (rule refl)
  show ?case
  proof (cases "l + 1 < length vals \<and> unat (io + stride) < kChunkSize")
    case True
    have same: "strided_off off0 stride (Suc l) div kChunkSize = i"
      "of_nat (strided_off off0 stride (Suc l) mod kChunkSize) = io + stride"
      using strided_same_chunk [OF ok, of l] True Suc.prems(2) unfolding io_def by simp_all
    have r1: "strided_real n stride vals (Suc l) (of_nat (strided_off off0 stride (Suc l) mod kChunkSize)) c1 = (l', c')"
      using sr True Suc.prems(5) same(2) unfolding io_def by simp
    have "store_batch_in n (Suc l) (strided_lanes off0 stride vals (Suc l)) (set_slot i (Real c1) a, b) =
        store_batch_in n l' (strided_lanes off0 stride vals l') (set_slot i (Real c') (set_slot i (Real c1) a), b) \<and> l' \<le> length vals"
      by (rule Suc.hyps(1) [OF _ _ same(1) _ _ r1]) (use Suc.hyps(2) Suc.prems(3) True in \<open>simp_all add: slots_set_slot\<close>)
    then show ?thesis using first by simp
  next
    case False
    have "(l', c') = (Suc l, c1)" using sr [unfolded if_not_P [OF False]] Suc.prems(5) unfolding io_def by simp
    then show ?thesis using first Suc.prems(1) by simp
  qed
qed

lemma strided_loop_eq:
  assumes ok: "strided_ok off0 stride (length vals)" and "\<And>i. i < length vals \<Longrightarrow> strided_off off0 stride i div kChunkSize < length (slots (fst st))"
  shows "strided_loop n stride vals off0 l st = store_batch_in n l (strided_lanes off0 stride vals l) st"
  using assms(2)
proof (induction "length vals - l" arbitrary: l st rule: less_induct)
  case less
  obtain a b where st: "st = (a, b)" by force
  show ?case
  proof (cases "l < length vals")
    case False
    then show ?thesis by (subst strided_loop.simps) (simp add: strided_lanes_def)
  next
    case l: True
    define off where "off = strided_off off0 stride l"
    have idx: "off div kChunkSize < length (slots a)" using less.prems l st by (simp add: off_def)
    note step = strided_loop.simps [of n stride vals off0 l st, folded strided_off_def, folded off_def, unfolded Let_def]
    show ?thesis
    proof (cases "\<exists>c. slots a ! (off div kChunkSize) = Real c")
      case True
      then obtain c where Real: "slots a ! (off div kChunkSize) = Real c" by blast
      obtain l' c' where r: "strided_real n stride vals l (of_nat (off mod kChunkSize)) c = (l', c')" by force
      have adv: "l < l'" using strided_real_advances [of l n stride vals "of_nat (off mod kChunkSize)" c] r by simp
      have "strided_loop n stride vals off0 l st = strided_loop n stride vals off0 l' (set_slot (off div kChunkSize) (Real c') a, b)"
        using step l st Real r idx by (simp add: slot_at_def)
      also have "\<dots> = store_batch_in n l' (strided_lanes off0 stride vals l') (set_slot (off div kChunkSize) (Real c') a, b)"
        by (rule less.hyps) (use adv l less.prems st in \<open>simp_all add: slots_set_slot\<close>)
      also have "\<dots> = store_batch_in n l (strided_lanes off0 stride vals l) (a, b)"
        using strided_real_lanes [OF ok l _ idx Real r [unfolded off_def], of b] by (simp add: off_def)
      finally show ?thesis using st by simp
    next
      case False
      obtain q a1 b1 where c: "chunk_store off n (vals ! l) (a, b) = (q, (a1, b1))" by (metis prod.exhaust)
      have "strided_loop n stride vals off0 l st = (case q of Inl e \<Rightarrow> (Threw e l, (a1, b1)) | Inr _ \<Rightarrow> strided_loop n stride vals off0 (Suc l) (a1, b1))"
        using step l st False idx c by (auto simp: slot_at_def split: sum.splits chunk.splits)
      moreover have "strided_loop n stride vals off0 (Suc l) (a1, b1) = store_batch_in n (Suc l) (strided_lanes off0 stride vals (Suc l)) (a1, b1)"
        by (rule less.hyps) (use l less.prems st chunk_store_length [OF c] in simp_all)
      ultimately show ?thesis using l st c by (simp add: strided_lanes_Cons off_def split: sum.splits)
    qed
  qed
qed

section \<open>The stores one by one\<close>

definition strided_addrs :: "u64 \<Rightarrow> u64 \<Rightarrow> nat \<Rightarrow> u64 list" where
  "strided_addrs a0 stride n = map (\<lambda>i. a0 + stride * of_nat i) [0 ..< n]"

lemma dvd_word:
  assumes "n dvd 2 ^ 64" "n dvd unat (a :: u64)" "n dvd unat (b :: u64)"
  shows "n dvd unat (a + b)" "n dvd unat (b * c)"
  using assms by (simp_all add: unat_word_ariths dvd_mod)

lemma strided_aligned:
  assumes n: "scalar_size n" and b: "((a0 :: u64) OR stride) AND (of_nat n - 1) = 0"
  shows "n dvd unat (a0 + stride * of_nat i)"
proof -
  have "a0 AND (of_nat n - 1) = 0" "stride AND (of_nat n - 1) = 0" using b by (simp_all add: bit.conj_disj_distrib2 or_eq_0_iff)
  then have d: "n dvd unat a0" "n dvd unat stride" by (simp_all only: mask_dvd [OF n])
  have "n dvd 2 ^ 64" using n by (auto simp: scalar_size_def)
  then show ?thesis using d by (intro dvd_word(1) dvd_word(2) [where a = a0]) auto
qed

lemma strided_lanes_zip:
  "strided_lanes (a0 - base) stride vals 0 = map (\<lambda>(x, y). (unat (x - base), y)) (zip (strided_addrs a0 stride (length vals)) vals)"
  by (rule nth_equalityI) (simp_all add: strided_lanes_def strided_addrs_def strided_off_def algebra_simps)

lemma live_low: "mm_inv Z m \<Longrightarrow> low_half m \<Longrightarrow> om_find (live m) base = Some a \<Longrightarrow> unat (al_size a) \<le> 2 ^ 63"
proof -
  assume a: "mm_inv Z m" "low_half m" "om_find (live m) base = Some a"
  note parts = mm_invD [OF a(1)]
  obtain n where n: "(base, n) \<in> set Z" "round_up_nat (unat (al_size a)) (base_align m) \<le> n"
    using parts(4) a(3) by (auto simp: live_ok_def)
  have "unat (al_size a) \<le> n" using round_up_nat_ge [OF base_align_pos [OF parts(2)], of "unat (al_size a)"] n(2) by simp
  then show ?thesis using handed_below [OF parts(3) n(1)] a(2) by (simp add: low_half_def)
qed

lemma strided_lanes_ok:
  assumes v: "view_ok Z v" and n: "scalar_size n" and c: "0 < c" "c \<le> 32" and s: "\<bar>sint stride\<bar> \<le> int kHalf"
    and al: "(a0 OR stride) AND (of_nat n - 1) = 0" and f: "table_find a0 (of_nat n) (v_mm v) = Some base"
    and a: "om_find (live (v_mm v)) base = Some a" "n \<le> unat (al_size a)" and h: "host_map_free_span (hosts (v_mm v)) base (al_size a)"
    and e: "\<not> al_size a - of_nat n + 1 \<le> (a0 - base) + stride * of_nat (c - 1)"
  shows "strided_ok (a0 - base) stride c" "\<forall>x \<in> set (strided_addrs a0 stride c). lane_ok n base (v_mm v) x"
    "\<And>i. i < c \<Longrightarrow> strided_off (a0 - base) stride i < unat (al_size a)"
proof -
  note inv = view_okD(1,2) [OF v]
  have nn: "0 < n" "n < 2 ^ 64" using n by (auto simp: scalar_size_def)
  define L where "L = unat (al_size a - of_nat n + 1)"
  have un: "unat (of_nat n :: u64) = n" using nn(2) by (simp add: unat_of_nat64)
  have "unat (al_size a - of_nat n) = unat (al_size a) - n" using a(2) un by (subst unat_sub64) simp_all
  then have L: "L = unat (al_size a) - n + 1" unfolding L_def using nn a(2) live_span(1) [OF inv(1) a(1)] by (subst unat_add64) simp_all
  then have Lb: "L \<le> 2 ^ 63" "L \<le> unat (al_size a)" using live_low [OF inv a(1)] nn a(2) by auto
  note lim = limit_test [OF inv(1) a(1) nn a(2)]
  have o0: "unat (a0 - base) < L" using lim [of a0] f by (simp add: L_def u64_simps)
  have o1: "unat ((a0 - base) + stride * of_nat (c - 1)) < L" using e by (simp add: L_def u64_simps)
  note btw = strided_between [OF s c o0 Lb(1) o1]
  show "strided_ok (a0 - base) stride c" by (rule btw(1))
  show "strided_off (a0 - base) stride i < unat (al_size a)" if "i < c" for i using btw(2) [OF that] Lb(2) by simp
  have "lane_ok n base (v_mm v) (a0 + stride * of_nat i)" if i: "i < c" for i
  proof -
    have "unat (a0 + stride * of_nat i - base) < L" using btw(2) [OF i] by (simp add: strided_off_def algebra_simps)
    then have t: "table_find (a0 + stride * of_nat i) (of_nat n) (v_mm v) = Some base"
      using lim [of "a0 + stride * of_nat i"] by (simp add: L_def u64_simps)
    show ?thesis by (rule table_lane [OF v t strided_aligned [OF n al] free_span_no_host [OF inv(1) a(1) h t]])
  qed
  then show "\<forall>x \<in> set (strided_addrs a0 stride c). lane_ok n base (v_mm v) x" by (auto simp: strided_addrs_def)
qed

lemma store_strided_one_by_one:
  assumes v: "view_ok Z v" and b: "store_strided a0 stride n vals hint v = (r, w)"
  shows "\<exists>e hint'. r = Inr (e, hint') \<and> view_ok Z w \<and> v_fault w = v_fault v \<and> (e = Declined \<longrightarrow> v_mm w = v_mm v) \<and>
    (e \<noteq> Declined \<longrightarrow> (\<exists>w1. store_each n 0 (zip (strided_addrs a0 stride (length vals)) vals) v = (e, w1) \<and> v_mm w1 = v_mm w \<and> view_ok Z w1))"
proof -
  define pre where "pre \<longleftrightarrow> length vals < 2 \<or> length vals > 32 \<or> \<not> scalar_size n \<or> sint stride > int kHalf \<or> sint stride < - int kHalf
        \<or> (a0 OR stride) AND (of_nat n - 1) \<noteq> 0 \<or> \<not> batch_faults_clear True v"
  obtain q v1 where f: "in_thread (find_ordinary a0 (of_nat n) hint) v = (q, v1)" by force
  show ?thesis
  proof (cases pre)
    case True
    then show ?thesis using b v unfolding pre_def store_strided_def by auto
  next
    case False
    then have n: "scalar_size n" and s: "\<bar>sint stride\<bar> \<le> int kHalf" and al: "(a0 OR stride) AND (of_nat n - 1) = 0"
      and c: "0 < length vals" "length vals \<le> 32" and clear: "batch_faults_clear True v" by (auto simp: pre_def)
    note head = store_strided_def [of a0 stride n vals hint v, folded pre_def, unfolded if_not_P [OF False] f]
    from v f show ?thesis
    proof (cases rule: in_thread_found)
      case (1 hint')
      then show ?thesis using b head quietD [OF 1(1)] by auto
    next
      case (2 hint' base a)
      note q = quietD [OF 2(1)]
      let ?zs = "zip (strided_addrs a0 stride (length vals)) vals"
      define near where "near \<longleftrightarrow> \<not> host_map_free_span (hosts (v_mm v)) base (al_size a)
              \<or> (a0 - base) + stride * of_nat (length vals - 1) \<ge> al_size a - of_nat n + 1"
      have eq: "store_strided a0 stride n vals hint v = (if near then (Inr (Declined, hint'), v1)
          else then_do (on_alloc (InLive base) (no_throw (strided_loop n stride vals (a0 - base) 0)) v1) (\<lambda>r v. (Inr (r, hint'), v)))"
        unfolding near_def using head 2(2,4) q(2) by simp
      show ?thesis
      proof (cases near)
        case True
        then show ?thesis using b eq q by auto
      next
        case no: False
        have na: "n \<le> unat (al_size a)" using 2(5) scalar_dvd(2) [OF n] by simp
        have hs: "host_map_free_span (hosts (v_mm v)) base (al_size a)" "\<not> al_size a - of_nat n + 1 \<le> (a0 - base) + stride * of_nat (length vals - 1)"
          using no by (simp_all add: near_def)
        note ok = strided_lanes_ok [OF v n c s al 2(3,4) na hs]
        have ai: "alloc_inv a" "alloc_of (InLive base) (v_mm v1) = Some a" using mm_invD(4) [OF view_okD(1) [OF v]] 2(4) q(2) by (auto simp: live_ok_def alloc_of_def)
        have "strided_loop n stride vals (a0 - base) 0 (a, backing_st (v_mm v1)) =
            store_batch_in n 0 (map (\<lambda>(x, y). (unat (x - base), y)) ?zs) (a, backing_st (v_mm v1))"
          unfolding strided_lanes_zip [symmetric] by (rule strided_loop_eq [OF ok(1)]) (use ok(3) alloc_inv_index(2) [OF ai(1)] in simp)
        then have same: "on_alloc (InLive base) (no_throw (strided_loop n stride vals (a0 - base) 0)) v1 =
            on_alloc (InLive base) (no_throw (store_batch_in n 0 (map (\<lambda>(x, y). (unat (x - base), y)) ?zs))) v1"
          by (intro on_alloc_cong [OF ai(2)]) (simp add: no_throw_def)
        have "\<forall>x \<in> fst ` set ?zs. lane_ok n base (v_mm v1) x" using ok(2) q(2) by (auto dest: set_zip_leftD)
        then obtain e w' w1 where "on_alloc (InLive base) (no_throw (store_batch_in n 0 (map (\<lambda>(x, y). (unat (x - base), y)) ?zs))) v1 = (Inr e, w')"
          "e \<noteq> Declined" "store_each n 0 ?zs v = (e, w1)" "v_mm w1 = v_mm w'" "view_ok Z w'" "view_ok Z w1" "v_fault w' = v_fault v1"
          using store_each_lanes [OF q(1) v _ _ n, of ?zs base 0] q ai(2) clear clear_cong [OF q(3), of True] by auto
        then show ?thesis using b eq no same q by auto
      qed
    qed
  qed
qed

end
