(* ===== verification/Device_Memory.thy ===== *)
theory Device_Memory
  imports Device_Tables Runs Strided
begin

text \<open>
  What reading and writing device memory promise at every point of a run: what was written is read back,
  nothing else changes, a fill repeats its pattern, scalars and bulk copies agree, and the batched paths of
  a warp do what one access at a time would.
\<close>

section \<open>Definitions\<close>

text \<open>A range no host buffer is mapped into, that does not reach the end of the address space.\<close>

definition device_range :: "u64 \<Rightarrow> u64 \<Rightarrow> mm \<Rightarrow> bool" where
  "device_range addr len m \<longleftrightarrow> unat addr + unat len < 2 ^ 64 - 1 \<and>
     (\<forall>h \<in> set (hms (hosts m)). \<forall>i < unat len. \<not> in_map h (addr + of_nat i))"

text \<open>No fault is armed that changes what an access delivers.\<close>

definition no_faults :: "view \<Rightarrow> bool" where
  "no_faults v \<longleftrightarrow> \<not> any_stuck v \<and> \<not> armed copy_armed v \<and> \<not> armed load_armed v \<and> \<not> armed store_armed v"

section \<open>Ranges of the device\<close>

lemma device_range_cong: "hosts m' = hosts m \<Longrightarrow> device_range addr len m' = device_range addr len m"
  by (simp add: device_range_def)

lemma no_faults_cong: "v_fault v' = v_fault v \<Longrightarrow> no_faults v' = no_faults v"
  by (simp add: no_faults_def any_stuck_def armed_def)

lemma device_range_none:
  assumes v: "view_ok Z v" and d: "device_range addr len (v_mm v)" and len: "len \<noteq> 0"
  shows "\<exists>v'. host_hit addr len v = (None, v') \<and> quiet Z v v'"
    and "host_pieces (hosts (v_mm v)) addr len w = Some (Inr None)"
proof -
  note hosts = mm_invD(13) [OF view_okD(1) [OF v]]
  have pos: "0 < unat len" using len by (simp add: unat_gt_0)
  have nowrap: "unat addr + unat len < 2 ^ 64 - 1" and no: "\<And>h i. h \<in> set (hms (hosts (v_mm v))) \<Longrightarrow> i < unat len \<Longrightarrow> \<not> in_map h (addr + of_nat i)"
    using d by (auto simp: device_range_def)
  obtain r v' where h: "host_hit addr len v = (r, v')" by force
  have "r = None"
  proof (cases r)
    case (Some hm)
    then have hm: "hm \<in> set (hms (hosts (v_mm v)))" "map_holds hm addr len" using host_hit_ok(2) [OF v h] by auto
    then have "map_ok hm" using hosts by (simp add: hosts_ok_def)
    then have "in_map hm addr" using hm(2) nowrap pos by (simp add: map_holds_iff in_range_def)
    then show ?thesis using no [OF hm(1) pos] by simp
  qed
  then show "\<exists>v'. host_hit addr len v = (None, v') \<and> quiet Z v v'" using h host_hit_ok(1) [OF v h] by auto
  have "\<not> read_only_in (hosts (v_mm v)) addr (unat len)" using no by (auto simp: read_only_in_def)
  moreover have "\<not> covers (hosts (v_mm v)) w addr (unat len) ps" for ps
  proof
    assume "covers (hosts (v_mm v)) w addr (unat len) ps"
    then have "at_host (hosts (v_mm v)) w (addr + of_nat 0) (concat (map piece_addrs ps) ! 0)" using pos unfolding covers_def Let_def by blast
    then show False using no [OF _ pos] unfolding at_host_def by blast
  qed
  ultimately show "host_pieces (hosts (v_mm v)) addr len w = Some (Inr None)"
    using pieces_loop_spec [OF hosts nowrap order_refl, of w "[]"] by (auto simp: host_pieces_def)
qed

lemma read_mem_device:
  assumes v: "view_ok Z v" and d: "device_range src len (v_mm v)" and f: "no_faults v" and len: "len \<noteq> 0"
  shows "\<exists>v'. read_mem src False len v = (peek src len (v_mm v), v') \<and> quiet Z v v'"
proof -
  obtain v1 where v1: "host_hit src len v = (None, v1)" "quiet Z v v1" using device_range_none(1) [OF v d len] by blast
  note q = quietD [OF v1(2)]
  have "no_faults v1" using f no_faults_cong [OF q(3)] by simp
  then obtain v2 where v2: "read_device src len v1 = (peek src len (v_mm v1), v2)" "quiet Z v1 v2"
    using read_device_ok [OF q(1)] by (auto simp: no_faults_def)
  show ?thesis
    using len v1 v2 q(2) device_range_none(2) [OF v d len] quiet_trans [OF v1(2) v2(2)] by (simp add: read_mem_def)
qed

lemma write_mem_device:
  assumes v: "view_ok Z v" and d: "device_range dst len (v_mm v)" and len: "len \<noteq> 0" "length s = unat len"
  shows "\<exists>r v'. write_mem dst (Some s) len v = (r, v') \<and> (case resolve dst len True False (v_mm v) of
      Inl e \<Rightarrow> r = Inl e \<and> quiet Z v v'
    | Inr (pl, base) \<Rightarrow> \<exists>k \<le> length s. stored Z pl (unat (dst - base)) (take k s) v v' \<and>
        (r = Inr () \<and> k = length s \<or> (\<exists>e. r = Inl e \<and> refused acquire backing_ok e)))"
proof -
  obtain v1 where v1: "host_hit dst len v = (None, v1)" "quiet Z v v1" using device_range_none(1) [OF v d len(1)] by blast
  note q = quietD [OF v1(2)]
  have w: "write_mem dst (Some s) len v = write_device dst s len v1"
    using len v1 q(2) device_range_none(2) [OF v d len(1)] by (simp add: write_mem_def)
  obtain r v' where wd: "write_device dst s len v1 = (r, v')" by force
  show ?thesis
  proof (cases "resolve dst len True False (v_mm v)")
    case (Inl e)
    then have "r = Inl e" "quiet Z v1 v'" using write_device_ok [OF q(1) len(2), of dst] wd q(2) by auto
    then show ?thesis using w wd Inl quiet_trans [OF v1(2)] by simp
  next
    case (Inr x)
    obtain pl base where x: "x = (pl, base)" by force
    obtain k where "k \<le> length s" "stored Z pl (unat (dst - base)) (take k s) v1 v'"
      "r = Inr () \<and> k = length s \<or> (\<exists>e. r = Inl e \<and> refused acquire backing_ok e)"
      using write_device_ok [OF q(1) len(2), of dst] wd q(2) Inr x by auto
    then show ?thesis using w wd Inr x quiet_stored [OF v1(2)] by auto
  qed
qed

lemma write_mem_result:
  assumes v: "view_ok Z v" and d: "device_range dst len (v_mm v)" and len: "len \<noteq> 0" "length s = unat len"
    and r: "resolve dst len True False (v_mm v) = Inr (pl, base)" and a: "alloc_of pl (v_mm v) = Some a"
  shows "fst (write_mem dst (Some s) len v) = fst (write_chunks acquire (unat (dst - base)) s (a, backing_st (v_mm v)))"
proof -
  obtain v1 where v1: "host_hit dst len v = (None, v1)" "quiet Z v v1" using device_range_none(1) [OF v d len(1)] by blast
  note q = quietD [OF v1(2)]
  obtain v2 where v2: "in_thread (resolve_bulk dst len True) v1 = (Inr (pl, base), v2)" "v_mm v2 = v_mm v"
    using in_thread_bulk [OF q(1), of dst len True] r q(2) by (auto simp: quiet_def)
  show ?thesis
    using len v1 q(2) v2 a device_range_none(2) [OF v d len(1)]
    by (simp add: write_mem_def write_device_def on_alloc_def Let_def split: prod.splits)
qed

lemma resolve_read:
  assumes inv: "mm_inv Z m" "low_half m" and r: "resolve addr len True s m = Inr x"
  shows "resolve addr len False s m = Inr x"
  using inv
proof (cases rule: address_cases [of _ _ addr])
  case (live b a)
  then show ?thesis using r by (simp add: resolve_live_eq [OF inv live])
next
  case (mapped va p)
  then show ?thesis using r by (auto simp: resolve_map_eq [OF inv mapped] split: if_splits)
qed (use r in simp)

section \<open>A write to try things on\<close>

lemma two_device: "unat addr + unat len < 2 ^ 64 - 1 \<Longrightarrow> device_range addr len (v_mm two_view)" "no_faults two_view"
  by (simp_all add: device_range_def no_faults_def any_stuck_def armed_def two_mm two_fields start_defs)

lemma two_resolve:
  "resolve 0x200000000010 3 True False (v_mm two_view) = Inr (InLive 0x200000000000, 0x200000000000)"
  "resolve 0x200000001000 4 False False (v_mm two_view) = Inr (InLive 0x200000001000, 0x200000001000)"
  by (simp_all add: resolve_def two_mm start_defs extent_def padded_size_def Let_def)

lemma two_write: "\<exists>v'. write_mem 0x200000000010 (Some [1, 2, 3]) 3 two_view = (Inr (), v')"
proof -
  obtain Z where v: "view_ok Z two_view" using view_run_view [OF two_run] by blast
  have a: "alloc_of (InLive 0x200000000000) (v_mm two_view) = Some (set_up 4096 empty_allocation)"
    by (simp add: alloc_of_def two_mm)
  have b: "backing_st (v_mm two_view) = initial_state demo_os" by (simp add: two_mm start_defs)
  have "fst (write_chunks acquire 16 [1, 2, 3] (set_up 4096 empty_allocation, initial_state demo_os)) = Inr ()"
    by (simp add: write_chunks.simps write_piece_def slot_at_def set_up_def empty_allocation_def materialize_def
      demo_acquire Let_def kChunkSize_def split: prod.splits)
  then have "fst (write_mem 0x200000000010 (Some [1, 2, 3]) 3 two_view) = Inr ()"
    using write_mem_result [OF v two_device(1) _ _ two_resolve(1) a, of "[1, 2, 3]"] b by simp
  then show ?thesis by (metis prod.collapse)
qed

section \<open>Bulk reads and writes\<close>

lemma stored_peek:
  assumes v: "view_ok Z v" and st: "stored Z pl off s v v'" and r: "resolve src n False False (v_mm v) = Inr (q, b)"
    and d: "q \<noteq> pl \<or> unat (src - b) + unat n \<le> off \<or> off + length s \<le> unat (src - b)"
  shows "peek src n (v_mm v') = peek src n (v_mm v)"
proof -
  obtain a where a: "alloc_of q (v_mm v) = Some a" using resolve_at [OF v r] by blast
  have "resolve src n False False (v_mm v') = Inr (q, b)" using st r by (simp add: stored_def)
  then show ?thesis using r stored_elsewhere [OF st a d] by (simp add: peek_def)
qed

text \<open>
  C3 What a copy to the device wrote is what a copy from the device reads.
\<close>

theorem write_then_read:
  assumes run: "view_run v" and f: "no_faults v" and d: "device_range dst len (v_mm v)" and len: "length s = unat len"
    and w: "write_mem dst (Some s) len v = (Inr (), v')"
  shows "fst (read_mem dst False len v') = Inr s"
proof (cases "len = 0")
  case True
  then show ?thesis using len by (simp add: read_mem_def)
next
  case False
  obtain Z where v: "view_ok Z v" using view_run_view [OF run] by blast
  note ok = view_okD [OF v]
  obtain pl base where r: "resolve dst len True False (v_mm v) = Inr (pl, base)" and st: "stored Z pl (unat (dst - base)) s v v'"
    using write_mem_device [OF v d False len] w by (auto split: sum.splits prod.splits)
  note rd = resolve_read [OF ok(1,2) r]
  have v': "view_ok Z v'" "v_fault v' = v_fault v" "hosts (v_mm v') = hosts (v_mm v)" using st by (simp_all add: stored_def)
  obtain v2 where "read_mem dst False len v' = (peek dst len (v_mm v'), v2)"
    using read_mem_device [OF v'(1) _ _ False] d f device_range_cong [OF v'(3)] no_faults_cong [OF v'(2)] by blast
  moreover obtain a where a: "alloc_of pl (v_mm v) = Some a" using resolve_at [OF v r] by blast
  moreover have "resolve dst len False False (v_mm v') = Inr (pl, base)" using st rd by (simp add: stored_def)
  ultimately show ?thesis using stored_there [OF st a] len by (simp add: peek_def)
qed

theorem write_then_read_witness:
  "view_run two_view \<and> no_faults two_view \<and> (\<exists>v'. write_mem 0x200000000010 (Some [1, 2, 3]) 3 two_view = (Inr (), v') \<and>
    fst (read_mem 0x200000000010 False 3 v') = Inr [1, 2, 3])"
proof -
  obtain v' where w: "write_mem 0x200000000010 (Some [1, 2, 3]) 3 two_view = (Inr (), v')" using two_write by blast
  show ?thesis using write_then_read [OF two_run two_device(2) two_device(1) _ w] w two_run two_device(2) by simp
qed



text \<open>
  C25 A copy to the device that fails has failed for the reason the lookup gives and changed nothing, or
  the host had no memory left, and then a first part of the bytes was written and nothing else.
\<close>

theorem write_failure:
  assumes run: "view_run v" and d: "device_range dst len (v_mm v)" and len: "length s = unat len"
    and w: "write_mem dst (Some s) len v = (Inl e, v')"
  shows "(resolve dst len True False (v_mm v) = Inl e \<and> v_mm v' = v_mm v) \<or>
    (refused acquire backing_ok e \<and> (\<exists>pl base k. resolve dst len True False (v_mm v) = Inr (pl, base) \<and> k \<le> length s \<and>
       bytes_at (v_mm v') pl (unat (dst - base)) (unat len) = take k s @ bytes_at (v_mm v) pl (unat (dst - base) + k) (unat len - k)))"
proof -
  obtain Z where v: "view_ok Z v" using view_run_view [OF run] by blast
  have "len \<noteq> 0" using w by (auto simp: write_mem_def)
  note spec = write_mem_device [OF v d this len]
  show ?thesis
  proof (cases "resolve dst len True False (v_mm v)")
    case (Inl e')
    then show ?thesis using spec w by (auto simp: quiet_def)
  next
    case (Inr x)
    obtain pl base where x: "x = (pl, base)" by force
    obtain k where k: "k \<le> length s" "stored Z pl (unat (dst - base)) (take k s) v v'" "refused acquire backing_ok e"
      using spec w Inr x by auto
    obtain a where a: "alloc_of pl (v_mm v) = Some a" using resolve_at [OF v Inr [unfolded x]] by blast
    have n: "unat len = k + (unat len - k)" "length (take k s) = k" using k(1) len by simp_all
    have "bytes_at (v_mm v') pl (unat (dst - base)) (unat len) =
        bytes_at (v_mm v') pl (unat (dst - base)) k @ bytes_at (v_mm v') pl (unat (dst - base) + k) (unat len - k)"
      by (subst n(1)) (rule bytes_at_split)
    also have "\<dots> = take k s @ bytes_at (v_mm v) pl (unat (dst - base) + k) (unat len - k)"
      using stored_there [OF k(2) a] stored_elsewhere [OF k(2) a, of "unat (dst - base) + k"] n(2) by simp
    finally show ?thesis using k Inr x by blast
  qed
qed

theorem write_failure_witness:
  "view_run two_view \<and> fst (write_mem 0x200000001128 (Some [1, 2, 3, 4, 5, 6, 7, 8]) 8 two_view) = Inl (Throw OutOfBounds) \<and>
    resolve 0x200000001128 8 True False (v_mm two_view) = Inl (Throw OutOfBounds)"
proof -
  obtain Z where v: "view_ok Z two_view" using view_run_view [OF two_run] by blast
  have r: "resolve 0x200000001128 8 True False (v_mm two_view) = Inl (Throw OutOfBounds)"
    by (simp add: resolve_def two_mm start_defs extent_def padded_size_def Let_def)
  then obtain v' where w: "write_mem 0x200000001128 (Some [1, 2, 3, 4, 5, 6, 7, 8]) 8 two_view = (Inl (Throw OutOfBounds), v')"
    using write_mem_device [OF v two_device(1), of "0x200000001128" 8 "[1, 2, 3, 4, 5, 6, 7, 8]"] by auto
  show ?thesis using write_failure [OF two_run two_device(1) _ w] w two_run r by simp
qed

section \<open>Filling\<close>

lemma fill_device:
  assumes v: "view_ok Z v" and d: "device_range dst len (v_mm v)" and len: "len \<noteq> 0" "pattern \<noteq> []"
    and r: "resolve dst len True False (v_mm v) = Inr (pl, base)"
  shows "fill dst pattern len v = on_alloc pl (fill_chunks acquire release pattern (unat (dst - base)) 0 (unat len)) v"
  using r len device_range_none(2) [OF v d len(1)] by (simp add: fill_def resolve_mut_def)

text \<open>
  C18 A range that was filled reads as the pattern repeated from its start, whatever the chunks it crosses.
\<close>

theorem fill_then_read:
  assumes run: "view_run v" and f: "no_faults v" and d: "device_range dst len (v_mm v)" and p: "pattern \<noteq> []"
    and w: "fill dst pattern len v = (Inr (), v')"
  shows "fst (read_mem dst False len v') = Inr (map (\<lambda>i. pattern ! (i mod length pattern)) [0 ..< unat len])"
proof (cases "len = 0")
  case True
  then show ?thesis by (simp add: read_mem_def)
next
  case False
  obtain Z where v: "view_ok Z v" using view_run_view [OF run] by blast
  note ok = view_okD [OF v]
  obtain pl base where r: "resolve dst len True False (v_mm v) = Inr (pl, base)"
    using w False device_range_none(2) [OF v d False] by (auto simp: fill_def resolve_mut_def split: sum.splits)
  have st: "stored Z pl (unat (dst - base)) (pattern_run pattern 0 (unat len)) v v'"
    using fill_device_ok [OF v p r] w fill_device [OF v d False p r] by auto
  have v': "view_ok Z v'" "v_fault v' = v_fault v" "hosts (v_mm v') = hosts (v_mm v)" using st by (simp_all add: stored_def)
  obtain v2 where "read_mem dst False len v' = (peek dst len (v_mm v'), v2)"
    using read_mem_device [OF v'(1) _ _ False] d f device_range_cong [OF v'(3)] no_faults_cong [OF v'(2)] by blast
  moreover obtain a where a: "alloc_of pl (v_mm v) = Some a" using resolve_at [OF v r] by blast
  moreover have "resolve dst len False False (v_mm v') = Inr (pl, base)" using st resolve_read [OF ok(1,2) r] by (simp add: stored_def)
  ultimately show ?thesis using stored_there [OF st a] by (simp add: peek_def pattern_run_def)
qed

theorem fill_then_read_witness:
  "view_run two_view \<and> (\<exists>v'. fill 0x200000000010 [1, 2] 3 two_view = (Inr (), v') \<and> fst (read_mem 0x200000000010 False 3 v') = Inr [1, 2, 1])"
proof -
  obtain Z where v: "view_ok Z two_view" using view_run_view [OF two_run] by blast
  have a: "alloc_of (InLive 0x200000000000) (v_mm two_view) = Some (set_up 4096 empty_allocation)"
    by (simp add: alloc_of_def two_mm)
  have b: "backing_st (v_mm two_view) = initial_state demo_os" by (simp add: two_mm start_defs)
  have "fst (fill_chunks acquire release [1, 2] 16 0 3 (set_up 4096 empty_allocation, initial_state demo_os)) = Inr ()"
    by (simp add: fill_chunks.simps fill_piece_def slot_at_def set_up_def empty_allocation_def materialize_def
      demo_acquire Let_def kChunkSize_def split: prod.splits)
  then have "fst (fill 0x200000000010 [1, 2] 3 two_view) = Inr ()"
    using fill_device [OF v two_device(1) _ _ two_resolve(1), of "[1, 2]"] a b by (simp add: on_alloc_def Let_def split: prod.splits)
  then obtain v' where w: "fill 0x200000000010 [1, 2] 3 two_view = (Inr (), v')" by (metis prod.collapse)
  show ?thesis using fill_then_read [OF two_run two_device(2) two_device(1) _ w] w two_run by (simp add: upt_rec)
qed

section \<open>Scalars\<close>

lemma resolve_slack:
  assumes inv: "mm_inv Z m" "low_half m" and r: "resolve addr len w False m = Inr x"
  shows "resolve addr len w s m = Inr x"
  using inv
proof (cases rule: address_cases [of _ _ addr])
  case (live b a)
  have "unat (al_size a) \<le> unat (extent s a m)" by (rule extent_padded [OF inv live(1)])
  then show ?thesis using r by (auto simp: resolve_live_eq [OF inv live] extent_def [of False] split: if_splits)
next
  case (mapped va p)
  then show ?thesis using r by (simp add: resolve_map_eq [OF inv mapped])
qed (use r in simp)

lemma scalar_word: "scalar_size n \<Longrightarrow> unat (of_nat n :: u64) = n" "scalar_size n \<Longrightarrow> (of_nat n :: u64) \<noteq> 0"
  by (auto simp: scalar_size_def)

lemma store_scalar_stored:
  assumes v: "view_ok Z v" and f: "no_faults v" and d: "device_range addr (of_nat n) (v_mm v)" and w: "store_scalar addr n x v = (Inr (), v')"
  shows "scalar_size n" "n dvd unat addr"
    "\<exists>pl base. resolve addr (of_nat n) False False (v_mm v) = Inr (pl, base) \<and> stored Z pl (unat (addr - base)) (bytes_of x n) v v'"
proof -
  show n: "scalar_size n" "n dvd unat addr" using w mask_dvd by (auto simp: store_scalar_def split: if_splits)
  have hit: "fst (host_hit addr (of_nat n) v) = None" using device_range_none(1) [OF v d scalar_word(2) [OF n(1)]] by auto
  have "\<not> armed store_armed v" using f by (simp add: no_faults_def)
  then obtain v1 where v1: "quiet Z v v1" and s: "store_scalar addr n x v = (case resolve addr (of_nat n) False False (v_mm v) of
      Inl e \<Rightarrow> (Inl e, v1) | Inr (pl, base) \<Rightarrow> on_alloc pl (chunk_store (unat (addr - base)) n x) v1)"
    using store_scalar_eq [OF v n hit] by blast
  obtain pl base where r: "resolve addr (of_nat n) False False (v_mm v) = Inr (pl, base)" using s w by (auto split: sum.splits)
  have r1: "resolve addr (of_nat n) False False (v_mm v1) = Inr (pl, base)" using r quietD(2) [OF v1] by simp
  have "stored Z pl (unat (addr - base)) (bytes_of x n) v v'"
    using chunk_store_stored [OF quietD(1) [OF v1] r1 n, of x] s w r quiet_stored [OF v1] by auto
  then show "\<exists>pl base. resolve addr (of_nat n) False False (v_mm v) = Inr (pl, base) \<and> stored Z pl (unat (addr - base)) (bytes_of x n) v v'"
    using r by blast
qed

lemma load_scalar_value:
  assumes v: "view_ok Z v" and f: "no_faults v" and d: "device_range addr (of_nat n) (v_mm v)" and n: "scalar_size n" "n dvd unat addr"
    and r: "resolve addr (of_nat n) False False (v_mm v) = Inr (pl, base)"
  shows "\<exists>v'. load_scalar addr n v = (Inr (value_of (bytes_at (v_mm v) pl (unat (addr - base)) n)), v') \<and> quiet Z v v'"
proof -
  have hit: "fst (host_hit addr (of_nat n) v) = None" using device_range_none(1) [OF v d scalar_word(2) [OF n(1)]] by auto
  obtain a where a: "alloc_of pl (v_mm v) = Some a" "unat (addr - base) + n \<le> kChunkSize * length (slots a)"
    using resolve_at [OF v r] scalar_word(1) [OF n(1)] by auto
  then have "unat (addr - base) div kChunkSize < length (slots a)"
    using scalar_dvd(3) [OF n(1)] by (intro less_mult_imp_div_less) (simp add: mult.commute)
  then have w: "load_word pl (unat (addr - base)) n v = Inr (value_of (bytes_at (v_mm v) pl (unat (addr - base)) n))"
    using load_word_val [OF a(1) _ n(1)] resolve_fits(2) [OF v r scalar_dvd(1) [OF n(1)] n(2)] by blast
  have "\<not> any_stuck v" "\<not> armed load_armed v" using f by (simp_all add: no_faults_def)
  then show ?thesis
    using load_scalar_eq [OF v n hit] resolve_slack [OF view_okD(1,2) [OF v] r, of True] w by fastforce
qed

lemma scalar_back:
  assumes v: "view_ok Z v" and f: "no_faults v" and d: "device_range addr (of_nat n) (v_mm v)" and w: "store_scalar addr n x v = (Inr (), v')"
  shows "fst (load_scalar addr n v') = Inr (of_nat (unat x mod 256 ^ n)) \<and> fst (read_mem addr False (of_nat n) v') = Inr (bytes_of x n)"
proof -
  obtain pl base where n: "scalar_size n" "n dvd unat addr" and r: "resolve addr (of_nat n) False False (v_mm v) = Inr (pl, base)"
    and st: "stored Z pl (unat (addr - base)) (bytes_of x n) v v'" using store_scalar_stored [OF v f d w] by blast
  have v': "view_ok Z v'" "v_fault v' = v_fault v" "hosts (v_mm v') = hosts (v_mm v)" using st by (simp_all add: stored_def)
  have d': "device_range addr (of_nat n) (v_mm v')" "no_faults v'" using d f device_range_cong [OF v'(3)] no_faults_cong [OF v'(2)] by simp_all
  have r': "resolve addr (of_nat n) False False (v_mm v') = Inr (pl, base)" using st r by (simp add: stored_def)
  obtain a where a: "alloc_of pl (v_mm v) = Some a" using resolve_at [OF v r] by blast
  have b: "bytes_at (v_mm v') pl (unat (addr - base)) n = bytes_of x n" using stored_there [OF st a] by simp
  have "fst (load_scalar addr n v') = Inr (value_of (bytes_of x n))"
    using load_scalar_value [OF v'(1) d'(2,1) n r'] b by auto
  moreover have "fst (read_mem addr False (of_nat n) v') = Inr (bytes_of x n)"
    using read_mem_device [OF v'(1) d' scalar_word(2) [OF n(1)]] r' b scalar_word(1) [OF n(1)] by (auto simp: peek_def)
  ultimately show ?thesis by (simp add: value_of_bytes_of)
qed

text \<open>
  C17 A scalar that was stored is loaded back, cut to its width, and a copy of the same bytes from the device
  gives its little-endian bytes.
\<close>

theorem scalar_round_trip:
  assumes run: "view_run v" and f: "no_faults v" and d: "device_range addr (of_nat n) (v_mm v)"
    and w: "store_scalar addr n x v = (Inr (), v')"
  shows "fst (load_scalar addr n v') = Inr (of_nat (unat x mod 256 ^ n)) \<and> fst (read_mem addr False (of_nat n) v') = Inr (bytes_of x n)"
proof -
  obtain Z where "view_ok Z v" using view_run_view [OF run] by blast
  then show ?thesis by (rule scalar_back [OF _ f d w])
qed

theorem scalar_round_trip_witness:
  "view_run two_view \<and> (\<exists>v'. store_scalar 0x200000000010 4 0x1122334455 two_view = (Inr (), v') \<and>
    fst (load_scalar 0x200000000010 4 v') = Inr 0x22334455 \<and> fst (read_mem 0x200000000010 False 4 v') = Inr [0x55, 0x44, 0x33, 0x22])"
proof -
  obtain Z where v: "view_ok Z two_view" using view_run_view [OF two_run] by blast
  have a: "alloc_of (InLive 0x200000000000) (v_mm two_view) = Some (set_up 4096 empty_allocation)"
    by (simp add: alloc_of_def two_mm)
  have b: "backing_st (v_mm two_view) = initial_state demo_os" by (simp add: two_mm start_defs)
  have r: "resolve 0x200000000010 4 False False (v_mm two_view) = Inr (InLive 0x200000000000, 0x200000000000)"
    by (simp add: resolve_def two_mm start_defs extent_def padded_size_def Let_def)
  have "fst (chunk_store 16 4 0x1122334455 (set_up 4096 empty_allocation, initial_state demo_os)) = Inr ()"
    by (simp add: chunk_store_def slot_at_def set_up_def empty_allocation_def materialize_def
      demo_acquire Let_def kChunkSize_def split: prod.splits)
  then have "fst (store_scalar 0x200000000010 4 0x1122334455 two_view) = Inr ()"
    using store_scalar_eq [OF v, of 4 "0x200000000010" "0x1122334455"] a b r device_range_none(1) [OF v two_device(1), of "0x200000000010" 4] two_device(2)
    by (auto simp: no_faults_def on_alloc_def Let_def quiet_def scalar_size_def split: prod.splits)
  then obtain v' where w: "store_scalar 0x200000000010 4 0x1122334455 two_view = (Inr (), v')" by (metis prod.collapse)
  show ?thesis using scalar_round_trip [OF two_run two_device(2) _ w] w two_run two_device(1) by (simp add: bytes_of_def le_byte_def upt_rec)
qed

section \<open>Remembered lookups\<close>

text \<open>
  C4 The lookups a thread remembers are transparent: at every point of a run, whatever was freed by other
  threads since, a lookup through them gives what the tables give, and changes no table.
\<close>

theorem remembered_lookups_transparent:
  assumes "view_run v"
  shows "\<exists>v1 v2. in_thread (resolve_scalar addr len w s) v = (resolve addr len w s (v_mm v), v1) \<and> v_mm v1 = v_mm v \<and>
    in_thread (resolve_bulk addr len w) v = (resolve addr len w False (v_mm v), v2) \<and> v_mm v2 = v_mm v"
proof -
  obtain Z where v: "view_ok Z v" using view_run_view [OF assms] by blast
  show ?thesis using in_thread_scalar [OF v, of addr len w s] in_thread_bulk [OF v, of addr len w] by (auto simp: quiet_def)
qed

theorem remembered_lookups_transparent_witness:
  "view_run freed_view \<and> fst (in_thread (resolve_bulk 0x200000000010 4 True) freed_view) = resolve 0x200000000010 4 True False (v_mm freed_view)"
  using remembered_lookups_transparent [OF freed_run, of "0x200000000010" 4 True False] freed_run by auto

end
