(* ===== verification/Device_Batch.thy ===== *)
theory Device_Batch
  imports Device_Memory
begin

text \<open>
  The batched accesses of a warp at every point of a run: what \<^verbatim>\<open>load_batch\<close>,
  \<^verbatim>\<open>store_batch\<close>, \<^verbatim>\<open>store_strided\<close>, \<^verbatim>\<open>load_run\<close>, \<^verbatim>\<open>store_run\<close> and
  \<^verbatim>\<open>copy_to\<close> of \<^verbatim>\<open>src/core/memory.cpp\<close> do when they do not decline is what one
  access at a time does.
\<close>

section \<open>An allocation to try things on\<close>

lemma two_find:
  assumes "table_find addr len (v_mm two_view) = Some b"
  shows "\<exists>v' h. in_thread (find_ordinary addr len hint) two_view = (Inr (Some b, h), v') \<and> v_mm v' = v_mm two_view \<and> v_fault v' = None"
proof -
  obtain Z where v: "view_ok Z two_view" using view_run_view [OF two_run] by blast
  obtain r v' where f: "in_thread (find_ordinary addr len hint) two_view = (r, v')" by force
  have "t_cache_on (v_thread two_view)" by (simp add: two_fields start_view_def new_thread_def)
  then show ?thesis using in_thread_find [OF v f] f assms by (auto simp: quiet_def two_fields)
qed

lemma fst_pair: "fst p = r \<Longrightarrow> (\<And>w. p = (r, w) \<Longrightarrow> thesis) \<Longrightarrow> thesis"
  by (cases p) simp

lemmas two_tables = two_mm start_defs table_find_def set_up_def empty_allocation_def kChunkSize_def
  is_device_va_def kDeviceVaEnd_def kDeviceVaWindows_def kDeviceVaStride_def host_map_free_span_def scalar_size_def batch_faults_clear_def any_stuck_def armed_def two_fields
  slot_at_def set_slot_def all_bits_def Let_def

section \<open>Loads\<close>

text \<open>
  C11 A batch of loads that is answered is answered as the loads would be one by one, and changes nothing.
\<close>

theorem load_batch_is_loads:
  assumes run: "view_run v" and b: "load_batch addrs n hint v = (Inr (Some out, hint'), v')"
  shows "fst (load_each addrs n v) = Inr out \<and> v_mm v' = v_mm v"
proof -
  obtain Z where v: "view_ok Z v" using view_run_view [OF run] by blast
  show ?thesis using load_batch_one_by_one [OF v b] by (auto simp: quiet_def)
qed

theorem load_batch_is_loads_witness:
  "view_run two_view \<and> (\<exists>h v'. load_batch [0x200000000010, 0x200000000020] 4 None two_view = (Inr (Some [0, 0], h), v') \<and>
    fst (load_each [0x200000000010, 0x200000000020] 4 two_view) = Inr [0, 0])"
proof -
  obtain v' h where f: "in_thread (find_ordinary 0x200000000010 4 None) two_view = (Inr (Some 0x200000000000, h), v')" "v_mm v' = v_mm two_view"
    using two_find [of "0x200000000010" 4 "0x200000000000" None] by (auto simp: two_tables)
  have "load_batch [0x200000000010, 0x200000000020] 4 None two_view = (Inr (Some [0, 0], h), v')"
    using f by (simp add: load_batch_def gather_loads_def gather_lane_def two_tables)
  then show ?thesis using load_batch_is_loads [OF two_run] two_run by blast
qed

section \<open>Stores\<close>

text \<open>
  C12 A batch of stores that is not declined leaves the memory that the same stores leave one by one, and stops
  where and as they would; one that is declined leaves the memory as it was.
\<close>

theorem store_batch_is_stores:
  assumes run: "view_run v" and b: "store_batch addrs n vals hint v = (r, w)" and len: "length vals = length addrs"
  shows "\<exists>e hint'. r = Inr (e, hint') \<and> (if e = Declined then v_mm w = v_mm v
    else \<exists>w1. store_each n 0 (zip addrs vals) v = (e, w1) \<and> v_mm w1 = v_mm w)"
proof -
  obtain Z where v: "view_ok Z v" using view_run_view [OF run] by blast
  show ?thesis using store_batch_one_by_one [OF v b len] by auto
qed

theorem store_batch_is_stores_witness:
  "view_run two_view \<and> (\<exists>h w w1. store_batch [0x200000000010, 0x200000000020] 4 [5, 6] None two_view = (Inr (Made, h), w) \<and>
    store_each 4 0 [(0x200000000010, 5), (0x200000000020, 6)] two_view = (Made, w1) \<and> v_mm w1 = v_mm w)"
proof -
  obtain v' h where f: "in_thread (find_ordinary 0x200000000010 4 None) two_view = (Inr (Some 0x200000000000, h), v')" "v_mm v' = v_mm two_view" "v_fault v' = None"
    using two_find [of "0x200000000010" 4 "0x200000000000" None] by (auto simp: two_tables)
  have b: "batch_ok [0x200000000010, 0x200000000020] 4 True None two_view = (Inr (Some 0x200000000000, h), v')"
    using f by (simp add: batch_ok_def batch_addresses_ok_def two_tables)
  have m: "fst (on_alloc (InLive 0x200000000000) (no_throw (store_batch_in 4 0 (lanes 0x200000000000 [0x200000000010, 0x200000000020] [5, 6]))) v') = Inr Made"
    using f by (simp add: on_alloc_def alloc_of_def no_throw_def lanes_def chunk_store_def materialize_def demo_acquire two_tables)
  obtain w where "on_alloc (InLive 0x200000000000) (no_throw (store_batch_in 4 0 (lanes 0x200000000000 [0x200000000010, 0x200000000020] [5, 6]))) v' = (Inr Made, w)"
    using m by (rule fst_pair)
  then have "store_batch [0x200000000010, 0x200000000020] 4 [5, 6] None two_view = (Inr (Made, h), w)"
    using b by (simp add: store_batch_def)
  then show ?thesis using store_batch_is_stores [OF two_run] two_run by fastforce
qed

text \<open>
  C13 The same of stores at a stride, whose addresses are the first one plus a multiple of the stride.
\<close>

theorem store_strided_is_stores:
  assumes run: "view_run v" and b: "store_strided a0 stride n vals hint v = (r, w)"
  shows "\<exists>e hint'. r = Inr (e, hint') \<and> (if e = Declined then v_mm w = v_mm v
    else \<exists>w1. store_each n 0 (zip (strided_addrs a0 stride (length vals)) vals) v = (e, w1) \<and> v_mm w1 = v_mm w)"
proof -
  obtain Z where v: "view_ok Z v" using view_run_view [OF run] by blast
  show ?thesis using store_strided_one_by_one [OF v b] by auto
qed

theorem store_strided_is_stores_witness:
  "view_run two_view \<and> (\<exists>h w w1. store_strided 0x200000000020 (- 16) 4 [5, 6] None two_view = (Inr (Made, h), w) \<and>
    store_each 4 0 [(0x200000000020, 5), (0x200000000010, 6)] two_view = (Made, w1) \<and> v_mm w1 = v_mm w)"
proof -
  obtain v' h where f: "in_thread (find_ordinary 0x200000000020 4 None) two_view = (Inr (Some 0x200000000000, h), v')" "v_mm v' = v_mm two_view" "v_fault v' = None"
    using two_find [of "0x200000000020" 4 "0x200000000000" None] by (auto simp: two_tables)
  have m: "fst (on_alloc (InLive 0x200000000000) (no_throw (strided_loop 4 (- 16) [5, 6] 0x20 0)) v') = Inr Made"
    using f by (simp add: on_alloc_def alloc_of_def no_throw_def strided_loop.simps strided_real.simps set_slot_def chunk_store_def materialize_def demo_acquire two_tables)
  obtain w where "on_alloc (InLive 0x200000000000) (no_throw (strided_loop 4 (- 16) [5, 6] 0x20 0)) v' = (Inr Made, w)"
    using m by (rule fst_pair)
  then have "store_strided 0x200000000020 (- 16) 4 [5, 6] None two_view = (Inr (Made, h), w)"
    using f by (simp add: store_strided_def kHalf_def two_tables)
  then show ?thesis using store_strided_is_stores [OF two_run] two_run by (fastforce simp: strided_addrs_def)
qed

section \<open>Runs and copies\<close>

lemma no_faults_armed: "no_faults v \<Longrightarrow> \<not> access_faults_armed v"
  by (simp add: no_faults_def access_faults_armed_def any_stuck_def)

text \<open>
  C24 A run of loads that is answered gives the bytes a copy from the device gives; a run of stores that is
  answered leaves bytes that a copy from the device reads back.
\<close>

theorem runs_are_copies:
  assumes run: "view_run v" and f: "no_faults v" and d: "device_range addr (of_nat (length s)) (v_mm v)" and len: "length s < 2 ^ 64"
  shows "(load_run addr (of_nat (length s)) unit hint v = (Inr (Some s, hint'), v') \<longrightarrow>
      fst (read_mem addr False (of_nat (length s)) v) = Inr s \<and> v_mm v' = v_mm v) \<and>
    (store_run addr s unit hint v = (Inr (True, hint'), v') \<longrightarrow> fst (read_mem addr False (of_nat (length s)) v') = Inr s)"
proof (cases "s = []")
  case True
  then show ?thesis by (simp add: read_mem_def load_run_def)
next
  case False
  let ?n = "of_nat (length s) :: u64"
  have n: "unat ?n = length s" "?n \<noteq> 0" using len False unat_of_nat64 [OF len] by (auto simp flip: unat_0)
  obtain Z where v: "view_ok Z v" using view_run_view [OF run] by blast
  have "fst (read_mem addr False ?n v) = Inr s \<and> v_mm v' = v_mm v" if "load_run addr ?n unit hint v = (Inr (Some s, hint'), v')"
    using load_run_peek [OF v that n(2)] read_mem_device [OF v d f n(2)] by (auto simp: quiet_def)
  moreover have "fst (read_mem addr False ?n v') = Inr s" if st: "store_run addr s unit hint v = (Inr (True, hint'), v')"
  proof -
    obtain base where b: "resolve addr ?n True False (v_mm v) = Inr (InLive base, base)" "stored Z (InLive base) (unat (addr - base)) s v v'"
      using store_run_stored [OF v st False len] by auto
    have v': "view_ok Z v'" "v_fault v' = v_fault v" "hosts (v_mm v') = hosts (v_mm v)" using b(2) by (simp_all add: stored_def)
    obtain a where a: "alloc_of (InLive base) (v_mm v) = Some a" using resolve_at [OF v b(1)] by blast
    have "resolve addr ?n False False (v_mm v') = Inr (InLive base, base)"
      using b resolve_read [OF view_okD(1,2) [OF v] b(1)] by (simp add: stored_def)
    then have "peek addr ?n (v_mm v') = Inr s" using stored_there [OF b(2) a] n(1) by (simp add: peek_def)
    then show ?thesis
      using read_mem_device [OF v'(1) _ _ n(2), of addr] d f device_range_cong [OF v'(3)] no_faults_cong [OF v'(2)] by auto
  qed
  ultimately show ?thesis by blast
qed

theorem runs_are_copies_witness:
  "view_run two_view \<and> (\<exists>h v'. load_run 0x200000000010 4 4 None two_view = (Inr (Some [0, 0, 0, 0], h), v') \<and>
    fst (read_mem 0x200000000010 False 4 two_view) = Inr [0, 0, 0, 0])"
proof -
  obtain v' h where f: "in_thread (find_ordinary 0x200000000010 4 None) two_view = (Inr (Some 0x200000000000, h), v')" "v_mm v' = v_mm two_view"
    using two_find [of "0x200000000010" 4 "0x200000000000" None] by (auto simp: two_tables)
  have rep: "replicate 4 (0 :: u8) = [0, 0, 0, 0]" by (simp add: eval_nat_numeral)
  have load: "run_load \<lparr>al_size = 4096, chunk_count = Suc 0, slots = [Untouched], external = False, card_valid = 0\<rparr> 16 4 4 = Inr [0, 0, 0, 0]"
    by (subst run_load.simps, subst run_load.simps) (simp add: two_tables rep)
  have l: "load_run 0x200000000010 4 4 None two_view = (Inr (Some [0, 0, 0, 0], h), v')"
    using f by (simp add: load_run_def run_allocation_def load access_faults_armed_def may_contain_def two_tables)
  show ?thesis using runs_are_copies [OF two_run two_device(2) two_device(1), of "0x200000000010" "[0, 0, 0, 0]" 4 None h v'] l two_run by simp
qed

lemma run_allocation_found:
  assumes v: "view_ok Z v" and t: "table_find addr len (v_mm v) = Some base" and f: "\<not> access_faults_armed v" "\<not> may_contain (hosts (v_mm v)) addr"
  shows "\<exists>h v'. run_allocation addr len 1 hint v = (Inr (Some base, h), v') \<and> quiet Z v v'"
proof -
  obtain r v' where r: "in_thread (find_ordinary addr len hint) v = (r, v')" by force
  obtain a where a: "om_floor (live (v_mm v)) addr = Some (base, a)" "\<not> (addr - base \<ge> al_size a \<or> len > al_size a - (addr - base) \<or> card_valid a \<noteq> 0)"
    using t by (auto simp: table_find_def not_le not_less split: option.splits if_splits)
  obtain h where h: "quiet Z v v'" "r = Inr (if t_cache_on (v_thread v) then Some base else None, h)" using in_thread_find [OF v r] t by auto
  show ?thesis using h a r f quietD(2) [OF h(1)] by (cases "t_cache_on (v_thread v)") (auto simp: run_allocation_def scalar_size_def)
qed

lemma copy_to_stored:
  assumes v: "view_ok Z v" and c: "copy_to dst src len v = (Inr True, v')" and len: "len \<noteq> 0"
  shows "\<exists>sbase dbase. resolve src len False False (v_mm v) = Inr (InLive sbase, sbase) \<and> resolve dst len True False (v_mm v) = Inr (InLive dbase, dbase) \<and>
    stored Z (InLive dbase) (unat (dst - dbase)) (bytes_at (v_mm v) (InLive sbase) (unat (src - sbase)) (unat len)) v v'"
proof -
  obtain q1 v1 where r1: "run_allocation src len 1 None v = (q1, v1)" by force
  obtain q2 v2 where r2: "run_allocation dst len 1 None v1 = (q2, v2)" by force
  note s1 = run_allocation_spec [OF v r1]
  have v1: "view_ok Z v1" "v_mm v1 = v_mm v" using s1 by (auto simp: quiet_def)
  note s2 = run_allocation_spec [OF v1(1) r2]
  have q: "quiet Z v v2" using s1 s2 quiet_trans by blast
  have go: "\<not> (armed copy_armed v \<or> host_in_reach src len v \<or> host_in_reach dst len v)" using c len by (auto simp: copy_to_def split: if_splits)
  note step = copy_to_def [of dst src len v, unfolded if_not_P [OF len] if_not_P [OF go] r1]
  obtain sbase sa h1 where f1: "q1 = Inr (Some sbase, h1)" "table_find src len (v_mm v) = Some sbase" "om_find (live (v_mm v)) sbase = Some sa"
    using s1 s2 c r2 unfolding step by force
  obtain dbase da h2 where f2: "q2 = Inr (Some dbase, h2)" "table_find dst len (v_mm v) = Some dbase" "om_find (live (v_mm v)) dbase = Some da"
    using s2 c r2 v1(2) unfolding step f1(1) by force
  note m2 = quietD(2) [OF q]
  note ss = live_at [OF v f1(2,3)] and ds = live_at [OF v f2(2,3)]
  have body: "\<not> (sbase = dbase \<and> src < dst + len \<and> dst < src + len)"
    "then_do (copy_loop sbase dbase (unat (src - sbase)) (unat (dst - dbase)) (unat len) v2) (\<lambda>_ v. (Inr True, v)) = (Inr True, v')"
    using c r2 f1(3) f2(1,3) m2 unfolding step f1(1) by (simp_all split: if_splits)
  have "unat src + unat len < 2 ^ 64" "unat dst + unat len < 2 ^ 64"
    using ss(4-6) ds(4-6) live_span(1) [OF view_okD(1) [OF v] f1(3)] live_span(1) [OF view_okD(1) [OF v] f2(3)] by linarith+
  then have apart: "sbase = dbase \<Longrightarrow> unat (src - sbase) + unat len \<le> unat (dst - dbase) \<or> unat (dst - dbase) + unat len \<le> unat (src - sbase)"
    using body(1) ss(4,5) ds(4,5) by (auto simp: u64_simps unat_add64)
  obtain r w k where l: "copy_loop sbase dbase (unat (src - sbase)) (unat (dst - dbase)) (unat len) v2 = (r, w)"
    "stored Z (InLive dbase) (unat (dst - dbase)) (take k (bytes_at (v_mm v2) (InLive sbase) (unat (src - sbase)) (unat len))) v2 w"
    "r = Inr () \<and> k = unat len \<or> (\<exists>e. r = Inl e \<and> refused acquire backing_ok e)"
    using copy_loop_stored [OF quietD(1) [OF q] f1(3) [folded m2] f2(3) [folded m2] ss(6) ds(6) apart] by blast
  have "r = Inr ()" "k = unat len" "w = v'" using l(1,3) body(2) by auto
  moreover have "length (bytes_at (v_mm v) (InLive sbase) (unat (src - sbase)) (unat len)) = unat len"
    using ss(2) by (simp add: bytes_at_def)
  ultimately show ?thesis using l(2) m2 quiet_stored [OF q] ss(1) ds(1) by auto
qed

text \<open>
  C14 A copy within the device that is made leaves at the destination the bytes the source held.
\<close>

theorem copy_to_copies:
  assumes run: "view_run v" and f: "no_faults v" and d: "device_range src len (v_mm v)" "device_range dst len (v_mm v)"
    and c: "copy_to dst src len v = (Inr True, v')"
  shows "fst (read_mem dst False len v') = fst (read_mem src False len v)"
proof (cases "len = 0")
  case True
  then show ?thesis by (simp add: read_mem_def)
next
  case False
  obtain Z where v: "view_ok Z v" using view_run_view [OF run] by blast
  obtain sbase dbase where s: "resolve src len False False (v_mm v) = Inr (InLive sbase, sbase)" "resolve dst len True False (v_mm v) = Inr (InLive dbase, dbase)"
    "stored Z (InLive dbase) (unat (dst - dbase)) (bytes_at (v_mm v) (InLive sbase) (unat (src - sbase)) (unat len)) v v'"
    using copy_to_stored [OF v c False] by blast
  have v': "view_ok Z v'" "v_fault v' = v_fault v" "hosts (v_mm v') = hosts (v_mm v)" using s(3) by (simp_all add: stored_def)
  obtain a sa where a: "alloc_of (InLive dbase) (v_mm v) = Some a" "alloc_of (InLive sbase) (v_mm v) = Some sa"
    using resolve_at [OF v s(1)] resolve_at [OF v s(2)] by blast
  have "length (bytes_at (v_mm v) (InLive sbase) (unat (src - sbase)) (unat len)) = unat len" using a(2) by (simp add: bytes_at_def)
  moreover have "resolve dst len False False (v_mm v') = Inr (InLive dbase, dbase)"
    using s(3) resolve_read [OF view_okD(1,2) [OF v] s(2)] by (simp add: stored_def)
  ultimately have "peek dst len (v_mm v') = peek src len (v_mm v)" using stored_there [OF s(3) a(1)] s(1) by (simp add: peek_def)
  moreover have "fst (read_mem dst False len v') = peek dst len (v_mm v')" "fst (read_mem src False len v) = peek src len (v_mm v)"
    using read_mem_device [OF v'(1) _ _ False] read_mem_device [OF v d(1) f False] d(2) f device_range_cong [OF v'(3)] no_faults_cong [OF v'(2)]
    by fastforce+
  ultimately show ?thesis by simp
qed

theorem copy_to_copies_witness:
  "view_run two_view \<and> (\<exists>v'. copy_to 0x200000001000 0x200000000010 4 two_view = (Inr True, v') \<and>
    fst (read_mem 0x200000001000 False 4 v') = fst (read_mem 0x200000000010 False 4 two_view))"
proof -
  let ?a = "\<lparr>al_size = 4096, chunk_count = Suc 0, slots = [Untouched], external = False, card_valid = 0\<rparr>"
  let ?b = "\<lparr>al_size = 300, chunk_count = Suc 0, slots = [Untouched], external = False, card_valid = 0\<rparr>"
  obtain Z where v: "view_ok Z two_view" using view_run_view [OF two_run] by blast
  have no: "\<not> access_faults_armed v" "\<not> may_contain (hosts (v_mm v)) addr" if "v_mm v = v_mm two_view" "v_fault v = v_fault two_view" for v addr
    using that by (simp_all add: access_faults_armed_def may_contain_def two_tables)
  have t: "table_find 0x200000000010 4 (v_mm two_view) = Some 0x200000000000" "table_find 0x200000001000 4 (v_mm two_view) = Some 0x200000001000"
    by (simp_all add: two_tables)
  obtain h1 v1 where r1: "run_allocation 0x200000000010 4 1 None two_view = (Inr (Some 0x200000000000, h1), v1)" "quiet Z two_view v1"
    using run_allocation_found [OF v t(1) no] by blast
  note q1 = quietD [OF r1(2)]
  obtain h2 v2 where r2: "run_allocation 0x200000001000 4 1 None v1 = (Inr (Some 0x200000001000, h2), v2)" "quiet Z v1 v2"
    using run_allocation_found [OF q1(1) _ no [OF q1(2,3)]] t(2) q1(2) by metis
  have m: "v_mm v2 = v_mm two_view" using q1(2) quietD(2) [OF r2(2)] by simp
  have l: "om_find (live (v_mm v2)) 0x200000000000 = Some ?a" "om_find (live (v_mm v2)) 0x200000001000 = Some ?b" unfolding m by (simp_all add: two_tables)
  have stop: "copy_loop sb db so d 0 u = (Inr (), u)" for sb db so d u by (subst copy_loop.simps) simp
  have "fst (copy_loop 0x200000000000 0x200000001000 16 0 4 v2) = Inr ()"
    by (subst copy_loop.simps)
      (simp add: l stop on_alloc_def alloc_of_def write_piece_def materialize_def demo_acquire two_tables m)
  then obtain v' where c: "copy_loop 0x200000000000 0x200000001000 16 0 4 v2 = (Inr (), v')" by (rule fst_pair)
  have "copy_to 0x200000001000 0x200000000010 4 two_view = (Inr True, v')"
    using r1(1) r2(1) l c no(2) [of two_view] by (simp add: copy_to_def host_in_reach_def armed_def two_fields del: One_nat_def)
  then show ?thesis using copy_to_copies [OF two_run two_device(2) two_device(1) two_device(1)] two_run by fastforce
qed

end
