(* ===== verification/Device_Vmm.thy ===== *)
theory Device_Vmm
  imports Device_Memory
begin

text \<open>
  Virtual memory management at every point of a run: the loops over mappings end, two mappings of one handle
  show the same memory, access is what was granted, and where the code grants or allows more than it says.
\<close>

section \<open>A device with two mappings of one handle\<close>

text \<open>
  Four megabytes of address space, two megabytes of memory, mapped twice; the first mapping may be read and
  written, the second only read.
\<close>

definition vm_calls :: "mm_call list" where
  "vm_calls = [Reserve 0x400000 0, CreateHandle 0x200000 0 False, Map 0x200000000000 0x200000 0 1,
     Map 0x200000200000 0x200000 0 1, SetAccess 0x200000000000 0x200000 True True, SetAccess 0x200000200000 0x200000 True False]"

definition vm_view :: view where
  "vm_view = fold called vm_calls start_view"

definition vm_handle :: "u32 \<Rightarrow> vhandle" where
  "vm_handle n = (new_handle 0x200000 0 False)\<lparr>vh_mapped := n\<rparr>"

definition vm_map :: "bool \<Rightarrow> bool \<Rightarrow> mapping" where
  "vm_map readable writable = \<lparr>mp_size = 0x200000, mp_offset = 0, mp_handle = 1, mp_readable = readable, mp_writable = writable\<rparr>"

definition vm_state :: "u64 \<Rightarrow> (u64, vhandle) omap \<Rightarrow> (u64, mapping) omap \<Rightarrow> epochs \<Rightarrow> mm" where
  "vm_state n hs maps e = (v_mm start_view)\<lparr>next_va := 0x200000400000, high_water := 0x200000400000, used := n * 0x200000 - 0x200000,
     reserved := [(0x200000000000, 0x400000)], next_handle := n, handles := hs, vmaps := maps,
     usage_log := (if n = 1 then [] else [0x200000]), table_epochs := e\<rparr>"

text \<open>A call under the table lock draws epochs that no fresh thread remembers.\<close>

lemma next_epoch_high: "fst (next_epoch r) AND kCountMask = 0 \<and> fst (next_epoch r) \<noteq> 0"
  by (auto simp: next_epoch_def Let_def kCountMask_def and.assoc)

lemma next_epoch_fresh: "drop_bit 16 (fst (next_epoch r)) \<noteq> 0" "fst (next_epoch r) \<noteq> - 1"
proof -
  have "x = 0" if x: "drop_bit 16 x = 0" "x AND kCountMask = 0" for x :: u64
  proof -
    have "take_bit 16 x = x AND kCountMask" by (simp add: take_bit_eq_mask kCountMask_def mask_eq_exp_minus_1)
    then have "x = push_bit 16 (drop_bit 16 x) + 0" using bits_ident [of 16 x] x by simp
    then show "x = 0" using x(1) by simp
  qed
  then show "drop_bit 16 (fst (next_epoch r)) \<noteq> 0" using next_epoch_high [of r] by blast
  show "fst (next_epoch r) \<noteq> - 1" using next_epoch_high [of r] by (auto simp: kCountMask_def)
qed

lemma exclusive_permitted:
  assumes c: "events c (v_mm v) = [Voided, Voided]" "after c (v_mm v) = snd (exclusive f (v_mm v))" "allowed c (v_mm v)" "spacious (v_mm v)"
    and t: "t_mem (v_thread v) = empty_lookups" and low: "low_half (after c (v_mm v))"
  shows "permitted c v"
proof -
  have "unlike 0 (drawn (table_epochs (v_mm v)) [Voided, Voided])"
    using next_epoch_fresh(1) by (simp add: unlike_def draws_def new_stamp_def kRing_def)
  then have "no_clash (events c (v_mm v)) v" using c(1) t by (simp add: no_clash_def empty_lookups_def)
  moreover have "stamp (table_epochs (after c (v_mm v))) \<noteq> - 1"
    unfolding c(2) using next_epoch_fresh(2) by (simp add: exclusive_def void_lookups_def new_stamp_def split: prod.splits)
  ultimately show ?thesis using c low by (simp add: permitted_def)
qed

lemmas vm_defs = exclusive_def void_lookups_def vm_state_def start_defs kVmmGranularity_def round_up_def kDeviceVaStride_def
  om_emplace_def Let_def over_capacity_def notify_usage_def

lemma vm_reserve: "\<exists>e. after (Reserve 0x400000 0) (v_mm start_view) = vm_state 1 [] [] e"
  by (simp add: vm_defs reserve_def reserve_locked_def)

lemma vm_create: "\<exists>e. after (CreateHandle 0x200000 0 False) (vm_state 1 [] [] e0) = vm_state 2 [(1, vm_handle 0)] [] e"
  by (simp add: vm_defs create_handle_def create_locked_def add_handle_def new_handle_def vm_handle_def)

lemma vm_map_first:
  "\<exists>e. after (Map 0x200000000000 0x200000 0 1) (vm_state 2 [(1, vm_handle 0)] [] e0) =
    vm_state 2 [(1, vm_handle 1)] [(0x200000000000, vm_map False False)] e"
  by (simp add: vm_defs map_mem_def map_locked_def inside_reservation_def range_mapped_def new_handle_def vm_handle_def vm_map_def)

lemma vm_map_second:
  "\<exists>e. after (Map 0x200000200000 0x200000 0 1) (vm_state 2 [(1, vm_handle 1)] [(0x200000000000, vm_map False False)] e0) =
    vm_state 2 [(1, vm_handle 2)] [(0x200000000000, vm_map False False), (0x200000200000, vm_map False False)] e"
  by (simp add: vm_defs map_mem_def map_locked_def inside_reservation_def range_mapped_def new_handle_def vm_handle_def vm_map_def)

lemma vm_access_first:
  "\<exists>e. after (SetAccess 0x200000000000 0x200000 True True)
      (vm_state 2 hs [(0x200000000000, vm_map False False), (0x200000200000, vm_map False False)] e0) =
    vm_state 2 hs [(0x200000000000, vm_map True True), (0x200000200000, vm_map False False)] e"
  by (simp add: vm_defs set_access_def set_access_locked_def access_loop.simps vm_map_def)

lemma vm_access_second:
  "\<exists>e. after (SetAccess 0x200000200000 0x200000 True False)
      (vm_state 2 hs [(0x200000000000, vm_map True True), (0x200000200000, vm_map False False)] e0) =
    vm_state 2 hs [(0x200000000000, vm_map True True), (0x200000200000, vm_map True False)] e"
  by (simp add: vm_defs set_access_def set_access_locked_def access_loop.simps vm_map_def)

lemma vm_spacious: "length maps < 100 \<Longrightarrow> n < 100 \<Longrightarrow> spacious (vm_state n hs maps e)" "low_half (vm_state n hs maps e)" "spacious (v_mm start_view)"
  by (simp_all add: vm_defs spacious_def modest_def low_half_def word_less_nat_alt unat_u64_lt)

lemma vm_call:
  assumes v: "view_run v" "v_mm v = m" "v_thread v = v_thread start_view" "spacious m" and c: "\<exists>e. after c m = vm_state n hs maps e"
    and x: "events c m = [Voided, Voided]" "after c m = snd (exclusive f m)" "allowed c m"
  shows "view_run (called c v) \<and> (\<exists>e. v_mm (called c v) = vm_state n hs maps e) \<and> v_thread (called c v) = v_thread start_view"
proof -
  have "low_half (after c m)" using c vm_spacious(2) by auto
  moreover have "t_mem (v_thread v) = empty_lookups" using v(3) by (simp add: start_view_def new_thread_def)
  ultimately have "permitted c v" using exclusive_permitted [of c v f] v x by simp
  then show ?thesis using view_run.step [OF v(1) permitted_step] v c by simp
qed

lemma vm_step:
  assumes v: "view_run v" "v_mm v = vm_state n hs maps e0" "v_thread v = v_thread start_view" and n: "length maps < 100" "n < 100"
    and c: "\<exists>e. after c (vm_state n hs maps e0) = vm_state n' hs' maps' e"
    and x: "\<And>m. events c m = [Voided, Voided]" "\<And>m. after c m = snd (exclusive f m)" "\<And>m. allowed c m"
  obtains e where "view_run (called c v)" "v_mm (called c v) = vm_state n' hs' maps' e" "v_thread (called c v) = v_thread start_view"
  using vm_call [OF v vm_spacious(1) [OF n] c x(1) x(2) x(3)] by blast

lemmas vm_ops = create_handle_def map_mem_def set_access_def reserve_def

lemma vm_view: "view_run vm_view"
  "\<exists>e. v_mm vm_view = vm_state 2 [(1, vm_handle 2)] [(0x200000000000, vm_map True True), (0x200000200000, vm_map True False)] e"
  "v_fault vm_view = None"
proof -
  obtain e1 where v1: "view_run (called (vm_calls ! 0) start_view)" "v_mm (called (vm_calls ! 0) start_view) = vm_state 1 [] [] e1"
    "v_thread (called (vm_calls ! 0) start_view) = v_thread start_view"
    using vm_call [OF start_run refl refl vm_spacious(3) vm_reserve, of "reserve_locked 0x400000 0"]
    by (auto simp: vm_calls_def reserve_def)
  define w1 where "w1 = called (vm_calls ! 0) start_view"
  obtain e2 where v2: "view_run (called (vm_calls ! 1) w1)" "v_mm (called (vm_calls ! 1) w1) = vm_state 2 [(1, vm_handle 0)] [] e2"
    "v_thread (called (vm_calls ! 1) w1) = v_thread start_view"
    by (rule vm_step [OF v1 [folded w1_def] _ _ vm_create, of "create_locked 0x200000 0 False"]) (simp_all add: vm_calls_def vm_ops)
  define w2 where "w2 = called (vm_calls ! 1) w1"
  obtain e3 where v3: "view_run (called (vm_calls ! 2) w2)" "v_mm (called (vm_calls ! 2) w2) = vm_state 2 [(1, vm_handle 1)] [(0x200000000000, vm_map False False)] e3"
    "v_thread (called (vm_calls ! 2) w2) = v_thread start_view"
    by (rule vm_step [OF v2 [folded w2_def] _ _ vm_map_first, of "map_locked 0x200000000000 0x200000 0 1"]) (simp_all add: vm_calls_def vm_ops)
  define w3 where "w3 = called (vm_calls ! 2) w2"
  obtain e4 where v4: "view_run (called (vm_calls ! 3) w3)"
    "v_mm (called (vm_calls ! 3) w3) = vm_state 2 [(1, vm_handle 2)] [(0x200000000000, vm_map False False), (0x200000200000, vm_map False False)] e4"
    "v_thread (called (vm_calls ! 3) w3) = v_thread start_view"
    by (rule vm_step [OF v3 [folded w3_def] _ _ vm_map_second, of "map_locked 0x200000200000 0x200000 0 1"]) (simp_all add: vm_calls_def vm_ops)
  define w4 where "w4 = called (vm_calls ! 3) w3"
  obtain e5 where v5: "view_run (called (vm_calls ! 4) w4)"
    "v_mm (called (vm_calls ! 4) w4) = vm_state 2 [(1, vm_handle 2)] [(0x200000000000, vm_map True True), (0x200000200000, vm_map False False)] e5"
    "v_thread (called (vm_calls ! 4) w4) = v_thread start_view"
    by (rule vm_step [OF v4 [folded w4_def] _ _ vm_access_first, of "set_access_locked 0x200000000000 0x200000 True True"]) (simp_all add: vm_calls_def vm_ops)
  define w5 where "w5 = called (vm_calls ! 4) w4"
  obtain e6 where v6: "view_run (called (vm_calls ! 5) w5)"
    "v_mm (called (vm_calls ! 5) w5) = vm_state 2 [(1, vm_handle 2)] [(0x200000000000, vm_map True True), (0x200000200000, vm_map True False)] e6"
    by (rule vm_step [OF v5 [folded w5_def] _ _ vm_access_second, of "set_access_locked 0x200000200000 0x200000 True False"]) (simp_all add: vm_calls_def vm_ops)
  have "vm_view = called (vm_calls ! 5) w5"
    by (simp add: vm_view_def vm_calls_def w1_def w2_def w3_def w4_def w5_def)
  then show "view_run vm_view" "\<exists>e. v_mm vm_view = vm_state 2 [(1, vm_handle 2)] [(0x200000000000, vm_map True True), (0x200000200000, vm_map True False)] e"
    using v6 by auto
  show "v_fault vm_view = None" by (simp add: vm_view_def vm_calls_def start_view_def)
qed

lemma vm_tables:
  "vmaps (v_mm vm_view) = [(0x200000000000, vm_map True True), (0x200000200000, vm_map True False)]"
  "handles (v_mm vm_view) = [(1, vm_handle 2)]" "backing_st (v_mm vm_view) = initial_state demo_os" "hms (hosts (v_mm vm_view)) = []"
  using vm_view(2) by (auto simp: vm_state_def start_defs)

lemma vm_device: "unat addr + unat len < 2 ^ 64 - 1 \<Longrightarrow> device_range addr len (v_mm vm_view)" "no_faults vm_view"
  by (simp_all add: device_range_def no_faults_def any_stuck_def armed_def vm_tables vm_view(3))

lemma vm_memory: "alloc_of (InHandle 1) (v_mm vm_view) = Some (vh_mem (vm_handle 2))"
  by (simp add: alloc_of_def vm_tables)

section \<open>Loops over mappings\<close>

text \<open>
  C20 The loops of \<^verbatim>\<open>unmap\<close> and \<^verbatim>\<open>set_access\<close> end on every range, also on one that
  wraps round the end of the address space. An \<^verbatim>\<open>unmap\<close> that fails changes no mapping; one that
  succeeds removes exactly the mappings that start in the range.
\<close>

theorem vmm_loops_end:
  assumes run: "view_run v"
  shows "(\<exists>r m. unmap va sz (v_mm v) = (r, m) \<and>
      (r = Inl (Throw InvalidValue) \<and> vmaps m = vmaps (v_mm v) \<or>
       r = Inr () \<and> vmaps m = filter (\<lambda>e. \<not> (va \<le> fst e \<and> fst e < va + sz)) (vmaps (v_mm v)))) \<and>
    fst (set_access va sz rd wr (v_mm v)) \<in> {Inr (), Inl (Throw InvalidValue)}"
proof -
  obtain Z where v: "view_ok Z v" using view_run_view [OF run] by blast
  have inv: "mm_inv Z (void_lookups (v_mm v))" using view_okD(1) [OF v] by simp
  obtain r m where u: "unmap_locked va sz (void_lookups (v_mm v)) = (r, m)" by force
  have "r = Inl (Throw InvalidValue) \<and> m = void_lookups (v_mm v) \<or>
      r = Inr () \<and> vmaps m = filter (\<lambda>e. \<not> within va (va + sz) e) (vmaps (v_mm v))"
    using unmap_locked_inv [OF inv u] by (cases r) (auto simp: void_lookups_def)
  moreover obtain r' m' where s: "set_access_locked va sz rd wr (void_lookups (v_mm v)) = (r', m')" by force
  moreover have "r' \<in> {Inr (), Inl (Throw InvalidValue)}" using set_access_locked_inv(2) [OF inv s] by (cases r') auto
  ultimately show ?thesis using u by (auto simp: unmap_def set_access_def exclusive_def void_lookups_def)
qed

theorem vmm_loops_end_witness:
  "view_run vm_view \<and> fst (set_access 0x200000000000 0xFFFFE00000000000 True True (v_mm vm_view)) \<in> {Inr (), Inl (Throw InvalidValue)}"
  using vmm_loops_end [OF vm_view(1)] vm_view(1) by blast

section \<open>Two mappings of one handle\<close>

lemma offset_in_mapping: "off < 2 ^ 64 \<Longrightarrow> unat (va + of_nat off - va :: u64) = off"
  by (simp add: unat_of_nat64)

lemma mapping_resolves:
  assumes v: "view_ok Z v" and p: "om_find (vmaps (v_mm v)) va = Some p" and o: "off + unat len \<le> unat (mp_size p)" "len \<noteq> 0" "off < 2 ^ 64"
    and acc: "mp_readable p \<or> mp_writable p" "w \<longrightarrow> mp_writable p"
  shows "resolve (va + of_nat off) len w k (v_mm v) = Inr (InHandle (mp_handle p), va)"
proof -
  note inv = view_okD(1,2) [OF v]
  have top: "unat va + unat (mp_size p) < 2 ^ 64" by (rule mapping_reserved [OF inv(1) p])
  have pos: "0 < unat len" using o(2) by (simp add: unat_gt_0)
  have a: "unat (va + of_nat off) = unat va + off" using o top by (subst unat_add64) (auto simp: unat_of_nat64)
  show ?thesis using o(1) pos acc a by (subst resolve_map_eq [OF inv p]) auto
qed

text \<open>
  C19 Two mappings of one handle show one memory: what is written through the first is read through the
  second at the same offset.
\<close>

theorem mappings_alias:
  assumes run: "view_run v" and f: "no_faults v" and p: "om_find (vmaps (v_mm v)) va = Some p" "om_find (vmaps (v_mm v)) vb = Some q"
    and h: "mp_handle q = mp_handle p" "mp_readable q" and len: "length s = unat len" "off < 2 ^ 64"
    and fit: "off + unat len \<le> unat (mp_size p)" "off + unat len \<le> unat (mp_size q)"
    and d: "device_range (va + of_nat off) len (v_mm v)" "device_range (vb + of_nat off) len (v_mm v)"
    and w: "write_mem (va + of_nat off) (Some s) len v = (Inr (), v')"
  shows "fst (read_mem (vb + of_nat off) False len v') = Inr s"
proof (cases "len = 0")
  case True
  then show ?thesis using len by (simp add: read_mem_def)
next
  case False
  obtain Z where v: "view_ok Z v" using view_run_view [OF run] by blast
  note inv = view_okD(1,2) [OF v]
  have spec: "\<exists>pl base. resolve (va + of_nat off) len True False (v_mm v) = Inr (pl, base) \<and> stored Z pl (unat (va + of_nat off - base)) s v v'"
    using write_mem_device [OF v d(1) False len(1)] w by (auto split: sum.splits prod.splits)
  have "unat va + unat (mp_size p) < 2 ^ 64" by (rule mapping_reserved [OF inv(1) p(1)])
  then have "unat (va + of_nat off) = unat va + off" "0 < unat len"
    using len(2) fit(1) False by (auto simp: unat_gt_0 unat_add64 unat_of_nat64)
  then have "mp_writable p" using spec fit(1) by (auto simp: resolve_map_eq [OF inv p(1)] split: if_splits)
  then have st: "stored Z (InHandle (mp_handle p)) off s v v'"
    using spec mapping_resolves [OF v p(1) fit(1) False len(2), of True False] offset_in_mapping [OF len(2)] by auto
  note r = mapping_resolves [OF v p(2) fit(2) False len(2), of False False]
  have v': "view_ok Z v'" "v_fault v' = v_fault v" "hosts (v_mm v') = hosts (v_mm v)" using st by (simp_all add: stored_def)
  have rq: "resolve (vb + of_nat off) len False False (v_mm v) = Inr (InHandle (mp_handle p), vb)" using r h by simp
  obtain a where a: "alloc_of (InHandle (mp_handle p)) (v_mm v) = Some a" using resolve_at [OF v rq] by blast
  have "resolve (vb + of_nat off) len False False (v_mm v') = Inr (InHandle (mp_handle p), vb)" using st rq by (simp add: stored_def)
  then have "peek (vb + of_nat off) len (v_mm v') = Inr s"
    using stored_there [OF st a] len h offset_in_mapping [OF len(2)] by (simp add: peek_def)
  then show ?thesis
    using read_mem_device [OF v'(1) _ _ False, of "vb + of_nat off"] d(2) f device_range_cong [OF v'(3)] no_faults_cong [OF v'(2)] by auto
qed

theorem mappings_alias_witness:
  "view_run vm_view \<and> (\<exists>v'. write_mem 0x200000000010 (Some [1, 2, 3]) 3 vm_view = (Inr (), v') \<and>
    fst (read_mem 0x200000200010 False 3 v') = Inr [1, 2, 3])"
proof -
  obtain Z where v: "view_ok Z vm_view" using view_run_view [OF vm_view(1)] by blast
  have r: "resolve 0x200000000010 3 True False (v_mm vm_view) = Inr (InHandle 1, 0x200000000000)"
    using mapping_resolves [OF v, of "0x200000000000" "vm_map True True" 16 3 True False] by (simp add: vm_tables vm_map_def)
  have "fst (write_chunks acquire 16 [1, 2, 3] (vh_mem (vm_handle 2), initial_state demo_os)) = Inr ()"
    by (simp add: write_chunks.simps write_piece_def slot_at_def vm_handle_def new_handle_def chunks_for_def materialize_def
      demo_acquire Let_def kChunkSize_def split: prod.splits)
  then have "fst (write_mem 0x200000000010 (Some [1, 2, 3]) 3 vm_view) = Inr ()"
    using write_mem_result [OF v vm_device(1) _ _ r vm_memory, of "[1, 2, 3]"] vm_tables(3) by simp
  then obtain v' where w: "write_mem 0x200000000010 (Some [1, 2, 3]) 3 vm_view = (Inr (), v')" by (metis prod.collapse)
  show ?thesis
    using mappings_alias [OF vm_view(1) vm_device(2), of "0x200000000000" "vm_map True True" "0x200000200000" "vm_map True False" "[1, 2, 3]" 3 16 v']
      w vm_view(1) vm_device(1) by (auto simp: vm_tables vm_map_def)
qed

section \<open>A mapping that may only be read\<close>

text \<open>
  C39 A copy to a mapping that was granted for reading only is refused, but a scalar store of a kernel is
  not: it succeeds, and the bytes are there to read (or the host has no memory left).
\<close>

theorem scalar_store_ignores_read_only:
  assumes run: "view_run v" and f: "no_faults v" and p: "om_find (vmaps (v_mm v)) va = Some p" "mp_readable p" "\<not> mp_writable p"
    and n: "scalar_size n" "n dvd unat (va + of_nat off)" "off < 2 ^ 64" "off + n \<le> unat (mp_size p)"
    and d: "device_range (va + of_nat off) (of_nat n) (v_mm v)" and s: "store_scalar (va + of_nat off) n x v = (r, v')"
  shows "fst (write_mem (va + of_nat off) (Some (bytes_of x n)) (of_nat n) v) = Inl (Throw InvalidPointer) \<and>
    (r = Inr () \<and> fst (read_mem (va + of_nat off) False (of_nat n) v') = Inr (bytes_of x n) \<or> (\<exists>e. r = Inl e \<and> refused acquire backing_ok e))"
proof -
  let ?a = "va + of_nat off"
  obtain Z where v: "view_ok Z v" using view_run_view [OF run] by blast
  note inv = view_okD(1,2) [OF v] and un = scalar_word [OF n(1)]
  have "unat va + unat (mp_size p) < 2 ^ 64" by (rule mapping_reserved [OF inv(1) p(1)])
  then have a: "unat ?a = unat va + off" using n(3,4) by (auto simp: unat_add64 unat_of_nat64)
  have "0 < n" using scalar_dvd(3) [OF n(1)] .
  then have rw: "resolve ?a (of_nat n) True False (v_mm v) = Inl (Throw InvalidPointer)"
    using n(4) p(2,3) a un(1) by (subst resolve_map_eq [OF inv p(1)]) auto
  have fit: "off + unat (of_nat n :: u64) \<le> unat (mp_size p)" using n(4) un(1) by simp
  note rr = mapping_resolves [OF v p(1) fit un(2) n(3), of False False]
  have rd: "resolve ?a (of_nat n) False False (v_mm v) = Inr (InHandle (mp_handle p), va)" using rr p(2) by simp
  have w: "fst (write_mem ?a (Some (bytes_of x n)) (of_nat n) v) = Inl (Throw InvalidPointer)"
    using write_mem_device [OF v d un(2), of "bytes_of x n"] rw un(1) by auto
  have hit: "fst (host_hit ?a (of_nat n) v) = None" using device_range_none(1) [OF v d un(2)] by auto
  have "\<not> armed store_armed v" using f by (simp add: no_faults_def)
  then obtain v1 where v1: "quiet Z v v1" "store_scalar ?a n x v = on_alloc (InHandle (mp_handle p)) (chunk_store (unat (?a - va)) n x) v1"
    using store_scalar_eq [OF v n(1,2) hit, of x] rd by auto
  have rd1: "resolve ?a (of_nat n) False False (v_mm v1) = Inr (InHandle (mp_handle p), va)" using rd quietD(2) [OF v1(1)] by simp
  have "r = Inr () \<or> (\<exists>e. r = Inl e \<and> refused acquire backing_ok e)"
    using chunk_store_stored [OF quietD(1) [OF v1(1)] rd1 n(1,2), of x] v1(2) s by auto
  moreover have "fst (read_mem ?a False (of_nat n) v') = Inr (bytes_of x n)" if "r = Inr ()"
    using scalar_back [OF v f d, of x v'] s that by simp
  ultimately show ?thesis using w by blast
qed

theorem scalar_store_ignores_read_only_witness:
  "view_run vm_view \<and> fst (write_mem 0x200000200010 (Some [5, 0, 0, 0]) 4 vm_view) = Inl (Throw InvalidPointer) \<and>
    (\<exists>v'. store_scalar 0x200000200010 4 5 vm_view = (Inr (), v') \<and> fst (read_mem 0x200000200010 False 4 v') = Inr [5, 0, 0, 0])"
proof -
  obtain Z where v: "view_ok Z vm_view" using view_run_view [OF vm_view(1)] by blast
  have r: "resolve 0x200000200010 4 False False (v_mm vm_view) = Inr (InHandle 1, 0x200000200000)"
    using mapping_resolves [OF v, of "0x200000200000" "vm_map True False" 16 4 False False] by (simp add: vm_tables vm_map_def)
  have "fst (chunk_store 16 4 5 (vh_mem (vm_handle 2), initial_state demo_os)) = Inr ()"
    by (simp add: chunk_store_def slot_at_def vm_handle_def new_handle_def chunks_for_def materialize_def
      demo_acquire Let_def kChunkSize_def split: prod.splits)
  then have "fst (store_scalar 0x200000200010 4 5 vm_view) = Inr ()"
    using store_scalar_eq [OF v, of 4 "0x200000200010" 5] r vm_memory vm_tables(3) vm_device(2) device_range_none(1) [OF v vm_device(1), of "0x200000200010" 4]
    by (auto simp: no_faults_def on_alloc_def Let_def quiet_def scalar_size_def split: prod.splits)
  then obtain v' where w: "store_scalar 0x200000200010 4 5 vm_view = (Inr (), v')" by (metis prod.collapse)
  have b: "bytes_of 5 4 = [5, 0, 0, 0]" by (simp add: bytes_of_def le_byte_def upt_rec)
  show ?thesis
    using scalar_store_ignores_read_only [OF vm_view(1) vm_device(2), of "0x200000200000" "vm_map True False" 4 16 5 "Inr ()" v']
      w vm_view(1) vm_device(1) b by (auto simp: vm_tables vm_map_def scalar_size_def)
qed

section \<open>Granting access\<close>

text \<open>
  C21 Granting access to a range that does not wrap succeeds only when every byte of it is mapped; then
  every mapping in the range has exactly the rights that were granted, and every other mapping those it had.
\<close>

theorem set_access_grants:
  assumes run: "view_run v" and s: "set_access va sz rd wr (v_mm v) = (Inr (), m)" and nowrap: "unat va + unat sz < 2 ^ 64"
  shows "covered (vmaps (v_mm v)) va (va + sz) \<and>
    om_find (vmaps m) k = map_option (\<lambda>p. if unat va \<le> unat k \<and> unat k < unat va + unat sz
      then p\<lparr>mp_readable := rd, mp_writable := wr\<rparr> else p) (om_find (vmaps (v_mm v)) k)"
proof -
  obtain Z where v: "view_ok Z v" using view_run_view [OF run] by blast
  have inv: "mm_inv Z (void_lookups (v_mm v))" using view_okD(1) [OF v] by simp
  obtain m' where l: "set_access_locked va sz rd wr (void_lookups (v_mm v)) = (Inr (), m')" "m = void_lookups m'"
    using s by (auto simp: set_access_def exclusive_def split: prod.splits)
  have e: "unat (va + sz) = unat va + unat sz" by (rule unat_add64 [OF nowrap])
  then have "va \<le> va + sz" by (simp add: u64_simps)
  then have "vmaps m = repaint va (va + sz) rd wr (vmaps (v_mm v))" "covered (vmaps (v_mm v)) va (va + sz)"
    using set_access_locked_inv(3) [OF inv l(1)] l(2) by (auto simp: void_lookups_def)
  then show ?thesis using e by (simp add: om_find_repaint u64_simps)
qed

theorem set_access_grants_witness:
  "view_run vm_view \<and> (\<exists>m. set_access 0x200000200000 0x200000 True True (v_mm vm_view) = (Inr (), m) \<and>
    om_find (vmaps m) 0x200000200000 = Some (vm_map True True))"
proof -
  obtain e where m: "v_mm vm_view = vm_state 2 [(1, vm_handle 2)] [(0x200000000000, vm_map True True), (0x200000200000, vm_map True False)] e"
    using vm_view(2) by blast
  have "\<exists>m. set_access 0x200000200000 0x200000 True True (v_mm vm_view) = (Inr (), m)"
    unfolding m by (simp add: vm_defs set_access_def set_access_locked_def access_loop.simps vm_map_def)
  then obtain m' where s: "set_access 0x200000200000 0x200000 True True (v_mm vm_view) = (Inr (), m')" by blast
  show ?thesis using set_access_grants [OF vm_view(1) s, of "0x200000200000"] s vm_view(1) by (simp add: vm_tables vm_map_def)
qed

text \<open>
  A range that wraps round the end of the address space is granted without a look at it: the call
  reports success, though nothing need be mapped there, and changes no mapping.
\<close>

theorem set_access_wraps:
  assumes "sz \<noteq> 0" "sz mod kVmmGranularity = 0" "va mod kVmmGranularity = 0" "2 ^ 64 \<le> unat va + unat sz"
  shows "\<exists>m'. set_access va sz rd wr m = (Inr (), m') \<and> vmaps m' = vmaps m"
proof -
  have "\<not> va < va + sz" using assms(4) wrap_test64 [of va sz] by (auto simp: not_less)
  then have "access_loop (va + sz) rd wr va (vmaps m) = Some (Inr (), vmaps m)" by (subst access_loop.simps) simp
  then show ?thesis using assms(1-3) by (simp add: set_access_def exclusive_def set_access_locked_def void_lookups_def)
qed

theorem set_access_wraps_witness:
  "vmaps (v_mm start_view) = [] \<and> fst (set_access 0x200000000000 0xFFFFE00000000000 True True (v_mm start_view)) = Inr ()"
  using set_access_wraps [of "0xFFFFE00000000000" "0x200000000000" True True "v_mm start_view"]
  by (auto simp: kVmmGranularity_def start_defs)

end
