(* ===== verification/Warp_Scheduler.thy ===== *)
theory Warp_Scheduler
  imports Host_Guard
begin

text \<open>
  The warp schedulers of \<^verbatim>\<open>src/exec/scheduler.cpp\<close>: which of the runnable warps of a block runs
  next, and for how many instructions. A scheduler is the state of one of three classes, and a pick returns
  the warp and the new state. The rejection loop of the random generator is a partial function, and is
  shown to return; \<open>Hang\<close> stands for one that would not, \<open>Stray\<close> for the first element of an empty
  vector and for an index past its end.

  The contract of \<^verbatim>\<open>Scheduler::pick\<close>, and the fairness that the round-robin and the adversarial
  scheduler have, are locales that the three classes interpret.
\<close>

unbundle bit_operations_syntax

section \<open>The generator\<close>

definition sm_gamma :: u64 where
  "sm_gamma = 0x9E3779B97F4A7C15"

definition sm_mix :: "u64 \<Rightarrow> u64" where
  "sm_mix z0 =
     (let z1 = (z0 XOR drop_bit 30 z0) * 0xBF58476D1CE4E5B9;
          z2 = (z1 XOR drop_bit 27 z1) * 0x94D049BB133111EB
      in z2 XOR drop_bit 31 z2)"

definition sm_next :: "u64 \<Rightarrow> u64 \<times> u64" where
  "sm_next state = (sm_mix (state + sm_gamma), state + sm_gamma)"

definition below_limit :: "u64 \<Rightarrow> u64" where
  "below_limit n = - 1 - (- 1 mod n) - 1"

partial_function (option) below_loop :: "u64 \<Rightarrow> u64 \<Rightarrow> (u64 \<times> u64) option" where
  "below_loop limit state = (case sm_next state of (v, state') \<Rightarrow>
     if v > limit then below_loop limit state' else Some (v, state'))"

definition below :: "u64 \<Rightarrow> u64 \<Rightarrow> (u64, u64) outcome" where
  "below n state = (if n \<le> 1 then (Inr 0, state)
     else case below_loop (below_limit n) state of
         None \<Rightarrow> (Inl Hang, state)
       | Some (v, state') \<Rightarrow> (Inr (v mod n), state'))"

section \<open>The schedulers\<close>

record adversarial =
  av_rng :: u64
  av_last_run :: "u64 list"
  av_tick :: u64
  av_last :: u64

datatype scheduler = RoundRobin u64 | RandomOrder u64 | Adversarial adversarial

datatype scheduler_kind = Deterministic_kind | Random_kind | Adversarial_kind

definition make_scheduler :: "scheduler_kind \<Rightarrow> u64 \<Rightarrow> scheduler" where
  "make_scheduler kind seed = (let s = (if seed \<noteq> 0 then seed else 1) in case kind of
     Deterministic_kind \<Rightarrow> RoundRobin (- 1)
   | Random_kind \<Rightarrow> RandomOrder s
   | Adversarial_kind \<Rightarrow> Adversarial \<lparr>av_rng = s, av_last_run = [], av_tick = 0, av_last = - 1\<rparr>)"

definition round_robin_pick :: "u64 \<Rightarrow> u64 list \<Rightarrow> (u64, u64) outcome" where
  "round_robin_pick lst runnable = (case find (\<lambda>idx. idx > lst) runnable of
     Some idx \<Rightarrow> (Inr idx, idx)
   | None \<Rightarrow> (case runnable of [] \<Rightarrow> (Inl Stray, lst) | idx # _ \<Rightarrow> (Inr idx, idx)))"

definition random_pick :: "u64 \<Rightarrow> u64 list \<Rightarrow> (u64, u64) outcome" where
  "random_pick rng runnable = then_do (below (of_nat (length runnable)) rng) (\<lambda>i rng.
     if unat i < length runnable then (Inr (runnable ! unat i), rng) else (Inl Stray, rng))"

definition seen_of :: "u64 list \<Rightarrow> u64 \<Rightarrow> u64" where
  "seen_of last_run idx = (if unat idx < length last_run then last_run ! unat idx else 0)"

text \<open>The loop over the runnable warps: the best so far, when it ran, and the generator.\<close>

fun oldest_loop :: "u64 list \<Rightarrow> u64 \<Rightarrow> bool \<Rightarrow> u64 list \<Rightarrow> u64 \<Rightarrow> u64 \<Rightarrow> u64 \<Rightarrow> (u64, u64) outcome" where
  "oldest_loop last_run lst many [] best oldest rng = (Inr best, rng)"
| "oldest_loop last_run lst many (idx # is) best oldest rng =
     (if idx = lst \<and> many then oldest_loop last_run lst many is best oldest rng
      else let seen = seen_of last_run idx in
        if seen < oldest then oldest_loop last_run lst many is idx seen rng
        else if seen = oldest then then_do (below 2 rng) (\<lambda>r rng.
          if r \<noteq> 0 then oldest_loop last_run lst many is idx seen rng
          else oldest_loop last_run lst many is best oldest rng)
        else oldest_loop last_run lst many is best oldest rng)"

definition resized :: "nat \<Rightarrow> u64 list \<Rightarrow> u64 list" where
  "resized n xs = take n xs @ replicate (n - length xs) 0"

definition adversarial_pick :: "adversarial \<Rightarrow> u64 list \<Rightarrow> (u64, adversarial) outcome" where
  "adversarial_pick s runnable =
     (let s1 = s\<lparr>av_tick := av_tick s + 1\<rparr> in
      if runnable = [] then (Inl Stray, s1)
      else case oldest_loop (av_last_run s) (av_last s) (length runnable > 1) runnable (hd runnable) (- 1) (av_rng s) of
          (Inl e, rng) \<Rightarrow> (Inl e, s1\<lparr>av_rng := rng\<rparr>)
        | (Inr best, rng) \<Rightarrow>
            (let runs = (if unat best \<ge> length (av_last_run s) then resized (unat (best + 1)) (av_last_run s) else av_last_run s)
             in if unat best < length runs
                then (Inr best, s1\<lparr>av_rng := rng, av_last_run := runs[unat best := av_tick s1], av_last := best\<rparr>)
                else (Inl Stray, s1\<lparr>av_rng := rng, av_last_run := runs\<rparr>)))"

definition pick :: "scheduler \<Rightarrow> u64 list \<Rightarrow> (u64, scheduler) outcome" where
  "pick s runnable = (case s of
     RoundRobin lst \<Rightarrow> (case round_robin_pick lst runnable of (r, lst') \<Rightarrow> (r, RoundRobin lst'))
   | RandomOrder rng \<Rightarrow> (case random_pick rng runnable of (r, rng') \<Rightarrow> (r, RandomOrder rng'))
   | Adversarial a \<Rightarrow> (case adversarial_pick a runnable of (r, a') \<Rightarrow> (r, Adversarial a')))"

definition kMaxSlice :: u64 where
  "kMaxSlice = 16"

definition slice :: "scheduler \<Rightarrow> (u64, scheduler) outcome" where
  "slice s = (case s of
     RoundRobin _ \<Rightarrow> (Inr 0, s)
   | RandomOrder rng \<Rightarrow> (case below kMaxSlice rng of
       (Inl e, rng') \<Rightarrow> (Inl e, RandomOrder rng') | (Inr v, rng') \<Rightarrow> (Inr (1 + v), RandomOrder rng'))
   | Adversarial _ \<Rightarrow> (Inr 1, s))"

definition scheduler_name :: "scheduler_kind \<Rightarrow> string" where
  "scheduler_name kind = (case kind of Deterministic_kind \<Rightarrow> ''deterministic'' | Random_kind \<Rightarrow> ''random'' | Adversarial_kind \<Rightarrow> ''adversarial'')"

text \<open>
  The choice of a scheduler by the environment: nothing set, a kind and the seed the caller had, or a kind and
  a seed.
\<close>

definition scheduler_from_env :: "string option \<Rightarrow> string option \<Rightarrow> (scheduler_kind \<times> u64 option) option result" where
  "scheduler_from_env mode seed_value = (case mode of
     None \<Rightarrow> Inr None
   | Some m \<Rightarrow>
       if m = [] then Inr None
       else let seed = (case seed_value of None \<Rightarrow> None | Some t \<Rightarrow> if t = [] then None else Some (fst (strtoull t))) in
         if m = ''deterministic'' then Inr (Some (Deterministic_kind, seed))
         else if m = ''random'' then Inr (Some (Random_kind, seed))
         else if m = ''adversarial'' then Inr (Some (Adversarial_kind, seed))
         else Inl (Throw InvalidValue))"

text \<open>The warps a block offers, and the picks of a row of turns.\<close>

definition runnable_warps :: "nat \<Rightarrow> (nat \<Rightarrow> bool) \<Rightarrow> u64 list" where
  "runnable_warps n ready = map of_nat (filter ready [0 ..< n])"

fun picks :: "('s \<Rightarrow> u64 list \<Rightarrow> (u64, 's) outcome) \<Rightarrow> 's \<Rightarrow> u64 list list \<Rightarrow> u64 list result" where
  "picks p s [] = Inr []"
| "picks p s (rs # rss) = (case p s rs of
     (Inl e, _) \<Rightarrow> Inl e
   | (Inr i, s') \<Rightarrow> (case picks p s' rss of Inl e \<Rightarrow> Inl e | Inr is \<Rightarrow> Inr (i # is)))"

section \<open>The generator reaches every word\<close>

lemma xor_shift_inj:
  assumes "0 < n" "(x :: u64) XOR drop_bit n x = y XOR drop_bit n y"
  shows "x = y"
proof -
  have "bit x k = bit y k" for k
  proof (induction "64 - k" arbitrary: k rule: less_induct)
    case less
    show ?case
    proof (cases "k < 64")
      case True
      then have "bit x (n + k) = bit y (n + k)" using assms(1) by (intro less) simp
      moreover have "bit (x XOR drop_bit n x) k = bit (y XOR drop_bit n y) k" using assms(2) by simp
      ultimately show ?thesis by (auto simp: bit_xor_iff bit_drop_bit_eq)
    next
      case False
      then show ?thesis using bit_imp_le_length [of x k] bit_imp_le_length [of y k] by auto
    qed
  qed
  then show ?thesis by (simp add: bit_eq_iff)
qed

lemma unit_mult_inj:
  assumes "k * k' = 1" "(x :: u64) * k = y * k"
  shows "x = y"
proof -
  have "x * (k * k') = y * (k * k')" using assms(2) by (simp only: mult.assoc [symmetric])
  then show ?thesis using assms(1) by simp
qed

lemma sm_mix_inj: "inj sm_mix"
proof (rule injI)
  fix x y :: u64
  define f where "f z = (z XOR drop_bit 30 z) * 0xBF58476D1CE4E5B9" for z :: u64
  define g where "g z = (z XOR drop_bit 27 z) * 0x94D049BB133111EB" for z :: u64
  have one: "0xBF58476D1CE4E5B9 * 0x96de1b173f119089 = (1 :: u64)" "0x94D049BB133111EB * 0x319642b2d24d8ec3 = (1 :: u64)" by simp_all
  have "x = y" if "f x = f y" for x y :: u64
    using xor_shift_inj [OF _ unit_mult_inj [OF one(1) that [unfolded f_def]]] by simp
  moreover have "x = y" if "g x = g y" for x y :: u64
    using xor_shift_inj [OF _ unit_mult_inj [OF one(2) that [unfolded g_def]]] by simp
  moreover have m: "sm_mix z = g (f z) XOR drop_bit 31 (g (f z))" for z by (simp only: sm_mix_def Let_def f_def g_def)
  moreover assume "sm_mix x = sm_mix y"
  then have "g (f x) = g (f y)" unfolding m by (rule xor_shift_inj [rotated]) simp
  ultimately show "x = y" by blast
qed

lemma sm_mix_surj: "\<exists>x. sm_mix x = y"
proof -
  have "surj sm_mix" by (rule finite_UNIV_inj_surj [OF finite sm_mix_inj])
  then show ?thesis by (metis surjD)
qed

text \<open>The state runs through all words, so the output comes to zero, which every limit accepts.\<close>

definition sm_gamma_inv :: u64 where
  "sm_gamma_inv = 0xf1de83e19937733d"

lemma sm_gamma_unit: "sm_gamma * sm_gamma_inv = 1"
  by (simp add: sm_gamma_def sm_gamma_inv_def)

lemma pred_less: "x \<noteq> 0 \<Longrightarrow> unat (x - 1 :: u64) < unat x"
proof -
  assume "x \<noteq> 0"
  then have "0 < unat x" by (simp add: unat_gt_0)
  then show ?thesis by (subst unat_sub64) auto
qed

lemma below_loop_returns: "\<exists>v s'. below_loop limit s = Some (v, s') \<and> v \<le> limit"
proof -
  obtain t where t: "sm_mix t = 0" using sm_mix_surj by blast
  show ?thesis
  proof (induction "unat ((t - s) * sm_gamma_inv - 1)" arbitrary: s rule: less_induct)
    case less
    define w where "w = (t - s) * sm_gamma_inv"
    have step: "(t - (s + sm_gamma)) * sm_gamma_inv = w - 1"
      using sm_gamma_unit by (simp add: w_def algebra_simps)
    have undo: "w * sm_gamma = t - s"
      using sm_gamma_unit by (simp add: w_def mult.assoc mult.commute [of sm_gamma_inv])
    show ?case
    proof (cases "sm_mix (s + sm_gamma) > limit")
      case True
      have "w \<noteq> 1"
      proof
        assume "w = 1"
        then have "s + sm_gamma = t" using undo by (simp add: algebra_simps)
        then show False using True t by simp
      qed
      then have "unat (w - 1 - 1) < unat (w - 1)" by (intro pred_less) simp
      then obtain v s' where "below_loop limit (s + sm_gamma) = Some (v, s') \<and> v \<le> limit"
        using less [of "s + sm_gamma"] unfolding step w_def [symmetric] by blast
      then show ?thesis using True by (subst below_loop.simps) (simp add: sm_next_def)
    next
      case False
      then show ?thesis by (subst below_loop.simps) (simp add: sm_next_def)
    qed
  qed
qed

lemma below_returns: "\<exists>v s'. below n s = (Inr v, s') \<and> unat v < max 1 (unat n)"
proof (cases "n \<le> 1")
  case False
  then have "unat n > 1" by (simp add: u64_simps)
  then show ?thesis using below_loop_returns [of "below_limit n" s] False by (auto simp: below_def unat_mod split: option.splits)
qed (simp add: below_def)

section \<open>Every residue is as likely as any other\<close>

lemma below_limit_nat:
  assumes "1 < unat n"
  shows "unat (below_limit n) + 1 = (2 ^ 64 - 1) div unat n * unat n"
proof -
  have m: "unat (- 1 mod n :: u64) = (2 ^ 64 - 1) mod unat n" by (simp add: unat_mod unat_last64)
  have "(2 ^ 64 - 1) mod unat n < unat n" using assms by simp
  moreover have "unat n \<le> 2 ^ 64 - 1" using unat_u64_lt [of n] by linarith
  ultimately have lt: "(2 ^ 64 - 1) mod unat n < (2 ^ 64 - 1 :: nat)" by linarith
  have a: "unat (- 1 - (- 1 mod n) :: u64) = 2 ^ 64 - 1 - (2 ^ 64 - 1) mod unat n"
    using lt m by (subst unat_sub64) (simp_all add: unat_last64)
  have "unat (below_limit n) = 2 ^ 64 - 1 - (2 ^ 64 - 1) mod unat n - 1"
    unfolding below_limit_def using lt a by (subst unat_sub64) simp_all
  then show ?thesis using lt minus_mod_eq_div_mult [of "2 ^ 64 - 1" "unat n"] by linarith
qed

lemma unat_inj64: "unat (x :: u64) = unat y \<Longrightarrow> x = y"
  by (simp only: word_unat_eq_iff)

lemma card_residue:
  assumes "r < (n :: nat)"
  shows "card {k. k < q * n \<and> k mod n = r} = q"
proof -
  have "{k. k < q * n \<and> k mod n = r} = (\<lambda>i. i * n + r) ` {..<q}"
  proof (intro set_eqI iffI)
    fix k assume k: "k \<in> {k. k < q * n \<and> k mod n = r}"
    then have "k div n < q" by (simp add: less_mult_imp_div_less)
    moreover have "k = k div n * n + r" using k div_mult_mod_eq [of k n] by simp
    ultimately show "k \<in> (\<lambda>i. i * n + r) ` {..<q}" by blast
  next
    fix k assume "k \<in> (\<lambda>i. i * n + r) ` {..<q}"
    then obtain i where i: "i < q" "k = i * n + r" by blast
    have "i * n + r < Suc i * n" using assms by simp
    also have "\<dots> \<le> q * n" using i(1) by (intro mult_le_mono1) simp
    finally show "k \<in> {k. k < q * n \<and> k mod n = r}" using i(2) assms by simp
  qed
  moreover have "inj_on (\<lambda>i. i * n + r) {..<q}" using assms by (auto simp: inj_on_def)
  ultimately show ?thesis by (simp add: card_image)
qed

lemma card_accepted:
  assumes n: "1 < unat n" and r: "unat r < unat n"
  shows "card {v :: u64. v \<le> below_limit n \<and> v mod n = r} = (2 ^ 64 - 1) div unat n"
proof -
  let ?q = "(2 ^ 64 - 1) div unat n"
  have top: "?q * unat n < 2 ^ 64" by (rule le_less_trans [OF div_times_less_eq_dividend]) simp
  have "unat ` {v :: u64. v \<le> below_limit n \<and> v mod n = r} = {k. k < ?q * unat n \<and> k mod unat n = unat r}"
  proof (intro set_eqI iffI)
    fix k assume "k \<in> unat ` {v :: u64. v \<le> below_limit n \<and> v mod n = r}"
    then show "k \<in> {k. k < ?q * unat n \<and> k mod unat n = unat r}"
      using below_limit_nat [OF n] by (auto simp: word_le_nat_alt simp flip: unat_mod)
  next
    fix k assume k: "k \<in> {k. k < ?q * unat n \<and> k mod unat n = unat r}"
    then have u: "unat (of_nat k :: u64) = k" using top by (intro unat_of_nat64) simp
    then have "unat (of_nat k :: u64) \<le> unat (below_limit n)" "unat (of_nat k mod n :: u64) = unat r"
      using k below_limit_nat [OF n] by (simp_all add: unat_mod)
    then have "of_nat k \<le> below_limit n" "of_nat k mod n = r" unfolding word_le_nat_alt word_unat_eq_iff by blast+
    then show "k \<in> unat ` {v :: u64. v \<le> below_limit n \<and> v mod n = r}" using u by (intro image_eqI [of _ _ "of_nat k"]) simp_all
  qed
  moreover have "inj_on unat {v :: u64. v \<le> below_limit n \<and> v mod n = r}" by (auto intro: inj_onI dest: unat_inj64)
  ultimately show ?thesis using card_residue [OF r, of ?q] card_image by force
qed

text \<open>
  C32 A random choice below \<open>n\<close> always returns, and is unbiased: over all states of the generator, the number
  of first draws that are accepted and give \<open>r\<close> is the same for every \<open>r\<close> below \<open>n\<close>.
\<close>

theorem below_unbiased:
  "(\<exists>v s'. below n s = (Inr v, s') \<and> unat v < max 1 (unat n)) \<and>
    (1 < unat n \<and> unat r < unat n \<longrightarrow>
      card {s. fst (sm_next s) \<le> below_limit n \<and> fst (sm_next s) mod n = r} = (2 ^ 64 - 1) div unat n)"
proof -
  have "card {s. fst (sm_next s) \<le> below_limit n \<and> fst (sm_next s) mod n = r} = (2 ^ 64 - 1) div unat n"
    if a: "1 < unat n" "unat r < unat n"
  proof -
    let ?f = "\<lambda>s. fst (sm_next s)" and ?V = "{v :: u64. v \<le> below_limit n \<and> v mod n = r}"
    have inj: "inj ?f" by (rule injI) (use injD [OF sm_mix_inj] in \<open>force simp: sm_next_def\<close>)
    have "bij ?f" using finite_UNIV_inj_surj [OF finite inj] inj by (simp add: bij_def)
    then have "card (?f -` ?V) = card ?V" by (intro card_vimage_inj [OF inj]) (simp add: bij_is_surj)
    moreover have "?f -` ?V = {s. ?f s \<le> below_limit n \<and> ?f s mod n = r}" by auto
    ultimately show ?thesis using card_accepted [OF a] by simp
  qed
  then show ?thesis using below_returns by blast
qed

theorem below_unbiased_witness:
  "card {s. fst (sm_next s) \<le> below_limit 3 \<and> fst (sm_next s) mod 3 = 2} = 6148914691236517205"
  using below_unbiased [of 3 0 2] by simp

section \<open>The contract of a pick\<close>

text \<open>
  A pick from a list of warps gives one of them. \<open>inv k s\<close>: \<open>k\<close> more picks are within the counters of
  \<open>s\<close>; \<open>ws\<close> bounds the warps of a block.
\<close>

locale warp_picker =
  fixes p :: "'s \<Rightarrow> u64 list \<Rightarrow> (u64, 's) outcome"
    and inv :: "nat \<Rightarrow> 's \<Rightarrow> bool"
    and ws :: nat
  assumes pick_runnable: "inv (Suc k) s \<Longrightarrow> rs \<noteq> [] \<Longrightarrow> sorted_wrt (<) rs \<Longrightarrow> \<forall>i \<in> set rs. unat i < ws \<Longrightarrow>
    \<exists>i s'. p s rs = (Inr i, s') \<and> i \<in> set rs \<and> inv k s'"
begin

lemma picks_runnable:
  assumes "inv (length rss) s" "\<forall>rs \<in> set rss. rs \<noteq> [] \<and> sorted_wrt (<) rs \<and> (\<forall>i \<in> set rs. unat i < ws)"
  shows "\<exists>is. picks p s rss = Inr is \<and> list_all2 (\<lambda>i rs. i \<in> set rs) is rss"
  using assms
proof (induction rss arbitrary: s)
  case (Cons rs rss)
  obtain i s' where p: "p s rs = (Inr i, s')" "i \<in> set rs" "inv (length rss) s'"
    using pick_runnable [of "length rss" s rs] Cons.prems by auto
  obtain is' where "picks p s' rss = Inr is'" "list_all2 (\<lambda>i rs. i \<in> set rs) is' rss"
    using Cons.IH [OF p(3)] Cons.prems(2) by auto
  then show ?case using p by auto
qed simp

lemma picks_split:
  assumes "inv (length before + k) s" "\<forall>rs \<in> set before. rs \<noteq> [] \<and> sorted_wrt (<) rs \<and> (\<forall>i \<in> set rs. unat i < ws)"
  shows "\<exists>s1 js. inv k s1 \<and> length js = length before \<and> (\<forall>rss is. picks p s1 rss = Inr is \<longrightarrow> picks p s (before @ rss) = Inr (js @ is))"
  using assms
proof (induction before arbitrary: s)
  case Nil
  then show ?case by (intro exI [of _ s] exI [of _ "[]"]) simp
next
  case (Cons rs before)
  obtain i s' where p: "p s rs = (Inr i, s')" "inv (length before + k) s'"
    using pick_runnable [of "length before + k" s rs] Cons.prems by auto
  obtain s1 js where "inv k s1" "length js = length before" "\<forall>rss is. picks p s1 rss = Inr is \<longrightarrow> picks p s' (before @ rss) = Inr (js @ is)"
    using Cons.IH [OF p(2)] Cons.prems(2) by auto
  then show ?case using p by (intro exI [of _ s1] exI [of _ "i # js"]) auto
qed

end

text \<open>
  A fair picker ranks what a warp has to wait for: a pick that passes a runnable warp over lowers its rank, and
  no rank is above the number of warps.
\<close>

locale fair_picker = warp_picker p inv ws
  for p :: "'s \<Rightarrow> u64 list \<Rightarrow> (u64, 's) outcome" and inv :: "nat \<Rightarrow> 's \<Rightarrow> bool" and ws :: nat +
  fixes rank :: "'s \<Rightarrow> u64 \<Rightarrow> nat"
  assumes rank_range: "unat w < ws \<Longrightarrow> 0 < rank s w \<and> rank s w \<le> ws"
    and rank_falls: "inv (Suc k) s \<Longrightarrow> sorted_wrt (<) rs \<Longrightarrow> \<forall>i \<in> set rs. unat i < ws \<Longrightarrow> w \<in> set rs \<Longrightarrow> p s rs = (Inr i, s') \<Longrightarrow> i \<noteq> w \<Longrightarrow>
      rank s' w < rank s w"
begin

lemma picked_by_rank:
  assumes "inv (length rss) s" "\<forall>rs \<in> set rss. w \<in> set rs \<and> sorted_wrt (<) rs \<and> (\<forall>i \<in> set rs. unat i < ws)" "rank s w \<le> length rss" "unat w < ws"
  shows "\<exists>is. picks p s rss = Inr is \<and> w \<in> set is"
  using assms
proof (induction rss arbitrary: s)
  case Nil
  then show ?case using rank_range [of w s] by simp
next
  case (Cons rs rss)
  have rs: "w \<in> set rs" "sorted_wrt (<) rs" "\<forall>i \<in> set rs. unat i < ws" using Cons.prems(2) by simp_all
  obtain i s' where p: "p s rs = (Inr i, s')" "inv (length rss) s'"
    using pick_runnable [of "length rss" s rs] Cons.prems(1) rs by fastforce
  obtain is' where is': "picks p s' rss = Inr is'"
    using picks_runnable [OF p(2)] Cons.prems(2) by fastforce
  show ?case
  proof (cases "i = w")
    case True
    then show ?thesis using p is' by simp
  next
    case False
    have "rank s' w \<le> length rss" using rank_falls [OF _ rs(2,3,1) p(1) False, of "length rss"] Cons.prems(1,3) by simp
    then show ?thesis using Cons.IH [OF p(2)] Cons.prems(2,4) p by auto
  qed
qed

lemma picked_in_time:
  assumes "inv (length rss) s" "\<forall>rs \<in> set rss. w \<in> set rs \<and> sorted_wrt (<) rs \<and> (\<forall>i \<in> set rs. unat i < ws)" "ws \<le> length rss" "unat w < ws"
  shows "\<exists>is. picks p s rss = Inr is \<and> w \<in> set is"
  using picked_by_rank [OF assms(1,2) _ assms(4)] rank_range [OF assms(4), of s] assms(3) by simp

lemma picked_later:
  assumes inv: "inv (length before + length rss) s"
    and b: "\<forall>rs \<in> set before. rs \<noteq> [] \<and> sorted_wrt (<) rs \<and> (\<forall>i \<in> set rs. unat i < ws)"
    and rss: "\<forall>rs \<in> set rss. w \<in> set rs \<and> sorted_wrt (<) rs \<and> (\<forall>i \<in> set rs. unat i < ws)" "ws \<le> length rss" "unat w < ws"
  shows "\<exists>is. picks p s (before @ rss) = Inr is \<and> w \<in> set (drop (length before) is)"
proof -
  obtain s1 js where s1: "inv (length rss) s1" "length js = length before" "\<forall>rss is. picks p s1 rss = Inr is \<longrightarrow> picks p s (before @ rss) = Inr (js @ is)"
    using picks_split [OF inv b] by blast
  obtain is' where "picks p s1 rss = Inr is'" "w \<in> set is'" using picked_in_time [OF s1(1) rss] by blast
  then show ?thesis using s1(2,3) by (intro exI [of _ "js @ is'"]) simp
qed

end

section \<open>The random scheduler\<close>

lemma warps_few: "sorted_wrt (<) rs \<Longrightarrow> \<forall>i \<in> set rs. unat (i :: u64) < ws \<Longrightarrow> length rs \<le> ws"
proof -
  assume rs: "sorted_wrt (<) rs" "\<forall>i \<in> set rs. unat i < ws"
  have "distinct (map unat rs)" using strict_sorted_iff [of rs] rs(1) by (auto simp: distinct_map intro: inj_onI dest: unat_inj64)
  moreover have "set (map unat rs) \<subseteq> {..<ws}" using rs(2) by auto
  ultimately have "length (map unat rs) \<le> card {..<ws}" using card_mono [of "{..<ws}" "set (map unat rs)"] distinct_card by fastforce
  then show ?thesis by simp
qed

lemma random_pick_in:
  assumes "rs \<noteq> []" "length rs < 2 ^ 64"
  shows "\<exists>i rng'. random_pick rng rs = (Inr i, rng') \<and> i \<in> set rs"
proof -
  obtain v rng' where b: "below (of_nat (length rs)) rng = (Inr v, rng')" "unat v < max 1 (unat (of_nat (length rs) :: u64))"
    using below_returns by blast
  have "unat v < length rs" using b(2) assms(1) unfolding unat_of_nat64 [OF assms(2)] by (simp add: max_def neq_Nil_conv split: if_splits)
  then show ?thesis using b(1) by (simp add: random_pick_def)
qed

section \<open>Round robin\<close>

definition rr_rank :: "nat \<Rightarrow> u64 \<Rightarrow> u64 \<Rightarrow> nat" where
  "rr_rank ws lst w = (if ws \<le> unat lst then Suc (unat w) else if unat lst < unat w then unat w - unat lst else ws - unat lst + unat w)"

lemma round_robin_in:
  assumes "rs \<noteq> []"
  obtains i where "round_robin_pick lst rs = (Inr i, i)" "i \<in> set rs" "i > lst" "\<forall>w \<in> set rs. sorted_wrt (<) rs \<longrightarrow> lst < w \<longrightarrow> i \<le> w"
  | i where "round_robin_pick lst rs = (Inr i, i)" "i \<in> set rs" "\<forall>w \<in> set rs. w \<le> lst" "\<forall>w \<in> set rs. sorted_wrt (<) rs \<longrightarrow> i \<le> w"
proof (cases "find (\<lambda>idx. idx > lst) rs")
  case None
  obtain i js where rs: "rs = i # js" using assms by (cases rs) auto
  have "\<forall>w \<in> set rs. w \<le> lst" using None by (auto simp: find_None_iff not_less)
  then show thesis by (intro that(2) [of i]) (use None rs in \<open>auto simp: round_robin_pick_def\<close>)
next
  case (Some i)
  then obtain k where k: "k < length rs" "i = rs ! k" "lst < i" "\<forall>j < k. \<not> lst < rs ! j" by (auto simp: find_Some_iff)
  have "i \<le> w" if w: "w \<in> set rs" "sorted_wrt (<) rs" "lst < w" for w
  proof -
    obtain j where j: "j < length rs" "w = rs ! j" using w(1) by (auto simp: in_set_conv_nth)
    then have "k \<le> j" using k(4) w(3) by (meson not_less)
    then consider "k = j" | "k < j" by linarith
    then show ?thesis using w(2) k(2) j by cases (auto simp: sorted_wrt_iff_nth_less intro: less_imp_le)
  qed
  then show thesis using that(1) [of i] Some k by (auto simp: round_robin_pick_def)
qed

lemma rr_rank_falls:
  assumes rs: "sorted_wrt (<) rs" "\<forall>i \<in> set rs. unat i < ws" "w \<in> set rs" and p: "round_robin_pick lst rs = (Inr i, s')" "i \<noteq> w"
  shows "rr_rank ws s' w < rr_rank ws lst w"
proof -
  have ne: "unat i \<noteq> unat w" using p(2) by (simp only: word_unat_eq_iff simp_thms)
  have "rs \<noteq> []" using rs(3) by auto
  then show ?thesis
  proof (cases rule: round_robin_in [of rs lst])
    case (1 j)
    then have e: "s' = i" "j = i" using p(1) by auto
    have "unat lst < unat i" "unat i < ws" "unat lst < unat w \<Longrightarrow> unat i \<le> unat w" using 1 rs e(2) by (auto simp: u64_simps)
    then show ?thesis unfolding e rr_rank_def using ne by auto
  next
    case (2 j)
    then have e: "s' = i" "j = i" using p(1) by auto
    have "unat i \<le> unat w" "unat i < ws" "unat w \<le> unat lst" using 2 rs e(2) by (auto simp: u64_simps)
    then show ?thesis unfolding e rr_rank_def using ne by auto
  qed
qed

interpretation rr: fair_picker round_robin_pick "\<lambda>_ _. True" ws "rr_rank ws" for ws
proof
  show "\<exists>i s'. round_robin_pick s rs = (Inr i, s') \<and> i \<in> set rs \<and> True" if "rs \<noteq> []" for s rs
    by (rule round_robin_in [OF that, of s]) auto
  show "unat w < ws \<Longrightarrow> 0 < rr_rank ws s w \<and> rr_rank ws s w \<le> ws" for w s by (auto simp: rr_rank_def)
qed (rule rr_rank_falls)

section \<open>The adversarial scheduler\<close>

lemma oldest_loop_spec:
  fixes lst :: u64 and many :: bool
  defines "elig \<equiv> \<lambda>j. \<not> (j = lst \<and> many)"
  shows "\<exists>b rng'. oldest_loop runs lst many js best oldest rng = (Inr b, rng') \<and>
    (b = best \<and> (\<forall>j \<in> set js. elig j \<longrightarrow> oldest \<le> seen_of runs j) \<or>
     b \<in> set js \<and> elig b \<and> seen_of runs b \<le> oldest \<and> (\<forall>j \<in> set js. elig j \<longrightarrow> seen_of runs b \<le> seen_of runs j))"
proof (induction js arbitrary: best oldest rng)
  case (Cons j js)
  define x where "x = seen_of runs j"
  obtain r rng1 where b2: "below 2 rng = (Inr r, rng1)" using below_returns by blast
  note step = oldest_loop.simps(2) [of runs lst many j js best oldest rng, folded x_def, unfolded b2 Let_def]
  consider (skip) "\<not> elig j" | (take) rng2 where "elig j" "x \<le> oldest"
      "oldest_loop runs lst many (j # js) best oldest rng = oldest_loop runs lst many js j x rng2"
    | (leave) rng2 where "elig j" "oldest \<le> x"
      "oldest_loop runs lst many (j # js) best oldest rng = oldest_loop runs lst many js best oldest rng2"
  proof -
    consider "\<not> elig j" | "elig j" "x < oldest" | "elig j" "x = oldest" "r \<noteq> 0" | "elig j" "x = oldest" "r = 0" | "elig j" "oldest < x"
      by (meson linorder_less_linear)
    then show thesis
    proof cases
      case 2
      then show ?thesis using step by (intro take [of rng]) (auto simp: elig_def)
    next
      case 3
      then show ?thesis using step by (intro take [of rng1]) (auto simp: elig_def)
    next
      case 4
      then show ?thesis using step by (intro leave [of rng1]) (auto simp: elig_def)
    next
      case 5
      then show ?thesis using step by (intro leave [of rng]) (auto simp: elig_def)
    qed (rule skip)
  qed
  then show ?case
  proof cases
    case skip
    then show ?thesis using Cons.IH [of best oldest rng] by (auto simp: elig_def)
  next
    case take
    then show ?thesis using Cons.IH [of j x rng2] by (auto simp: x_def; force intro: order_trans)
  next
    case leave
    then show ?thesis using Cons.IH [of best oldest rng2] by (auto simp: x_def; force intro: order_trans)
  qed
qed simp

lemma seen_resized: "length runs \<le> n \<Longrightarrow> seen_of (resized n runs) j = seen_of runs j"
  by (auto simp: seen_of_def resized_def nth_append)

lemma seen_update: "unat b < length runs \<Longrightarrow> seen_of (runs[unat b := t]) j = (if j = b then t else seen_of runs j)"
  using unat_inj64 [of j b] by (auto simp: seen_of_def nth_list_update)

definition av_inv :: "nat \<Rightarrow> nat \<Rightarrow> adversarial \<Rightarrow> bool" where
  "av_inv ws k s \<longleftrightarrow> ws \<le> 2 ^ 32 \<and> unat (av_tick s) + k < 2 ^ 64 - 1 \<and> (\<forall>j. seen_of (av_last_run s) j \<le> av_tick s) \<and>
     (unat (av_last s) < ws \<longrightarrow> seen_of (av_last_run s) (av_last s) = av_tick s)"

definition av_seen :: "adversarial \<Rightarrow> u64 \<Rightarrow> u64" where
  "av_seen s = seen_of (av_last_run s)"

lemma adversarial_pick_spec:
  assumes inv: "av_inv ws (Suc k) s" and rs: "rs \<noteq> []" "distinct rs" "\<forall>i \<in> set rs. unat i < ws"
  shows "\<exists>b s'. adversarial_pick s rs = (Inr b, s') \<and> b \<in> set rs \<and> (1 < length rs \<longrightarrow> b \<noteq> av_last s) \<and>
    (\<forall>j \<in> set rs. av_seen s b \<le> av_seen s j) \<and> av_inv ws k s' \<and> av_last s' = b \<and>
    unat (av_tick s') = unat (av_tick s) + 1 \<and> av_seen s' = (av_seen s)(b := av_tick s')"
proof -
  let ?runs = "av_last_run s" and ?lst = "av_last s" and ?many = "length rs > 1"
  note i = inv [unfolded av_inv_def]
  have t: "unat (av_tick s + 1) = unat (av_tick s) + 1" using i by (subst unat_add64) auto
  obtain b rng where loop: "oldest_loop ?runs ?lst ?many rs (hd rs) (- 1) (av_rng s) = (Inr b, rng)"
    and or: "b = hd rs \<and> (\<forall>j \<in> set rs. \<not> (j = ?lst \<and> ?many) \<longrightarrow> - 1 \<le> seen_of ?runs j) \<or>
      b \<in> set rs \<and> \<not> (b = ?lst \<and> ?many) \<and> (\<forall>j \<in> set rs. \<not> (j = ?lst \<and> ?many) \<longrightarrow> seen_of ?runs b \<le> seen_of ?runs j)"
    using oldest_loop_spec [of ?runs ?lst ?many rs "hd rs" "- 1" "av_rng s"] by auto
  have "\<exists>j \<in> set rs. \<not> (j = ?lst \<and> ?many)"
  proof (cases rs)
    case (Cons x xs)
    then show ?thesis using rs(2) by (cases xs) auto
  qed (use rs in simp)
  moreover have "\<not> - 1 \<le> seen_of ?runs j" for j
  proof -
    have "unat (seen_of ?runs j) \<le> unat (av_tick s)" using i by (simp add: word_le_nat_alt)
    moreover have "unat (av_tick s) < 2 ^ 64 - 1" using i by linarith
    ultimately show ?thesis unfolding word_le_nat_alt unat_last64 by linarith
  qed
  ultimately have b: "b \<in> set rs" "\<not> (b = ?lst \<and> ?many)" "\<And>j. j \<in> set rs \<Longrightarrow> \<not> (j = ?lst \<and> ?many) \<Longrightarrow> seen_of ?runs b \<le> seen_of ?runs j"
    using or by auto
  have least: "seen_of ?runs b \<le> seen_of ?runs j" if "j \<in> set rs" for j
    using b(3) [OF that] i rs(3) that by (cases "j = ?lst \<and> ?many") auto
  define runs where "runs = (if unat b \<ge> length ?runs then resized (unat (b + 1)) ?runs else ?runs)"
  have "unat b < 2 ^ 32" using b(1) rs(3) i by fastforce
  then have b1: "unat (b + 1) = unat b + 1" by (subst unat_add64) auto
  have len: "unat b < length runs" "seen_of runs = seen_of ?runs"
    using b1 seen_resized [of ?runs "unat (b + 1)"] by (auto simp: runs_def resized_def)
  define s' where "s' = s\<lparr>av_tick := av_tick s + 1, av_rng := rng, av_last_run := runs[unat b := av_tick s + 1], av_last := b\<rparr>"
  have p: "adversarial_pick s rs = (Inr b, s')"
    using rs(1) loop len(1) by (simp add: adversarial_pick_def Let_def s'_def flip: runs_def)
  have seen: "av_seen s' = (av_seen s)(b := av_tick s')"
    using seen_update [OF len(1)] len(2) by (auto simp: av_seen_def s'_def fun_eq_iff)
  have "av_inv ws k s'"
    unfolding av_inv_def using i t seen by (auto simp: s'_def av_seen_def word_le_nat_alt fun_eq_iff intro: le_SucI)
  then show ?thesis using p b least seen t by (auto simp: s'_def av_seen_def)
qed

definition av_rank :: "nat \<Rightarrow> adversarial \<Rightarrow> u64 \<Rightarrow> nat" where
  "av_rank ws s w = Suc (card {j. unat j < ws \<and> j \<noteq> w \<and> av_seen s j \<le> av_seen s w})"

lemma card_warps:
  assumes "unat w < ws"
  shows "card {j :: u64. unat j < ws \<and> j \<noteq> w \<and> P j} < ws"
proof -
  let ?J = "{j :: u64. unat j < ws \<and> j \<noteq> w \<and> P j}"
  have "unat ` ?J \<subseteq> {..<ws} - {unat w}" using unat_inj64 by auto
  then have "card (unat ` ?J) \<le> card ({..<ws} - {unat w})" by (intro card_mono) auto
  moreover have "card (unat ` ?J) = card ?J" by (intro card_image inj_onI unat_inj64) auto
  ultimately show ?thesis using assms by simp
qed

lemma av_rank_falls:
  assumes inv: "av_inv ws (Suc k) s" and rs: "sorted_wrt (<) rs" "\<forall>i \<in> set rs. unat i < ws" "w \<in> set rs" and p: "adversarial_pick s rs = (Inr i, s')" "i \<noteq> w"
  shows "av_rank ws s' w < av_rank ws s w"
proof -
  have "rs \<noteq> []" "distinct rs" using rs by (auto simp: strict_sorted_iff)
  note spec = adversarial_pick_spec [OF inv this rs(2)]
  have i: "i \<in> set rs" "av_seen s i \<le> av_seen s w" "unat (av_tick s') = unat (av_tick s) + 1" "av_seen s' = (av_seen s)(i := av_tick s')"
    using spec p(1) rs(3) by auto
  let ?J = "{j. unat j < ws \<and> j \<noteq> w \<and> av_seen s j \<le> av_seen s w}" and ?K = "{j. unat j < ws \<and> j \<noteq> w \<and> av_seen s' j \<le> av_seen s' w}"
  have "unat (av_seen s w) \<le> unat (av_tick s)" using inv by (simp add: av_inv_def av_seen_def word_le_nat_alt)
  then have "\<not> av_tick s' \<le> av_seen s w" unfolding word_le_nat_alt using i(3) by linarith
  then have "?K \<subseteq> ?J - {i}" using i(4) p(2) by auto
  moreover have "i \<in> ?J" using i(1,2) p(2) rs(2) by auto
  ultimately have "?K \<subset> ?J" by blast
  then have "card ?K < card ?J" by (intro psubset_card_mono) simp_all
  then show ?thesis by (simp add: av_rank_def)
qed

interpretation av: fair_picker adversarial_pick "av_inv ws" ws "av_rank ws" for ws
proof
  show "\<exists>i s'. adversarial_pick s rs = (Inr i, s') \<and> i \<in> set rs \<and> av_inv ws k s'"
    if "av_inv ws (Suc k) s" "rs \<noteq> []" "sorted_wrt (<) rs" "\<forall>i \<in> set rs. unat i < ws" for k s rs
    using adversarial_pick_spec [OF that(1,2) _ that(4)] that(3) by (auto simp: strict_sorted_iff)
  show "unat w < ws \<Longrightarrow> 0 < av_rank ws s w \<and> av_rank ws s w \<le> ws" for w s using card_warps [of w ws] by (simp add: av_rank_def Suc_le_eq)
qed (rule av_rank_falls)

section \<open>The three schedulers\<close>

definition sched_inv :: "nat \<Rightarrow> nat \<Rightarrow> scheduler \<Rightarrow> bool" where
  "sched_inv ws k s \<longleftrightarrow> ws \<le> 2 ^ 32 \<and> (case s of Adversarial a \<Rightarrow> av_inv ws k a | _ \<Rightarrow> True)"

interpretation any: warp_picker pick "sched_inv ws" ws for ws
proof
  fix k s and rs :: "u64 list"
  assume a: "sched_inv ws (Suc k) s" "rs \<noteq> []" "sorted_wrt (<) rs" "\<forall>i \<in> set rs. unat i < ws"
  show "\<exists>i s'. pick s rs = (Inr i, s') \<and> i \<in> set rs \<and> sched_inv ws k s'"
  proof (cases s)
    case (RoundRobin lst)
    then show ?thesis using rr.pick_runnable [OF TrueI a(2,3), where ws = ws, of lst] a(1,4) by (auto simp: pick_def sched_inv_def)
  next
    case (RandomOrder rng)
    have "length rs < 2 ^ 64" using warps_few [OF a(3,4)] a(1) by (simp add: sched_inv_def)
    then show ?thesis using RandomOrder random_pick_in [OF a(2), of rng] a(1) by (auto simp: pick_def sched_inv_def)
  next
    case (Adversarial s)
    then show ?thesis using av.pick_runnable [OF _ a(2,3), where ws = ws] a(1,4) by (fastforce simp: pick_def sched_inv_def)
  qed
qed

lemma make_scheduler_inv: "ws \<le> 2 ^ 32 \<Longrightarrow> k < 2 ^ 64 - 1 \<Longrightarrow> sched_inv ws k (make_scheduler kind seed)"
  by (cases kind) (auto simp: make_scheduler_def sched_inv_def av_inv_def seen_of_def unat_last64)

lemma picks_kinds:
  "picks pick (RoundRobin lst) rss = picks round_robin_pick lst rss"
  "picks pick (Adversarial a) rss = picks adversarial_pick a rss"
  by (induction rss arbitrary: lst a) (auto simp: pick_def split: prod.splits sum.splits)

lemma runnable_warps_ok:
  assumes "n \<le> 2 ^ 32"
  shows "sorted_wrt (<) (runnable_warps n ready)" "\<forall>i \<in> set (runnable_warps n ready). unat i < n"
    "w < n \<Longrightarrow> ready w \<Longrightarrow> of_nat w \<in> set (runnable_warps n ready)" "(\<exists>i < n. ready i) \<Longrightarrow> runnable_warps n ready \<noteq> []"
proof -
  have u: "unat (of_nat i :: u64) = i" if "i < n" for i using that assms by (intro unat_of_nat64) simp
  have "sorted_wrt (<) (filter ready [0 ..< n])" by (simp add: sorted_wrt_filter)
  then have "sorted_wrt (\<lambda>i j. (of_nat i :: u64) < of_nat j) (filter ready [0 ..< n])"
    by (rule sorted_wrt_mono_rel [rotated]) (auto simp: word_less_nat_alt u)
  then show "sorted_wrt (<) (runnable_warps n ready)" by (simp add: runnable_warps_def sorted_wrt_map)
  show "\<forall>i \<in> set (runnable_warps n ready). unat i < n" using u by (auto simp: runnable_warps_def)
  show "w < n \<Longrightarrow> ready w \<Longrightarrow> of_nat w \<in> set (runnable_warps n ready)" by (auto simp: runnable_warps_def)
  show "(\<exists>i < n. ready i) \<Longrightarrow> runnable_warps n ready \<noteq> []" by (auto simp: runnable_warps_def filter_empty_conv)
qed

text \<open>
  C27 Whatever the kind and the seed of the scheduler, every turn of a block with a runnable warp runs one of
  its runnable warps.
\<close>

theorem every_pick_is_runnable:
  assumes "n \<le> 2 ^ 32" "length turns < 2 ^ 64 - 1" "\<forall>ready \<in> set turns. \<exists>i < n. ready i"
  shows "\<exists>is. picks pick (make_scheduler kind seed) (map (runnable_warps n) turns) = Inr is \<and> length is = length turns \<and>
    (\<forall>t < length turns. \<exists>i < n. (turns ! t) i \<and> is ! t = of_nat i)"
proof -
  have "\<forall>rs \<in> set (map (runnable_warps n) turns). rs \<noteq> [] \<and> sorted_wrt (<) rs \<and> (\<forall>i \<in> set rs. unat i < n)"
    using runnable_warps_ok [OF assms(1)] assms(3) by auto
  then obtain js where js: "picks pick (make_scheduler kind seed) (map (runnable_warps n) turns) = Inr js"
      "list_all2 (\<lambda>i rs. i \<in> set rs) js (map (runnable_warps n) turns)"
    using any.picks_runnable [OF make_scheduler_inv [OF assms(1)], of "map (runnable_warps n) turns" kind seed] assms(2) by auto
  then show ?thesis by (intro exI [of _ js]) (auto simp: list_all2_conv_all_nth runnable_warps_def image_iff)
qed

theorem every_pick_is_runnable_witness:
  "\<exists>is. picks pick (make_scheduler Random_kind 7) (map (runnable_warps 2) [\<lambda>_. True, \<lambda>i. i = 1]) = Inr is \<and> length is = 2 \<and> is ! 1 = 1"
proof -
  let ?turns = "[\<lambda>_. True, \<lambda>i. i = 1] :: (nat \<Rightarrow> bool) list"
  have ex: "\<forall>ready \<in> set ?turns. \<exists>i < 2. ready i" by (auto intro: exI [of _ 1])
  obtain js where js: "picks pick (make_scheduler Random_kind 7) (map (runnable_warps 2) ?turns) = Inr js" "length js = length ?turns"
      "\<forall>t < length ?turns. \<exists>i < 2. (?turns ! t) i \<and> js ! t = of_nat i"
    using every_pick_is_runnable [OF _ _ ex, of Random_kind 7] by auto
  have "js ! 1 = 1" using js(3) [rule_format, of 1] by auto
  then show ?thesis using js(1,2) by (intro exI [of _ js]) simp
qed

text \<open>
  C26 The deterministic and the adversarial scheduler starve no warp: in any \<open>n\<close> turns in a row of a block of
  \<open>n\<close> warps, whatever ran before, a warp that is runnable in each of them runs.
\<close>

theorem no_warp_starves:
  assumes kind: "kind \<noteq> Random_kind" and n: "n \<le> 2 ^ 32" "length before + length turns < 2 ^ 64 - 1" and w: "w < n"
    and before: "\<forall>ready \<in> set before. \<exists>i < n. ready i" and turns: "\<forall>ready \<in> set turns. ready w" "n \<le> length turns"
  shows "\<exists>is. picks pick (make_scheduler kind seed) (map (runnable_warps n) (before @ turns)) = Inr is \<and> of_nat w \<in> set (drop (length before) is)"
proof -
  let ?b = "map (runnable_warps n) before" and ?t = "map (runnable_warps n) turns" and ?w = "of_nat w :: u64"
  have u: "unat ?w < n" using n(1) w unat_of_nat64 [of w] by simp
  have b: "\<forall>rs \<in> set ?b. rs \<noteq> [] \<and> sorted_wrt (<) rs \<and> (\<forall>i \<in> set rs. unat i < n)"
    using runnable_warps_ok [OF n(1)] before by auto
  have t: "\<forall>rs \<in> set ?t. ?w \<in> set rs \<and> sorted_wrt (<) rs \<and> (\<forall>i \<in> set rs. unat i < n)"
    using runnable_warps_ok [OF n(1)] turns(1) w by auto
  have inv: "sched_inv n (length ?b + length ?t) (make_scheduler kind seed)" using make_scheduler_inv [OF n(1)] n(2) by simp
  show ?thesis
  proof (cases kind)
    case Deterministic_kind
    then show ?thesis using rr.picked_later [OF TrueI b t _ u, of "- 1"] turns(2) by (simp add: make_scheduler_def picks_kinds)
  next
    case Adversarial_kind
    then obtain a where a: "make_scheduler kind seed = Adversarial a" by (simp add: make_scheduler_def)
    then have "av_inv n (length ?b + length ?t) a" using inv by (simp add: sched_inv_def)
    then show ?thesis using av.picked_later [OF _ b t _ u, of a] turns(2) a by (simp add: picks_kinds)
  qed (use kind in simp)
qed

theorem no_warp_starves_witness:
  "\<exists>is. picks pick (make_scheduler Adversarial_kind 7) (map (runnable_warps 2) [\<lambda>i. i = 1, \<lambda>_. True, \<lambda>_. True]) = Inr is \<and> 1 \<in> set (drop 1 is)"
  using no_warp_starves [of Adversarial_kind 2 "[\<lambda>i. i = 1]" "[\<lambda>_. True, \<lambda>_. True]" 1 7] by (auto simp: less_2_cases_iff)

text \<open>
  The adversarial scheduler never runs a warp twice in a row while another is runnable, and runs one that
  has waited longest.
\<close>

theorem adversarial_switches:
  assumes "av_inv n (Suc k) s" "n \<le> 2 ^ 32" "\<exists>i < n. ready i" "adversarial_pick s (runnable_warps n ready) = (Inr b, s')"
  shows "(1 < length (runnable_warps n ready) \<longrightarrow> b \<noteq> av_last s) \<and> (\<forall>j \<in> set (runnable_warps n ready). av_seen s b \<le> av_seen s j) \<and>
    av_last s' = b \<and> av_inv n k s'"
  using adversarial_pick_spec [OF assms(1), of "runnable_warps n ready"] runnable_warps_ok [OF assms(2)] assms(3,4)
  by (auto simp: strict_sorted_iff)

theorem adversarial_switches_witness:
  "\<exists>b s'. adversarial_pick \<lparr>av_rng = 7, av_last_run = [3, 2], av_tick = 3, av_last = 0\<rparr> (runnable_warps 2 (\<lambda>_. True)) = (Inr b, s') \<and> b \<noteq> 0 \<and> av_last s' = b"
proof -
  let ?s = "\<lparr>av_rng = 7, av_last_run = [3, 2], av_tick = 3, av_last = 0\<rparr>"
  have inv: "av_inv 2 (Suc 0) ?s" by (auto simp: av_inv_def seen_of_def nth_Cons')
  have r: "runnable_warps 2 (\<lambda>_. True) = [0, 1]" by (simp add: runnable_warps_def upt_rec)
  obtain b s' where "adversarial_pick ?s (runnable_warps 2 (\<lambda>_. True)) = (Inr b, s')"
    using av.pick_runnable [OF inv, of "[0, 1]"] r by auto
  moreover have "\<exists>i < 2 :: nat. True" by (rule exI [of _ 0]) simp
  ultimately show ?thesis using adversarial_switches [OF inv, of "\<lambda>_. True" b s'] r by auto
qed

end
