(* ===== verification/Text_Lists.thy ===== *)
theory Text_Lists
  imports Host_Guard
begin

text \<open>
  A text cut at a separator, as the loops over the lines of a profile, the items of an inline list and the
  elements of a device list cut theirs, and the texts those loops read back: \<open>joined\<close> puts pieces together,
  and cutting undoes it. Decimal printing of the integers, beside that of the naturals of \<open>Host_Guard\<close>.
\<close>

primrec pieces :: "char \<Rightarrow> string \<Rightarrow> string list" where
  "pieces c [] = [[]]"
| "pieces c (x # s) = (if x = c then [] # pieces c s else (x # hd (pieces c s)) # tl (pieces c s))"

fun joined :: "char \<Rightarrow> string list \<Rightarrow> string" where
  "joined c [] = []"
| "joined c [p] = p"
| "joined c (p # q # ps) = p @ c # joined c (q # ps)"

lemma pieces_not_Nil [simp]: "pieces c s \<noteq> []"
  by (induction s) auto

lemma pieces_one: "c \<notin> set p \<Longrightarrow> pieces c p = [p]"
  by (induction p) auto

lemma pieces_cut: "c \<notin> set p \<Longrightarrow> pieces c (p @ c # s) = p # pieces c s"
  by (induction p) auto

lemma pieces_joined: "ps \<noteq> [] \<Longrightarrow> \<forall>p \<in> set ps. c \<notin> set p \<Longrightarrow> pieces c (joined c ps) = ps"
  by (induction c ps rule: joined.induct) (auto simp: pieces_one pieces_cut)

lemma pieces_length: "p \<in> set (pieces c s) \<Longrightarrow> length p \<le> length s"
proof (induction s arbitrary: p)
  case (Cons x s)
  have "hd (pieces c s) \<in> set (pieces c s)" "set (tl (pieces c s)) \<subseteq> set (pieces c s)"
    by (simp_all add: list.set_sel(2) subsetI)
  then show ?case using Cons by (auto split: if_splits) fastforce+
qed simp

lemma pieces_set: "p \<in> set (pieces c s) \<Longrightarrow> set p \<subseteq> set s - {c}"
proof (induction s arbitrary: p)
  case (Cons x s)
  have "set (hd (pieces c s)) \<subseteq> set s - {c}" using Cons.IH [OF hd_in_set] by simp
  moreover have "set q \<subseteq> set s - {c}" if "q \<in> set (tl (pieces c s))" for q
    using that by (intro Cons.IH) (simp add: list.set_sel(2))
  ultimately show ?case using Cons.prems Cons.IH [of p] by (auto split: if_splits; blast)
qed simp

lemma length_pieces: "length (pieces c s) = Suc (length (filter (\<lambda>x. x = c) s))"
  by (induction s) auto

lemma joined_set: "set (joined c ps) \<subseteq> insert c (\<Union> (set ` set ps))"
  by (induction c ps rule: joined.induct) auto

lemma dec_no: "\<not> isdigit c \<Longrightarrow> c \<notin> set (dec n)"
  using dec_isdigit [of n] by (auto simp: list_all_iff)

lemma takeWhile_dec_all: "takeWhile isdigit (dec n) = dec n"
  using dec_isdigit [of n] by (auto simp: list_all_iff)

definition dec_int :: "int \<Rightarrow> string" where
  "dec_int i = (if i < 0 then CHR ''-'' # dec (nat (- i)) else dec (nat i))"

end
