(* ===== verification/Visible_Devices.thy ===== *)
theory Visible_Devices
  imports Text_Lists
begin

text \<open>
  Which of the machine's devices a CUDA program is shown (\<^verbatim>\<open>src/runtime/visible_devices.cpp\<close>), and the
  UUIDs it may name them by (\<^verbatim>\<open>describe_device\<close> of \<^verbatim>\<open>src/core/telemetry.cpp\<close>). The values of
  the two environment variables are arguments, \<open>None\<close> when unset; character classes are those of the C locale.
\<close>

unbundle bit_operations_syntax

section \<open>UUIDs\<close>

definition hex_digit :: "nat \<Rightarrow> char" where
  "hex_digit d = (if d < 10 then char_of (48 + d) else char_of (87 + d))"

text \<open>\<^verbatim>\<open>%0nx\<close> for a number of at most \<open>n\<close> digits (device numbers here are below 65536).\<close>

fun hex_padded :: "nat \<Rightarrow> nat \<Rightarrow> string" where
  "hex_padded 0 v = []"
| "hex_padded (Suc n) v = hex_padded n (v div 16) @ [hex_digit (v mod 16)]"

definition uuid_hash :: "string \<Rightarrow> string \<Rightarrow> nat \<Rightarrow> u32" where
  "uuid_hash profile_id vendor ordinal =
     (let h = fold (\<lambda>c h. (h XOR of_char c) * 16777619) profile_id 2166136261
      in if vendor = ''nvidia'' then h XOR of_nat ordinal * 0x9E3779B1 else h)"

definition device_uuid :: "string \<Rightarrow> string \<Rightarrow> nat \<Rightarrow> string" where
  "device_uuid profile_id vendor ordinal =
     (let h = uuid_hash profile_id vendor ordinal
      in ''GPU-'' @ hex_padded 8 (unat h) @ ''-'' @ hex_padded 4 (unat (drop_bit 16 h AND 0xFFFF)) @ ''-'' @
         hex_padded 4 (unat (0x4000 OR (h AND 0x0FFF))) @ ''-'' @ hex_padded 4 (unat (0x8000 OR (drop_bit 4 h AND 0x3FFF))) @ ''-'' @
         hex_padded 8 (unat (h * 2654435761)) @ hex_padded 4 ordinal)"

section \<open>Reading the list\<close>

definition kNoDevice :: int where
  "kNoDevice = 100"

definition kInvalidDevice :: int where
  "kInvalidDevice = 101"

definition trimmed :: "string \<Rightarrow> string" where
  "trimmed s = rev (dropWhile isspace (rev (dropWhile isspace s)))"

definition tolower :: "char \<Rightarrow> char" where
  "tolower c = (if 65 \<le> (of_char c :: nat) \<and> (of_char c :: nat) \<le> 90 then char_of (of_char c + 32 :: nat) else c)"

definition lowered :: "string \<Rightarrow> string" where
  "lowered s = map tolower s"

record visible_devices =
  physical :: "nat list"
  vd_error :: int

datatype list_kind = kNone | kIndex | kUuid

text \<open>The device a UUID names: \<open>-1\<close> before a match, \<open>-2\<close> after a second one.\<close>

definition uuid_match :: "string \<Rightarrow> string list \<Rightarrow> int" where
  "uuid_match want uuids = fold (\<lambda>(i, u) device. if \<not> starts_with want u then device else if device < 0 then int i else - 2)
     (enumerate 0 uuids) (- 1)"

text \<open>\<^verbatim>\<open>strtol\<close> of a text that starts with a digit: \<open>None\<close> when the number is out of the range of a long.\<close>

definition strtol_digits :: "string \<Rightarrow> nat option" where
  "strtol_digits s = (let n = decimal 0 (takeWhile isdigit s) in if n < 2 ^ 63 then Some n else None)"

definition named_device :: "string list \<Rightarrow> string \<Rightarrow> int \<times> list_kind" where
  "named_device uuids element =
     (if starts_with ''gpu-'' (lowered element) then (uuid_match (lowered element) uuids, kUuid)
      else if element \<noteq> [] \<and> isdigit (hd element)
      then ((case strtol_digits element of Some v \<Rightarrow> if v < length uuids then int v else - 1 | None \<Rightarrow> - 1), kIndex)
      else (- 1, kIndex))"

text \<open>The loop over the elements, with the kind of the list and the devices so far.\<close>

fun list_loop :: "string list \<Rightarrow> string list \<Rightarrow> list_kind \<Rightarrow> nat list \<Rightarrow> nat list option" where
  "list_loop uuids [] lk shown = Some shown"
| "list_loop uuids (e # es) lk shown =
     (case named_device uuids (trimmed e) of (device, kind) \<Rightarrow>
        if device < 0 then Some shown
        else if lk \<noteq> kNone \<and> kind \<noteq> lk then Some shown
        else if nat device \<in> set shown then None
        else list_loop uuids es (if lk = kNone then kind else lk) (shown @ [nat device]))"

definition cuda_visible_devices :: "string \<Rightarrow> string \<Rightarrow> nat \<Rightarrow> string option \<Rightarrow> string option \<Rightarrow> visible_devices" where
  "cuda_visible_devices profile_id vendor machine visible order =
     (if vendor \<noteq> ''nvidia'' then \<lparr>physical = [], vd_error = kNoDevice\<rparr>
      else if (case order of None \<Rightarrow> False | Some t \<Rightarrow> t \<noteq> [] \<and> t \<noteq> ''FASTEST_FIRST'' \<and> t \<noteq> ''PCI_BUS_ID'')
      then \<lparr>physical = [], vd_error = kInvalidDevice\<rparr>
      else case visible of
          None \<Rightarrow> \<lparr>physical = [0 ..< machine], vd_error = 0\<rparr>
        | Some t \<Rightarrow>
            (case list_loop (map (\<lambda>i. lowered (device_uuid profile_id vendor i)) [0 ..< machine]) (pieces (CHR '','') t) kNone [] of
                None \<Rightarrow> \<lparr>physical = [], vd_error = kInvalidDevice\<rparr>
              | Some shown \<Rightarrow> \<lparr>physical = shown, vd_error = (if shown = [] then kNoDevice else 0)\<rparr>))"

section \<open>What is shown\<close>

definition matches :: "string \<Rightarrow> string list \<Rightarrow> nat list" where
  "matches want uuids = filter (\<lambda>i. starts_with want (uuids ! i)) [0 ..< length uuids]"

lemma matches_snoc: "matches want (us @ [u]) = matches want us @ (if starts_with want u then [length us] else [])"
  by (auto simp: matches_def nth_append intro: filter_cong)

lemma uuid_match_snoc:
  "uuid_match want (us @ [u]) =
     (if \<not> starts_with want u then uuid_match want us else if uuid_match want us < 0 then int (length us) else - 2)"
  by (simp add: uuid_match_def enumerate_append_eq)

text \<open>The scan ends on the last match when their number is odd, and on no device when it is even.\<close>

lemma uuid_match_parity:
  "uuid_match want us = (if matches want us = [] then - 1 else if odd (length (matches want us)) then int (last (matches want us)) else - 2)"
proof (induction us rule: rev_induct)
  case Nil
  show ?case by (simp add: uuid_match_def matches_def)
next
  case (snoc u us)
  then show ?case by (cases "starts_with want u") (auto simp: uuid_match_snoc matches_snoc)
qed

lemma uuid_match_range: "uuid_match want us < int (length us)"
proof (cases "matches want us = []")
  case False
  then have "last (matches want us) \<in> set (matches want us)" by simp
  then have "last (matches want us) < length us" by (auto simp: matches_def)
  then show ?thesis by (auto simp: uuid_match_parity)
qed (auto simp: uuid_match_parity)

lemma named_device_range: "named_device uuids e = (device, kind) \<Longrightarrow> device < int (length uuids)"
  using uuid_match_range [of "lowered e" uuids] by (auto simp: named_device_def split: if_splits option.splits)

lemma list_loop_ok:
  assumes "list_loop uuids es lk shown = Some out" "distinct shown" "\<forall>d \<in> set shown. d < length uuids"
  shows "distinct out \<and> (\<forall>d \<in> set out. d < length uuids) \<and> (\<exists>more. out = shown @ more)"
  using assms
proof (induction es arbitrary: lk shown)
  case (Cons e es)
  obtain device kind where n: "named_device uuids (trimmed e) = (device, kind)" by force
  show ?case
  proof (cases "device < 0 \<or> lk \<noteq> kNone \<and> kind \<noteq> lk")
    case True
    then have "out = shown" using Cons.prems(1) n by (auto split: if_splits)
    then show ?thesis using Cons.prems by simp
  next
    case False
    then have "nat device \<notin> set shown" using Cons.prems(1) n by (auto split: if_splits)
    moreover from this have "list_loop uuids es (if lk = kNone then kind else lk) (shown @ [nat device]) = Some out"
      using Cons.prems(1) n False by auto
    ultimately have "distinct out \<and> (\<forall>d \<in> set out. d < length uuids) \<and> (\<exists>more. out = (shown @ [nat device]) @ more)"
      using Cons.prems(2,3) False named_device_range [OF n] by (intro Cons.IH) auto
    then show ?thesis by auto
  qed
qed auto

text \<open>
  A program is shown devices of the machine, none of them twice; where it is shown none by a list, every
  call answers an error, and an error is answered only to a program that is shown none.
\<close>

theorem shown_devices:
  "let v = cuda_visible_devices profile_id vendor machine visible order in
    distinct (physical v) \<and> set (physical v) \<subseteq> {..<machine} \<and> vd_error v \<in> {0, kNoDevice, kInvalidDevice} \<and>
    (vd_error v \<noteq> 0 \<longrightarrow> physical v = []) \<and> (physical v = [] \<and> vendor = ''nvidia'' \<and> visible \<noteq> None \<longrightarrow> vd_error v \<noteq> 0)"
proof -
  let ?uuids = "map (\<lambda>i. lowered (device_uuid profile_id vendor i)) [0 ..< machine]"
  have "distinct out \<and> set out \<subseteq> {..<machine}" if "list_loop ?uuids es kNone [] = Some out" for es out
    using list_loop_ok [OF that] by auto
  then show ?thesis
    by (auto simp: cuda_visible_devices_def kNoDevice_def kInvalidDevice_def Let_def split: option.splits)
qed

theorem shown_devices_witness:
  "physical (cuda_visible_devices ''p'' ''nvidia'' 2 (Some ''7'') None) = [] \<and>
   vd_error (cuda_visible_devices ''p'' ''nvidia'' 2 (Some ''7'') None) \<noteq> 0"
proof -
  have "physical (cuda_visible_devices ''p'' ''nvidia'' 2 (Some ''7'') None) = []"
    by (simp add: cuda_visible_devices_def named_device_def trimmed_def lowered_def tolower_def isspace_def
          isdigit_def starts_with_def strtol_digits_def)
  then show ?thesis
    using shown_devices [of "''p''" "''nvidia''" 2 "Some ''7''" None] by (simp add: Let_def)
qed

section \<open>Lists of indices\<close>

lemma trimmed_dec: "trimmed (dec d) = dec d"
proof -
  have "\<forall>c \<in> set (dec d). \<not> isspace c" using dec_isdigit [of d] isdigit_not_blank by (auto simp: list_all_iff)
  then have "dropWhile isspace (dec d) = dec d" "dropWhile isspace (rev (dec d)) = rev (dec d)"
    by (metis dropWhile_eq_self_iff hd_in_set set_rev)+
  then show ?thesis by (simp add: trimmed_def)
qed

lemma named_device_dec:
  assumes "d < length uuids" "d < 2 ^ 63"
  shows "named_device uuids (dec d) = (int d, kIndex)"
proof -
  obtain c r where d: "dec d = c # r" by (cases "dec d") auto
  have c: "isdigit c" using hd_dec [of d] d by simp
  then have "tolower c \<noteq> CHR ''g''" by (auto simp: isdigit_def tolower_def)
  then have "\<not> starts_with ''gpu-'' (lowered (dec d))" by (simp add: starts_with_def lowered_def d)
  moreover have "strtol_digits (dec d) = Some d"
    using assms(2) by (simp only: strtol_digits_def takeWhile_dec_all decimal_dec Let_def if_True)
  ultimately show ?thesis using assms(1) hd_dec [of d] by (simp add: named_device_def)
qed

lemma list_loop_indices:
  assumes "distinct (shown @ ds)" "\<forall>d \<in> set ds. d < length uuids" "length uuids \<le> 2 ^ 63" "lk \<in> {kNone, kIndex}"
  shows "list_loop uuids (map dec ds) lk shown = Some (shown @ ds)"
  using assms
proof (induction ds arbitrary: lk shown)
  case (Cons d ds)
  have "named_device uuids (dec d) = (int d, kIndex)" using Cons.prems by (intro named_device_dec) auto
  then show ?case using Cons.IH [of "shown @ [d]" kIndex] Cons.prems by (auto simp: trimmed_dec)
qed simp

text \<open>
  C33 A list of distinct device numbers of the machine, printed in decimal with commas, shows the program those
  devices in that order.
\<close>

theorem index_list_shown:
  assumes "distinct ds" "ds \<noteq> []" "set ds \<subseteq> {..<machine}" "machine < 2 ^ 31"
  shows "cuda_visible_devices profile_id ''nvidia'' machine (Some (joined (CHR '','') (map dec ds))) None = \<lparr>physical = ds, vd_error = 0\<rparr>"
proof -
  have "list_loop (map (\<lambda>i. lowered (device_uuid profile_id ''nvidia'' i)) [0 ..< machine]) (map dec ds) kNone [] = Some ([] @ ds)"
    using assms by (intro list_loop_indices) auto
  moreover have "pieces (CHR '','') (joined (CHR '','') (map dec ds)) = map dec ds"
    using assms(2) by (intro pieces_joined) (auto simp: dec_no isdigit_def)
  ultimately show ?thesis using assms(2) by (simp add: cuda_visible_devices_def)
qed

theorem index_list_shown_witness:
  "cuda_visible_devices ''h100'' ''nvidia'' 4 (Some (joined (CHR '','') (map dec [3, 0]))) None = \<lparr>physical = [3, 0], vd_error = 0\<rparr>"
  using index_list_shown [of "[3, 0]" 4 "''h100''"] by simp

section \<open>Lists of UUIDs\<close>

lemma tolower_gpu: "tolower (CHR ''G'') = CHR ''g''" "tolower (CHR ''P'') = CHR ''p''" "tolower (CHR ''U'') = CHR ''u''" "tolower (CHR ''-'') = CHR ''-''"
  by code_simp+

lemma device_uuid_prefix: "starts_with ''gpu-'' (lowered (device_uuid profile_id vendor i))"
  by (simp add: device_uuid_def Let_def starts_with_def lowered_def tolower_gpu)

text \<open>
  C40 A UUID prefix that several devices have is meant to name none of them. The scan forgets the first two
  matches at the third, so that on a machine with an odd number of devices the prefix \<open>GPU-\<close>, which every device
  has, shows the last one.
\<close>

theorem shared_prefix_shows_last:
  assumes "odd machine"
  shows "cuda_visible_devices profile_id ''nvidia'' machine (Some ''GPU-'') None = \<lparr>physical = [machine - 1], vd_error = 0\<rparr>"
proof -
  let ?uuids = "map (\<lambda>i. lowered (device_uuid profile_id ''nvidia'' i)) [0 ..< machine]"
  have m: "matches ''gpu-'' ?uuids = [0 ..< machine]" by (simp add: matches_def device_uuid_prefix)
  have "machine \<noteq> 0" using assms by (metis even_zero)
  then have "uuid_match ''gpu-'' ?uuids = int (machine - 1)" using assms by (simp add: uuid_match_parity m)
  moreover have "pieces (CHR '','') ''GPU-'' = [''GPU-'']" "trimmed ''GPU-'' = ''GPU-''" "lowered ''GPU-'' = ''gpu-''"
    by (simp_all add: trimmed_def isspace_def lowered_def tolower_gpu)
  moreover have "starts_with ''gpu-'' ''gpu-''" by (simp add: starts_with_def)
  ultimately show ?thesis by (simp add: cuda_visible_devices_def named_device_def)
qed

theorem shared_prefix_shows_last_witness:
  "cuda_visible_devices ''h100'' ''nvidia'' 3 (Some ''GPU-'') None = \<lparr>physical = [2], vd_error = 0\<rparr>"
  using shared_prefix_shows_last [of 3 "''h100''"] by simp

end
