(* ===== verification/Ptx_Lexer.thy ===== *)
theory Ptx_Lexer
  imports Host_Guard "HOL-Library.Sublist"
begin

text \<open>
  The PTX tokenizer (\<^verbatim>\<open>src/ptx/lexer.cpp\<close>). The loop of \<^verbatim>\<open>lex\<close> over the index \<^verbatim>\<open>i\<close> is a recursion over the
  rest of the source, with the line number; it ends because every turn of it takes at least one character.
  A \<^verbatim>\<open>PtxParse\<close> error carries the line its message names. Shown: every token stands in the source at the line
  it carries and has the form of its kind, and tokens printed with blanks between them lex to themselves.
\<close>

section \<open>The tokenizer\<close>

abbreviation newline :: char where
  "newline \<equiv> CHR 0x0A"

abbreviation quote :: char where
  "quote \<equiv> CHR 0x22"

datatype Kind = Word | Punct | End

record Token =
  kind :: Kind
  tok_text :: string
  tok_line :: nat

datatype lex_error = UnterminatedComment nat | UnterminatedString nat | UnexpectedCharacter nat char

definition isalnum :: "char \<Rightarrow> bool" where
  "isalnum c \<longleftrightarrow> isdigit c \<or> 65 \<le> (of_char c :: nat) \<and> (of_char c :: nat) \<le> 90 \<or> 97 \<le> (of_char c :: nat) \<and> (of_char c :: nat) \<le> 122"

definition word_char :: "char \<Rightarrow> bool" where
  "word_char c \<longleftrightarrow> isalnum c \<or> c = CHR ''_'' \<or> c = CHR ''$'' \<or> c = CHR ''%'' \<or> c = CHR ''.''"

definition puncts :: string where
  "puncts = '',;:()[]{}@+<>!-=*|~''"

definition newlines :: "string \<Rightarrow> nat" where
  "newlines s = length (filter (\<lambda>c. c = newline) s)"

text \<open>The loop that takes a word: what it takes after the character \<open>prev\<close>, and the rest.\<close>

fun word_run :: "char \<Rightarrow> string \<Rightarrow> string \<times> string" where
  "word_run prev [] = ([], [])"
| "word_run prev (c # r) =
     (if word_char c then (case word_run c r of (w, t) \<Rightarrow> (c # w, t))
      else if c = CHR '':'' \<and> 2 \<le> length r \<and> r ! 0 = CHR '':'' \<and> word_char (r ! 1)
      then (case word_run (CHR '':'') (tl r) of (w, t) \<Rightarrow> (c # CHR '':'' # w, t))
      else if c = CHR '':'' \<and> 1 \<le> length r \<and> isdigit prev \<and> isdigit (r ! 0)
      then (case word_run (CHR '':'') r of (w, t) \<Rightarrow> (c # w, t))
      else ([], c # r))"

text \<open>The loop over a block comment, from behind its opening: the line and the rest behind its end.\<close>

fun skip_block :: "nat \<Rightarrow> string \<Rightarrow> (nat \<times> string) option" where
  "skip_block line (c # d # r) =
     (if c = CHR ''*'' \<and> d = CHR ''/'' then Some (line, r)
      else skip_block (if c = newline then line + 1 else line) (d # r))"
| "skip_block line _ = None"

definition push :: "Token \<Rightarrow> lex_error + Token list \<Rightarrow> lex_error + Token list" where
  "push t r = (case r of Inl e \<Rightarrow> Inl e | Inr ts \<Rightarrow> Inr (t # ts))"

lemma word_run_append: "fst (word_run prev s) @ snd (word_run prev s) = s"
proof (induction prev s rule: word_run.induct)
  case (2 prev c r)
  have "CHR '':'' # tl r = r" if "2 \<le> length r" "r ! 0 = CHR '':''" using that by (cases r) auto
  then show ?case using 2 by (auto simp: case_prod_beta)
qed simp

lemma skip_block_append: "skip_block line s = Some (l, t) \<Longrightarrow> \<exists>p. s = p @ t \<and> p \<noteq> [] \<and> l = line + newlines p"
proof (induction line s rule: skip_block.induct)
  case (1 line c d r)
  show ?case
  proof (cases "c = CHR ''*'' \<and> d = CHR ''/''")
    case True
    then show ?thesis using 1 by (intro exI [of _ "[c, d]"]) (auto simp: newlines_def)
  next
    case False
    then obtain p where "d # r = p @ t" "l = (if c = newline then line + 1 else line) + newlines p" using 1 by auto
    then show ?thesis by (intro exI [of _ "c # p"]) (auto simp: newlines_def)
  qed
qed auto

lemma skip_block_length: "skip_block line (tl s) = Some (l, t) \<Longrightarrow> length t < Suc (length s)"
  using skip_block_append [of line "tl s" l t] by (cases s) auto

lemma rest_lengths:
  "length (snd (word_run c s)) < Suc (length s)" "length (dropWhile P s) < Suc (length s)"
  "length (dropWhile P s) - Suc 0 < Suc (length s)"
proof -
  show "length (snd (word_run c s)) < Suc (length s)" using arg_cong [OF word_run_append [of c s], of length] by simp
  show "length (dropWhile P s) < Suc (length s)" by (simp add: le_imp_less_Suc length_dropWhile_le)
  then show "length (dropWhile P s) - Suc 0 < Suc (length s)" by simp
qed

function lex_from :: "nat \<Rightarrow> string \<Rightarrow> lex_error + Token list" where
  "lex_from line [] = Inr [\<lparr>kind = End, tok_text = [], tok_line = line\<rparr>]"
| "lex_from line (c # r) =
     (if c = newline then lex_from (line + 1) r
      else if isspace c then lex_from line r
      else if c = CHR ''/'' \<and> r \<noteq> [] \<and> hd r = CHR ''/'' then lex_from line (dropWhile (\<lambda>d. d \<noteq> newline) r)
      else if c = CHR ''/'' \<and> r \<noteq> [] \<and> hd r = CHR ''*''
      then (case skip_block line (tl r) of
                None \<Rightarrow> Inl (UnterminatedComment line)
              | Some (l, t) \<Rightarrow> lex_from l t)
      else if c = quote
      then (let body = takeWhile (\<lambda>d. d \<noteq> quote) r; t = dropWhile (\<lambda>d. d \<noteq> quote) r; l = line + newlines body
            in if t = [] then Inl (UnterminatedString l)
               else push \<lparr>kind = Word, tok_text = c # body @ [quote], tok_line = l\<rparr> (lex_from l (tl t)))
      else if word_char c
      then push \<lparr>kind = Word, tok_text = c # fst (word_run c r), tok_line = line\<rparr> (lex_from line (snd (word_run c r)))
      else if c \<in> set puncts then push \<lparr>kind = Punct, tok_text = [c], tok_line = line\<rparr> (lex_from line r)
      else Inl (UnexpectedCharacter line c))"
  by pat_completeness auto
termination
  by (relation "measure (\<lambda>(line, s). length s)") (auto simp: rest_lengths dest!: skip_block_length)

declare lex_from.simps(2) [simp del]

definition lex :: "string \<Rightarrow> lex_error + Token list" where
  "lex src = lex_from 1 src"

fun err_line :: "lex_error \<Rightarrow> nat" where
  "err_line (UnterminatedComment l) = l"
| "err_line (UnterminatedString l) = l"
| "err_line (UnexpectedCharacter l c) = l"

section \<open>The grammar of tokens\<close>

text \<open>A word is a text the word loop takes to its end; a literal has no quote inside.\<close>

definition word_text :: "string \<Rightarrow> bool" where
  "word_text w \<longleftrightarrow> w \<noteq> [] \<and> word_char (hd w) \<and> word_run (hd w) (tl w) = (tl w, [])"

definition literal_text :: "string \<Rightarrow> bool" where
  "literal_text w \<longleftrightarrow> (\<exists>b. w = quote # b @ [quote] \<and> quote \<notin> set b)"

definition tok_ok :: "Token \<Rightarrow> bool" where
  "tok_ok t \<longleftrightarrow> (case kind t of
       Word \<Rightarrow> word_text (tok_text t) \<or> literal_text (tok_text t)
     | Punct \<Rightarrow> (\<exists>c \<in> set puncts. tok_text t = [c])
     | End \<Rightarrow> False)"

text \<open>What may stand between tokens: a blank, a line comment, a block comment up to its first end.\<close>

definition gap :: "string \<Rightarrow> bool" where
  "gap g \<longleftrightarrow> (\<exists>c. g = [c] \<and> isspace c) \<or> (\<exists>b. g = ''//'' @ b \<and> newline \<notin> set b) \<or>
     (\<exists>b. g = ''/*'' @ b @ ''*/'' \<and> \<not> sublist ''*/'' (b @ ''*''))"

inductive grammar :: "nat \<Rightarrow> string \<Rightarrow> Token list \<Rightarrow> bool" where
  grammar_end: "grammar line [] [\<lparr>kind = End, tok_text = [], tok_line = line\<rparr>]"
| grammar_gap: "gap g \<Longrightarrow> grammar (line + newlines g) s ts \<Longrightarrow> grammar line (g @ s) ts"
| grammar_token: "tok_ok t \<Longrightarrow> tok_line t = line + newlines (tok_text t) \<Longrightarrow> grammar (tok_line t) s ts \<Longrightarrow>
    grammar line (tok_text t @ s) (t # ts)"

definition scan_ok :: "nat \<Rightarrow> string \<Rightarrow> lex_error + Token list \<Rightarrow> bool" where
  "scan_ok line s r \<longleftrightarrow> (case r of Inl e \<Rightarrow> line \<le> err_line e \<and> err_line e \<le> line + newlines s | Inr ts \<Rightarrow> grammar line s ts)"

lemma newlines_append [simp]: "newlines (p @ s) = newlines p + newlines s"
  by (simp add: newlines_def)

lemma newlines_none: "newline \<notin> set s \<Longrightarrow> newlines s = 0"
  by (auto simp: newlines_def filter_empty_conv)

lemma scan_ok_gap: "gap g \<Longrightarrow> scan_ok (line + newlines g) s r \<Longrightarrow> scan_ok line (g @ s) r"
  by (auto simp: scan_ok_def split: sum.splits intro: grammar_gap)

lemma scan_ok_push:
  assumes "tok_ok t" "tok_line t = line + newlines (tok_text t)" "scan_ok (tok_line t) s r"
  shows "scan_ok line (tok_text t @ s) (push t r)"
  using assms by (auto simp: scan_ok_def push_def split: sum.splits intro: grammar_token)

lemma word_char_facts: "isdigit c \<Longrightarrow> word_char c" "isdigit c \<Longrightarrow> c \<noteq> CHR '':''" "\<not> word_char (CHR '':'')" "\<not> word_char (CHR '' '')"
  by (auto simp: word_char_def isalnum_def isdigit_def)

lemma word_char_neq: "word_char c \<Longrightarrow> c \<notin> {newline, CHR '' '', CHR ''/'', quote} \<and> \<not> isspace c"
  by (auto simp: word_char_def isalnum_def isdigit_def isspace_def)

lemma word_run_Cons: "word_char c \<Longrightarrow> \<exists>w. fst (word_run p (c # r)) = c # w"
  by (simp add: case_prod_beta)

text \<open>The word loop takes from its own result, with the end of the text or a blank behind it, that result.\<close>

lemma word_run_again:
  assumes "z = [] \<or> hd z = CHR '' ''"
  shows "word_run p (fst (word_run p s) @ z) = (fst (word_run p s), z)"
proof (induction p s rule: word_run.induct)
  case (1 p)
  show ?case using assms by (cases z) (auto simp: word_char_facts)
next
  case (2 p c r)
  consider (word) "word_char c"
    | (pair) "\<not> word_char c" "c = CHR '':''" "2 \<le> length r" "r ! 0 = CHR '':''" "word_char (r ! 1)"
    | (factor) "\<not> word_char c" "c = CHR '':''" "\<not> (2 \<le> length r \<and> r ! 0 = CHR '':'' \<and> word_char (r ! 1))" "1 \<le> length r" "isdigit p" "isdigit (r ! 0)"
    | (stop) "\<not> word_char c" "\<not> (c = CHR '':'' \<and> 2 \<le> length r \<and> r ! 0 = CHR '':'' \<and> word_char (r ! 1))"
        "\<not> (c = CHR '':'' \<and> 1 \<le> length r \<and> isdigit p \<and> isdigit (r ! 0))"
    by blast
  then show ?case
  proof cases
    case word
    then show ?thesis using 2(1) by (simp add: case_prod_beta)
  next
    case pair
    then obtain x r' where r: "r = CHR '':'' # x # r'" by (cases r; cases "tl r") auto
    obtain w where w: "fst (word_run (CHR '':'') (x # r')) = x # w" using word_run_Cons [of x] pair(5) r by auto
    then have "fst (word_run p (c # r)) = c # CHR '':'' # x # w" using pair r by (simp add: case_prod_beta)
    then show ?thesis using 2(2) pair r w by (simp add: case_prod_beta)
  next
    case factor
    then obtain d r' where r: "r = d # r'" by (cases r) auto
    then have d: "isdigit d" "word_char d" "d \<noteq> CHR '':''" using factor word_char_facts(1,2) by auto
    obtain w where w: "fst (word_run (CHR '':'') (d # r')) = d # w" using word_run_Cons [OF d(2)] by auto
    then have "fst (word_run p (c # r)) = c # d # w" using factor r d by (simp add: case_prod_beta)
    then show ?thesis using 2(3) factor r w d by (simp add: case_prod_beta)
  next
    case stop
    then have "fst (word_run p (c # r)) = []" by (simp only: word_run.simps if_False fst_conv)
    then show ?thesis using assms by (cases z) (auto simp: word_char_facts)
  qed
qed

lemma word_run_text: "word_char c \<Longrightarrow> word_text (c # fst (word_run c r))"
  using word_run_again [of "[]" c r] by (simp add: word_text_def)

lemma word_run_no_newline: "newline \<notin> set (fst (word_run p s))"
proof (induction p s rule: word_run.induct)
  case (2 p c r)
  then show ?case using word_char_neq by (auto simp: case_prod_beta)
qed simp

lemma skip_block_gap:
  "skip_block line s = Some (l, t) \<Longrightarrow> \<exists>b. s = b @ ''*/'' @ t \<and> \<not> sublist ''*/'' (b @ ''*'') \<and> l = line + newlines b"
proof (induction line s rule: skip_block.induct)
  case (1 line c d r)
  show ?case
  proof (cases "c = CHR ''*'' \<and> d = CHR ''/''")
    case True
    then show ?thesis using 1 by (intro exI [of _ "[]"]) (auto simp: newlines_def sublist_Cons_right)
  next
    case False
    then obtain b where b: "d # r = b @ ''*/'' @ t" "\<not> sublist ''*/'' (b @ ''*'')" "l = (if c = newline then line + 1 else line) + newlines b"
      using 1 by auto
    have "\<not> prefix ''*/'' (c # b @ ''*'')" using False b(1) by (cases b) auto
    then have "\<not> sublist ''*/'' (c # b @ ''*'')" using b(2) by (simp add: sublist_Cons_right)
    then show ?thesis using b by (intro exI [of _ "c # b"]) (auto simp: newlines_def)
  qed
qed auto

lemma literal_split:
  assumes "dropWhile (\<lambda>d. d \<noteq> quote) r \<noteq> []"
  shows "r = takeWhile (\<lambda>d. d \<noteq> quote) r @ quote # tl (dropWhile (\<lambda>d. d \<noteq> quote) r)"
proof -
  have "hd (dropWhile (\<lambda>d. d \<noteq> quote) r) = quote" using hd_dropWhile [OF assms] by simp
  then have "dropWhile (\<lambda>d. d \<noteq> quote) r = quote # tl (dropWhile (\<lambda>d. d \<noteq> quote) r)" using assms by (metis list.collapse)
  then show ?thesis by (metis takeWhile_dropWhile_id)
qed

lemma lex_from_word:
  assumes "word_char c" "scan_ok line (snd (word_run c r)) (lex_from line (snd (word_run c r)))"
  shows "scan_ok line (c # r) (lex_from line (c # r))"
proof -
  let ?t = "\<lparr>kind = Word, tok_text = c # fst (word_run c r), tok_line = line\<rparr>"
  have "newlines (tok_text ?t) = 0" using word_run_no_newline [of c r] word_char_neq [OF assms(1)] by (intro newlines_none) auto
  then have "scan_ok line (tok_text ?t @ snd (word_run c r)) (push ?t (lex_from line (snd (word_run c r))))"
    using assms word_run_text by (intro scan_ok_push) (auto simp: tok_ok_def)
  then show ?thesis using word_char_neq [OF assms(1)] assms(1) by (simp add: lex_from.simps(2) word_run_append)
qed

lemma lex_from_literal:
  assumes "dropWhile (\<lambda>d. d \<noteq> quote) r \<noteq> []" "l = line + newlines (takeWhile (\<lambda>d. d \<noteq> quote) r)"
    "scan_ok l (tl (dropWhile (\<lambda>d. d \<noteq> quote) r)) (lex_from l (tl (dropWhile (\<lambda>d. d \<noteq> quote) r)))"
  shows "scan_ok line (quote # r) (lex_from line (quote # r))"
proof -
  let ?b = "takeWhile (\<lambda>d. d \<noteq> quote) r" and ?z = "tl (dropWhile (\<lambda>d. d \<noteq> quote) r)"
  let ?t = "\<lparr>kind = Word, tok_text = quote # ?b @ [quote], tok_line = l\<rparr>"
  have "literal_text (quote # ?b @ [quote])" unfolding literal_text_def by (auto dest: set_takeWhileD)
  then have "scan_ok line (tok_text ?t @ ?z) (push ?t (lex_from l ?z))"
    using assms by (intro scan_ok_push) (auto simp: tok_ok_def newlines_def)
  moreover have "tok_text ?t @ ?z = quote # r" using literal_split [OF assms(1)] by simp
  moreover have "lex_from line (quote # r) = push ?t (lex_from l ?z)"
    using assms(1,2) by (auto simp: lex_from.simps(2) isspace_def Let_def)
  ultimately show ?thesis by simp
qed

lemma lex_from_open_literal:
  assumes "dropWhile (\<lambda>d. d \<noteq> quote) r = []"
  shows "scan_ok line (quote # r) (lex_from line (quote # r))"
proof -
  have "newlines (takeWhile (\<lambda>d. d \<noteq> quote) r) \<le> newlines (quote # r)"
    by (metis newlines_append takeWhile_dropWhile_id le_add1 append_Cons append_Nil le_add2 order_trans)
  then show ?thesis using assms by (simp add: lex_from.simps(2) isspace_def scan_ok_def Let_def)
qed

lemma lex_from_block:
  assumes "\<And>l t. skip_block line r = Some (l, t) \<Longrightarrow> scan_ok l t (lex_from l t)"
  shows "scan_ok line (''/*'' @ r) (lex_from line (''/*'' @ r))"
proof (cases "skip_block line r")
  case None
  then show ?thesis by (simp add: lex_from.simps(2) isspace_def scan_ok_def)
next
  case (Some x)
  then obtain l t where x: "skip_block line r = Some (l, t)" by (cases x) auto
  then obtain b where b: "r = b @ ''*/'' @ t" "\<not> sublist ''*/'' (b @ ''*'')" "l = line + newlines b"
    using skip_block_gap by blast
  then have "gap (''/*'' @ b @ ''*/'')" by (auto simp: gap_def)
  moreover have "newlines (''/*'' @ b @ ''*/'') = newlines b" by (simp add: newlines_def)
  ultimately have "scan_ok line ((''/*'' @ b @ ''*/'') @ t) (lex_from l t)" using assms [OF x] b(3) by (intro scan_ok_gap) auto
  then show ?thesis using b(1) x by (simp add: lex_from.simps(2) isspace_def)
qed

lemma lex_from_comment:
  assumes "scan_ok line (dropWhile (\<lambda>d. d \<noteq> newline) r) x" "r = CHR ''/'' # r'"
  shows "scan_ok line (CHR ''/'' # r) x"
proof -
  let ?b = "takeWhile (\<lambda>d. d \<noteq> newline) r'"
  have "newline \<notin> set ?b" by (auto dest: set_takeWhileD)
  then have "gap (''//'' @ ?b)" "newlines (''//'' @ ?b) = 0" by (auto simp: gap_def newlines_none)
  then have "scan_ok line ((''//'' @ ?b) @ dropWhile (\<lambda>d. d \<noteq> newline) r') x"
    using assms by (intro scan_ok_gap) auto
  then show ?thesis using assms(2) by simp
qed

lemma lex_from_ok: "scan_ok line s (lex_from line s)"
proof (induction line s rule: lex_from.induct)
  case (1 line)
  show ?case by (simp add: scan_ok_def grammar_end)
next
  case (2 line c r)
  consider (newl) "c = newline" | (space) "c \<noteq> newline" "isspace c"
    | (comment) "c = CHR ''/''" "r \<noteq> []" "hd r = CHR ''/''" | (block) "c = CHR ''/''" "r \<noteq> []" "hd r = CHR ''*''"
    | (literal) "c = quote" | (word) "word_char c"
    | (other) "c \<noteq> newline" "\<not> isspace c" "c \<noteq> quote" "\<not> word_char c" "c \<noteq> CHR ''/'' \<or> r = [] \<or> hd r \<notin> {CHR ''/'', CHR ''*''}"
    by blast
  then show ?case
  proof cases
    case newl
    have "gap [c]" using newl by (simp add: gap_def isspace_def)
    then have "scan_ok line ([c] @ r) (lex_from (line + 1) r)" using 2(1) newl by (intro scan_ok_gap) (auto simp: newlines_def)
    then show ?thesis using newl by (simp add: lex_from.simps(2))
  next
    case space
    then have "gap [c]" by (simp add: gap_def)
    then have "scan_ok line ([c] @ r) (lex_from line r)" using 2(2) space by (intro scan_ok_gap) (auto simp: newlines_def)
    then show ?thesis using space by (simp add: lex_from.simps(2))
  next
    case comment
    then obtain r' where "r = CHR ''/'' # r'" by (cases r) auto
    then show ?thesis using lex_from_comment [of line r] 2(3) comment by (simp add: lex_from.simps(2) isspace_def)
  next
    case block
    then obtain r' where r: "r = CHR ''*'' # r'" by (cases r) auto
    then show ?thesis using lex_from_block [of line r'] 2(4) block by (simp add: isspace_def)
  next
    case literal
    then show ?thesis
      using lex_from_literal [OF _ refl, of r line] lex_from_open_literal [of r line] 2(5)
      by (cases "dropWhile (\<lambda>d. d \<noteq> quote) r = []") (auto simp: isspace_def)
  next
    case word
    then show ?thesis using lex_from_word [OF word] 2(6) word_char_neq [OF word] by simp
  next
    case other
    let ?t = "\<lparr>kind = Punct, tok_text = [c], tok_line = line\<rparr>"
    have "scan_ok line (tok_text ?t @ r) (push ?t (lex_from line r))" if "c \<in> set puncts"
      using 2(7) other that by (intro scan_ok_push) (auto simp: tok_ok_def newlines_def)
    then show ?thesis using other by (auto simp: lex_from.simps(2) scan_ok_def)
  qed
qed

text \<open>
  C28 The tokenizer returns for every source. A source it accepts is a sequence of blanks, comments and tokens, and
  its result is those tokens in that order, each of the form of its kind and at the line of its last character,
  with the end token behind them. A rejected source is rejected at one of its lines.
\<close>

theorem lex_grammar:
  "case lex src of Inr ts \<Rightarrow> grammar 1 src ts | Inl e \<Rightarrow> 1 \<le> err_line e \<and> err_line e \<le> 1 + newlines src"
  using lex_from_ok [of 1 src] by (simp add: lex_def scan_ok_def split: sum.splits)

section \<open>Printing tokens\<close>

definition spaced :: "Token list \<Rightarrow> string" where
  "spaced ts = concat (map (\<lambda>t. tok_text t @ '' '') ts)"

definition shape :: "Token \<Rightarrow> Kind \<times> string" where
  "shape t = (kind t, tok_text t)"

lemma lex_from_blank: "lex_from line (CHR '' '' # s) = lex_from line s"
  by (simp add: lex_from.simps(2) isspace_def)

lemma punct_facts:
  assumes "c \<in> set puncts"
  shows "c \<noteq> newline" "\<not> isspace c" "c \<noteq> quote" "\<not> word_char c" "c \<noteq> CHR ''/''"
  using assms by (auto simp: puncts_def isspace_def word_char_def isalnum_def isdigit_def)

lemma tok_at: "kind t = k \<Longrightarrow> tok_text t = w \<Longrightarrow> t\<lparr>tok_line := l\<rparr> = \<lparr>kind = k, tok_text = w, tok_line = l\<rparr>"
  by (cases t) simp

lemma lex_from_token:
  assumes "tok_ok t"
  shows "\<exists>l. lex_from line (tok_text t @ CHR '' '' # s) = push (t\<lparr>tok_line := l\<rparr>) (lex_from l s)"
proof (cases "kind t")
  case Punct
  then obtain c where "c \<in> set puncts" "tok_text t = [c]" using assms by (auto simp: tok_ok_def)
  then show ?thesis
    using punct_facts [of c] tok_at [OF Punct] by (intro exI [of _ line]) (simp add: lex_from.simps(2) [of line c] lex_from_blank)
next
  case Word
  then consider "word_text (tok_text t)" | "literal_text (tok_text t)" using assms by (auto simp: tok_ok_def)
  then show ?thesis
  proof cases
    case 1
    then obtain c w where w: "tok_text t = c # w" "word_char c" "word_run c w = (w, [])"
      by (cases "tok_text t") (auto simp: word_text_def)
    then have "word_run c (w @ CHR '' '' # s) = (w, CHR '' '' # s)" using word_run_again [of "CHR '' '' # s" c w] by simp
    then show ?thesis 
      using w word_char_neq [OF w(2)] tok_at [OF Word w(1)]
      by (intro exI [of _ line]) (simp add: lex_from.simps(2) [of line c] lex_from_blank)
  next
    case 2
    then obtain b where b: "tok_text t = quote # b @ [quote]" "quote \<notin> set b" by (auto simp: literal_text_def)
    then have "takeWhile (\<lambda>d. d \<noteq> quote) (b @ quote # CHR '' '' # s) = b"
      "dropWhile (\<lambda>d. d \<noteq> quote) (b @ quote # CHR '' '' # s) = quote # CHR '' '' # s"
      by (auto simp: takeWhile_append dropWhile_append)
    then show ?thesis
      using b tok_at [OF Word b(1)]
      by (intro exI [of _ "line + newlines b"]) (simp add: lex_from.simps(2) [of line quote] isspace_def lex_from_blank Let_def)
  qed
qed (use assms in \<open>simp add: tok_ok_def\<close>)

lemma lex_from_spaced:
  "\<forall>t \<in> set ts. tok_ok t \<Longrightarrow> \<exists>ts'. lex_from line (spaced ts) = Inr ts' \<and> map shape ts' = map shape ts @ [(End, [])]"
proof (induction ts arbitrary: line)
  case (Cons t ts)
  then obtain l where "lex_from line (tok_text t @ CHR '' '' # spaced ts) = push (t\<lparr>tok_line := l\<rparr>) (lex_from l (spaced ts))"
    using lex_from_token [of t line "spaced ts"] by auto
  moreover obtain ts' where "lex_from l (spaced ts) = Inr ts'" "map shape ts' = map shape ts @ [(End, [])]"
    using Cons.IH [of l] Cons.prems by auto
  ultimately have "lex_from line (spaced (t # ts)) = Inr (t\<lparr>tok_line := l\<rparr> # ts') \<and>
      map shape (t\<lparr>tok_line := l\<rparr> # ts') = map shape (t # ts) @ [(End, [])]"
    by (simp add: spaced_def push_def) (simp add: shape_def)
  then show ?case by blast
qed (simp add: spaced_def shape_def)

lemma grammar_tokens: "grammar line s ts \<Longrightarrow> ts \<noteq> [] \<and> shape (last ts) = (End, []) \<and> (\<forall>t \<in> set (butlast ts). tok_ok t)"
  by (induction rule: grammar.induct) (auto simp: shape_def)

text \<open>
  C31 The tokens of any accepted source, printed with one blank behind each, lex to the same kinds and texts:
  nothing of a token depends on the comments and blanks around it, and no token splits or merges.
\<close>

theorem lex_spaced:
  assumes "lex src = Inr ts"
  shows "\<exists>ts'. lex (spaced (butlast ts)) = Inr ts' \<and> map shape ts' = map shape ts"
proof -
  have g: "ts \<noteq> []" "shape (last ts) = (End, [])" "\<forall>t \<in> set (butlast ts). tok_ok t"
    using lex_from_ok [of 1 src] assms grammar_tokens by (auto simp: lex_def scan_ok_def)
  then obtain ts' where "lex (spaced (butlast ts)) = Inr ts'" "map shape ts' = map shape (butlast ts) @ [(End, [])]"
    using lex_from_spaced [of "butlast ts" 1] by (auto simp: lex_def)
  moreover have "map shape (butlast ts) @ [(End, [])] = map shape ts" using g by (metis append_butlast_last_id list.map map_append)
  ultimately show ?thesis by auto
qed

lemma lex_demo:
  "lex ''ld.L2::128B[a];'' = Inr (map (\<lambda>(k, t). \<lparr>kind = k, tok_text = t, tok_line = 1\<rparr>)
     [(Word, ''ld.L2::128B''), (Punct, ''[''), (Word, ''a''), (Punct, '']''), (Punct, '';''), (End, [])])"
  by code_simp

theorem lex_spaced_witness:
  "\<exists>ts'. lex ''ld.L2::128B [ a ] ; '' = Inr ts' \<and>
     map shape ts' = [(Word, ''ld.L2::128B''), (Punct, ''[''), (Word, ''a''), (Punct, '']''), (Punct, '';''), (End, [])]"
  using lex_spaced [OF lex_demo] by (simp add: shape_def spaced_def)

end
