(* ===== verification/Yamlish.thy ===== *)
theory Yamlish
  imports Text_Lists Std_Map "HOL-Library.List_Lexorder" "HOL-Library.Char_ord"
begin

text \<open>
  The parser of device profiles (\<^verbatim>\<open>src/core/yamlish.cpp\<close>, \<^verbatim>\<open>include/vgpu/yamlish.hpp\<close>). A \<^verbatim>\<open>Value\<close> is a datatype
  with its kinds; a map is \<open>Std_Map\<close> with the lexicographic order of \<^verbatim>\<open>std::string\<close>. The pointer \<^verbatim>\<open>open_map\<close> to the
  nested map being filled is the key that map has in the root, which never loses an entry. An error is a
  \<^verbatim>\<open>ProfileParse\<close> with the line it names, or the \<^verbatim>\<open>std::out_of_range\<close> of \<^verbatim>\<open>std::stoll\<close>. Shown: the shape of every
  accepted document, the line of every refusal, and that a printed document is read back.
\<close>

section \<open>The parser\<close>

datatype Value = VStr string | VInt int | VBool bool | VList "Value list" | VMap "(string \<times> Value) list"

datatype yaml_error = ProfileParseAt nat | OutOfRange

definition yblank :: "char \<Rightarrow> bool" where
  "yblank c \<longleftrightarrow> c = CHR '' '' \<or> c = CHR 0x09"

definition strip :: "string \<Rightarrow> string" where
  "strip s = rev (dropWhile yblank (rev (dropWhile yblank s)))"

text \<open>The loop of \<^verbatim>\<open>strip_comment\<close>, with its flag.\<close>

fun strip_comment :: "bool \<Rightarrow> string \<Rightarrow> string" where
  "strip_comment in_quote [] = []"
| "strip_comment in_quote (c # s) =
     (let q = (if c = CHR 0x22 then \<not> in_quote else in_quote)
      in if c = CHR ''#'' \<and> \<not> q then [] else c # strip_comment q s)"

text \<open>\<^verbatim>\<open>std::stoll\<close> of an optional minus sign and digits.\<close>

definition stoll :: "string \<Rightarrow> int option" where
  "stoll s = (let i = (if hd s = CHR ''-'' then - int (decimal 0 (tl s)) else int (decimal 0 s))
     in if - (2 ^ 63) \<le> i \<and> i < 2 ^ 63 then Some i else None)"

definition parse_int :: "string \<Rightarrow> yaml_error + int option" where
  "parse_int s =
     (if s = [] then Inr None
      else let digits = (if hd s = CHR ''-'' then tl s else s)
      in if digits = [] \<or> \<not> list_all isdigit digits then Inr None
         else case stoll s of None \<Rightarrow> Inl OutOfRange | Some i \<Rightarrow> Inr (Some i))"

text \<open>A loop that stops at the first item that throws.\<close>

primrec items_loop :: "('a \<Rightarrow> 'e + 'b) \<Rightarrow> 'a list \<Rightarrow> 'e + 'b list" where
  "items_loop f [] = Inr []"
| "items_loop f (x # xs) = (case f x of Inl e \<Rightarrow> Inl e | Inr y \<Rightarrow> (case items_loop f xs of Inl e \<Rightarrow> Inl e | Inr ys \<Rightarrow> Inr (y # ys)))"

lemma items_loop_cong [fundef_cong]: "xs = ys \<Longrightarrow> (\<And>x. x \<in> set ys \<Longrightarrow> f x = g x) \<Longrightarrow> items_loop f xs = items_loop g ys"
  by (induction xs arbitrary: ys) (auto split: sum.splits)

definition list_items :: "string \<Rightarrow> string list" where
  "list_items s = filter (\<lambda>item. strip item \<noteq> []) (pieces (CHR '','') (butlast (tl s)))"

lemma strip_length: "length (strip s) \<le> length s"
proof -
  have "length (strip s) \<le> length (dropWhile yblank s)" unfolding strip_def by (metis length_dropWhile_le length_rev)
  then show ?thesis using length_dropWhile_le order_trans by blast
qed

lemma list_items_length: "item \<in> set (list_items (strip raw)) \<Longrightarrow> strip raw \<noteq> [] \<Longrightarrow> length item < length raw"
proof -
  assume "item \<in> set (list_items (strip raw))" "strip raw \<noteq> []"
  then have "length item \<le> length (butlast (tl (strip raw)))" "0 < length (strip raw)"
    by (auto simp: list_items_def simp del: length_butlast intro: pieces_length)
  then have "length item < length (strip raw)" by (cases "strip raw") auto
  then show "length item < length raw" using strip_length [of raw] by linarith
qed

function parse_scalar :: "nat \<Rightarrow> string \<Rightarrow> yaml_error + Value" where
  "parse_scalar line raw =
     (let s = strip raw
      in if s = [] then Inl (ProfileParseAt line)
         else if hd s = CHR 0x22
         then if length s < 2 \<or> last s \<noteq> CHR 0x22 then Inl (ProfileParseAt line) else Inr (VStr (butlast (tl s)))
         else if hd s = CHR ''[''
         then if last s \<noteq> CHR '']'' then Inl (ProfileParseAt line)
              else (case items_loop (parse_scalar line) (list_items s) of Inl e \<Rightarrow> Inl e | Inr vs \<Rightarrow> Inr (VList vs))
         else if s = ''true'' \<or> s = ''false'' then Inr (VBool (s = ''true''))
         else case parse_int s of Inl e \<Rightarrow> Inl e | Inr (Some i) \<Rightarrow> Inr (VInt i) | Inr None \<Rightarrow> Inr (VStr s))"
  by pat_completeness auto
termination
  by (relation "measure (\<lambda>(line, raw). length raw)") (auto intro: list_items_length)

declare parse_scalar.simps [simp del]

record parse_state =
  root :: "(string, Value) omap"
  open_map :: "string option"

definition nested :: "(string, Value) omap \<Rightarrow> string \<Rightarrow> (string, Value) omap" where
  "nested r k = (case om_find r k of Some (VMap es) \<Rightarrow> es | _ \<Rightarrow> [])"

text \<open>The body of the loop of \<^verbatim>\<open>parse\<close>: what a line with an entry does, and a line.\<close>

definition add_entry :: "nat \<Rightarrow> nat \<Rightarrow> string \<Rightarrow> string \<Rightarrow> parse_state \<Rightarrow> yaml_error + parse_state" where
  "add_entry lineno indent key rest st =
     (if indent = 2
      then (case open_map st of
          None \<Rightarrow> Inl (ProfileParseAt lineno)
        | Some k \<Rightarrow>
            if strip rest = [] then Inl (ProfileParseAt lineno)
            else case parse_scalar lineno rest of
                Inl e \<Rightarrow> Inl e
              | Inr v \<Rightarrow> if om_find (nested (root st) k) key \<noteq> None then Inl (ProfileParseAt lineno)
                         else Inr (st\<lparr>root := om_set k (VMap (om_emplace key v (nested (root st) k))) (root st)\<rparr>))
      else if strip rest = []
      then if om_find (root st) key \<noteq> None then Inl (ProfileParseAt lineno)
           else Inr \<lparr>root = om_emplace key (VMap []) (root st), open_map = Some key\<rparr>
      else case parse_scalar lineno rest of
          Inl e \<Rightarrow> Inl e
        | Inr v \<Rightarrow> if om_find (root st) key \<noteq> None then Inl (ProfileParseAt lineno)
                   else Inr \<lparr>root = om_emplace key v (root st), open_map = None\<rparr>)"

definition parse_line :: "nat \<Rightarrow> string \<Rightarrow> parse_state \<Rightarrow> yaml_error + parse_state" where
  "parse_line lineno raw st =
     (let line = strip_comment False (if raw \<noteq> [] \<and> last raw = CHR 0x0D then butlast raw else raw)
      in if strip line = [] then Inr st
         else let indent = length (takeWhile (\<lambda>c. c = CHR '' '') line)
         in if line ! indent = CHR 0x09 then Inl (ProfileParseAt lineno)
            else if indent \<noteq> 0 \<and> indent \<noteq> 2 then Inl (ProfileParseAt lineno)
            else let body = drop indent line
            in if CHR '':'' \<notin> set body then Inl (ProfileParseAt lineno)
               else let key = strip (takeWhile (\<lambda>c. c \<noteq> CHR '':'') body); rest = tl (dropWhile (\<lambda>c. c \<noteq> CHR '':'') body)
               in if key = [] then Inl (ProfileParseAt lineno) else add_entry lineno indent key rest st)"

fun parse_lines :: "nat \<Rightarrow> string list \<Rightarrow> parse_state \<Rightarrow> yaml_error + parse_state" where
  "parse_lines lineno [] st = Inr st"
| "parse_lines lineno (l # ls) st =
     (case parse_line lineno l st of Inl e \<Rightarrow> Inl e | Inr st' \<Rightarrow> parse_lines (lineno + 1) ls st')"

definition parse :: "string \<Rightarrow> yaml_error + Value" where
  "parse src = (case parse_lines 1 (pieces (CHR 0x0A) src) \<lparr>root = [], open_map = None\<rparr> of
       Inl e \<Rightarrow> Inl e
     | Inr st \<Rightarrow> Inr (VMap (root st)))"

section \<open>The shape of a document\<close>

text \<open>What can stand behind a key: a string, a 64-bit integer, a truth value or a list of those and of lists.\<close>

fun inline_ok :: "Value \<Rightarrow> bool" where
  "inline_ok (VStr s) = True"
| "inline_ok (VInt i) \<longleftrightarrow> - (2 ^ 63) \<le> i \<and> i < 2 ^ 63"
| "inline_ok (VBool b) = True"
| "inline_ok (VList vs) = list_all inline_ok vs"
| "inline_ok (VMap es) = False"

definition key_ok :: "string \<Rightarrow> bool" where
  "key_ok k \<longleftrightarrow> k \<noteq> [] \<and> strip k = k \<and> CHR '':'' \<notin> set k"

definition entries_ok :: "(Value \<Rightarrow> bool) \<Rightarrow> (string, Value) omap \<Rightarrow> bool" where
  "entries_ok P es \<longleftrightarrow> om_inv es \<and> (\<forall>(k, v) \<in> set es. key_ok k \<and> P v)"

definition value_ok :: "Value \<Rightarrow> bool" where
  "value_ok v \<longleftrightarrow> inline_ok v \<or> (case v of VMap es \<Rightarrow> entries_ok inline_ok es | _ \<Rightarrow> False)"

definition doc_ok :: "Value \<Rightarrow> bool" where
  "doc_ok v \<longleftrightarrow> (case v of VMap es \<Rightarrow> entries_ok value_ok es | _ \<Rightarrow> False)"

definition state_ok :: "parse_state \<Rightarrow> bool" where
  "state_ok st \<longleftrightarrow> entries_ok value_ok (root st) \<and> (\<forall>k. open_map st = Some k \<longrightarrow> (\<exists>es. om_find (root st) k = Some (VMap es)))"

definition error_in :: "nat \<Rightarrow> nat \<Rightarrow> yaml_error \<Rightarrow> bool" where
  "error_in lo hi e \<longleftrightarrow> (case e of ProfileParseAt l \<Rightarrow> lo \<le> l \<and> l \<le> hi | OutOfRange \<Rightarrow> True)"

lemma items_loop_ok: "items_loop f xs = Inr ys \<Longrightarrow> (\<And>x y. x \<in> set xs \<Longrightarrow> f x = Inr y \<Longrightarrow> P y) \<Longrightarrow> list_all P ys"
  by (induction xs arbitrary: ys) (force split: sum.splits)+

lemma items_loop_error: "items_loop f xs = Inl e \<Longrightarrow> \<exists>x \<in> set xs. f x = Inl e"
  by (induction xs) (auto split: sum.splits)

lemma parse_int_range: "parse_int s = Inr (Some i) \<Longrightarrow> - (2 ^ 63) \<le> i \<and> i < 2 ^ 63"
  by (auto simp: parse_int_def stoll_def Let_def split: if_splits option.splits)

lemma parse_int_error: "parse_int s = Inl e \<Longrightarrow> e = OutOfRange"
  by (auto simp: parse_int_def Let_def split: if_splits option.splits)

lemma parse_scalar_list:
  assumes "strip raw \<noteq> []" "hd (strip raw) = CHR ''[''" "last (strip raw) = CHR '']''"
  shows "parse_scalar line raw = (case items_loop (parse_scalar line) (list_items (strip raw)) of Inl e \<Rightarrow> Inl e | Inr vs \<Rightarrow> Inr (VList vs))"
  using assms by (subst parse_scalar.simps) (simp add: Let_def)

lemma parse_scalar_bare:
  assumes "s \<noteq> []" "strip s = s" "hd s \<noteq> CHR 0x22" "hd s \<noteq> CHR ''[''" "s \<noteq> ''true''" "s \<noteq> ''false''" "strip raw = s"
  shows "parse_scalar line raw = (case parse_int s of Inl e \<Rightarrow> Inl e | Inr (Some i) \<Rightarrow> Inr (VInt i) | Inr None \<Rightarrow> Inr (VStr s))"
  unfolding parse_scalar.simps [of line raw] Let_def by (simp only: assms if_False simp_thms)

lemma parse_scalar_plain:
  assumes "\<not> (strip raw \<noteq> [] \<and> hd (strip raw) = CHR ''['' \<and> last (strip raw) = CHR '']'')"
  shows "case parse_scalar line raw of Inr v \<Rightarrow> inline_ok v | Inl e \<Rightarrow> error_in line line e"
proof (cases "parse_scalar line raw")
  case (Inl e)
  then have "e = ProfileParseAt line \<or> parse_int (strip raw) = Inl e"
    using assms unfolding parse_scalar.simps [of line raw] Let_def by (simp only: split: if_splits sum.splits option.splits) auto
  then show ?thesis using Inl by (auto simp: error_in_def dest: parse_int_error)
next
  case (Inr v)
  then have "(\<exists>s. v = VStr s) \<or> (\<exists>b. v = VBool b) \<or> (\<exists>i. v = VInt i \<and> parse_int (strip raw) = Inr (Some i))"
    using assms unfolding parse_scalar.simps [of line raw] Let_def by (simp only: split: if_splits sum.splits option.splits) auto
  then show ?thesis using Inr by (auto dest: parse_int_range)
qed

lemma parse_scalar_ok: "case parse_scalar line raw of Inr v \<Rightarrow> inline_ok v | Inl e \<Rightarrow> error_in line line e"
proof (induction line raw rule: parse_scalar.induct)
  case (1 line raw)
  note ih1 = 1 [OF refl]
  show ?case
  proof (cases "strip raw \<noteq> [] \<and> hd (strip raw) = CHR ''['' \<and> last (strip raw) = CHR '']''")
    case True
    have ih: "case parse_scalar line x of Inr v \<Rightarrow> inline_ok v | Inl e \<Rightarrow> error_in line line e"
      if "x \<in> set (list_items (strip raw))" for x
      by (rule ih1) (simp_all add: True that)
    show ?thesis
    proof (cases "items_loop (parse_scalar line) (list_items (strip raw))")
      case (Inl e)
      obtain x where "x \<in> set (list_items (strip raw))" "parse_scalar line x = Inl e" using items_loop_error [OF Inl] by (rule bexE)
      then have "error_in line line e" using ih [of x] by simp
      then show ?thesis using parse_scalar_list [of raw line] True Inl by simp
    next
      case (Inr vs)
      have "inline_ok v" if "x \<in> set (list_items (strip raw))" "parse_scalar line x = Inr v" for x v
        using ih [OF that(1)] that(2) by simp
      then have "list_all inline_ok vs" by (rule items_loop_ok [OF Inr])
      then show ?thesis using parse_scalar_list [of raw line] True Inr by simp
    qed
  qed (rule parse_scalar_plain)
qed

lemma strip_idem: "strip (strip s) = strip s"
proof -
  have r: "dropWhile yblank (rev (dropWhile yblank t)) = rev (dropWhile yblank t)" if "dropWhile yblank (rev t) = rev t" for t
  proof (cases "dropWhile yblank t = []")
    case False
    then have "last (dropWhile yblank t) = last t" by (metis last_appendR takeWhile_dropWhile_id)
    moreover have "\<not> yblank (last t)"
      using that False by (metis dropWhile.simps(1) dropWhile_eq_self_iff hd_rev rev.simps(1) rev_is_Nil_conv)
    ultimately show ?thesis using False by (simp add: dropWhile_eq_self_iff hd_rev)
  next
    case True
    show ?thesis by (simp only: True rev.simps dropWhile.simps)
  qed
  have "dropWhile yblank (rev (strip s)) = rev (strip s)" by (simp add: strip_def)
  moreover from r [of "rev (dropWhile yblank s)"] have "dropWhile yblank (strip s) = strip s" by (simp add: strip_def)
  ultimately show ?thesis by (simp add: strip_def [of "strip s"])
qed

lemma strip_set: "set (strip s) \<subseteq> set s"
  unfolding strip_def by (metis set_dropWhileD set_rev subsetI)

lemma entries_ok_Nil: "entries_ok P []"
  by (simp add: entries_ok_def)

lemma set_om_set: "set (om_set k v m) \<subseteq> insert (k, v) (set m)"
  by (induction k v m rule: om_set.induct) auto

lemma entries_ok_set: "entries_ok P es \<Longrightarrow> key_ok k \<Longrightarrow> P v \<Longrightarrow> entries_ok P (om_set k v es)"
  using set_om_set [of k v es] by (fastforce simp: entries_ok_def om_inv_set)

lemma entries_ok_emplace: "entries_ok P es \<Longrightarrow> key_ok k \<Longrightarrow> P v \<Longrightarrow> entries_ok P (om_emplace k v es)"
  by (auto simp: om_emplace_def entries_ok_set split: option.splits)

lemma entries_ok_find: "entries_ok P es \<Longrightarrow> om_find es k = Some v \<Longrightarrow> key_ok k \<and> P v"
  by (auto simp: entries_ok_def dest: map_of_SomeD)

lemma add_entry_ok:
  assumes st: "state_ok st" and key: "key_ok key"
  shows "case add_entry lineno indent key rest st of Inr st' \<Rightarrow> state_ok st' | Inl e \<Rightarrow> error_in lineno lineno e"
proof (cases "parse_scalar lineno rest")
  case (Inl e)
  then have "error_in lineno lineno e" using parse_scalar_ok [of lineno rest] by simp
  moreover have "entries_ok value_ok (om_emplace key (VMap []) (root st))" if "om_find (root st) key = None"
    using st key by (intro entries_ok_emplace) (auto simp: state_ok_def value_ok_def entries_ok_Nil)
  ultimately show ?thesis using Inl by (auto simp: add_entry_def error_in_def state_ok_def om_emplace_def split: option.splits)
next
  case (Inr v)
  then have v: "inline_ok v" using parse_scalar_ok [of lineno rest] by simp
  have "entries_ok value_ok (om_emplace key (VMap []) (root st))" "entries_ok value_ok (om_emplace key v (root st))"
    using st key v by (auto intro!: entries_ok_emplace simp: state_ok_def value_ok_def entries_ok_Nil)
  moreover have "entries_ok value_ok (om_set k (VMap (om_emplace key v (nested (root st) k))) (root st))" if o: "open_map st = Some k" for k
  proof -
    obtain es where es: "om_find (root st) k = Some (VMap es)" using st o by (auto simp: state_ok_def)
    then have "key_ok k" "value_ok (VMap es)" using entries_ok_find st by (auto simp: state_ok_def)
    then have "entries_ok inline_ok (om_emplace key v es)" using key v by (intro entries_ok_emplace) (auto simp: value_ok_def)
    then show ?thesis using st es \<open>key_ok k\<close> by (intro entries_ok_set) (auto simp: state_ok_def value_ok_def nested_def)
  qed
  ultimately show ?thesis using Inr
    by (auto simp: add_entry_def error_in_def state_ok_def om_emplace_def split: option.splits)
qed

lemma parse_line_cases:
  obtains (skip) "parse_line lineno raw st = Inr st" | (fail) "parse_line lineno raw st = Inl (ProfileParseAt lineno)"
    | (entry) indent key rest where "key_ok key" "parse_line lineno raw st = add_entry lineno indent key rest st"
proof -
  define line where "line = strip_comment False (if raw \<noteq> [] \<and> last raw = CHR 0x0D then butlast raw else raw)"
  define indent where "indent = length (takeWhile (\<lambda>c. c = CHR '' '') line)"
  define k where "k = takeWhile (\<lambda>c. c \<noteq> CHR '':'') (drop indent line)"
  define rest where "rest = tl (dropWhile (\<lambda>c. c \<noteq> CHR '':'') (drop indent line))"
  define P where "P \<longleftrightarrow> line ! indent = CHR 0x09 \<or> indent \<noteq> 0 \<and> indent \<noteq> 2 \<or> CHR '':'' \<notin> set (drop indent line) \<or> strip k = []"
  have p: "parse_line lineno raw st = (if strip line = [] then Inr st else if P then Inl (ProfileParseAt lineno)
      else add_entry lineno indent (strip k) rest st)"
    unfolding parse_line_def Let_def line_def [symmetric] indent_def [symmetric] k_def [symmetric] rest_def [symmetric] P_def
    by (simp only: split: if_split) blast
  have "CHR '':'' \<notin> set (strip k)" using strip_set [of k] by (auto simp: k_def dest!: subsetD dest: set_takeWhileD)
  then have "key_ok (strip k)" if "\<not> P" using that by (simp add: key_ok_def strip_idem P_def)
  then show thesis using that p by (cases "strip line = []"; cases P) auto
qed

lemma parse_line_ok:
  assumes "state_ok st"
  shows "case parse_line lineno raw st of Inr st' \<Rightarrow> state_ok st' | Inl e \<Rightarrow> error_in lineno lineno e"
proof (cases rule: parse_line_cases [of lineno raw st])
  case (entry indent key rest)
  then show ?thesis using add_entry_ok [OF assms] by simp
qed (use assms in \<open>simp_all add: error_in_def\<close>)

lemma error_in_mono: "error_in lo hi e \<Longrightarrow> lo' \<le> lo \<Longrightarrow> hi \<le> hi' \<Longrightarrow> error_in lo' hi' e"
  by (auto simp: error_in_def split: yaml_error.splits)

lemma parse_lines_ok:
  "state_ok st \<Longrightarrow> case parse_lines lineno ls st of Inr st' \<Rightarrow> state_ok st' | Inl e \<Rightarrow> error_in lineno (lineno + length ls - 1) e"
proof (induction lineno ls st rule: parse_lines.induct)
  case (2 lineno l ls st)
  show ?case
  proof (cases "parse_line lineno l st")
    case (Inl e)
    then show ?thesis using parse_line_ok [OF 2(2), of lineno l] by (auto intro: error_in_mono)
  next
    case (Inr st')
    then have "state_ok st'" using parse_line_ok [OF 2(2), of lineno l] by simp
    from 2(1) [OF Inr this] show ?thesis using Inr by (auto split: sum.splits intro: error_in_mono)
  qed
qed simp

text \<open>
  C30 An accepted document is a map whose keys are distinct, not empty and without a colon or outer blanks, and
  whose values are strings, 64-bit integers, truth values, lists of these and of lists, or maps of such values
  to one level only. A \<^verbatim>\<open>ProfileParse\<close> error names one of the lines of the source.
\<close>

theorem parse_typed:
  "case parse src of Inr v \<Rightarrow> doc_ok v | Inl e \<Rightarrow> error_in 1 (length (pieces (CHR 0x0A) src)) e"
proof -
  have "state_ok \<lparr>root = [], open_map = None\<rparr>" by (simp add: state_ok_def entries_ok_Nil)
  from parse_lines_ok [OF this, of 1 "pieces (CHR 0x0A) src"] show ?thesis
    by (auto simp: parse_def doc_ok_def state_ok_def split: sum.splits)
qed

section \<open>Printing documents\<close>

fun print_inline :: "Value \<Rightarrow> string" where
  "print_inline (VStr s) = CHR 0x22 # s @ [CHR 0x22]"
| "print_inline (VInt i) = dec_int i"
| "print_inline (VBool b) = (if b then ''true'' else ''false'')"
| "print_inline (VList vs) = CHR ''['' # joined (CHR '','') (map print_inline vs) @ '']''"
| "print_inline (VMap es) = []"

definition print_entry :: "string \<times> Value \<Rightarrow> string list" where
  "print_entry e = (case snd e of
       VMap es \<Rightarrow> (fst e @ '':'') # map (\<lambda>(k, v). ''  '' @ k @ '': '' @ print_inline v) es
     | v \<Rightarrow> [fst e @ '': '' @ print_inline v])"

definition print_doc :: "(string, Value) omap \<Rightarrow> string" where
  "print_doc es = joined (CHR 0x0A) (concat (map print_entry es))"

text \<open>What can be printed: keys and strings without the characters that end them, lists of scalars.\<close>

fun scalar_printable :: "Value \<Rightarrow> bool" where
  "scalar_printable (VStr s) \<longleftrightarrow> CHR 0x22 \<notin> set s \<and> CHR 0x0A \<notin> set s"
| "scalar_printable (VInt i) \<longleftrightarrow> - (2 ^ 63) \<le> i \<and> i < 2 ^ 63"
| "scalar_printable (VBool b) = True"
| "scalar_printable v = False"

fun inline_printable :: "Value \<Rightarrow> bool" where
  "inline_printable (VList vs) = list_all (\<lambda>v. scalar_printable v \<and> CHR '','' \<notin> set (print_inline v)) vs"
| "inline_printable v = scalar_printable v"

definition key_printable :: "string \<Rightarrow> bool" where
  "key_printable k \<longleftrightarrow> key_ok k \<and> set k \<inter> {CHR 0x22, CHR ''#'', CHR 0x0A} = {}"

definition doc_printable :: "(string, Value) omap \<Rightarrow> bool" where
  "doc_printable es \<longleftrightarrow> om_inv es \<and> (\<forall>(k, v) \<in> set es. key_printable k \<and>
     (case v of VMap ns \<Rightarrow> om_inv ns \<and> (\<forall>(k', v') \<in> set ns. key_printable k' \<and> inline_printable v') | v \<Rightarrow> inline_printable v))"

lemma dropWhile_yblank_id: "s = [] \<or> \<not> yblank (hd s) \<Longrightarrow> dropWhile yblank s = s"
  by (cases s) auto

lemma strip_id: "\<not> yblank (hd s) \<Longrightarrow> \<not> yblank (last s) \<Longrightarrow> s \<noteq> [] \<Longrightarrow> strip s = s"
  by (simp add: strip_def dropWhile_yblank_id hd_rev)

lemma strip_id_iff:
  assumes "strip s = s" "s \<noteq> []"
  shows "\<not> yblank (hd s) \<and> \<not> yblank (last s)"
proof -
  have l: "\<not> yblank (last s)" using assms unfolding strip_def by (metis hd_dropWhile hd_rev rev.simps(1) rev_rev_ident)
  then have d: "dropWhile yblank s \<noteq> []" using assms(2) by auto
  then have "last (dropWhile yblank s) = last s" by (metis last_appendR takeWhile_dropWhile_id)
  then have "strip s = dropWhile yblank s" using l d by (simp only: strip_def dropWhile_yblank_id hd_rev rev_rev_ident simp_thms)
  then show ?thesis using assms l hd_dropWhile [OF d] by auto
qed

lemma strip_blank: "strip (CHR '' '' # s) = strip s"
  by (simp add: strip_def yblank_def)

text \<open>A comment is cut at the first hash outside quotes: the flag behind a text, and a text without such a hash.\<close>

definition quote_after :: "bool \<Rightarrow> string \<Rightarrow> bool" where
  "quote_after q s = (if even (length (filter (\<lambda>c. c = CHR 0x22) s)) then q else \<not> q)"

lemma strip_comment_append:
  "strip_comment q a = a \<Longrightarrow> strip_comment q (a @ b) = a @ strip_comment (quote_after q a) b"
  by (induction q a rule: strip_comment.induct) (auto simp: quote_after_def Let_def split: if_splits)

lemma strip_comment_plain: "q \<or> CHR ''#'' \<notin> set s \<Longrightarrow> CHR 0x22 \<notin> set s \<Longrightarrow> strip_comment q s = s"
  by (induction q s rule: strip_comment.induct) (auto simp: Let_def)

lemma no_quotes: "CHR 0x22 \<notin> set s \<Longrightarrow> filter (\<lambda>c. c = CHR 0x22) s = []"
  by (auto simp: filter_empty_conv)

lemma quote_after_plain: "CHR 0x22 \<notin> set s \<Longrightarrow> quote_after q s = q"
  by (simp add: quote_after_def no_quotes)

text \<open>A text that carries no comment and leaves the flag as it was.\<close>

definition closed :: "string \<Rightarrow> bool" where
  "closed s \<longleftrightarrow> strip_comment False s = s \<and> quote_after False s = False"

lemma closed_append: "closed a \<Longrightarrow> closed b \<Longrightarrow> closed (a @ b)"
  by (auto simp: closed_def strip_comment_append quote_after_def split: if_splits)

lemma closed_plain: "CHR ''#'' \<notin> set s \<Longrightarrow> CHR 0x22 \<notin> set s \<Longrightarrow> closed s"
  by (simp add: closed_def strip_comment_plain quote_after_plain)

lemma closed_string: "CHR 0x22 \<notin> set s \<Longrightarrow> closed (CHR 0x22 # s @ [CHR 0x22])"
proof -
  assume s: "CHR 0x22 \<notin> set s"
  then have "strip_comment True (s @ [CHR 0x22]) = s @ [CHR 0x22]"
    using strip_comment_append [OF strip_comment_plain [of True s]] by (simp add: quote_after_plain)
  then show ?thesis using s by (simp add: closed_def quote_after_def no_quotes)
qed

lemma closed_joined: "closed [c] \<Longrightarrow> \<forall>p \<in> set ps. closed p \<Longrightarrow> closed (joined c ps)"
proof (induction c ps rule: joined.induct)
  case (3 c p q ps)
  then have "closed ([c] @ joined c (q # ps))" by (intro closed_append) auto
  then show ?case using 3 closed_append [of p] by simp
qed (auto intro: closed_plain)

subsection \<open>Values\<close>

lemma parse_scalar_strip: "strip raw = strip raw' \<Longrightarrow> parse_scalar line raw = parse_scalar line raw'"
  by (simp only: parse_scalar.simps [of line raw] parse_scalar.simps [of line raw'])

lemma dec_int_hd: "hd (dec_int i) = CHR ''-'' \<or> isdigit (hd (dec_int i))" "dec_int i \<noteq> []"
  by (auto simp: dec_int_def hd_dec)

lemma dec_int_chars: "c \<in> set (dec_int i) \<Longrightarrow> c = CHR ''-'' \<or> isdigit c"
  using dec_isdigit by (auto simp: dec_int_def list_all_iff split: if_splits)

lemma parse_int_dec:
  assumes "- (2 ^ 63) \<le> i" "i < 2 ^ 63"
  shows "parse_int (dec_int i) = Inr (Some i)"
proof (cases "i < 0")
  case True
  then show ?thesis using assms dec_isdigit by (simp add: parse_int_def stoll_def dec_int_def decimal_dec)
next
  case False
  then have "hd (dec (nat i)) \<noteq> CHR ''-''" using hd_dec isdigit_not_blank by blast
  then show ?thesis using False assms dec_isdigit by (simp add: parse_int_def stoll_def dec_int_def decimal_dec)
qed

definition line_safe :: "string \<Rightarrow> bool" where
  "line_safe p \<longleftrightarrow> p \<noteq> [] \<and> \<not> yblank (hd p) \<and> \<not> yblank (last p) \<and> last p \<noteq> CHR 0x0D \<and> closed p \<and> CHR 0x0A \<notin> set p"

lemma line_safe_strip: "line_safe p \<Longrightarrow> strip p = p"
  by (simp add: line_safe_def strip_id)

lemma dec_int_safe: "line_safe (dec_int i)"
proof -
  have n: "set (dec_int i) \<inter> {CHR '' '', CHR 0x09, CHR 0x0A, CHR 0x0D, CHR 0x22, CHR ''#''} = {}"
    by (auto dest!: dec_int_chars simp: isdigit_def)
  moreover have "last (dec_int i) \<in> set (dec_int i)" "hd (dec_int i) \<in> set (dec_int i)" using dec_int_hd(2) by simp_all
  ultimately have "hd (dec_int i) \<notin> {CHR '' '', CHR 0x09}" "last (dec_int i) \<notin> {CHR '' '', CHR 0x09, CHR 0x0D}" by blast+
  moreover have "closed (dec_int i)" using n by (intro closed_plain) auto
  ultimately show ?thesis using n dec_int_hd(2) [of i] by (auto simp: line_safe_def yblank_def)
qed

lemma scalar_safe: "scalar_printable v \<Longrightarrow> line_safe (print_inline v)"
proof (cases v)
  case (VStr s)
  assume "scalar_printable v"
  then show ?thesis using VStr closed_string [of s] by (simp add: line_safe_def yblank_def)
next
  case (VBool b)
  then show ?thesis by (auto simp: line_safe_def yblank_def intro!: closed_plain)
qed (auto simp: dec_int_safe)

lemma parse_scalar_int: "- (2 ^ 63) \<le> i \<Longrightarrow> i < 2 ^ 63 \<Longrightarrow> parse_scalar line (dec_int i) = Inr (VInt i)"
proof -
  assume i: "- (2 ^ 63) \<le> i" "i < 2 ^ 63"
  have "hd (dec_int i) \<notin> {CHR 0x22, CHR ''['', CHR ''t'', CHR ''f''}" using dec_int_hd(1) [of i] by (auto simp: isdigit_def)
  then have "dec_int i \<noteq> ''true''" "dec_int i \<noteq> ''false''" "hd (dec_int i) \<noteq> CHR 0x22" "hd (dec_int i) \<noteq> CHR ''[''" by auto
  then have "parse_scalar line (dec_int i) = (case parse_int (dec_int i) of Inl e \<Rightarrow> Inl e | Inr (Some i) \<Rightarrow> Inr (VInt i) | Inr None \<Rightarrow> Inr (VStr (dec_int i)))"
    using line_safe_strip [OF dec_int_safe] dec_int_hd(2) by (intro parse_scalar_bare) auto
  then show ?thesis by (simp only: parse_int_dec [OF i] sum.case option.case)
qed

lemma parse_scalar_back: "scalar_printable v \<Longrightarrow> parse_scalar line (print_inline v) = Inr v"
proof (cases v)
  case (VStr s)
  assume "scalar_printable v"
  then have "strip (CHR 0x22 # s @ [CHR 0x22]) = CHR 0x22 # s @ [CHR 0x22]" by (intro strip_id) (auto simp: yblank_def)
  then show ?thesis using VStr by (simp add: parse_scalar.simps Let_def)
next
  case (VBool b)
  have "strip ''true'' = ''true''" "strip ''false'' = ''false''" by (simp_all add: strip_def yblank_def)
  then show ?thesis using VBool by (simp add: parse_scalar.simps Let_def)
qed (auto simp: parse_scalar_int)

lemma items_loop_map: "\<forall>x \<in> set xs. f (g x) = Inr x \<Longrightarrow> items_loop f (map g xs) = Inr xs"
  by (induction xs) auto

lemma list_safe: "inline_printable (VList vs) \<Longrightarrow> line_safe (print_inline (VList vs))"
proof -
  assume "inline_printable (VList vs)"
  then have "\<forall>v \<in> set vs. line_safe (print_inline v)" using scalar_safe by (auto simp: list_all_iff)
  then have v: "closed (print_inline v)" "CHR 0x0A \<notin> set (print_inline v)" if "v \<in> set vs" for v
    using that by (auto simp: line_safe_def)
  have "closed '',''" by (rule closed_plain) auto
  then have c: "closed (joined (CHR '','') (map print_inline vs))" using v(1) by (intro closed_joined) auto
  have n: "CHR 0x0A \<notin> set (joined (CHR '','') (map print_inline vs))"
    using joined_set [of "CHR '',''" "map print_inline vs"] v(2) by auto
  have "closed (''['' @ joined (CHR '','') (map print_inline vs) @ '']'')"
    using c by (intro closed_append) (auto intro: closed_plain)
  then show ?thesis using n by (simp add: line_safe_def yblank_def)
qed

lemma parse_list_back:
  assumes "inline_printable (VList vs)"
  shows "parse_scalar line (print_inline (VList vs)) = Inr (VList vs)"
proof -
  let ?p = "print_inline (VList vs)"
  have s: "strip ?p = ?p" using line_safe_strip [OF list_safe [OF assms]] .
  have vs: "scalar_printable v" "CHR '','' \<notin> set (print_inline v)" if "v \<in> set vs" for v using assms that by (auto simp: list_all_iff)
  have "list_items ?p = map print_inline vs"
  proof (cases "vs = []")
    case False
    then have "pieces (CHR '','') (joined (CHR '','') (map print_inline vs)) = map print_inline vs"
      using vs(2) by (intro pieces_joined) auto
    moreover have "strip (print_inline v) \<noteq> []" if "v \<in> set vs" for v
      using scalar_safe [OF vs(1) [OF that]] line_safe_strip by (auto simp: line_safe_def)
    ultimately show ?thesis by (simp add: list_items_def)
  qed (simp add: list_items_def strip_def)
  moreover have "items_loop (parse_scalar line) (map print_inline vs) = Inr vs" using vs(1) parse_scalar_back by (intro items_loop_map) auto
  ultimately show ?thesis using parse_scalar_list [of ?p line] s by simp
qed

lemma inline_back:
  assumes "inline_printable v"
  shows "line_safe (print_inline v) \<and> parse_scalar line (CHR '' '' # print_inline v) = Inr v"
proof -
  have "line_safe (print_inline v) \<and> parse_scalar line (print_inline v) = Inr v"
    using assms scalar_safe parse_scalar_back list_safe parse_list_back by (cases v) (auto simp del: print_inline.simps)
  then show ?thesis using parse_scalar_strip [OF strip_blank, of line "print_inline v"] by simp
qed

subsection \<open>Lines\<close>

lemma strip_Nil: "strip s = [] \<longleftrightarrow> (\<forall>c \<in> set s. yblank c)"
proof
  assume "strip s = []"
  then have "\<forall>c \<in> set (dropWhile yblank s). yblank c" by (simp add: strip_def)
  then have "dropWhile yblank s = []" by (metis hd_dropWhile hd_in_set)
  then show "\<forall>c \<in> set s. yblank c" by simp
next
  assume "\<forall>c \<in> set s. yblank c"
  then have "dropWhile yblank s = []" by simp
  then show "strip s = []" by (simp only: strip_def rev.simps dropWhile.simps)
qed

lemma key_text: "key_printable k \<Longrightarrow> strip k = k \<and> k \<noteq> [] \<and> CHR '':'' \<notin> set k \<and> hd k \<noteq> CHR '' '' \<and> hd k \<noteq> CHR 0x09"
  using strip_id_iff [of k] by (auto simp: key_printable_def key_ok_def yblank_def)

lemma parse_line_entry:
  assumes k: "key_printable k" and rest: "closed rest" "last (CHR '':'' # rest) \<noteq> CHR 0x0D" and n: "n = 0 \<or> n = 2"
  shows "parse_line lineno (replicate n (CHR '' '') @ k @ CHR '':'' # rest) st = add_entry lineno n k rest st"
proof -
  define raw where "raw = replicate n (CHR '' '') @ k @ CHR '':'' # rest"
  obtain c k' where c: "k = c # k'" "c \<noteq> CHR '' ''" "c \<noteq> CHR 0x09" using key_text [OF k] by (cases k) auto
  have "closed (replicate n (CHR '' '') @ k @ '':'' @ rest)"
    using k rest(1) by (intro closed_append) (auto intro!: closed_plain simp: key_printable_def)
  then have "strip_comment False raw = raw" by (simp add: raw_def closed_def)
  moreover have "raw \<noteq> []" "last raw \<noteq> CHR 0x0D" using rest(2) by (auto simp: raw_def split: if_splits)
  moreover have "strip raw \<noteq> []" by (simp add: strip_Nil raw_def yblank_def)
  moreover have "length (takeWhile (\<lambda>c. c = CHR '' '') raw) = n" using c by (simp add: raw_def takeWhile_append)
  moreover have "raw ! n \<noteq> CHR 0x09" using c by (simp add: raw_def nth_append)
  moreover have "drop n raw = k @ CHR '':'' # rest" by (simp add: raw_def)
  moreover have "takeWhile (\<lambda>c. c \<noteq> CHR '':'') (k @ CHR '':'' # rest) = k" "dropWhile (\<lambda>c. c \<noteq> CHR '':'') (k @ CHR '':'' # rest) = CHR '':'' # rest"
    using key_text [OF k] by (auto simp: takeWhile_append dropWhile_append)
  ultimately show ?thesis using key_text [OF k] n unfolding parse_line_def Let_def raw_def [symmetric] by auto
qed

lemma om_set_end: "\<forall>a \<in> fst ` set m. a < k \<Longrightarrow> om_set k v m = m @ [(k, v)]"
  by (induction k v m rule: om_set.induct) auto

lemma om_set_replace: "\<forall>a \<in> fst ` set m. a < k \<Longrightarrow> om_set k v (m @ [(k, w)]) = m @ [(k, v)]"
  by (induction k v m rule: om_set.induct) auto

lemma om_find_end: "\<forall>a \<in> fst ` set m. a < k \<Longrightarrow> om_find (m :: ('k::linorder, 'v) omap) k = None"
  by (auto simp: map_of_eq_None_iff)

lemma om_emplace_end: "\<forall>a \<in> fst ` set m. a < k \<Longrightarrow> om_emplace k v m = m @ [(k, v)]"
  by (simp add: om_emplace_def om_find_end om_set_end)

lemma om_inv_snoc: "om_inv (m @ (k, v) # n) \<Longrightarrow> \<forall>a \<in> fst ` set m. a < k"
  by (auto simp: om_inv_def sorted_wrt_append)

lemma parse_value_line:
  assumes "key_printable k" "inline_printable v" "\<forall>a \<in> fst ` set r. a < k"
  shows "parse_line lineno (k @ '': '' @ print_inline v) \<lparr>root = r, open_map = m\<rparr> = Inr \<lparr>root = r @ [(k, v)], open_map = None\<rparr>"
proof -
  have p: "line_safe (print_inline v)" "parse_scalar lineno (CHR '' '' # print_inline v) = Inr v" using inline_back [OF assms(2)] by auto
  then have "closed ('' '' @ print_inline v)" by (intro closed_append) (auto intro: closed_plain simp: line_safe_def)
  then have "parse_line lineno (k @ '': '' @ print_inline v) \<lparr>root = r, open_map = m\<rparr> =
      add_entry lineno 0 k (CHR '' '' # print_inline v) \<lparr>root = r, open_map = m\<rparr>"
    using parse_line_entry [OF assms(1), of "CHR '' '' # print_inline v" 0 lineno] p(1) by (auto simp: line_safe_def)
  then show ?thesis using p line_safe_strip [OF p(1)] assms(3)
    by (auto simp: add_entry_def strip_blank line_safe_def om_find_end om_emplace_end)
qed

lemma parse_nested_line:
  assumes "key_printable k" "inline_printable v" "\<forall>a \<in> fst ` set r. a < j" "\<forall>a \<in> fst ` set es. a < k"
  shows "parse_line lineno (''  '' @ k @ '': '' @ print_inline v) \<lparr>root = r @ [(j, VMap es)], open_map = Some j\<rparr> =
    Inr \<lparr>root = r @ [(j, VMap (es @ [(k, v)]))], open_map = Some j\<rparr>"
proof -
  let ?st = "\<lparr>root = r @ [(j, VMap es)], open_map = Some j\<rparr>"
  have p: "line_safe (print_inline v)" "parse_scalar lineno (CHR '' '' # print_inline v) = Inr v" using inline_back [OF assms(2)] by auto
  then have "closed ('' '' @ print_inline v)" by (intro closed_append) (auto intro: closed_plain simp: line_safe_def)
  then have "parse_line lineno (''  '' @ k @ '': '' @ print_inline v) ?st = add_entry lineno 2 k (CHR '' '' # print_inline v) ?st"
    using parse_line_entry [OF assms(1), of "CHR '' '' # print_inline v" 2 lineno] p(1) by (auto simp: line_safe_def numeral_2_eq_2)
  moreover have "nested (r @ [(j, VMap es)]) j = es" using assms(3) om_find_end [of r j] by (simp add: nested_def map_add_def)
  ultimately show ?thesis using p line_safe_strip [OF p(1)] assms(3,4)
    by (auto simp: add_entry_def strip_blank line_safe_def om_find_end om_emplace_end om_set_replace)
qed

lemma parse_header_line:
  assumes "key_printable k" "\<forall>a \<in> fst ` set r. a < k"
  shows "parse_line lineno (k @ '':'') \<lparr>root = r, open_map = m\<rparr> = Inr \<lparr>root = r @ [(k, VMap [])], open_map = Some k\<rparr>"
proof -
  have "closed []" by (rule closed_plain) auto
  then have "parse_line lineno (k @ '':'') \<lparr>root = r, open_map = m\<rparr> = add_entry lineno 0 k [] \<lparr>root = r, open_map = m\<rparr>"
    using parse_line_entry [OF assms(1), of "[]" 0 lineno] by simp
  then show ?thesis using assms(2) by (simp add: add_entry_def strip_def om_find_end om_emplace_end)
qed

subsection \<open>Documents\<close>

lemma parse_lines_append:
  "parse_lines n (a @ b) st = (case parse_lines n a st of Inl e \<Rightarrow> Inl e | Inr st' \<Rightarrow> parse_lines (n + length a) b st')"
  by (induction n a st rule: parse_lines.induct) (auto split: sum.splits)

lemma parse_nested_lines:
  assumes "\<forall>a \<in> fst ` set r. a < j" "om_inv (es @ ns)" "\<forall>(k, v) \<in> set ns. key_printable k \<and> inline_printable v"
  shows "parse_lines n (map (\<lambda>(k, v). ''  '' @ k @ '': '' @ print_inline v) ns) \<lparr>root = r @ [(j, VMap es)], open_map = Some j\<rparr> =
    Inr \<lparr>root = r @ [(j, VMap (es @ ns))], open_map = Some j\<rparr>"
  using assms
proof (induction ns arbitrary: n es)
  case (Cons e ns)
  obtain k v where e: "e = (k, v)" by (cases e)
  have "\<forall>a \<in> fst ` set es. a < k" using om_inv_snoc [of es k v ns] Cons.prems(2) by (simp add: e)
  then have "parse_line n (''  '' @ k @ '': '' @ print_inline v) \<lparr>root = r @ [(j, VMap es)], open_map = Some j\<rparr> =
      Inr \<lparr>root = r @ [(j, VMap (es @ [(k, v)]))], open_map = Some j\<rparr>"
    using Cons.prems e by (intro parse_nested_line) auto
  then show ?case using Cons.IH [of "es @ [e]" "n + 1"] Cons.prems e by simp
qed simp

lemma parse_entry_lines:
  assumes "doc_printable (r @ e # es)"
  shows "\<exists>m'. parse_lines n (print_entry e) \<lparr>root = r, open_map = m\<rparr> = Inr \<lparr>root = r @ [e], open_map = m'\<rparr>"
proof -
  obtain k v where e: "e = (k, v)" by (cases e)
  have k: "key_printable k" "\<forall>a \<in> fst ` set r. a < k"
    using assms om_inv_snoc [of r k v es] by (simp_all add: doc_printable_def e)
  show ?thesis
  proof (cases "\<exists>ns. v = VMap ns")
    case True
    then obtain ns where ns: "v = VMap ns" by blast
    then have "om_inv ns" "\<forall>(k, v) \<in> set ns. key_printable k \<and> inline_printable v" using assms by (auto simp: doc_printable_def e)
    then have "parse_lines (n + 1) (map (\<lambda>(k, v). ''  '' @ k @ '': '' @ print_inline v) ns) \<lparr>root = r @ [(k, VMap [])], open_map = Some k\<rparr> =
        Inr \<lparr>root = r @ [(k, VMap ns)], open_map = Some k\<rparr>"
      using parse_nested_lines [OF k(2), of "[]" ns] by simp
    then show ?thesis using parse_header_line [OF k] ns e by (simp add: print_entry_def)
  next
    case False
    then have "inline_printable v" using assms by (cases v) (auto simp: doc_printable_def e)
    moreover have "print_entry e = [k @ '': '' @ print_inline v]" using False by (cases v) (auto simp: print_entry_def e)
    ultimately show ?thesis using parse_value_line [OF k(1) _ k(2)] e by simp
  qed
qed

lemma parse_entries:
  "doc_printable (r @ es) \<Longrightarrow>
    \<exists>m'. parse_lines n (concat (map print_entry es)) \<lparr>root = r, open_map = m\<rparr> = Inr \<lparr>root = r @ es, open_map = m'\<rparr>"
proof (induction es arbitrary: r n m)
  case (Cons e es)
  obtain m' where "parse_lines n (print_entry e) \<lparr>root = r, open_map = m\<rparr> = Inr \<lparr>root = r @ [e], open_map = m'\<rparr>"
    using parse_entry_lines [OF Cons.prems] by blast
  then show ?case using Cons.IH [of "r @ [e]" "n + length (print_entry e)" m'] Cons.prems by (simp add: parse_lines_append)
qed simp

lemma key_no_newline: "key_printable k \<Longrightarrow> CHR 0x0A \<notin> set k"
  by (auto simp: key_printable_def)

lemma inline_no_newline: "inline_printable v \<Longrightarrow> CHR 0x0A \<notin> set (print_inline v)"
  using inline_back [of v] by (simp add: line_safe_def)

lemma print_entry_inline: "inline_printable v \<Longrightarrow> print_entry (k, v) = [k @ '': '' @ print_inline v]"
  by (cases v) (auto simp: print_entry_def)

lemma doc_printable_entry:
  assumes "doc_printable es" "(k, v) \<in> set es"
  obtains (map) ns where "key_printable k" "v = VMap ns" "\<forall>(k', v') \<in> set ns. key_printable k' \<and> inline_printable v'"
    | (inline) "key_printable k" "inline_printable v"
  using assms by (cases v) (fastforce simp: doc_printable_def)+

lemma print_entry_lines:
  assumes "doc_printable es" "e \<in> set es" "l \<in> set (print_entry e)"
  shows "CHR 0x0A \<notin> set l"
proof -
  obtain k v where e: "e = (k, v)" by (cases e)
  then have "(k, v) \<in> set es" using assms(2) by simp
  from assms(1) this show ?thesis
  proof (cases rule: doc_printable_entry)
    case (map ns)
    then have "CHR 0x0A \<notin> set (''  '' @ k' @ '': '' @ print_inline v')" if "(k', v') \<in> set ns" for k' v'
      using that inline_no_newline key_no_newline by fastforce
    then show ?thesis using assms(3) map(1,2) e key_no_newline [of k] by (auto simp: print_entry_def)
  next
    case inline
    then show ?thesis using assms(3) e inline_no_newline [of v] key_no_newline [of k] by (simp add: print_entry_inline)
  qed
qed

text \<open>
  C29 A document whose keys and strings hold none of the characters that would end them, with 64-bit integers,
  lists of scalars and maps of one level, printed line by line, is read back as it was.
\<close>

theorem parse_print:
  assumes "doc_printable es"
  shows "parse (print_doc es) = Inr (VMap es)"
proof -
  have "\<exists>m'. parse_lines 1 (pieces (CHR 0x0A) (print_doc es)) \<lparr>root = [], open_map = None\<rparr> = Inr \<lparr>root = es, open_map = m'\<rparr>"
  proof (cases "concat (map print_entry es) = []")
    case True
    moreover have "print_entry e \<noteq> []" for e by (simp add: print_entry_def split: Value.split)
    ultimately have "es = []" by (cases es) auto
    then show ?thesis by (simp add: print_doc_def parse_line_def strip_def)
  next
    case False
    then have "pieces (CHR 0x0A) (print_doc es) = concat (map print_entry es)"
      unfolding print_doc_def using print_entry_lines [OF assms] by (intro pieces_joined) auto
    then show ?thesis using parse_entries [of "[]" es 1 None] assms by simp
  qed
  then show ?thesis by (auto simp: parse_def)
qed

definition demo_doc :: "(string, Value) omap" where
  "demo_doc = [(''id'', VStr ''h100 # x''), (''limits'', VMap [(''sizes'', VList [VInt (- 8), VBool True])])]"

lemma demo_printable: "doc_printable demo_doc"
  by code_simp

theorem parse_print_witness: "parse (print_doc demo_doc) = Inr (VMap demo_doc)"
  by (rule parse_print [OF demo_printable])

text \<open>
  An integer that does not fit 64 bits leaves the parser as the library's range error and not as a
  \<^verbatim>\<open>ProfileParse\<close> error, which the interface promises for everything it does not accept.
\<close>

theorem big_integer_escapes:
  assumes "key_printable k" "2 ^ 63 \<le> n"
  shows "parse (k @ '': '' @ dec n) = Inl OutOfRange"
proof -
  have d: "dec n = dec_int (int n)" by (simp add: dec_int_def)
  have h: "hd (dec n) \<notin> {CHR ''-'', CHR 0x22, CHR ''['', CHR ''t'', CHR ''f''}" using hd_dec [of n] by (auto simp: isdigit_def)
  then have "parse_int (dec n) = Inl OutOfRange" using assms(2) dec_isdigit [of n] by (simp add: parse_int_def stoll_def decimal_dec)
  moreover have s: "line_safe (dec n)" using dec_int_safe d by simp
  ultimately have "parse_scalar 1 (CHR '' '' # dec n) = Inl OutOfRange"
    using h line_safe_strip [OF s] by (subst parse_scalar_bare [of "dec n"]) (auto simp: strip_blank line_safe_def)
  moreover have "closed ('' '' @ dec n)" using s by (intro closed_append) (auto intro: closed_plain simp: line_safe_def)
  then have "parse_line 1 (k @ '': '' @ dec n) st = add_entry 1 0 k (CHR '' '' # dec n) st" for st
    using parse_line_entry [OF assms(1), of "CHR '' '' # dec n" 0 1] s by (auto simp: line_safe_def)
  moreover have "pieces (CHR 0x0A) (k @ '': '' @ dec n) = [k @ '': '' @ dec n]"
    using key_no_newline [OF assms(1)] s by (intro pieces_one) (auto simp: line_safe_def)
  ultimately show ?thesis using line_safe_strip [OF s] by (auto simp: parse_def add_entry_def strip_blank)
qed

lemma demo_key: "key_printable ''n''"
  by code_simp

theorem big_integer_escapes_witness: "parse (''n'' @ '': '' @ dec 9223372036854775808) = Inl OutOfRange"
  using big_integer_escapes [OF demo_key, of 9223372036854775808] by simp

end
