(* ===== verification/Spec2Isabelle.thy ===== *)
theory Spec2Isabelle
  imports Device_Batch Device_Vmm Warp_Scheduler Visible_Devices Ptx_Lexer Yamlish
begin

text \<open>
  A verification library for the engine of pantheonsim, a simulator of GPUs that runs unmodified GPU programs.
  Paths below are relative to the root of the repository.

  \<^bold>\<open>The parts and how they meet.\<close>
  The centre is device memory. A \<^verbatim>\<open>MemoryManager\<close> (\<^verbatim>\<open>include/vgpu/memory.hpp\<close>,
  \<^verbatim>\<open>src/core/memory.cpp\<close>) keeps the tables of one device: allocations, reservations, mappings, physical
  handles, regions shared with other processes, freed blocks. The bytes of an allocation are in chunks that are
  made real when first written, by the backing of \<^verbatim>\<open>src/core/memory_backing.cpp\<close>, which watches what the
  host can spare and spills to a file. Kernels and copies name memory by address: an access resolves the address
  in the tables, under a lock many readers share (\<^verbatim>\<open>include/vgpu/brlock.hpp\<close>), and each thread remembers
  recent answers, which it trusts while the epoch of the lock says so. Around this stand the scheduler that says
  which warp of a block makes its accesses next, the tokenizer of the programs, the parser of the profiles that
  describe a device, and the rule that says which devices a program is shown.

  \<^bold>\<open>Which theory models what.\<close>
  \<^item> \<open>Vgpu_Prelude\<close>, \<open>Errors\<close>, \<open>Std_Map\<close>, \<open>Text_Lists\<close>: 64-bit words and the facts that take
    a wrapping test to the natural numbers; \<^verbatim>\<open>include/vgpu/error.hpp\<close> with results as sums;
    \<^verbatim>\<open>std::map\<close> as a sorted list (locale \<open>ordered_table\<close>); texts cut at a separator.
  \<^item> \<open>Host_Guard\<close>, \<open>Chunks\<close>, \<open>Backing\<close>: the figures the engine reads of its host
    (\<^verbatim>\<open>find_value\<close>, \<^verbatim>\<open>host_short\<close> and the walk over control groups), the chunk table of an
    allocation, and the sources of chunks: pool, cold list, arena, spill file. The state of the backing is the
    record \<open>bstate\<close>; the locale \<open>chunk_source\<close> is what a chunk table relies on, and the backing interprets it.
  \<^item> \<open>Quarantine\<close>: \<^verbatim>\<open>freed_\<close> and \<^verbatim>\<open>freed_order_\<close>, with the locale \<open>memory_of_frees\<close>.
  \<^item> \<open>Epoch\<close>, \<open>Br_Lock\<close>: the epochs of a lock, and its protocol as a step relation of any number of threads.
  \<^item> \<open>Address_Space\<close>, \<open>Host_Maps\<close>: the windows of the devices, and host memory a device can address.
  \<^item> \<open>Manager\<close>, \<open>Vmm\<close>, \<open>Sharing\<close>: the record \<open>mm\<close> has the members of \<^verbatim>\<open>MemoryManager\<close>, and
    \<open>alloc\<close>, \<open>free\<close>, \<open>free_all\<close>, \<open>reserve\<close>, \<open>create_handle\<close>, \<open>map_mem\<close>, \<open>unmap\<close>,
    \<open>set_access\<close>, \<open>share\<close>, \<open>adopt\<close> and the rest are the methods of those names.
  \<^item> \<open>Resolve\<close>, \<open>Lookups\<close>: \<^verbatim>\<open>resolve\<close> and a thread's memory of its lookups (\<^verbatim>\<open>find_ordinary\<close>).
  \<^item> \<open>Access\<close>, \<open>Scalar\<close>, \<open>Batch\<close>, \<open>Strided\<close>, \<open>Runs\<close>: \<^verbatim>\<open>read\<close>, \<^verbatim>\<open>write\<close>,
    \<^verbatim>\<open>fill\<close>, \<^verbatim>\<open>copy_to\<close>, \<^verbatim>\<open>load_scalar\<close>, \<^verbatim>\<open>store_scalar\<close>, the read-modify-writes,
    and the paths that serve the lanes of a warp with one lookup. Their state is a \<open>view\<close>: the manager, the
    thread that accesses, and the faults armed for it.
  \<^item> \<open>Warp_Scheduler\<close>: \<^verbatim>\<open>src/exec/scheduler.cpp\<close>; the locales \<open>warp_picker\<close> and \<open>fair_picker\<close>
    are the contract of \<^verbatim>\<open>Scheduler::pick\<close>, which the three classes interpret.
  \<^item> \<open>Ptx_Lexer\<close>: \<^verbatim>\<open>src/ptx/lexer.cpp\<close>. \<open>Yamlish\<close>: \<^verbatim>\<open>src/core/yamlish.cpp\<close>.
    \<open>Visible_Devices\<close>: \<^verbatim>\<open>src/runtime/visible_devices.cpp\<close> and the UUIDs of
    \<^verbatim>\<open>src/core/telemetry.cpp\<close>.

  \<^bold>\<open>What the lemmas show.\<close>
  \<^item> \<open>Manager_Inv\<close>, \<open>Vmm_Inv\<close>, \<open>Vmm_Maps\<close>: every operation of the manager keeps its invariant, whose
    ghost is the list of all ranges ever handed out. \<open>Manager_Run\<close> makes each call a step and \<open>View_Run\<close> puts
    calls of all threads and accesses of one thread into runs.
  \<^item> \<open>Device_Tables\<close>, over all runs: regions never overlap, accounting is exact, addresses are never reused,
    a freed block stays freed, an address resolves only inside live memory, and what a refusal says is true.
  \<^item> \<open>Device_Memory\<close>, \<open>Device_Batch\<close>, \<open>Device_Vmm\<close>, over all runs: what was written is read back and
    nothing else changes, remembered lookups are transparent, batched, strided and run accesses do what single
    accesses do, two mappings of one handle show one memory, the loops over mappings end.
  \<^item> The lock excludes writers and does not deadlock; an epoch test that passes is right; a chunk handed out is
    fresh and zero, and the backing counts what it holds.
  \<^item> Every pick of a scheduler is runnable, the deterministic and the adversarial one starve no warp, and the
    generator's rejection loop ends without bias.
  \<^item> The tokenizer returns the tokens of a grammar, and printed tokens lex to themselves; the profile parser
    accepts only documents of a given shape and reads a printed document back; a printed list of device numbers
    shows those devices.
  \<^item> Where the code does other than it says, a theorem shows it: scalar stores through a read-only mapping, a grant
    over a range that wraps, the length test of a host mapping, a UUID prefix that several devices have, an
    integer too large for the profile parser.

  \<^bold>\<open>Bounds.\<close>
  No definition takes fuel. A loop whose end is not plain from its form is a \<^theory_text>\<open>partial_function (option)\<close>
  and \<open>None\<close> is a loop that never ends, which the operations report as \<open>Hang\<close>; that it does not happen is proved.
  The runs of \<open>View_Run\<close> assume counters that have not wrapped: fewer than \<open>2\<^sup>3\<^sup>2\<close> mappings, handle numbers and
  host-map counters below \<open>2\<^sup>6\<^sup>4\<close>, a capacity of at most \<open>2\<^sup>6\<^sup>3\<close> bytes, addresses handed out in the lower half of the
  64-bit space (the device window starts far below it, and each call adds its rounded size), and that a new
  epoch, whose upper 48 bits are pseudo-random, is not one a thread still remembers. Device numbers are below 65536, which is
  what four hexadecimal digits of a UUID hold.

  \<^bold>\<open>What stands outside.\<close>
  The host's system calls are parameters (the record \<open>host_os\<close>) with hypotheses on documented behaviour only: a new
  mapping starts on a page, lies in the lower half of the address space and apart from those already there. Memory ordering of the host's atomics is sequential consistency. The texts
  of error messages are not modelled, their codes and lines are.

  \<^bold>\<open>Not modelled.\<close>
  The interpreters of PTX, SASS and AMD code, the SASS compiler and the vector kernels: hundreds of instructions,
  floating point, and machine code whose meaning is not in the repository. The PTX parser behind the tokenizer,
  with its syntax tree. Profiles, telemetry, fault injection and registers: tables of constants and files. Worker
  threads, streams, state shared through files, and the bridge to a real GPU: host facilities. The command line,
  and the vendors' libraries over the engine: input and output, numeric code, and contracts of other parties.
\<close>

end
